(* ===== verification/Prelude.thy ===== *)
theory Prelude
  imports Main "HOL-Library.Word"
begin

text \<open>
  Shared vocabulary of the development: the machine types of the C sources, the C library
  string functions the sources call (\<open>strtok_r\<close>, \<open>strstr\<close>, C-string truncation at a NUL
  byte) and generic lemmas about lists that several components use.
\<close>

unbundle bit_operations_syntax

named_theorems tok_simps \<open>the numeric values of the token kinds\<close>
named_theorems cstr_simps \<open>equations of the C library string functions\<close>

type_synonym u32 = "32 word"
type_synonym u64 = "64 word"

subsection \<open>C strings\<close>

text \<open>
  A C string is the bytes before the first NUL.  \<open>c_str\<close> is what a callee reads from a
  buffer that was filled with \<open>bs\<close> and NUL-terminated behind it.
\<close>

abbreviation nul :: char where
  "nul \<equiv> CHR 0x00"

definition c_str :: "string \<Rightarrow> string" where
  "c_str bs = takeWhile (\<lambda>c. c \<noteq> nul) bs"

lemma c_str_id [cstr_simps]: "nul \<notin> set s \<Longrightarrow> c_str s = s"
  unfolding c_str_def by (rule takeWhile_eq_all_conv [THEN iffD2]) auto

lemma of_char_lt_256: "(of_char c :: nat) < 256"
  by (metis of_char_mod_256 mod_less_divisor zero_less_numeral)

lemma nul_notin_c_str [simp]: "nul \<notin> set (c_str s)"
  by (auto simp: c_str_def dest: set_takeWhileD)

lemma strtok_rest_shorter:
  assumes "x \<in> set s" and "x \<noteq> d"
  shows "length (dropWhile (\<lambda>c. c \<noteq> d) (dropWhile (\<lambda>c. c = d) s)) < length s"
proof -
  let ?s1 = "dropWhile (\<lambda>c. c = d) s"
  have ne: "?s1 \<noteq> []"
    using assms by (auto simp: dropWhile_eq_Nil_conv)
  then have "length (dropWhile (\<lambda>c. c \<noteq> d) ?s1) < length ?s1"
    using hd_dropWhile [OF ne]
    by (cases ?s1) (auto intro: le_less_trans [OF length_dropWhile_le])
  then show ?thesis
    using length_dropWhile_le [of "\<lambda>c. c = d" s] by linarith
qed

text \<open>
  \<open>strtok_r (s, d)\<close> called until it returns NULL: the maximal non-empty runs of bytes
  other than the delimiter, left to right.
\<close>

function strtok_all :: "char \<Rightarrow> string \<Rightarrow> string list" where
  "strtok_all d s =
     (let s1 = dropWhile (\<lambda>c. c = d) s in
      if s1 = [] then []
      else takeWhile (\<lambda>c. c \<noteq> d) s1 # strtok_all d (dropWhile (\<lambda>c. c \<noteq> d) s1))"
  by pat_completeness auto
termination
  by (relation "measure (\<lambda>(d, s). length s)") (auto intro: strtok_rest_shorter)

declare strtok_all.simps [simp del]

text \<open>The unique decomposition of a string at its separators.\<close>

fun join_with :: "char \<Rightarrow> string list \<Rightarrow> string" where
  "join_with d [] = []"
| "join_with d [s] = s"
| "join_with d (s # t # r) = s @ d # join_with d (t # r)"

lemma strtok_all_Nil [cstr_simps]: "strtok_all d [] = []"
  by (simp add: strtok_all.simps)

lemma strtok_all_delim [cstr_simps]: "strtok_all d (d # s) = strtok_all d s"
  by (simp add: strtok_all.simps [of d "d # s"] strtok_all.simps [of d s])

lemma strtok_all_seg:
  assumes "t \<noteq> []" and "d \<notin> set t"
  shows "strtok_all d t = [t]"
proof -
  obtain c cs where t: "t = c # cs" "c \<noteq> d"
    using assms by (cases t) auto
  have "takeWhile (\<lambda>c. c \<noteq> d) t = t" and "dropWhile (\<lambda>c. c \<noteq> d) t = []"
    using assms(2) by (auto simp: takeWhile_eq_all_conv dropWhile_eq_Nil_conv)
  moreover have "dropWhile (\<lambda>c. c = d) t = t"
    using t by simp
  ultimately have "strtok_all d t = t # strtok_all d []"
    using assms(1) by (subst strtok_all.simps) (simp only: Let_def if_False)
  then show ?thesis
    by (simp add: cstr_simps)
qed

lemma takeWhile_append_hit:
  "d \<notin> set t \<Longrightarrow> takeWhile (\<lambda>c. c \<noteq> d) (t @ d # s) = t"
  "d \<notin> set t \<Longrightarrow> dropWhile (\<lambda>c. c \<noteq> d) (t @ d # s) = d # s"
  by (induction t) auto

lemma strtok_all_seg_append:
  assumes "t \<noteq> []" and "d \<notin> set t"
  shows "strtok_all d (t @ d # s) = t # strtok_all d s"
proof -
  obtain c cs where t: "t = c # cs" "c \<noteq> d"
    using assms by (cases t) auto
  then have dw: "dropWhile (\<lambda>c. c = d) (t @ d # s) = t @ d # s"
    by simp
  have "strtok_all d (t @ d # s) = t # strtok_all d (d # s)"
    using assms(1) takeWhile_append_hit [OF assms(2), of s]
    by (subst strtok_all.simps) (simp add: dw Let_def)
  then show ?thesis
    by (simp add: cstr_simps)
qed

lemma strtok_all_segments: "t \<in> set (strtok_all d s) \<Longrightarrow> t \<noteq> [] \<and> d \<notin> set t"
proof (induction d s rule: strtok_all.induct)
  case (1 d s)
  let ?s1 = "dropWhile (\<lambda>c. c = d) s"
  show ?case
  proof (cases "?s1 = []")
    case True
    with "1.prems" show ?thesis
      by (subst (asm) strtok_all.simps) simp
  next
    case False
    then have "takeWhile (\<lambda>c. c \<noteq> d) ?s1 \<noteq> []"
      using hd_dropWhile [OF False] by (cases ?s1) auto
    moreover have "d \<notin> set (takeWhile (\<lambda>c. c \<noteq> d) ?s1)"
      by (auto dest: set_takeWhileD)
    moreover have "t = takeWhile (\<lambda>c. c \<noteq> d) ?s1 \<or>
        t \<in> set (strtok_all d (dropWhile (\<lambda>c. c \<noteq> d) ?s1))"
      using "1.prems" by (simp only: strtok_all.simps [of d s] Let_def False if_False list.set insert_iff)
    ultimately show ?thesis
      using "1.IH" [OF refl False] by metis
  qed
qed

text \<open>Splitting what was joined gives the segments back.\<close>

lemma strtok_all_join_with:
  "(\<forall>t \<in> set ts. t \<noteq> [] \<and> d \<notin> set t) \<Longrightarrow> strtok_all d (join_with d ts) = ts"
  by (induction d ts rule: join_with.induct)
    (auto simp: cstr_simps strtok_all_seg strtok_all_seg_append)

text \<open>
  An encoder and its decoder: what decodes what it encodes loses nothing.
\<close>

locale codec =
  fixes enc :: "'a \<Rightarrow> 'b" and dec :: "'b \<Rightarrow> 'a option" and valid :: "'a \<Rightarrow> bool"
  assumes dec_enc: "valid x \<Longrightarrow> dec (enc x) = Some x"
begin

lemma enc_inj: "inj_on enc {x. valid x}"
  by (rule inj_onI) (metis dec_enc mem_Collect_eq option.inject)

lemma enc_eq_iff: "valid x \<Longrightarrow> valid y \<Longrightarrow> enc x = enc y \<longleftrightarrow> x = y"
  by (metis dec_enc option.inject)

end

subsection \<open>Lists\<close>

lemma find_Some_filter: "List.find P xs = Some x \<longleftrightarrow> (\<exists>ys. filter P xs = x # ys)"
  by (induction xs) auto

lemma find_None_all: "List.find P xs = None \<longleftrightarrow> (\<forall>x \<in> set xs. \<not> P x)"
  by (auto simp: find_None_iff)

lemma find_append:
  "List.find P (xs @ ys) = (case List.find P xs of None \<Rightarrow> List.find P ys | Some x \<Rightarrow> Some x)"
  by (induction xs) auto

lemma distinct_map_update:
  assumes "distinct (map f xs)" and "i < length xs" and "f y \<notin> f ` set xs"
  shows "distinct (map f (xs[i := y]))"
  using assms by (simp add: map_update distinct_list_update)

end
