(* ===== verification/Path_Uri.thy ===== *)
theory Path_Uri
  imports Prelude
begin

text \<open>
  Paths and URIs (\<open>src/src/pathutil.c\<close>), and the path helpers of
  \<open>compile_commands.c\<close> and \<open>workspace.c\<close>.  Allocation is assumed to succeed (the code exits
  or gives up otherwise); \<open>realpath\<close> is the C library's, a parameter.  The loops over
  indices become recursion over the rest of the string.
\<close>

subsection \<open>Percent encoding\<close>

definition isxdigit :: "char \<Rightarrow> bool" where
  "isxdigit c = (c \<in> set ''0123456789abcdefABCDEF'')"

definition hex_val :: "char \<Rightarrow> nat" where
  "hex_val c = (let n = of_char c :: nat in
     if n < 58 then n - 48 else if n < 71 then n - 55 else n - 87)"

definition hex_digit :: "nat \<Rightarrow> char" where
  "hex_digit n = ''0123456789ABCDEF'' ! n"

fun percent_decode_loop :: "string \<Rightarrow> string" where
  "percent_decode_loop [] = []"
| "percent_decode_loop (c # h1 # h2 # r) =
     (if c = CHR ''%'' \<and> isxdigit h1 \<and> isxdigit h2
      then char_of (16 * hex_val h1 + hex_val h2) # percent_decode_loop r
      else c # percent_decode_loop (h1 # h2 # r))"
| "percent_decode_loop (c # r) = c # percent_decode_loop r"

text \<open>The caller reads the decoded buffer as a C string, so an escaped NUL ends it.\<close>

definition percent_decode :: "string \<Rightarrow> string" where
  "percent_decode src = c_str (percent_decode_loop src)"

definition is_unreserved :: "char \<Rightarrow> bool" where
  "is_unreserved c = (let n = of_char c :: nat in
     c = CHR ''/'' \<or> (65 \<le> n \<and> n \<le> 90) \<or> (97 \<le> n \<and> n \<le> 122) \<or> (48 \<le> n \<and> n \<le> 57) \<or>
     c = CHR ''-'' \<or> c = CHR ''_'' \<or> c = CHR ''.'' \<or> c = CHR ''~'')"

fun percent_encode_path :: "string \<Rightarrow> string" where
  "percent_encode_path [] = []"
| "percent_encode_path (c # cs) =
     (if is_unreserved c then c # percent_encode_path cs
      else CHR ''%'' # hex_digit (of_char c div 16) # hex_digit (of_char c mod 16) #
           percent_encode_path cs)"

definition file_scheme :: string where
  "file_scheme = ''file://''"

definition uri_to_path :: "string \<Rightarrow> string option" where
  "uri_to_path uri =
     (if take 7 uri \<noteq> file_scheme then None else Some (percent_decode (drop 7 uri)))"

definition path_to_uri :: "string \<Rightarrow> string" where
  "path_to_uri path = file_scheme @ percent_encode_path path"

subsection \<open>Lexical normalisation\<close>

function lexical_loop :: "string \<Rightarrow> bool \<Rightarrow> string \<Rightarrow> string" where
  "lexical_loop rest wrote_segment out =
     (let r = dropWhile (\<lambda>c. c = CHR ''/'') rest in
      if r = [] then out
      else let seg = takeWhile (\<lambda>c. c \<noteq> CHR ''/'') r;
               rest' = dropWhile (\<lambda>c. c \<noteq> CHR ''/'') r in
        if seg = ''.'' then lexical_loop rest' wrote_segment out
        else lexical_loop rest' True (out @ (if wrote_segment then ''/'' else []) @ seg))"
  by pat_completeness auto
termination
  by (relation "measure (\<lambda>(s, w, b). length s)") (auto intro: strtok_rest_shorter)

declare lexical_loop.simps [simp del]

definition lexical_normalize_path :: "string \<Rightarrow> string" where
  "lexical_normalize_path path =
     (let absolute = (path \<noteq> [] \<and> hd path = CHR ''/'') in
      lexical_loop path False (if absolute then ''/'' else []))"

definition normalize_uri :: "(string \<Rightarrow> string option) \<Rightarrow> string \<Rightarrow> string" where
  "normalize_uri realpath raw_uri =
     (case uri_to_path raw_uri of
        None \<Rightarrow> raw_uri
      | Some path \<Rightarrow> path_to_uri (case realpath path of
                                    Some canon \<Rightarrow> canon
                                  | None \<Rightarrow> lexical_normalize_path path))"

subsection \<open>Joining and resolving paths\<close>

definition path_join :: "string \<Rightarrow> string \<Rightarrow> string" where
  "path_join a b = a @ (if a \<noteq> [] \<and> last a \<noteq> CHR ''/'' then ''/'' else []) @ b"

definition resolve_entry_path ::
  "string option \<Rightarrow> string option \<Rightarrow> string option \<Rightarrow> string option" where
  "resolve_entry_path root directory file =
     (case file of
        None \<Rightarrow> None
      | Some f \<Rightarrow>
          if f \<noteq> [] \<and> hd f = CHR ''/'' then Some f
          else (case (case directory of Some d \<Rightarrow> if d \<noteq> [] then Some d else root | None \<Rightarrow> root) of
                  None \<Rightarrow> None
                | Some base \<Rightarrow> Some (path_join base f)))"


text \<open>The last \<open>/\<close> of the includer's path ends its directory.\<close>

definition resolve_include_path :: "string \<Rightarrow> string \<Rightarrow> string" where
  "resolve_include_path includer_path filename =
     (if (filename \<noteq> [] \<and> hd filename = CHR ''/'') \<or> CHR ''/'' \<notin> set includer_path
      then filename
      else (let dir = rev (tl (dropWhile (\<lambda>c. c \<noteq> CHR ''/'') (rev includer_path))) in
            dir @ ''/'' @ filename))"

subsection \<open>Lemmas\<close>

lemma hex_val_digit_lt: "n < 16 \<Longrightarrow> hex_val (hex_digit n) = n \<and> isxdigit (hex_digit n)"
  by (simp add: less_eq_Suc_le) (force simp: eval_nat_numeral le_Suc_eq hex_digit_def hex_val_def
    isxdigit_def)

lemma percent_not_unreserved: "\<not> is_unreserved (CHR ''%'')"
  by (simp add: is_unreserved_def)

lemma hex_nibbles: "char_of (16 * (of_char c div 16 :: nat) + of_char c mod 16) = c"
  by simp

lemma percent_decode_loop_enc: "percent_decode_loop (percent_encode_path s) = s"
proof (induction s)
  case (Cons c cs)
  show ?case
  proof (cases "is_unreserved c")
    case True
    then have "c \<noteq> CHR ''%''"
      using percent_not_unreserved by auto
    then have "percent_decode_loop (c # r) = c # percent_decode_loop r" for r
      by (cases r rule: list.exhaust, simp, rename_tac x xs, case_tac xs) auto
    with True Cons.IH show ?thesis by simp
  next
    case False
    have "(of_char c :: nat) div 16 < 16"
      using of_char_lt_256 [of c] by linarith
    with False Cons.IH show ?thesis
      using hex_val_digit_lt [of "of_char c div 16"] hex_val_digit_lt [of "of_char c mod 16"]
      by (simp add: hex_nibbles)
  qed
qed simp

lemma take_path_to_uri: "take 7 (path_to_uri p) = file_scheme"
  by (simp add: path_to_uri_def file_scheme_def)

lemma uri_to_path_path_to_uri: "nul \<notin> set p \<Longrightarrow> uri_to_path (path_to_uri p) = Some p"
  by (simp add: uri_to_path_def path_to_uri_def file_scheme_def percent_decode_def
    percent_decode_loop_enc c_str_id)

interpretation uri: codec path_to_uri uri_to_path "\<lambda>p. nul \<notin> set p"
  by unfold_locales (rule uri_to_path_path_to_uri)


text \<open>The normalised path is its non-dot segments, joined.\<close>

definition path_segments :: "string \<Rightarrow> string list" where
  "path_segments p = filter (\<lambda>s. s \<noteq> ''.'') (strtok_all (CHR ''/'') p)"

lemma join_with_Cons:
  "join_with d (s # r) = s @ (if r = [] then [] else d # join_with d r)"
  by (cases r) auto

lemma lexical_loop_segments:
  "lexical_loop s w out =
     out @ (if path_segments s = [] then []
            else (if w then ''/'' else []) @ join_with (CHR ''/'') (path_segments s))"
proof (induction s w out rule: lexical_loop.induct)
  case (1 s w out)
  let ?r = "dropWhile (\<lambda>c. c = CHR ''/'') s"
  show ?case
  proof (cases "?r = []")
    case True
    then show ?thesis
      by (simp add: lexical_loop.simps [of s] path_segments_def strtok_all.simps [of _ s])
  next
    case False
    let ?seg = "takeWhile (\<lambda>c. c \<noteq> CHR ''/'') ?r" and ?rest = "dropWhile (\<lambda>c. c \<noteq> CHR ''/'') ?r"
    have tok: "strtok_all (CHR ''/'') s = ?seg # strtok_all (CHR ''/'') ?rest"
      using False by (subst strtok_all.simps) (simp only: Let_def if_False)
    have loop: "lexical_loop s w out =
        (if ?seg = ''.'' then lexical_loop ?rest w out
         else lexical_loop ?rest True (out @ (if w then ''/'' else []) @ ?seg))"
      using False by (subst lexical_loop.simps) (simp only: Let_def if_False)
    show ?thesis
    proof (cases "?seg = ''.''")
      case True
      then have "path_segments s = path_segments ?rest"
        by (simp add: path_segments_def tok)
      then show ?thesis
        using "1.IH"(1) [OF refl False refl refl True] loop [unfolded if_P [OF True]] by simp
    next
      case seg: False
      then have "path_segments s = ?seg # path_segments ?rest"
        by (simp add: path_segments_def tok)
      then show ?thesis
        using "1.IH"(2) [OF refl False refl refl seg] loop [unfolded if_not_P [OF seg]]
        by (simp add: join_with_Cons)
    qed
  qed
qed

lemma path_segments_props:
  "t \<in> set (path_segments p) \<Longrightarrow> t \<noteq> [] \<and> t \<noteq> ''.'' \<and> CHR ''/'' \<notin> set t"
  by (auto simp: path_segments_def dest: strtok_all_segments)

lemma lexical_normalize_alt:
  "lexical_normalize_path p =
     (if p \<noteq> [] \<and> hd p = CHR ''/'' then ''/'' else []) @ join_with (CHR ''/'') (path_segments p)"
  by (simp add: lexical_normalize_path_def lexical_loop_segments)

lemma filter_path_segments: "filter (\<lambda>s. s \<noteq> ''.'') (path_segments p) = path_segments p"
  by (simp add: path_segments_def)

lemma path_segments_join:
  "path_segments (join_with (CHR ''/'') (path_segments p)) = path_segments p"
proof -
  have "strtok_all (CHR ''/'') (join_with (CHR ''/'') (path_segments p)) = path_segments p"
    using path_segments_props by (intro strtok_all_join_with) blast
  then show ?thesis
    by (simp add: path_segments_def [of "join_with _ _"] filter_path_segments)
qed

lemma path_segments_slash: "path_segments (CHR ''/'' # s) = path_segments s"
  by (simp add: path_segments_def cstr_simps)

lemma join_segments_relative:
  "join_with (CHR ''/'') (path_segments p) = [] \<or> hd (join_with (CHR ''/'') (path_segments p)) \<noteq> CHR ''/''"
proof (cases "path_segments p")
  case (Cons t ts)
  then have "t \<noteq> []" "CHR ''/'' \<notin> set t"
    using path_segments_props [of t p] by auto
  with Cons show ?thesis
    by (cases t) (auto simp: join_with_Cons)
qed simp

lemma path_segments_normalize: "path_segments (lexical_normalize_path p) = path_segments p"
  by (simp add: lexical_normalize_alt path_segments_slash path_segments_join)

lemma lexical_normalize_idem_aux:
  "lexical_normalize_path (lexical_normalize_path p) = lexical_normalize_path p"
proof -
  have "lexical_normalize_path p \<noteq> [] \<and> hd (lexical_normalize_path p) = CHR ''/'' \<longleftrightarrow>
      p \<noteq> [] \<and> hd p = CHR ''/''"
    using join_segments_relative [of p] by (auto simp: lexical_normalize_alt [of p])
  then show ?thesis
    by (simp only: lexical_normalize_alt [of "lexical_normalize_path p"] path_segments_normalize)
      (simp only: lexical_normalize_alt [of p])
qed

lemma nul_notin_join_with:
  "(\<forall>t \<in> set ts. nul \<notin> set t) \<Longrightarrow> d \<noteq> nul \<Longrightarrow> nul \<notin> set (join_with d ts)"
  by (induction d ts rule: join_with.induct) auto

lemma strtok_all_chars: "t \<in> set (strtok_all d s) \<Longrightarrow> set t \<subseteq> set s"
proof (induction d s rule: strtok_all.induct)
  case (1 d s)
  let ?s1 = "dropWhile (\<lambda>c. c = d) s"
  show ?case
  proof (cases "?s1 = []")
    case True
    with "1.prems" show ?thesis
      by (subst (asm) strtok_all.simps) simp
  next
    case False
    have "t = takeWhile (\<lambda>c. c \<noteq> d) ?s1 \<or> t \<in> set (strtok_all d (dropWhile (\<lambda>c. c \<noteq> d) ?s1))"
      using "1.prems" by (simp only: strtok_all.simps [of d s] Let_def False if_False list.set insert_iff)
    moreover have "set (dropWhile (\<lambda>c. c \<noteq> d) ?s1) \<subseteq> set s"
      by (meson set_dropWhileD subsetI)
    moreover have "set (takeWhile (\<lambda>c. c \<noteq> d) ?s1) \<subseteq> set s"
      by (meson set_dropWhileD set_takeWhileD subsetI)
    ultimately show ?thesis
      using "1.IH" [OF refl False] by (metis subset_trans)
  qed
qed

lemma nul_notin_normalize: "nul \<notin> set p \<Longrightarrow> nul \<notin> set (lexical_normalize_path p)"
  unfolding lexical_normalize_alt
  using nul_notin_join_with [of "path_segments p" "CHR ''/''"]
  by (auto simp: path_segments_def dest: strtok_all_chars)

definition uri_char :: "char \<Rightarrow> bool" where
  "uri_char c = (is_unreserved c \<or> c \<in> set '':%0123456789ABCDEF'')"

lemma uri_char_hex_digit: "n < 16 \<Longrightarrow> uri_char (hex_digit n)"
  by (simp add: less_eq_Suc_le) (force simp: eval_nat_numeral le_Suc_eq hex_digit_def uri_char_def)

lemma encode_uri_chars: "list_all uri_char (percent_encode_path p)"
proof (induction p)
  case (Cons c cs)
  have "(of_char c :: nat) div 16 < 16"
    using of_char_lt_256 [of c] by linarith
  then have "uri_char (hex_digit (of_char c div 16))" "uri_char (hex_digit (of_char c mod 16))"
    by (auto intro: uri_char_hex_digit)
  with Cons show ?case
    by (auto simp: uri_char_def [of c] uri_char_def [of "CHR ''%''"])
qed simp

lemma normalize_uri_twice:
  assumes canon: "\<And>p q. realpath p = Some q \<Longrightarrow> nul \<notin> set q \<and> realpath q = Some q"
    and miss: "\<And>p. realpath p = None \<Longrightarrow> realpath (lexical_normalize_path p) = None"
  shows "normalize_uri realpath (normalize_uri realpath u) = normalize_uri realpath u"
proof (cases "uri_to_path u")
  case None
  then show ?thesis by (simp add: normalize_uri_def)
next
  case (Some p)
  have "nul \<notin> set p"
    using Some by (auto simp: uri_to_path_def percent_decode_def split: if_splits)
  then show ?thesis
    using Some canon miss nul_notin_normalize
    by (cases "realpath p")
      (simp_all add: normalize_uri_def uri_to_path_path_to_uri lexical_normalize_idem_aux)
qed

subsection \<open>Properties\<close>

text \<open>C1: A path survives the trip through its file URI, and every byte of the URI after the
  scheme is unreserved, a slash or part of a percent escape with upper-case digits.\<close>

theorem uri_path_roundtrip:
  assumes "nul \<notin> set p"
  shows "uri_to_path (path_to_uri p) = Some p \<and> list_all uri_char (path_to_uri p)"
  using uri.dec_enc [OF assms] encode_uri_chars [of p]
  by (simp add: path_to_uri_def file_scheme_def uri_char_def is_unreserved_def)

theorem uri_path_roundtrip_witness: "uri_to_path (path_to_uri ''/a b/c%.tjp'') = Some ''/a b/c%.tjp''"
  using uri_path_roundtrip [of "''/a b/c%.tjp''"] by simp

text \<open>Canonicalising a URI twice is canonicalising it once, provided \<open>realpath\<close> returns
  C strings it maps to themselves and cannot resolve the lexically cleaned form of a path it
  could not resolve.\<close>

theorem normalize_uri_idem:
  assumes "\<And>p q. realpath p = Some q \<Longrightarrow> nul \<notin> set q \<and> realpath q = Some q"
    and "\<And>p. realpath p = None \<Longrightarrow> realpath (lexical_normalize_path p) = None"
  shows "normalize_uri realpath (normalize_uri realpath u) = normalize_uri realpath u"
  using assms by (rule normalize_uri_twice)

text \<open>A directory holding \<open>a\<close> and a symbolic link \<open>l\<close> to it.\<close>

definition link_realpath :: "string \<Rightarrow> string option" where
  "link_realpath p =
     (if lexical_normalize_path p = ''/a'' \<or> lexical_normalize_path p = ''/l''
      then Some ''/a'' else None)"

theorem normalize_uri_idem_witness:
  "normalize_uri link_realpath ''file:///.//l'' = ''file:///a'' \<and>
   normalize_uri link_realpath (normalize_uri link_realpath ''file:///.//l'') =
   normalize_uri link_realpath ''file:///.//l''"
proof
  show "normalize_uri link_realpath ''file:///.//l'' = ''file:///a''"
    by code_simp
  have "lexical_normalize_path ''/a'' = ''/a''"
    by code_simp
  then show "normalize_uri link_realpath (normalize_uri link_realpath ''file:///.//l'') =
      normalize_uri link_realpath ''file:///.//l''"
    by (intro normalize_uri_idem)
      (auto simp: link_realpath_def lexical_normalize_idem_aux split: if_splits)
qed

end
