(* ===== verification/Syntax_Tree.thy ===== *)
theory Syntax_Tree
  imports Prelude
begin

text \<open>
  The data of a parse (\<open>src/src/parser.h\<close>) and the parser's own operations on it
  (\<open>src/src/parser.c\<close>): positions and ranges, token kinds, token spans, the declaration tree
  and include references.  A pointer to a node of a tree is the path to it, the child indices
  from the root, so a node's \<open>parent_node\<close> is the path without its last index; the growable
  arrays of the code are lists, and strings the arena owns are values.
\<close>

subsection \<open>Positions\<close>

datatype LspPos = LspPos (line: u32) (character: u32)

definition pos_cmp :: "LspPos \<Rightarrow> LspPos \<Rightarrow> int" where
  "pos_cmp a b =
     (if line a \<noteq> line b then (if line a < line b then -1 else 1)
      else if character a \<noteq> character b then (if character a < character b then -1 else 1)
      else 0)"

text \<open>Source order is a linear order, and \<open>pos_cmp\<close> decides it.\<close>

instantiation LspPos :: linorder
begin

definition less_eq_LspPos :: "LspPos \<Rightarrow> LspPos \<Rightarrow> bool" where
  "less_eq_LspPos a b = (line a < line b \<or> (line a = line b \<and> character a \<le> character b))"

definition less_LspPos :: "LspPos \<Rightarrow> LspPos \<Rightarrow> bool" where
  "less_LspPos a b = (line a < line b \<or> (line a = line b \<and> character a < character b))"

instance
  by standard (auto simp: less_eq_LspPos_def less_LspPos_def LspPos.expand)

end

lemma pos_cmp_less [simp]: "pos_cmp a b < 0 \<longleftrightarrow> a < b"
  by (auto simp: pos_cmp_def less_LspPos_def)

lemma pos_cmp_ge [simp]: "0 \<le> pos_cmp a b \<longleftrightarrow> b \<le> a"
  using pos_cmp_less [of a b] by (simp add: not_less [symmetric])

lemma pos_cmp_greater [simp]: "0 < pos_cmp a b \<longleftrightarrow> b < a"
  by (auto simp: pos_cmp_def less_LspPos_def not_less_iff_gr_or_eq)

lemma pos_cmp_le [simp]: "pos_cmp a b \<le> 0 \<longleftrightarrow> a \<le> b"
  using pos_cmp_greater [of a b] by (simp add: not_less [symmetric])

lemma pos_cmp_eq [simp]: "pos_cmp a b = 0 \<longleftrightarrow> a = b"
  by (auto simp: pos_cmp_def LspPos.expand)

record LspRange =
  range_start :: LspPos
  range_end :: LspPos

abbreviation in_range :: "LspPos \<Rightarrow> LspRange \<Rightarrow> bool" where
  "in_range p r \<equiv> range_start r \<le> p \<and> p < range_end r"

definition range_within :: "LspRange \<Rightarrow> LspRange \<Rightarrow> bool" where
  "range_within inner outer =
     (0 \<le> pos_cmp (range_start inner) (range_start outer) \<and>
      pos_cmp (range_end inner) (range_end outer) \<le> 0)"

subsection \<open>Token kinds\<close>

text \<open>
  The values bison gives the tokens the C code names: consecutive from 258 in the order of
  the \<open>%token\<close> declarations of \<open>grammar.y\<close>.
\<close>

definition TK_EOF :: nat where [tok_simps]: "TK_EOF = 0"
definition KW_PROJECT :: nat where [tok_simps]: "KW_PROJECT = 258"
definition KW_TASK :: nat where [tok_simps]: "KW_TASK = 259"
definition KW_RESOURCE :: nat where [tok_simps]: "KW_RESOURCE = 260"
definition KW_ACCOUNT :: nat where [tok_simps]: "KW_ACCOUNT = 261"
definition KW_SHIFT :: nat where [tok_simps]: "KW_SHIFT = 262"
definition KW_INCLUDE :: nat where [tok_simps]: "KW_INCLUDE = 264"
definition KW_SUPPLEMENT :: nat where [tok_simps]: "KW_SUPPLEMENT = 266"
definition KW_DURATION :: nat where [tok_simps]: "KW_DURATION = 268"
definition KW_LENGTH :: nat where [tok_simps]: "KW_LENGTH = 269"
definition KW_SCENARIO :: nat where [tok_simps]: "KW_SCENARIO = 296"
definition KW_SIG_END :: nat where [tok_simps]: "KW_SIG_END = 297"
definition KW_DOCS_END :: nat where [tok_simps]: "KW_DOCS_END = 298"
definition KW_EXTEND :: nat where [tok_simps]: "KW_EXTEND = 335"
definition KW_JOURNALENTRY :: nat where [tok_simps]: "KW_JOURNALENTRY = 367"
definition KW_LIMITS :: nat where [tok_simps]: "KW_LIMITS = 371"
definition KW_NAVIGATOR :: nat where [tok_simps]: "KW_NAVIGATOR = 382"
definition KW_RESOURCEREPORT :: nat where [tok_simps]: "KW_RESOURCEREPORT = 407"
definition KW_TASKREPORT :: nat where [tok_simps]: "KW_TASKREPORT = 438"
definition KW_TEXTREPORT :: nat where [tok_simps]: "KW_TEXTREPORT = 441"
definition KW_YEARLYWORKINGDAYS :: nat where [tok_simps]: "KW_YEARLYWORKINGDAYS = 459"
definition TK_IDENT :: nat where [tok_simps]: "TK_IDENT = 460"
definition TK_STR :: nat where [tok_simps]: "TK_STR = 461"
definition TK_INTEGER :: nat where [tok_simps]: "TK_INTEGER = 462"
definition TK_FLOAT :: nat where [tok_simps]: "TK_FLOAT = 463"
definition TK_DATE :: nat where [tok_simps]: "TK_DATE = 464"
definition TK_DURATION :: nat where [tok_simps]: "TK_DURATION = 465"
definition TK_LBRACE :: nat where [tok_simps]: "TK_LBRACE = 466"
definition TK_RBRACE :: nat where [tok_simps]: "TK_RBRACE = 467"
definition TK_LBRACKET :: nat where [tok_simps]: "TK_LBRACKET = 468"
definition TK_RBRACKET :: nat where [tok_simps]: "TK_RBRACKET = 469"
definition TK_BANG :: nat where [tok_simps]: "TK_BANG = 470"
definition TK_DOT :: nat where [tok_simps]: "TK_DOT = 473"
definition TK_COMMA :: nat where [tok_simps]: "TK_COMMA = 475"
definition TK_MULTI_LINE_STR :: nat where [tok_simps]: "TK_MULTI_LINE_STR = 478"
definition TK_LINE_COMMENT :: nat where [tok_simps]: "TK_LINE_COMMENT = 480"
definition TK_BLOCK_COMMENT :: nat where [tok_simps]: "TK_BLOCK_COMMENT = 481"
definition TK_EOL :: nat where [tok_simps]: "TK_EOL = 482"

record TokenSpan =
  token_kind :: nat
  tok_start :: LspPos
  tok_end :: LspPos
  tok_text :: "string option"

subsection \<open>Declarations\<close>

datatype DepKind = DEP_KIND_DEPENDS | DEP_KIND_PRECEDES

record Dependency =
  dep_kind :: DepKind
  bang_count :: nat
  dep_path :: string
  source_range :: LspRange

record tj_info =
  keyword :: nat
  node_id :: "string option"
  node_name :: "string option"
  node_range :: LspRange
  selection_range :: LspRange
  start_date :: int
  end_date :: int
  has_start :: bool
  has_end :: bool
  dependencies :: "Dependency list"

datatype tj_node = TjNode (info: tj_info) (children: "tj_node list")

type_synonym path = "nat list"

definition zero_pos :: LspPos where
  "zero_pos = LspPos 0 0"

definition zero_range :: LspRange where
  "zero_range = \<lparr> range_start = zero_pos, range_end = zero_pos \<rparr>"

definition tj_node_new :: tj_node where
  "tj_node_new = TjNode \<lparr> keyword = 0, node_id = None, node_name = None,
     node_range = zero_range, selection_range = zero_range, start_date = 0, end_date = 0,
     has_start = False, has_end = False, dependencies = [] \<rparr> []"

definition tj_node_append_child :: "tj_node \<Rightarrow> tj_node \<Rightarrow> tj_node" where
  "tj_node_append_child parent child = TjNode (info parent) (children parent @ [child])"

definition tj_node_push_dependency :: "tj_node \<Rightarrow> Dependency \<Rightarrow> tj_node" where
  "tj_node_push_dependency task dep =
     TjNode (info task \<lparr> dependencies := dependencies (info task) @ [dep] \<rparr>) (children task)"

fun node_at :: "tj_node \<Rightarrow> path \<Rightarrow> tj_node option" where
  "node_at n [] = Some n"
| "node_at n (i # p) = (if i < length (children n) then node_at (children n ! i) p else None)"

subsection \<open>Include directives\<close>

datatype prefix_kind = PREFIX_TASK | PREFIX_ACCOUNT | PREFIX_RESOURCE | PREFIX_REPORT

record prefix_set =
  task_prefix :: "string option"
  account_prefix :: "string option"
  resource_prefix :: "string option"
  report_prefix :: "string option"

definition no_prefixes :: prefix_set where
  "no_prefixes = \<lparr> task_prefix = None, account_prefix = None, resource_prefix = None,
                   report_prefix = None \<rparr>"

fun by_kind :: "prefix_set \<Rightarrow> prefix_kind \<Rightarrow> string option" where
  "by_kind ps PREFIX_TASK = task_prefix ps"
| "by_kind ps PREFIX_ACCOUNT = account_prefix ps"
| "by_kind ps PREFIX_RESOURCE = resource_prefix ps"
| "by_kind ps PREFIX_REPORT = report_prefix ps"

definition prefix_get :: "prefix_set option \<Rightarrow> prefix_kind \<Rightarrow> string option" where
  "prefix_get ps k = (case ps of None \<Rightarrow> None | Some p \<Rightarrow> by_kind p k)"

definition prefix_set_clear :: "prefix_set \<Rightarrow> prefix_set" where
  "prefix_set_clear ps = ps \<lparr> task_prefix := None, account_prefix := None,
                             resource_prefix := None, report_prefix := None \<rparr>"

definition prefix_set_copy :: "prefix_set \<Rightarrow> prefix_set option \<Rightarrow> prefix_set" where
  "prefix_set_copy dst src =
     dst \<lparr> task_prefix := prefix_get src PREFIX_TASK,
           account_prefix := prefix_get src PREFIX_ACCOUNT,
           resource_prefix := prefix_get src PREFIX_RESOURCE,
           report_prefix := prefix_get src PREFIX_REPORT \<rparr>"

record IncludeRef =
  inc_filename :: string
  inc_prefixes :: prefix_set

record ParseOutput =
  po_root :: tj_node
  po_tok_spans :: "TokenSpan list"
  po_num_sem_entries :: int
  po_tok_owners :: "path option list"
  po_includes :: "IncludeRef list"

definition push_include :: "ParseOutput \<Rightarrow> string option \<Rightarrow> prefix_set option \<Rightarrow> ParseOutput" where
  "push_include po quoted_text prefixes =
     (case quoted_text of
        None \<Rightarrow> po
      | Some q \<Rightarrow>
          (let inner = (if 2 \<le> length q \<and> (hd q = CHR 0x22 \<or> hd q = CHR 0x27)
                        then take (length q - 2) (tl q) else q) in
           po \<lparr> po_includes := po_includes po @
                 [\<lparr> inc_filename = inner,
                    inc_prefixes = prefix_set_copy no_prefixes prefixes \<rparr>] \<rparr>))"

subsection \<open>Recording tokens\<close>

definition is_sem_highlighted :: "nat \<Rightarrow> bool" where
  "is_sem_highlighted kind =
     (kind \<noteq> TK_LBRACE \<and> kind \<noteq> TK_RBRACE \<and> kind \<noteq> TK_BANG \<and> kind \<noteq> TK_DOT \<and> kind \<noteq> TK_COMMA)"

text \<open>The lexer's accumulator: \<open>g_tok_spans\<close> and \<open>g_num_sem_entries\<close>.\<close>

record lex_acc =
  g_tok_spans :: "TokenSpan list"
  g_num_sem_entries :: int

definition g_push_tok_span ::
  "nat \<Rightarrow> u32 \<Rightarrow> u32 \<Rightarrow> u32 \<Rightarrow> u32 \<Rightarrow> string option \<Rightarrow> lex_acc \<Rightarrow> lex_acc" where
  "g_push_tok_span kind sl sc el ec text g =
     g \<lparr> g_tok_spans := g_tok_spans g @
            [\<lparr> token_kind = kind, tok_start = LspPos sl sc, tok_end = LspPos el ec,
               tok_text = text \<rparr>],
         g_num_sem_entries := g_num_sem_entries g +
            (if is_sem_highlighted kind then sint (el - sl + 1) else 0) \<rparr>"

definition lex_start :: lex_acc where
  "lex_start = \<lparr> g_tok_spans = [], g_num_sem_entries = 0 \<rparr>"

end
