(* ===== verification/Tok_Owners.thy ===== *)
theory Tok_Owners
  imports Syntax_Tree
begin

text \<open>
  Token ownership (\<open>build_owner_scope\<close> and \<open>assign_token_owners\<close> of \<open>src/src/parser.c\<close>): one
  pass over the tokens with a stack of scopes.  An \<open>OwnerFrame\<close> holds the siblings still to
  visit (\<open>children + idx\<close> up to \<open>n\<close>) and the scope it belongs to.  The project block has no
  children in the parse tree; the code gives it the hoisted siblings its range spans as scope
  children when it pushes it.  Here that choice is made when the scope trees are built.
  \<open>qsort\<close> is a stable sort by start position.  The stack is listed top first.
\<close>

datatype scope_tree = ScopeNode (st_path: path) (st_range: LspRange) (st_kids: "scope_tree list")

abbreviation st_start :: "scope_tree \<Rightarrow> LspPos" where
  "st_start t \<equiv> range_start (st_range t)"

abbreviation st_end :: "scope_tree \<Rightarrow> LspPos" where
  "st_end t \<equiv> range_end (st_range t)"

fun to_scope :: "path \<Rightarrow> tj_node \<Rightarrow> scope_tree"
  and to_scopes :: "path \<Rightarrow> nat \<Rightarrow> tj_node list \<Rightarrow> scope_tree list" where
  "to_scope p (TjNode i cs) = ScopeNode p (node_range i) (to_scopes p 0 cs)"
| "to_scopes p k [] = []"
| "to_scopes p k (c # cs) = to_scope (p @ [k]) c # to_scopes p (Suc k) cs"

definition find_project :: "tj_node \<Rightarrow> nat option" where
  "find_project root =
     List.find (\<lambda>i. keyword (info (children root ! i)) = KW_PROJECT) [0..<length (children root)]"

definition build_owner_scope :: "tj_node \<Rightarrow> nat option \<Rightarrow> scope_tree list" where
  "build_owner_scope root project =
     (let decls = to_scopes [] 0 (children root) in
      case project of
        None \<Rightarrow> sort_key st_start decls
      | Some j \<Rightarrow>
          (let proj = decls ! j;
               hoisted = filter (\<lambda>t. st_path t \<noteq> [j]) decls;
               proj_kids = filter (\<lambda>t. range_within (st_range t) (st_range proj)) hoisted;
               top = filter (\<lambda>t. \<not> range_within (st_range t) (st_range proj)) hoisted in
           sort_key st_start
             (top @ [ScopeNode (st_path proj) (st_range proj) (sort_key st_start proj_kids)])))"

record OwnerFrame =
  frame_children :: "scope_tree list"
  frame_scope :: "scope_tree option"

fun pop_frames :: "LspPos \<Rightarrow> OwnerFrame list \<Rightarrow> OwnerFrame list" where
  "pop_frames pos (f # g # fs) =
     (case frame_scope f of
        None \<Rightarrow> f # g # fs
      | Some s \<Rightarrow> if 0 \<le> pos_cmp pos (st_end s) then pop_frames pos (g # fs) else f # g # fs)"
| "pop_frames pos fs = fs"

lemma size_kids_lt:
  assumes "c \<in> set ks"
  shows "size_list size (st_kids c) < size_list size ks"
proof -
  have "size_list size (st_kids c) < size c"
    by (cases c) simp
  also have "size c \<le> size_list size ks"
    using assms by (simp add: size_list_estimation')
  finally show ?thesis .
qed

lemma dropWhile_eq_Cons_set: "dropWhile P xs = y # ys \<Longrightarrow> y \<in> set xs \<and> \<not> P y"
  by (induction xs) (auto split: if_splits)

function push_frames ::
  "LspPos \<Rightarrow> scope_tree list \<Rightarrow> scope_tree option \<Rightarrow> OwnerFrame list \<Rightarrow> OwnerFrame list" where
  "push_frames pos kids scope below =
     (let rest = dropWhile (\<lambda>c. 0 \<le> pos_cmp pos (st_end c)) kids;
          frame = \<lparr> frame_children = rest, frame_scope = scope \<rparr> in
      case rest of
        [] \<Rightarrow> frame # below
      | child # _ \<Rightarrow>
          if pos_cmp pos (st_start child) < 0 then frame # below
          else push_frames pos (st_kids child) (Some child) (frame # below))"
  by pat_completeness auto

termination
  by (relation "measure (\<lambda>(pos, kids, scope, below). size_list size kids)")
    (auto intro!: size_kids_lt dest: dropWhile_eq_Cons_set [OF sym] dropWhile_eq_Cons_set)

declare push_frames.simps [simp del]

lemma push_frames_eq:
  "push_frames pos kids scope below =
     (case dropWhile (\<lambda>c. 0 \<le> pos_cmp pos (st_end c)) kids of
        [] \<Rightarrow> \<lparr> frame_children = [], frame_scope = scope \<rparr> # below
      | c # cs \<Rightarrow>
          (let frame = \<lparr> frame_children = c # cs, frame_scope = scope \<rparr> in
           if pos_cmp pos (st_start c) < 0 then frame # below
           else push_frames pos (st_kids c) (Some c) (frame # below)))"
  by (cases "dropWhile (\<lambda>c. 0 \<le> pos_cmp pos (st_end c)) kids")
    (simp_all only: push_frames.simps [of pos kids scope below] Let_def list.case)

definition step_token :: "LspPos \<Rightarrow> OwnerFrame list \<Rightarrow> OwnerFrame list" where
  "step_token pos stack =
     (case pop_frames pos stack of
        [] \<Rightarrow> []
      | f # fs \<Rightarrow> push_frames pos (frame_children f) (frame_scope f) fs)"

fun own_tokens :: "TokenSpan list \<Rightarrow> OwnerFrame list \<Rightarrow> path option list" where
  "own_tokens [] stack = []"
| "own_tokens (t # ts) stack =
     (let stack' = step_token (tok_start t) stack in
      map_option st_path (frame_scope (hd stack')) # own_tokens ts stack')"

definition assign_token_owners :: "tj_node \<Rightarrow> TokenSpan list \<Rightarrow> path option list" where
  "assign_token_owners root toks =
     own_tokens toks
       [\<lparr> frame_children = build_owner_scope root (find_project root), frame_scope = None \<rparr>]"

subsection \<open>Specification\<close>

text \<open>The innermost scope that contains a position, found from the top without any memory.\<close>

function innermost :: "LspPos \<Rightarrow> scope_tree option \<Rightarrow> scope_tree list \<Rightarrow> scope_tree option" where
  "innermost pos scope kids =
     (case List.find (\<lambda>c. in_range pos (st_range c)) kids of
        None \<Rightarrow> scope
      | Some c \<Rightarrow> innermost pos (Some c) (st_kids c))"
  by pat_completeness auto
termination
  by (relation "measure (\<lambda>(pos, scope, kids). size_list size kids)")
    (auto simp: find_Some_iff intro!: size_kids_lt)

declare innermost.simps [simp del]

fun ordered_scope :: "scope_tree \<Rightarrow> bool" where
  "ordered_scope (ScopeNode p r ks) =
     (sorted (map st_start ks) \<and>
      (\<forall>k \<in> set ks. range_end (st_range k) \<le> range_end r \<and> ordered_scope k))"

abbreviation ordered_scopes :: "scope_tree list \<Rightarrow> bool" where
  "ordered_scopes ks \<equiv> sorted (map st_start ks) \<and> (\<forall>k \<in> set ks. ordered_scope k)"

lemma ordered_kids:
  "ordered_scope c \<Longrightarrow> ordered_scopes (st_kids c) \<and> (\<forall>k \<in> set (st_kids c). st_end k \<le> st_end c)"
  by (cases c) auto

subsection \<open>The stack represents the search\<close>

definition resumes :: "LspPos \<Rightarrow> scope_tree list \<Rightarrow> scope_tree list \<Rightarrow> bool" where
  "resumes pos kids rest \<longleftrightarrow> (\<exists>dn. kids = dn @ rest \<and> (\<forall>d \<in> set dn. st_end d \<le> pos))"

lemma resumes_refl [intro]: "resumes pos ks ks"
  by (auto simp: resumes_def)

lemma resumes_dropWhile:
  "resumes p kids rest \<Longrightarrow> p \<le> pos \<Longrightarrow>
   resumes pos kids (dropWhile (\<lambda>c. 0 \<le> pos_cmp pos (st_end c)) rest)"
proof -
  let ?P = "\<lambda>c. 0 \<le> pos_cmp pos (st_end c)"
  assume "resumes p kids rest" and le: "p \<le> pos"
  then obtain dn where dn: "kids = dn @ rest" "\<forall>d \<in> set dn. st_end d \<le> p"
    by (auto simp: resumes_def)
  have "kids = (dn @ takeWhile ?P rest) @ dropWhile ?P rest"
    using dn by simp
  moreover have "\<forall>d \<in> set (dn @ takeWhile ?P rest). st_end d \<le> pos"
    using dn le by (auto dest: set_takeWhileD)
  ultimately show ?thesis
    unfolding resumes_def by blast
qed

lemma resumes_mono:
  assumes "resumes p kids rest" and "p \<le> pos"
  shows "resumes pos kids rest"
proof -
  obtain dn where "kids = dn @ rest" "\<forall>d \<in> set dn. st_end d \<le> p"
    using assms(1) by (auto simp: resumes_def)
  with assms(2) show ?thesis
    unfolding resumes_def by (intro exI [of _ dn]) auto
qed

lemma resumes_subset: "resumes p kids rest \<Longrightarrow> set rest \<subseteq> set kids"
  by (auto simp: resumes_def)

lemma resumes_sorted:
  "resumes p kids rest \<Longrightarrow> sorted (map st_start kids) \<Longrightarrow> sorted (map st_start rest)"
  by (auto simp: resumes_def sorted_append)

lemma innermost_resumes:
  assumes "resumes pos kids rest"
  shows "innermost pos scope kids = innermost pos scope rest"
proof -
  obtain dn where dn: "kids = dn @ rest" "\<forall>d \<in> set dn. st_end d \<le> pos"
    using assms by (auto simp: resumes_def)
  then have "List.find (\<lambda>c. in_range pos (st_range c)) dn = None"
    by (auto simp: find_None_iff)
  then show ?thesis
    using dn by (simp add: innermost.simps [of pos scope] find_append)
qed

fun stack_ok :: "LspPos \<Rightarrow> scope_tree list \<Rightarrow> OwnerFrame list \<Rightarrow> bool" where
  "stack_ok p tops [] = False"
| "stack_ok p tops [f] = (frame_scope f = None \<and> resumes p tops (frame_children f))"
| "stack_ok p tops (f # g # fs) =
     (stack_ok p tops (g # fs) \<and>
      (\<exists>c cs. frame_children g = c # cs \<and> frame_scope f = Some c \<and> st_start c \<le> p \<and>
              resumes p (st_kids c) (frame_children f)))"

lemma stack_ok_mono: "stack_ok p tops fs \<Longrightarrow> p \<le> pos \<Longrightarrow> stack_ok pos tops fs"
  by (induction p tops fs rule: stack_ok.induct) (auto intro: resumes_mono order_trans)

text \<open>Every child list of a good stack comes from an ordered forest.\<close>

lemma stack_ok_ordered:
  "stack_ok p tops (f # fs) \<Longrightarrow> ordered_scopes tops \<Longrightarrow>
   ordered_scopes (frame_children f) \<and>
   (\<forall>c. frame_scope f = Some c \<longrightarrow> ordered_scope c)"
proof (induction fs arbitrary: f)
  case Nil
  then show ?case
    using resumes_subset resumes_sorted by fastforce
next
  case (Cons g fs)
  obtain c cs where c: "frame_children g = c # cs" "frame_scope f = Some c"
    "resumes p (st_kids c) (frame_children f)"
    using Cons.prems(1) by auto
  have "ordered_scope c"
    using Cons.IH [of g] Cons.prems c(1) by simp
  then show ?case
    using c ordered_kids [of c] resumes_subset [OF c(3)] resumes_sorted [OF c(3)]
    by auto
qed

text \<open>Once the scope of the top frame reaches beyond the position, the search from the top of
  the forest arrives at that frame.\<close>

lemma stack_ok_search:
  "stack_ok pos tops (f # fs) \<Longrightarrow> ordered_scopes tops \<Longrightarrow>
   (\<forall>c. frame_scope f = Some c \<longrightarrow> pos < st_end c) \<Longrightarrow>
   innermost pos None tops = innermost pos (frame_scope f) (frame_children f)"
proof (induction fs arbitrary: f)
  case Nil
  then show ?case
    by (simp add: innermost_resumes)
next
  case (Cons g fs)
  obtain c cs where c: "frame_children g = c # cs" "frame_scope f = Some c" "st_start c \<le> pos"
    "resumes pos (st_kids c) (frame_children f)"
    using Cons.prems(1) by auto
  have g: "stack_ok pos tops (g # fs)"
    using Cons.prems(1) by simp
  have end_c: "pos < st_end c"
    using Cons.prems(3) c(2) by simp
  have "pos < st_end c'" if "frame_scope g = Some c'" for c'
  proof (cases fs)
    case Nil
    with g that show ?thesis by simp
  next
    case (Cons h hs)
    with g that have "resumes pos (st_kids c') (frame_children g)" by auto
    moreover have "ordered_scope c'"
      using stack_ok_ordered [OF g Cons.prems(2)] that by simp
    ultimately have "st_end c \<le> st_end c'"
      using resumes_subset ordered_kids c(1) by fastforce
    with end_c show ?thesis by order
  qed
  then have "innermost pos None tops = innermost pos (frame_scope g) (frame_children g)"
    using Cons.IH [OF g Cons.prems(2)] by simp
  also have "\<dots> = innermost pos (Some c) (st_kids c)"
    using c(1,3) end_c by (subst innermost.simps) simp
  also have "\<dots> = innermost pos (frame_scope f) (frame_children f)"
    using c(2,4) innermost_resumes by simp
  finally show ?case .
qed

lemma pop_frames_ok:
  "stack_ok pos tops fs \<Longrightarrow>
   \<exists>g gs. pop_frames pos fs = g # gs \<and> stack_ok pos tops (g # gs) \<and>
     (\<forall>c. frame_scope g = Some c \<longrightarrow> pos < st_end c)"
proof (induction pos fs rule: pop_frames.induct)
  case (1 pos f g fs)
  then show ?case
    by (auto split: option.splits simp: not_le)
qed auto

lemma push_frames_ok:
  "stack_ok pos tops (\<lparr> frame_children = kids, frame_scope = scope \<rparr> # below) \<Longrightarrow>
   ordered_scopes kids \<Longrightarrow>
   stack_ok pos tops (push_frames pos kids scope below) \<and>
   frame_scope (hd (push_frames pos kids scope below)) = innermost pos scope kids"
proof (induction pos kids scope below rule: push_frames.induct)
  case (1 pos kids scope below)
  let ?rest = "dropWhile (\<lambda>c. 0 \<le> pos_cmp pos (st_end c)) kids"
  let ?frame = "\<lparr> frame_children = ?rest, frame_scope = scope \<rparr>"
  have res: "resumes pos kids ?rest"
    using resumes_dropWhile [OF resumes_refl order_refl] .
  have ok: "stack_ok pos tops (?frame # below)"
    using "1.prems"(1) resumes_dropWhile [OF _ order_refl]
    by (cases below) fastforce+
  have ord: "ordered_scopes ?rest"
    using resumes_sorted [OF res] resumes_subset [OF res] "1.prems"(2) by blast
  have inn: "innermost pos scope kids = innermost pos scope ?rest"
    by (rule innermost_resumes [OF res])
  show ?case
  proof (cases ?rest)
    case Nil
    then show ?thesis
      using ok inn unfolding push_frames_eq [of pos kids] Nil
      by (simp add: innermost.simps [of pos scope "[]"])
  next
    case (Cons c cs)
    have c_end: "pos < st_end c"
      using dropWhile_eq_Cons_set [OF Cons] by (simp add: not_le)
    show ?thesis
    proof (cases "pos_cmp pos (st_start c) < 0")
      case True
      then have "List.find (\<lambda>c. in_range pos (st_range c)) ?rest = None"
        using ord unfolding Cons by (auto simp: find_None_iff)
      then show ?thesis
        using ok inn True unfolding push_frames_eq [of pos kids] Cons
        by (simp add: innermost.simps [of pos scope "c # cs"])
    next
      case False
      then have c_start: "st_start c \<le> pos"
        by (simp add: not_less)
      have "stack_ok pos tops (\<lparr> frame_children = st_kids c, frame_scope = Some c \<rparr> # ?frame # below)"
        using ok c_start Cons by auto
      moreover have "ordered_scopes (st_kids c)"
        using ord ordered_kids [of c] unfolding Cons by simp
      ultimately have "stack_ok pos tops (push_frames pos (st_kids c) (Some c) (?frame # below)) \<and>
          frame_scope (hd (push_frames pos (st_kids c) (Some c) (?frame # below))) =
          innermost pos (Some c) (st_kids c)"
        using "1.IH" [OF refl refl Cons False] Cons by simp
      moreover have step: "innermost pos scope ?rest = innermost pos (Some c) (st_kids c)"
        using c_start c_end Cons by (subst innermost.simps) simp
      ultimately show ?thesis
        using inn False unfolding push_frames_eq [of pos kids] Cons by (simp add: Let_def)
    qed
  qed
qed

lemma step_token_ok:
  assumes "stack_ok p tops stack" and "p \<le> pos" and ord: "ordered_scopes tops"
  shows "stack_ok pos tops (step_token pos stack) \<and>
    frame_scope (hd (step_token pos stack)) = innermost pos None tops"
proof -
  obtain g gs where g: "pop_frames pos stack = g # gs" "stack_ok pos tops (g # gs)"
    "\<forall>c. frame_scope g = Some c \<longrightarrow> pos < st_end c"
    using pop_frames_ok [OF stack_ok_mono [OF assms(1,2)]] by blast
  have "innermost pos None tops = innermost pos (frame_scope g) (frame_children g)"
    using stack_ok_search [OF g(2) ord g(3)] .
  moreover have "ordered_scopes (frame_children g)"
    using stack_ok_ordered [OF g(2) ord] by blast
  moreover have "stack_ok pos tops (\<lparr> frame_children = frame_children g,
      frame_scope = frame_scope g \<rparr> # gs)"
    using g(2) by (cases g) simp
  ultimately show ?thesis
    using push_frames_ok [of pos tops "frame_children g" "frame_scope g" gs] g(1)
    by (simp add: step_token_def)
qed

lemma own_tokens_innermost:
  "stack_ok p tops stack \<Longrightarrow> ordered_scopes tops \<Longrightarrow> sorted (map tok_start toks) \<Longrightarrow>
   (\<forall>t \<in> set toks. p \<le> tok_start t) \<Longrightarrow>
   own_tokens toks stack = map (\<lambda>t. map_option st_path (innermost (tok_start t) None tops)) toks"
proof (induction toks arbitrary: p stack)
  case (Cons t ts)
  have "p \<le> tok_start t"
    using Cons.prems(4) by simp
  note step = step_token_ok [OF Cons.prems(1) this Cons.prems(2)]
  moreover have "own_tokens ts (step_token (tok_start t) stack) =
      map (\<lambda>t. map_option st_path (innermost (tok_start t) None tops)) ts"
    using Cons.prems(2,3) step by (intro Cons.IH) auto
  ultimately show ?case
    by (simp add: Let_def)
qed simp


subsection \<open>The scopes of a parse tree\<close>

fun ordered_node :: "tj_node \<Rightarrow> bool" where
  "ordered_node (TjNode i cs) =
     (sorted (map (\<lambda>c. range_start (node_range (info c))) cs) \<and>
      (\<forall>c \<in> set cs. range_end (node_range (info c)) \<le> range_end (node_range i) \<and> ordered_node c))"

lemma st_range_to_scope [simp]: "st_range (to_scope p n) = node_range (info n)"
  by (cases n) simp

lemma st_path_to_scope [simp]: "st_path (to_scope p n) = p"
  by (cases n) simp

lemma map_start_to_scopes:
  "map st_start (to_scopes p k cs) = map (\<lambda>c. range_start (node_range (info c))) cs"
  by (induction cs arbitrary: k) auto

lemma to_scopes_members: "t \<in> set (to_scopes p k cs) \<Longrightarrow> \<exists>c \<in> set cs. \<exists>q. t = to_scope q c"
  by (induction cs arbitrary: k) auto

lemma to_scope_ordered: "ordered_node n \<Longrightarrow> ordered_scope (to_scope p n)"
proof (induction n arbitrary: p)
  case (TjNode i cs)
  have "ordered_scope t \<and> st_end t \<le> range_end (node_range i)"
    if "t \<in> set (to_scopes p 0 cs)" for t
  proof -
    have "\<exists>c \<in> set cs. \<exists>q. t = to_scope q c"
      using that by (rule to_scopes_members)
    then obtain c q where c: "c \<in> set cs" "t = to_scope q c" by blast
    then show ?thesis
      using TjNode.IH [OF c(1), of q] TjNode.prems by simp
  qed
  then show ?case
    using TjNode.prems by (simp add: map_start_to_scopes)
qed

lemma build_owner_scope_ordered:
  assumes "\<forall>c \<in> set (children root). ordered_node c"
  shows "ordered_scopes (build_owner_scope root project)"
proof -
  have "\<forall>t \<in> set (to_scopes [] 0 (children root)). ordered_scope t"
    using assms to_scopes_members to_scope_ordered by fastforce
  then show ?thesis
    by (auto simp: build_owner_scope_def Let_def range_within_def split: option.splits)
qed

subsection \<open>The innermost scope\<close>

fun subscopes :: "scope_tree \<Rightarrow> scope_tree list" where
  "subscopes (ScopeNode p r ks) = ScopeNode p r ks # concat (map subscopes ks)"

fun nested_scope :: "scope_tree \<Rightarrow> bool" where
  "nested_scope (ScopeNode p r ks) =
     (range_start r \<le> range_end r \<and>
      sorted_wrt (\<lambda>a b. st_end a \<le> st_start b) ks \<and>
      (\<forall>k \<in> set ks. range_start r \<le> st_start k \<and> st_end k \<le> range_end r \<and> nested_scope k))"

abbreviation nested_scopes :: "scope_tree list \<Rightarrow> bool" where
  "nested_scopes ks \<equiv>
     sorted_wrt (\<lambda>a b. st_end a \<le> st_start b) ks \<and> (\<forall>k \<in> set ks. nested_scope k)"

lemma nested_kids: "nested_scope c \<Longrightarrow> nested_scopes (st_kids c)"
  by (cases c) auto

lemma nested_start_end: "nested_scope c \<Longrightarrow> st_start c \<le> st_end c"
  by (cases c) auto

lemma subscopes_self: "c \<in> set (subscopes c)"
  by (cases c) auto

lemma subscopes_split: "u \<in> set (subscopes c) \<Longrightarrow> u = c \<or> (\<exists>k \<in> set (st_kids c). u \<in> set (subscopes k))"
  by (cases c) auto

lemma subscopes_kid: "k \<in> set (st_kids c) \<Longrightarrow> u \<in> set (subscopes k) \<Longrightarrow> u \<in> set (subscopes c)"
  by (cases c) auto

lemma subscopes_trans: "u \<in> set (subscopes c) \<Longrightarrow> v \<in> set (subscopes u) \<Longrightarrow> v \<in> set (subscopes c)"
  by (induction c) auto

lemma subscope_inside:
  "u \<in> set (subscopes c) \<Longrightarrow> nested_scope c \<Longrightarrow> st_start c \<le> st_start u \<and> st_end u \<le> st_end c"
proof (induction c)
  case (ScopeNode p r ks)
  show ?case
  proof (cases "u = ScopeNode p r ks")
    case False
    then obtain k where k: "k \<in> set ks" "u \<in> set (subscopes k)"
      using ScopeNode.prems(1) by auto
    have n: "nested_scope k" "range_start r \<le> st_start k" "st_end k \<le> range_end r"
      using ScopeNode.prems(2) k(1) by auto
    show ?thesis
      using ScopeNode.IH [OF k n(1)] n(2,3) by simp (meson order_trans)
  qed simp
qed

lemma nested_scopes_ordered: "nested_scopes ks \<Longrightarrow> sorted (map st_start ks)"
proof (induction ks)
  case (Cons k ks)
  then show ?case
    using nested_start_end [of k] by (auto intro: order_trans)
qed simp

lemma nested_scope_ordered: "nested_scope c \<Longrightarrow> ordered_scope c"
  by (induction c) (auto intro: nested_scopes_ordered)

lemma nested_unique:
  assumes "nested_scopes ks" and "a \<in> set ks" and "b \<in> set ks"
    and "in_range pos (st_range a)" and "in_range pos (st_range b)"
  shows "a = b"
proof -
  obtain i j where "i < length ks" "j < length ks" "a = ks ! i" "b = ks ! j"
    using assms(2,3) by (metis in_set_conv_nth)
  then show ?thesis
    using assms(1,4,5) sorted_wrt_nth_less [of "\<lambda>a b. st_end a \<le> st_start b" ks i j]
      sorted_wrt_nth_less [of "\<lambda>a b. st_end a \<le> st_start b" ks j i]
    by (cases i j rule: linorder_cases) auto
qed

text \<open>The search returns the innermost scope: it contains the position, and every scope that
  contains the position has it below.\<close>

lemma innermost_spec:
  "nested_scopes ks \<Longrightarrow>
   (\<forall>c. scope = Some c \<longrightarrow> ks = st_kids c \<and> in_range pos (st_range c)) \<Longrightarrow>
   (case innermost pos scope ks of
      None \<Rightarrow> scope = None \<and> (\<forall>k \<in> set ks. \<forall>u \<in> set (subscopes k). \<not> in_range pos (st_range u))
    | Some s \<Rightarrow>
        in_range pos (st_range s) \<and>
        ((\<exists>k \<in> set ks. s \<in> set (subscopes k)) \<or> scope = Some s) \<and>
        (\<forall>k \<in> set ks. \<forall>u \<in> set (subscopes k). in_range pos (st_range u) \<longrightarrow> s \<in> set (subscopes u)))"
proof (induction pos scope ks rule: innermost.induct)
  case (1 pos scope ks)
  have miss: "\<not> in_range pos (st_range u)"
    if "k \<in> set ks" "u \<in> set (subscopes k)" "\<not> in_range pos (st_range k)" for k u
    using subscope_inside [OF that(2)] "1.prems"(1) that(1,3)
    by (meson order_less_le_trans order_trans)
  show ?case
  proof (cases "List.find (\<lambda>c. in_range pos (st_range c)) ks")
    case None
    then have "\<forall>k \<in> set ks. \<not> in_range pos (st_range k)"
      by (simp add: find_None_iff)
    then have none: "\<forall>k \<in> set ks. \<forall>u \<in> set (subscopes k). \<not> in_range pos (st_range u)"
      using miss by blast
    show ?thesis
      using none None "1.prems"(2) innermost.simps [of pos scope ks]
      by (cases scope) auto
  next
    case (Some c)
    then have c: "c \<in> set ks" "in_range pos (st_range c)"
      by (auto simp: find_Some_iff)
    then have nest: "nested_scope c"
      using "1.prems"(1) by blast
    obtain s where s: "innermost pos (Some c) (st_kids c) = Some s"
      and spec: "in_range pos (st_range s)"
      "(\<exists>k \<in> set (st_kids c). s \<in> set (subscopes k)) \<or> c = s"
      "\<forall>k \<in> set (st_kids c). \<forall>u \<in> set (subscopes k). in_range pos (st_range u) \<longrightarrow>
         s \<in> set (subscopes u)"
      using "1.IH" [OF Some nested_kids [OF nest]] c(2)
      by (cases "innermost pos (Some c) (st_kids c)") auto
    have sub: "s \<in> set (subscopes c)"
      using spec(2) subscopes_kid subscopes_self by blast
    have "s \<in> set (subscopes u)"
      if u: "k \<in> set ks" "u \<in> set (subscopes k)" "in_range pos (st_range u)" for k u
    proof -
      have "in_range pos (st_range k)"
        using miss u by blast
      then have "k = c"
        using nested_unique "1.prems"(1) u(1) c by blast
      then show ?thesis
        using subscopes_split [of u c] u(2,3) sub spec(3) by blast
    qed
    then show ?thesis
      using Some s spec(1) sub c(1) by (auto simp: innermost.simps [of pos scope])
  qed
qed


lemma assign_token_owners_search:
  assumes "ordered_scopes (build_owner_scope root (find_project root))"
    and "sorted (map tok_start toks)"
  shows "assign_token_owners root toks =
    map (\<lambda>t. map_option st_path
               (innermost (tok_start t) None (build_owner_scope root (find_project root)))) toks"
proof (cases toks)
  case (Cons t ts)
  then show ?thesis
    unfolding assign_token_owners_def using assms
    by (intro own_tokens_innermost [of "tok_start t"]) auto
qed (simp add: assign_token_owners_def)

subsection \<open>Properties\<close>

text \<open>A document with a project block, a task nested in it with a subtask, and a task after it.\<close>

definition example_node :: "nat \<Rightarrow> string \<Rightarrow> nat \<Rightarrow> nat \<Rightarrow> tj_node list \<Rightarrow> tj_node" where
  "example_node kw i l1 l2 cs = TjNode (info tj_node_new
     \<lparr> keyword := kw, node_id := Some i,
       node_range := \<lparr> range_start = LspPos (of_nat l1) 0, range_end = LspPos (of_nat l2) 1 \<rparr> \<rparr>) cs"

definition example_root :: tj_node where
  "example_root = TjNode (info tj_node_new)
     [example_node KW_PROJECT ''p'' 0 9 [],
      example_node KW_TASK ''a'' 2 6 [example_node KW_TASK ''b'' 3 4 []],
      example_node KW_TASK ''c'' 11 12 []]"

definition example_toks :: "TokenSpan list" where
  "example_toks = map (\<lambda>l. \<lparr> token_kind = TK_IDENT, tok_start = LspPos l 0, tok_end = LspPos l 1,
                              tok_text = None \<rparr>) [0, 2, 3, 5, 8, 10, 11]"

text \<open>The single pass with the scope stack gives every token the owner that a search from
  the top of the scope forest finds for it, for tokens in source order and declarations whose
  children are in source order and end inside them.\<close>

theorem assign_token_owners_innermost:
  assumes "\<forall>c \<in> set (children root). ordered_node c" and "sorted (map tok_start toks)"
  shows "assign_token_owners root toks =
    map (\<lambda>t. map_option st_path
               (innermost (tok_start t) None (build_owner_scope root (find_project root)))) toks"
  using assms by (intro assign_token_owners_search build_owner_scope_ordered)

theorem assign_token_owners_innermost_witness:
  "assign_token_owners example_root example_toks =
     [Some [0], Some [1], Some [1, 0], Some [1], Some [0], None, Some [2]] \<and>
   assign_token_owners example_root example_toks =
     map (\<lambda>t. map_option st_path
       (innermost (tok_start t) None (build_owner_scope example_root (find_project example_root))))
     example_toks"
proof
  show "assign_token_owners example_root example_toks =
     [Some [0], Some [1], Some [1, 0], Some [1], Some [0], None, Some [2]]"
    by code_simp
  have "\<forall>c \<in> set (children example_root). ordered_node c"
    by code_simp
  moreover have "sorted (map tok_start example_toks)"
    by code_simp
  ultimately show "assign_token_owners example_root example_toks =
     map (\<lambda>t. map_option st_path
       (innermost (tok_start t) None (build_owner_scope example_root (find_project example_root))))
     example_toks"
    by (rule assign_token_owners_innermost)
qed

text \<open>In a well nested document the owner of a token is the innermost declaration around
  its start (the project block counts as the parent of what it spans): the owner contains the
  position and lies inside every declaration that contains it, and a token without owner lies
  in none.\<close>

theorem token_owner_innermost:
  assumes "nested_scopes (build_owner_scope root (find_project root))"
    and "sorted (map tok_start toks)" and "i < length toks"
  shows "case assign_token_owners root toks ! i of
      None \<Rightarrow> \<forall>k \<in> set (build_owner_scope root (find_project root)).
                \<forall>u \<in> set (subscopes k). \<not> in_range (tok_start (toks ! i)) (st_range u)
    | Some p \<Rightarrow> \<exists>s. st_path s = p \<and> in_range (tok_start (toks ! i)) (st_range s) \<and>
                (\<exists>k \<in> set (build_owner_scope root (find_project root)). s \<in> set (subscopes k)) \<and>
                (\<forall>k \<in> set (build_owner_scope root (find_project root)). \<forall>u \<in> set (subscopes k).
                   in_range (tok_start (toks ! i)) (st_range u) \<longrightarrow> s \<in> set (subscopes u))"
proof -
  let ?top = "build_owner_scope root (find_project root)"
  have "ordered_scopes ?top"
    using assms(1) nested_scopes_ordered nested_scope_ordered by blast
  then have "assign_token_owners root toks ! i =
      map_option st_path (innermost (tok_start (toks ! i)) None ?top)"
    using assign_token_owners_search assms(2,3) by simp
  then show ?thesis
    using innermost_spec [of ?top None "tok_start (toks ! i)"] assms(1)
    by (cases "innermost (tok_start (toks ! i)) None ?top") auto
qed

theorem token_owner_innermost_witness:
  "assign_token_owners example_root example_toks ! 2 = Some [1, 0] \<and>
   (\<exists>s. st_path s = [1, 0] \<and> in_range (LspPos 3 0) (st_range s))"
proof -
  have own: "assign_token_owners example_root example_toks ! 2 = Some [1, 0]"
    and pos: "tok_start (example_toks ! 2) = LspPos 3 0"
    by code_simp+
  have "nested_scopes (build_owner_scope example_root (find_project example_root))"
    by code_simp
  moreover have "sorted (map tok_start example_toks)" "2 < length example_toks"
    by code_simp+
  ultimately show ?thesis
    using token_owner_innermost [of example_root example_toks 2] unfolding own pos by auto
qed

end
