(* ===== verification/Semantic_Tokens.thy ===== *)
theory Semantic_Tokens
  imports Syntax_Tree
begin

text \<open>
  Semantic tokens (\<open>src/src/semantic_tokens.c\<close>): the classification of token kinds, the
  delta-encoded array of five \<open>uint32_t\<close> per entry, and its printing as a JSON array.  The
  flat buffer is a list of words and its running count the length of the list.
\<close>

subsection \<open>Classification\<close>

definition SEMTOK_TYPE_KEYWORD :: nat where "SEMTOK_TYPE_KEYWORD = 0"
definition SEMTOK_TYPE_COMMENT :: nat where "SEMTOK_TYPE_COMMENT = 1"
definition SEMTOK_TYPE_STRING :: nat where "SEMTOK_TYPE_STRING = 2"
definition SEMTOK_TYPE_NUMBER :: nat where "SEMTOK_TYPE_NUMBER = 3"
definition SEMTOK_TYPE_VARIABLE :: nat where "SEMTOK_TYPE_VARIABLE = 4"
definition SEMTOK_TYPE_FUNCTION :: nat where "SEMTOK_TYPE_FUNCTION = 5"

definition semantic_token_type_names :: "string list" where
  "semantic_token_type_names =
     [''keyword'', ''comment'', ''string'', ''number'', ''variable'', ''function'']"

lemmas semtok_types = SEMTOK_TYPE_KEYWORD_def SEMTOK_TYPE_COMMENT_def SEMTOK_TYPE_STRING_def
  SEMTOK_TYPE_NUMBER_def SEMTOK_TYPE_VARIABLE_def SEMTOK_TYPE_FUNCTION_def

text \<open>The type and the modifiers of a highlighted kind.\<close>

definition classify :: "nat \<Rightarrow> (nat \<times> nat) option" where
  "classify kind =
     (if kind = TK_LBRACE \<or> kind = TK_RBRACE \<or> kind = TK_BANG \<or> kind = TK_DOT \<or> kind = TK_COMMA
      then None
      else if kind = TK_LINE_COMMENT \<or> kind = TK_BLOCK_COMMENT then Some (SEMTOK_TYPE_COMMENT, 0)
      else if kind = TK_STR \<or> kind = TK_MULTI_LINE_STR then Some (SEMTOK_TYPE_STRING, 0)
      else if kind = TK_DATE \<or> kind = TK_DURATION then Some (SEMTOK_TYPE_NUMBER, 0)
      else if kind = TK_IDENT then Some (SEMTOK_TYPE_VARIABLE, 0)
      else if kind = KW_PROJECT \<or> kind = KW_TASK \<or> kind = KW_RESOURCE \<or> kind = KW_ACCOUNT \<or>
              kind = KW_SHIFT then Some (SEMTOK_TYPE_KEYWORD, 0)
      else if KW_PROJECT \<le> kind \<and> kind \<le> KW_YEARLYWORKINGDAYS then Some (SEMTOK_TYPE_FUNCTION, 0)
      else None)"

subsection \<open>Delta encoding\<close>

record sem_state =
  sem_buf :: "u32 list"
  prev_line :: u32
  prev_char :: u32

definition push_entry :: "u32 list \<Rightarrow> u32 \<Rightarrow> u32 \<Rightarrow> u32 \<Rightarrow> nat \<Rightarrow> nat \<Rightarrow> u32 list" where
  "push_entry buf delta_line delta_start len token_type modifiers =
     (if len = 0 then buf
      else buf @ [delta_line, delta_start, len, of_nat token_type, of_nat modifiers])"

definition push_relative_entry ::
  "u32 \<Rightarrow> u32 \<Rightarrow> u32 \<Rightarrow> nat \<Rightarrow> nat \<Rightarrow> sem_state \<Rightarrow> sem_state" where
  "push_relative_entry ln ch len token_type modifiers st =
     (let delta_line = ln - prev_line st;
          delta_start = (if delta_line = 0 then ch - prev_char st else ch) in
      \<lparr> sem_buf = push_entry (sem_buf st) delta_line delta_start len token_type modifiers,
        prev_line = ln, prev_char = ch \<rparr>)"

lemma unat_inc: "(a::u32) < b \<Longrightarrow> unat (a + 1) = unat a + 1"
  using unsigned_less [of b, where 'a = nat] by (simp add: unat_word_ariths word_less_nat_alt)

text \<open>The loop over the lines of a multi-line token; \<open>p\<close> is the text still to walk.\<close>

function emit_lines ::
  "string \<Rightarrow> u32 \<Rightarrow> u32 \<Rightarrow> u32 \<Rightarrow> nat \<Rightarrow> nat \<Rightarrow> sem_state \<Rightarrow> sem_state \<times> u32 \<times> u32" where
  "emit_lines p current_line current_char end_line token_type modifiers st =
     (if current_line < end_line then
        let seg = takeWhile (\<lambda>c. c \<noteq> CHR 0x0A) p;
            seg_len = of_nat (length seg) :: u32;
            st' = (if 0 < seg_len
                   then push_relative_entry current_line current_char seg_len token_type modifiers st
                   else st);
            p' = (if CHR 0x0A \<in> set p then tl (dropWhile (\<lambda>c. c \<noteq> CHR 0x0A) p) else p) in
        emit_lines p' (current_line + 1) 0 end_line token_type modifiers st'
      else (st, current_line, current_char))"
  by pat_completeness auto

termination
  by (relation "measure (\<lambda>(p, cl, cc, el, ty, md, st). unat el - unat cl)")
    (auto simp: unat_inc word_less_nat_alt)

declare emit_lines.simps [simp del]

definition emit_token :: "TokenSpan \<Rightarrow> nat \<Rightarrow> nat \<Rightarrow> sem_state \<Rightarrow> sem_state" where
  "emit_token s token_type modifiers st =
     (let start_line = line (tok_start s); start_char = character (tok_start s);
          end_line = line (tok_end s); end_char = character (tok_end s) in
      if start_line = end_line
      then push_relative_entry start_line start_char (end_char - start_char) token_type modifiers st
      else let (st', current_line, current_char) =
             emit_lines (case tok_text s of Some t \<Rightarrow> t | None \<Rightarrow> [])
               start_line start_char end_line token_type modifiers st in
           push_relative_entry current_line current_char end_char token_type modifiers st')"

definition compute_step :: "sem_state \<Rightarrow> TokenSpan \<Rightarrow> sem_state" where
  "compute_step st s =
     (case classify (token_kind s) of
        None \<Rightarrow> st
      | Some (token_type, modifiers) \<Rightarrow> emit_token s token_type modifiers st)"

definition sem_start :: sem_state where
  "sem_start = \<lparr> sem_buf = [], prev_line = 0, prev_char = 0 \<rparr>"

definition compute_semantic_tokens_data :: "TokenSpan list \<Rightarrow> u32 list" where
  "compute_semantic_tokens_data spans = sem_buf (foldl compute_step sem_start spans)"

subsection \<open>Printing\<close>

function dec_digits_rev :: "u32 \<Rightarrow> string" where
  "dec_digits_rev val =
     (if 0 < val then char_of (48 + unat (val mod 10)) # dec_digits_rev (val div 10) else [])"
  by pat_completeness auto
termination
  by (relation "measure unat") (auto simp: unat_div unat_gt_0 intro!: div_less_dividend)

declare dec_digits_rev.simps [simp del]

definition write_uint32 :: "u32 \<Rightarrow> string" where
  "write_uint32 val = (if val = 0 then ''0'' else rev (dec_digits_rev val))"

fun array_items :: "u32 list \<Rightarrow> string" where
  "array_items [] = []"
| "array_items [v] = write_uint32 v"
| "array_items (v # w # r) = write_uint32 v @ '','' @ array_items (w # r)"

definition build_uint32_array_json :: "u32 list \<Rightarrow> string" where
  "build_uint32_array_json buf = ''['' @ array_items buf @ '']''"


subsection \<open>What the client reads\<close>

text \<open>An entry with its absolute position, and the array read back as LSP prescribes.\<close>

type_synonym sem_entry = "u32 \<times> u32 \<times> u32 \<times> u32 \<times> u32"

fun encode_entries :: "u32 \<Rightarrow> u32 \<Rightarrow> sem_entry list \<Rightarrow> u32 list" where
  "encode_entries pl pc [] = []"
| "encode_entries pl pc ((l, c, n, t, m) # es) =
     [l - pl, if l - pl = 0 then c - pc else c, n, t, m] @ encode_entries l c es"

fun decode_entries :: "u32 \<Rightarrow> u32 \<Rightarrow> u32 list \<Rightarrow> sem_entry list" where
  "decode_entries pl pc (dl # ds # n # t # m # r) =
     (let l = pl + dl; c = (if dl = 0 then pc + ds else ds) in
      (l, c, n, t, m) # decode_entries l c r)"
| "decode_entries pl pc _ = []"

lemma decode_encode_entries: "decode_entries pl pc (encode_entries pl pc es) = es"
  by (induction pl pc es rule: encode_entries.induct) auto

interpretation sem: codec "encode_entries 0 0" "\<lambda>d. Some (decode_entries 0 0 d)" "\<lambda>_. True"
  by unfold_locales (simp add: decode_encode_entries)

fun split_lines :: "string \<Rightarrow> string list" where
  "split_lines [] = [[]]"
| "split_lines (c # cs) =
     (if c = CHR 0x0A then [] # split_lines cs
      else (c # hd (split_lines cs)) # tl (split_lines cs))"

fun line_entries :: "u32 \<Rightarrow> u32 \<Rightarrow> string list \<Rightarrow> u32 \<Rightarrow> (u32 \<times> u32 \<times> u32) list" where
  "line_entries l c [] ec = []"
| "line_entries l c [x] ec = [(l, c, ec)]"
| "line_entries l c (x # y # r) ec =
     (if x = [] then [] else [(l, c, of_nat (length x))]) @ line_entries (l + 1) 0 (y # r) ec"

text \<open>The entries a token stands for: one per line of its text that is not empty.\<close>

definition token_entries :: "TokenSpan \<Rightarrow> sem_entry list" where
  "token_entries s =
     (case classify (token_kind s) of
        None \<Rightarrow> []
      | Some (ty, md) \<Rightarrow>
          map (\<lambda>(l, c, n). (l, c, n, of_nat ty, of_nat md))
            (if line (tok_start s) = line (tok_end s)
             then [(line (tok_start s), character (tok_start s),
                    character (tok_end s) - character (tok_start s))]
             else line_entries (line (tok_start s)) (character (tok_start s))
                    (split_lines (case tok_text s of Some t \<Rightarrow> t | None \<Rightarrow> []))
                    (character (tok_end s))))"

text \<open>A span as the lexer records it: not empty, its text with one newline per line crossed,
  its last line not empty.\<close>

definition span_ok :: "TokenSpan \<Rightarrow> bool" where
  "span_ok s =
     (let text = (case tok_text s of Some t \<Rightarrow> t | None \<Rightarrow> []) in
      if line (tok_start s) = line (tok_end s) then character (tok_start s) \<noteq> character (tok_end s)
      else line (tok_start s) \<le> line (tok_end s) \<and> character (tok_end s) \<noteq> 0 \<and>
           length text < 2 ^ 32 \<and>
           length (split_lines text) = unat (line (tok_end s)) - unat (line (tok_start s)) + 1)"

subsection \<open>The encoder refines the entries\<close>

definition last_pos :: "sem_entry list \<Rightarrow> u32 \<times> u32" where
  "last_pos es = (if es = [] then (0, 0) else (fst (last es), fst (snd (last es))))"

definition sem_inv :: "sem_state \<Rightarrow> sem_entry list \<Rightarrow> bool" where
  "sem_inv st es \<longleftrightarrow>
     sem_buf st = encode_entries 0 0 es \<and> (prev_line st, prev_char st) = last_pos es"

lemma encode_entries_snoc:
  "encode_entries pl pc (es @ [e]) =
     encode_entries pl pc es @
     (if es = [] then encode_entries pl pc [e]
      else encode_entries (fst (last es)) (fst (snd (last es))) [e])"
  by (induction pl pc es rule: encode_entries.induct) (auto split: prod.splits)

lemma push_relative_inv:
  assumes "sem_inv st es" and "len \<noteq> 0"
  shows "sem_inv (push_relative_entry l c len ty md st) (es @ [(l, c, len, of_nat ty, of_nat md)])"
  using assms
  by (auto simp: sem_inv_def push_relative_entry_def push_entry_def encode_entries_snoc last_pos_def
      Let_def split: if_splits)

lemma split_lines_ne: "split_lines s \<noteq> []"
  by (cases s) auto

lemma split_lines_unfold:
  "split_lines p =
     (if CHR 0x0A \<in> set p
      then takeWhile (\<lambda>c. c \<noteq> CHR 0x0A) p # split_lines (tl (dropWhile (\<lambda>c. c \<noteq> CHR 0x0A) p))
      else [p])"
  by (induction p) (auto split: if_splits)

lemma unat_of_nat_length: "length s < 2 ^ 32 \<Longrightarrow> (of_nat (length s) :: u32) = 0 \<longleftrightarrow> s = []"
  using dvd_imp_le [of "2 ^ 32" "length s"] by (auto simp: word_of_nat_eq_0_iff)

lemma emit_lines_inv:
  "sem_inv st es \<Longrightarrow> cl \<le> el \<Longrightarrow> length p < 2 ^ 32 \<Longrightarrow> ec \<noteq> 0 \<Longrightarrow>
   length (split_lines p) = unat el - unat cl + 1 \<Longrightarrow>
   case emit_lines p cl cc el ty md st of (st', l', c') \<Rightarrow>
     sem_inv (push_relative_entry l' c' ec ty md st')
       (es @ map (\<lambda>(l, c, n). (l, c, n, of_nat ty, of_nat md)) (line_entries cl cc (split_lines p) ec))"
proof (induction p cl cc el ty md st arbitrary: es rule: emit_lines.induct)
  case (1 p cl cc el ty md st)
  show ?case
  proof (cases "cl < el")
    case False
    then have "unat el - unat cl = 0"
      by (simp add: word_less_nat_alt)
    then have "length (split_lines p) = 1"
      using "1.prems"(5) by simp
    then obtain x where "split_lines p = [x]"
      by (auto simp: length_Suc_conv)
    then show ?thesis
      using False push_relative_inv [OF "1.prems"(1,4)] by (simp add: emit_lines.simps [of p])
  next
    case True
    let ?seg = "takeWhile (\<lambda>c. c \<noteq> CHR 0x0A) p"
    let ?p' = "tl (dropWhile (\<lambda>c. c \<noteq> CHR 0x0A) p)"
    let ?st' = "if 0 < (of_nat (length ?seg) :: u32)
      then push_relative_entry cl cc (of_nat (length ?seg)) ty md st else st"
    let ?es' = "es @ (if ?seg = [] then [] else [(cl, cc, of_nat (length ?seg), of_nat ty, of_nat md)])"
    have more: "CHR 0x0A \<in> set p"
    proof (rule ccontr)
      assume "CHR 0x0A \<notin> set p"
      then show False
        using "1.prems"(5) True split_lines_unfold [of p] by (simp add: word_less_nat_alt)
    qed
    then have split: "split_lines p = ?seg # split_lines ?p'"
      using split_lines_unfold [of p] by simp
    have seg0: "(of_nat (length ?seg) :: u32) = 0 \<longleftrightarrow> ?seg = []"
      by (rule unat_of_nat_length [OF le_less_trans [OF length_takeWhile_le "1.prems"(3)]])
    then have inv: "sem_inv ?st' ?es'"
      using push_relative_inv [OF "1.prems"(1), of "of_nat (length ?seg)"] "1.prems"(1)
      by (auto simp: word_gt_0)
    have len: "length ?p' < 2 ^ 32"
      using length_dropWhile_le [of "\<lambda>c. c \<noteq> CHR 0x0A" p] "1.prems"(3) by simp
    have succ: "unat (cl + 1) = unat cl + 1"
      using unat_inc [OF True] .
    then have lines: "length (split_lines ?p') = unat el - unat (cl + 1) + 1" and le: "cl + 1 \<le> el"
      using "1.prems"(5) split True by (auto simp: word_less_nat_alt word_le_nat_alt)
    have rest: "line_entries cl cc (split_lines p) ec =
        (if ?seg = [] then [] else [(cl, cc, of_nat (length ?seg))]) @
        line_entries (cl + 1) 0 (split_lines ?p') ec"
      using split split_lines_ne [of ?p'] by (cases "split_lines ?p'") auto
    have step: "emit_lines p cl cc el ty md st = emit_lines ?p' (cl + 1) 0 el ty md ?st'"
      using True more by (subst emit_lines.simps) (simp add: Let_def)
    show ?thesis
      using "1.IH" [OF True refl refl refl refl, of ?es'] inv le len "1.prems"(4) lines more
      unfolding step rest by (simp split: prod.splits if_splits)
  qed
qed

lemma emit_token_inv:
  assumes "sem_inv st es" and "span_ok s" and "classify (token_kind s) = Some (ty, md)"
  shows "sem_inv (emit_token s ty md st) (es @ token_entries s)"
proof (cases "line (tok_start s) = line (tok_end s)")
  case True
  then show ?thesis
    using assms push_relative_inv [of st es "character (tok_end s) - character (tok_start s)"]
    by (auto simp: emit_token_def token_entries_def span_ok_def Let_def)
next
  case False
  then show ?thesis
    using assms emit_lines_inv [of st es "line (tok_start s)" "line (tok_end s)"
        "case tok_text s of Some t \<Rightarrow> t | None \<Rightarrow> []" "character (tok_end s)" ty md
        "character (tok_start s)"]
    unfolding emit_token_def token_entries_def span_ok_def Let_def
    by (simp split: prod.splits)
qed

lemma compute_inv:
  "sem_inv st es \<Longrightarrow> \<forall>s \<in> set spans. classify (token_kind s) \<noteq> None \<longrightarrow> span_ok s \<Longrightarrow>
   sem_inv (foldl compute_step st spans) (es @ concat (map token_entries spans))"
proof (induction spans arbitrary: st es)
  case (Cons s spans)
  have "sem_inv (compute_step st s) (es @ token_entries s)"
  proof (cases "classify (token_kind s)")
    case None
    then show ?thesis
      using Cons.prems(1) by (simp add: compute_step_def token_entries_def)
  next
    case (Some tm)
    then show ?thesis
      using Cons.prems emit_token_inv [of st es s "fst tm" "snd tm"]
      by (cases tm) (simp add: compute_step_def)
  qed
  then show ?case
    using Cons.IH [of "compute_step st s" "es @ token_entries s"] Cons.prems(2) by simp
qed simp


subsection \<open>The buffer allocated by the lexer's count\<close>

lemma push_relative_length:
  "length (sem_buf (push_relative_entry l c n ty md st)) \<le> length (sem_buf st) + 5"
  by (simp add: push_relative_entry_def push_entry_def Let_def)

lemma emit_lines_length:
  "length (sem_buf (fst (emit_lines p cl cc el ty md st))) \<le>
     length (sem_buf st) + 5 * (unat el - unat cl)"
proof (induction p cl cc el ty md st rule: emit_lines.induct)
  case (1 p cl cc el ty md st)
  let ?seg = "takeWhile (\<lambda>c. c \<noteq> CHR 0x0A) p"
  let ?st' = "if 0 < (of_nat (length ?seg) :: u32)
      then push_relative_entry cl cc (of_nat (length ?seg)) ty md st else st"
  show ?case
  proof (cases "cl < el")
    case True
    have "length (sem_buf ?st') \<le> length (sem_buf st) + 5"
      using push_relative_length by simp
    then show ?thesis
      using "1.IH" [OF True refl refl refl refl] unat_inc [OF True] True
      by (subst emit_lines.simps) (simp add: Let_def word_less_nat_alt)
  qed (simp add: emit_lines.simps [of p])
qed

lemma emit_token_length:
  "length (sem_buf (emit_token s ty md st)) \<le>
     length (sem_buf st) + 5 * (unat (line (tok_end s)) - unat (line (tok_start s)) + 1)"
proof (cases "line (tok_start s) = line (tok_end s)")
  case True
  then show ?thesis
    using push_relative_length by (simp add: emit_token_def Let_def)
next
  case False
  obtain st' l c where e: "emit_lines (case tok_text s of Some t \<Rightarrow> t | None \<Rightarrow> [])
      (line (tok_start s)) (character (tok_start s)) (line (tok_end s)) ty md st = (st', l, c)"
    by (metis surj_pair)
  then have "length (sem_buf st') \<le>
      length (sem_buf st) + 5 * (unat (line (tok_end s)) - unat (line (tok_start s)))"
    using emit_lines_length by (metis fst_conv)
  then show ?thesis
    using push_relative_length [of l c "character (tok_end s)" ty md st'] False e
    by (simp add: emit_token_def Let_def)
qed

lemma classify_highlighted: "classify kind \<noteq> None \<Longrightarrow> is_sem_highlighted kind"
  by (auto simp: classify_def is_sem_highlighted_def)

definition push_span :: "lex_acc \<Rightarrow> TokenSpan \<Rightarrow> lex_acc" where
  "push_span g t = g_push_tok_span (token_kind t) (line (tok_start t)) (character (tok_start t))
     (line (tok_end t)) (character (tok_end t)) (tok_text t) g"

definition lines_fit :: "TokenSpan \<Rightarrow> bool" where
  "lines_fit t = (line (tok_start t) \<le> line (tok_end t) \<and>
                  unat (line (tok_end t)) - unat (line (tok_start t)) + 1 < 2 ^ 31)"

lemma push_span_fields:
  assumes "lines_fit t"
  shows "g_tok_spans (push_span g t) = g_tok_spans g @ [t]"
    and "g_num_sem_entries (push_span g t) = g_num_sem_entries g +
      (if is_sem_highlighted (token_kind t)
       then int (unat (line (tok_end t)) - unat (line (tok_start t)) + 1) else 0)"
proof -
  let ?sl = "line (tok_start t)" and ?el = "line (tok_end t)"
  have le: "unat ?sl \<le> unat ?el" and fit: "unat ?el - unat ?sl + 1 < 2 ^ 31"
    using assms by (auto simp: lines_fit_def word_le_nat_alt)
  have "unat (?el - ?sl + 1) = unat ?el - unat ?sl + 1"
    using le fit by (simp add: unat_word_ariths unat_sub word_le_nat_alt)
  moreover have "uint (?el - ?sl + 1) = int (unat (?el - ?sl + 1))"
    by simp
  ultimately have "sint (?el - ?sl + 1) = int (unat ?el - unat ?sl + 1)"
    using fit by (subst sint_uint) (simp only: signed_take_bit_int_eq_self_iff, simp)
  then show "g_num_sem_entries (push_span g t) = g_num_sem_entries g +
      (if is_sem_highlighted (token_kind t)
       then int (unat (line (tok_end t)) - unat (line (tok_start t)) + 1) else 0)"
    by (simp add: push_span_def g_push_tok_span_def)
  show "g_tok_spans (push_span g t) = g_tok_spans g @ [t]"
    by (cases t, cases "tok_start t", cases "tok_end t")
      (simp add: push_span_def g_push_tok_span_def)
qed

lemma compute_step_length:
  assumes "lines_fit t"
  shows "int (length (sem_buf (compute_step st t))) \<le> int (length (sem_buf st)) +
    5 * (g_num_sem_entries (push_span g t) - g_num_sem_entries g)"
proof (cases "classify (token_kind t)")
  case None
  then show ?thesis
    by (simp add: compute_step_def push_span_fields(2) [OF assms])
next
  case (Some tm)
  then have "is_sem_highlighted (token_kind t)"
    using classify_highlighted [of "token_kind t"] by simp
  then show ?thesis
    using Some emit_token_length [of t "fst tm" "snd tm" st] assms
    by (cases tm) (simp add: compute_step_def push_span_fields(2))
qed

lemma compute_length:
  "\<forall>t \<in> set ts. lines_fit t \<Longrightarrow>
   g_tok_spans (foldl push_span g ts) = g_tok_spans g @ ts \<and>
   int (length (sem_buf (foldl compute_step st ts))) \<le> int (length (sem_buf st)) +
     5 * (g_num_sem_entries (foldl push_span g ts) - g_num_sem_entries g)"
proof (induction ts arbitrary: g st)
  case (Cons t ts)
  then show ?case
    using compute_step_length [of t st g] push_span_fields(1) [of t g]
      Cons.IH [of "push_span g t" "compute_step st t"] by fastforce
qed simp

subsection \<open>Reading the printed array\<close>

definition dec_value :: "string \<Rightarrow> nat" where
  "dec_value s = foldl (\<lambda>n c. 10 * n + (of_char c - 48)) 0 s"

definition parse_uint32_array :: "string \<Rightarrow> u32 list" where
  "parse_uint32_array s = map (\<lambda>t. of_nat (dec_value t)) (strtok_all (CHR '','') (butlast (tl s)))"

lemma dec_value_snoc: "dec_value (s @ [c]) = 10 * dec_value s + (of_char c - 48)"
  by (simp add: dec_value_def)

lemma dec_digits_zero [simp]: "dec_digits_rev 0 = []"
  by (subst dec_digits_rev.simps) simp

lemma dec_digits_value: "dec_value (rev (dec_digits_rev v)) = unat v"
proof (induction v rule: dec_digits_rev.induct)
  case (1 v)
  show ?case
  proof (cases "0 < v")
    case True
    have "unat (v mod 10) < 10"
      by (simp add: unat_mod)
    then have "dec_value (rev (dec_digits_rev v)) = 10 * unat (v div 10) + unat (v mod 10)"
      using True 1 by (subst dec_digits_rev.simps) (simp add: dec_value_snoc)
    then show ?thesis
      by (simp add: unat_div unat_mod)
  qed (simp add: dec_value_def word_gt_0)
qed

definition is_digit :: "char \<Rightarrow> bool" where
  "is_digit c = (48 \<le> (of_char c :: nat) \<and> (of_char c :: nat) \<le> 57)"

lemma digit_char: "n < 10 \<Longrightarrow> is_digit (char_of (48 + n :: nat))"
  by (simp add: is_digit_def)

lemma dec_digits_are: "list_all is_digit (dec_digits_rev v)"
proof (induction v rule: dec_digits_rev.induct)
  case (1 v)
  have "unat (v mod 10) < 10"
    by (simp add: unat_mod)
  then show ?case
    using 1 by (subst dec_digits_rev.simps) (simp add: digit_char)
qed

lemma write_uint32_digits: "list_all is_digit (write_uint32 v)"
  using dec_digits_are [of v] by (simp add: write_uint32_def list_all_rev) (simp add: is_digit_def)

lemma digit_no_comma: "n < 10 \<Longrightarrow> char_of (48 + n :: nat) \<noteq> CHR '',''"
proof
  assume "n < 10" and "char_of (48 + n :: nat) = CHR '',''"
  then have "of_char (char_of (48 + n :: nat)) = (44 :: nat)" by simp
  with \<open>n < 10\<close> show False by simp
qed

lemma dec_digits_no_comma: "CHR '','' \<notin> set (dec_digits_rev v)"
proof (induction v rule: dec_digits_rev.induct)
  case (1 v)
  have "unat (v mod 10) < 10"
    by (simp add: unat_mod)
  then have "char_of (48 + unat (v mod 10)) \<noteq> CHR '',''"
    by (rule digit_no_comma)
  with 1 show ?case
    by (subst dec_digits_rev.simps) simp
qed

lemma dec_digits_length: "unat v < 10 ^ k \<Longrightarrow> length (dec_digits_rev v) \<le> k"
proof (induction k arbitrary: v)
  case 0
  then have "v = 0" by (simp add: unat_eq_0)
  then show ?case by (simp add: dec_digits_rev.simps)
next
  case (Suc k)
  then have "length (dec_digits_rev (v div 10)) \<le> k"
    by (intro Suc.IH) (simp add: unat_div)
  then show ?case
    by (subst dec_digits_rev.simps) simp
qed

lemma write_uint32_seg: "write_uint32 v \<noteq> [] \<and> CHR '','' \<notin> set (write_uint32 v)"
proof (cases "v = 0")
  case False
  then have "dec_digits_rev v \<noteq> []"
    by (subst dec_digits_rev.simps) (simp add: word_gt_0)
  with False show ?thesis
    by (simp add: write_uint32_def dec_digits_no_comma)
qed (simp add: write_uint32_def)

lemma write_uint32_value: "of_nat (dec_value (write_uint32 v)) = v"
  by (simp add: write_uint32_def dec_digits_value) (simp add: dec_value_def)

lemma write_uint32_length: "length (write_uint32 v) \<le> 10"
proof -
  have "unat v < 10 ^ 10"
    using unsigned_less [of v, where 'a = nat] by (simp del: unsigned_less)
  then show ?thesis
    by (simp add: write_uint32_def dec_digits_length)
qed

lemma array_items_join: "array_items vs = join_with (CHR '','') (map write_uint32 vs)"
  by (induction vs rule: array_items.induct) auto

lemma parse_build_array: "parse_uint32_array (build_uint32_array_json vs) = vs"
proof -
  have "strtok_all (CHR '','') (array_items vs) = map write_uint32 vs"
    unfolding array_items_join using write_uint32_seg by (intro strtok_all_join_with) auto
  then show ?thesis
    by (simp add: parse_uint32_array_def build_uint32_array_json_def comp_def write_uint32_value)
qed

lemma array_items_length: "length (array_items vs) \<le> 11 * length vs"
  by (induction vs rule: array_items.induct)
    (auto intro: le_trans [OF write_uint32_length] dest: add_mono [OF write_uint32_length])


subsection \<open>The type of an entry\<close>

fun entries_typed :: "u32 list \<Rightarrow> bool" where
  "entries_typed [] = True"
| "entries_typed (dl # ds # len # ty # md # r) =
     (len \<noteq> 0 \<and> unat ty < length semantic_token_type_names \<and> md = 0 \<and> entries_typed r)"
| "entries_typed _ = False"

lemma entries_typed_append: "entries_typed xs \<Longrightarrow> entries_typed ys \<Longrightarrow> entries_typed (xs @ ys)"
  by (induction xs rule: entries_typed.induct) auto

lemma classify_typed: "classify kind = Some (ty, md) \<Longrightarrow> ty < 6 \<and> md = 0"
  by (auto simp: classify_def semtok_types split: if_splits)

lemma push_relative_typed:
  "entries_typed (sem_buf st) \<Longrightarrow> ty < 6 \<Longrightarrow> md = 0 \<Longrightarrow> entries_typed (sem_buf (push_relative_entry ln ch len ty md st))"
  by (auto simp: push_relative_entry_def push_entry_def Let_def semantic_token_type_names_def unat_of_nat
      intro!: entries_typed_append)

lemma emit_lines_typed:
  "entries_typed (sem_buf st) \<Longrightarrow> ty < 6 \<Longrightarrow> md = 0 \<Longrightarrow>
   entries_typed (sem_buf (fst (emit_lines p cl cc el ty md st)))"
proof (induction p cl cc el ty md st rule: emit_lines.induct)
  case (1 p cl cc el ty md st)
  show ?case
  proof (cases "cl < el")
    case True
    show ?thesis
      using "1.IH" [OF True refl refl refl refl] push_relative_typed "1.prems" True
      by (subst emit_lines.simps) (simp add: Let_def)
  next
    case False
    then show ?thesis
      using "1.prems" by (subst emit_lines.simps) simp
  qed
qed

lemma compute_step_typed: "entries_typed (sem_buf st) \<Longrightarrow> entries_typed (sem_buf (compute_step st s))"
  using push_relative_typed emit_lines_typed
  by (auto simp: compute_step_def emit_token_def Let_def split_def dest!: classify_typed split: option.split)

subsection \<open>Properties\<close>

definition example_spans :: "TokenSpan list" where
  "example_spans =
     [\<lparr> token_kind = KW_TASK, tok_start = LspPos 1 0, tok_end = LspPos 1 4, tok_text = Some ''task'' \<rparr>,
      \<lparr> token_kind = TK_LBRACE, tok_start = LspPos 1 5, tok_end = LspPos 1 6, tok_text = None \<rparr>,
      \<lparr> token_kind = TK_BLOCK_COMMENT, tok_start = LspPos 1 8, tok_end = LspPos 3 3,
        tok_text = Some (''/*a'' @ [CHR 0x0A, CHR 0x0A] @ ''x*/'') \<rparr>,
      \<lparr> token_kind = TK_IDENT, tok_start = LspPos 3 7, tok_end = LspPos 3 9, tok_text = Some ''id'' \<rparr>]"

lemma decode_computed:
  assumes "\<forall>s \<in> set spans. classify (token_kind s) \<noteq> None \<longrightarrow> span_ok s"
  shows "decode_entries 0 0 (compute_semantic_tokens_data spans) = concat (map token_entries spans)"
proof -
  have "sem_inv sem_start []"
    by (simp add: sem_inv_def sem_start_def last_pos_def)
  then have "sem_inv (foldl compute_step sem_start spans) (concat (map token_entries spans))"
    using compute_inv [OF _ assms, of sem_start "[]"] by simp
  then show ?thesis
    using sem.dec_enc by (simp add: sem_inv_def compute_semantic_tokens_data_def)
qed

text \<open>Decoding the emitted array as the client does gives, for every highlighted token in
  order, one entry per non-empty line of its text at its absolute position with its type, for
  spans that are not empty and whose text has one newline per line they cross.\<close>

theorem sem_tokens_decode:
  assumes "\<forall>s \<in> set spans. classify (token_kind s) \<noteq> None \<longrightarrow> span_ok s"
  shows "decode_entries 0 0 (compute_semantic_tokens_data spans) = concat (map token_entries spans)"
  using assms by (rule decode_computed)

theorem sem_tokens_decode_witness:
  "decode_entries 0 0 (compute_semantic_tokens_data example_spans) =
     [(1, 0, 4, 0, 0), (1, 8, 3, 1, 0), (3, 0, 3, 1, 0), (3, 7, 2, 4, 0)]"
proof -
  have "\<forall>s \<in> set example_spans. classify (token_kind s) \<noteq> None \<longrightarrow> span_ok s"
    by (simp add: example_spans_def classify_def tok_simps span_ok_def)
  then have "decode_entries 0 0 (compute_semantic_tokens_data example_spans) =
      concat (map token_entries example_spans)"
    by (rule sem_tokens_decode)
  also have "\<dots> = [(1, 0, 4, 0, 0), (1, 8, 3, 1, 0), (3, 0, 3, 1, 0), (3, 7, 2, 4, 0)]"
    by (simp add: example_spans_def token_entries_def classify_def tok_simps semtok_types)
  finally show ?thesis .
qed

text \<open>C34: Every array sent is well typed: a sequence of five-word entries, each with a non-zero
  length, a type that is an index into the legend announced to the client, and no modifier.\<close>

theorem sem_tokens_well_typed: "entries_typed (compute_semantic_tokens_data spans)"
proof -
  have "entries_typed (sem_buf st) \<Longrightarrow> entries_typed (sem_buf (foldl compute_step st spans))" for st
    by (induction spans arbitrary: st) (simp_all add: compute_step_typed)
  then show ?thesis
    by (simp add: compute_semantic_tokens_data_def sem_start_def)
qed

text \<open>The buffer of \<open>5 * num_sem_entries\<close> words that the lexer's running count sizes is
  large enough: the array written for the recorded spans never exceeds it, as long as no span
  covers \<open>2 ^ 31\<close> lines.\<close>

theorem sem_buffer_fits:
  assumes "\<forall>t \<in> set ts. lines_fit t"
  shows "g_tok_spans (foldl push_span lex_start ts) = ts \<and>
    int (length (compute_semantic_tokens_data (g_tok_spans (foldl push_span lex_start ts)))) \<le>
      5 * g_num_sem_entries (foldl push_span lex_start ts)"
  using compute_length [OF assms, of lex_start sem_start]
  by (simp add: compute_semantic_tokens_data_def lex_start_def sem_start_def)

theorem sem_buffer_fits_witness:
  "int (length (compute_semantic_tokens_data (g_tok_spans (foldl push_span lex_start example_spans))))
     \<le> 5 * g_num_sem_entries (foldl push_span lex_start example_spans) \<and>
   g_num_sem_entries (foldl push_span lex_start example_spans) = 5"
proof
  have "\<forall>t \<in> set example_spans. lines_fit t"
    by (simp add: example_spans_def lines_fit_def)
  then show "int (length (compute_semantic_tokens_data
        (g_tok_spans (foldl push_span lex_start example_spans))))
      \<le> 5 * g_num_sem_entries (foldl push_span lex_start example_spans)"
    using sem_buffer_fits by blast
  show "g_num_sem_entries (foldl push_span lex_start example_spans) = 5"
    by (simp add: example_spans_def lex_start_def push_span_def g_push_tok_span_def
        is_sem_highlighted_def tok_simps)
qed

text \<open>The array printed digit by digit reads back as the same words, and it fits in the
  \<open>2 + 11 * count\<close> bytes allocated for it.\<close>

theorem uint32_array_json_roundtrip:
  "parse_uint32_array (build_uint32_array_json vs) = vs \<and>
   length (build_uint32_array_json vs) \<le> 2 + 11 * length vs"
  using parse_build_array array_items_length by (simp add: build_uint32_array_json_def)

end
