(* ===== verification/Snapshot.thy ===== *)
theory Snapshot
  imports Semantic_Tokens
begin

text \<open>
  Document snapshots (\<open>src/src/query_context.c\<close>, \<open>query_context.h\<close>): the immutable result of one
  parse, with its version, and the lazily computed semantic tokens in their atomic cell.
\<close>

record doc_snapshot =
  doc_version :: u64
  snap_uri :: string
  snap_text :: string
  snap_root :: tj_node
  snap_tok_spans :: "TokenSpan list"
  snap_tok_owners :: "path option list"
  snap_num_sem_entries :: int
  sem_memo :: "u32 list option"

definition docsnap_new :: "string \<Rightarrow> string \<Rightarrow> ParseOutput \<Rightarrow> u64 \<Rightarrow> doc_snapshot" where
  "docsnap_new uri text po version =
     \<lparr> doc_version = version, snap_uri = uri, snap_text = text, snap_root = po_root po,
       snap_tok_spans = po_tok_spans po, snap_tok_owners = po_tok_owners po,
       snap_num_sem_entries = po_num_sem_entries po, sem_memo = None \<rparr>"

definition snap_tokens :: "doc_snapshot \<Rightarrow> u32 list" where
  "snap_tokens s = compute_semantic_tokens_data (snap_tok_spans s)"

text \<open>The value read and the snapshot with its cell filled.\<close>

definition docsnap_sem_tokens :: "doc_snapshot \<Rightarrow> u32 list \<times> doc_snapshot" where
  "docsnap_sem_tokens s =
     (case sem_memo s of
        Some data \<Rightarrow> (data, s)
      | None \<Rightarrow> (let fresh = compute_semantic_tokens_data (snap_tok_spans s) in
                 (fresh, s \<lparr> sem_memo := Some fresh \<rparr>)))"

text \<open>The steps of concurrent readers of one cell: each loads it, computes if it was empty, and
  publishes with a compare-and-exchange that adopts the winner's value.\<close>

datatype memo_reader =
    Load
  | Computed "u32 list"
  | Read "u32 list"

inductive memo_step :: "doc_snapshot \<times> memo_reader list \<Rightarrow> doc_snapshot \<times> memo_reader list \<Rightarrow> bool" where
  load_hit: "i < length rs \<Longrightarrow> rs ! i = Load \<Longrightarrow> sem_memo s = Some d \<Longrightarrow>
    memo_step (s, rs) (s, rs[i := Read d])"
| load_miss: "i < length rs \<Longrightarrow> rs ! i = Load \<Longrightarrow> sem_memo s = None \<Longrightarrow>
    memo_step (s, rs) (s, rs[i := Computed (compute_semantic_tokens_data (snap_tok_spans s))])"
| publish: "i < length rs \<Longrightarrow> rs ! i = Computed d \<Longrightarrow> sem_memo s = None \<Longrightarrow>
    memo_step (s, rs) (s \<lparr> sem_memo := Some d \<rparr>, rs[i := Read d])"
| adopt: "i < length rs \<Longrightarrow> rs ! i = Computed d \<Longrightarrow> sem_memo s = Some w \<Longrightarrow>
    memo_step (s, rs) (s, rs[i := Read w])"

inductive_cases memo_stepE: "memo_step (s, rs) (s', rs')"

fun reader_ok :: "u32 list \<Rightarrow> memo_reader \<Rightarrow> bool" where
  "reader_ok v Load = True"
| "reader_ok v (Computed d) = (d = v)"
| "reader_ok v (Read d) = (d = v)"

definition memo_ok :: "doc_snapshot \<Rightarrow> bool" where
  "memo_ok s = (sem_memo s = None \<or> sem_memo s = Some (snap_tokens s))"

lemma memo_ok_new [simp]: "memo_ok (docsnap_new uri text po v)"
  by (simp add: memo_ok_def docsnap_new_def)

lemma docsnap_sem_tokens_ok:
  "memo_ok s \<Longrightarrow> fst (docsnap_sem_tokens s) = snap_tokens s \<and> memo_ok (snd (docsnap_sem_tokens s))"
  by (auto simp: memo_ok_def docsnap_sem_tokens_def snap_tokens_def Let_def)

lemma list_all_update: "list_all P xs \<Longrightarrow> P y \<Longrightarrow> list_all P (xs[i := y])"
  by (auto simp: list_all_iff dest: set_update_subset_insert [THEN subsetD])

lemma memo_step_ok:
  assumes "memo_step c c'" and "memo_ok (fst c)" and "list_all (reader_ok (snap_tokens (fst c))) (snd c)"
  shows "memo_ok (fst c') \<and> list_all (reader_ok (snap_tokens (fst c))) (snd c') \<and>
    snap_tokens (fst c') = snap_tokens (fst c)"
  using assms
proof (cases rule: memo_step.cases)
  case (publish i rs d s)
  then have "d = snap_tokens s"
    using assms(3) by (metis fst_conv list_all_length reader_ok.simps(2) snd_conv)
  then show ?thesis
    using publish assms by (auto simp: memo_ok_def snap_tokens_def intro: list_all_update)
qed (auto simp: memo_ok_def snap_tokens_def intro: list_all_update)

lemma memo_steps_ok:
  assumes "memo_step\<^sup>*\<^sup>* c c'" and "memo_ok (fst c)" and "list_all (reader_ok (snap_tokens (fst c))) (snd c)"
  shows "memo_ok (fst c') \<and> list_all (reader_ok (snap_tokens (fst c))) (snd c') \<and>
    snap_tokens (fst c') = snap_tokens (fst c)"
  using assms
proof (induction rule: rtranclp_induct)
  case (step y z)
  then show ?case
    using memo_step_ok [OF step.hyps(2)] by simp
qed simp

text \<open>The array always holds whole entries.\<close>

lemma push_relative_dvd: "5 dvd length (sem_buf st) \<Longrightarrow> 5 dvd length (sem_buf (push_relative_entry l c n ty md st))"
  by (simp add: push_relative_entry_def push_entry_def Let_def) presburger

lemma emit_lines_dvd:
  "5 dvd length (sem_buf st) \<Longrightarrow> 5 dvd length (sem_buf (fst (emit_lines p cl cc el ty md st)))"
proof (induction p cl cc el ty md st rule: emit_lines.induct)
  case (1 p cl cc el ty md st)
  show ?case
  proof (cases "cl < el")
    case True
    show ?thesis
      using "1.IH" [OF True refl refl refl refl] "1.prems" True push_relative_dvd
      by (subst emit_lines.simps) (simp add: Let_def)
  qed (simp add: emit_lines.simps [of p] "1.prems")
qed

lemma emit_token_dvd: "5 dvd length (sem_buf st) \<Longrightarrow> 5 dvd length (sem_buf (emit_token s ty md st))"
  using emit_lines_dvd [of st]
  by (auto simp: emit_token_def Let_def push_relative_dvd split: prod.splits)
    (metis fst_conv push_relative_dvd)

lemma compute_dvd: "5 dvd length (compute_semantic_tokens_data spans)"
proof -
  have "5 dvd length (sem_buf st) \<Longrightarrow> 5 dvd length (sem_buf (foldl compute_step st spans))" for st
  proof (induction spans arbitrary: st)
    case (Cons s spans)
    have "5 dvd length (sem_buf (compute_step st s))"
      using Cons.prems emit_token_dvd by (auto simp: compute_step_def split: option.splits)
    then show ?case
      using Cons.IH by simp
  qed simp
  then show ?thesis
    by (simp add: compute_semantic_tokens_data_def sem_start_def)
qed

subsection \<open>Properties\<close>


text \<open>Two readers that both miss: the first publishes, the second adopts.\<close>

definition example_output :: ParseOutput where
  "example_output = \<lparr> po_root = tj_node_new, po_tok_spans = example_spans, po_num_sem_entries = 5,
     po_tok_owners = [], po_includes = [] \<rparr>"

definition example_snap :: doc_snapshot where
  "example_snap = docsnap_new ''file:///a.tjp'' [] example_output 1"

lemma two_readers:
  defines "d \<equiv> compute_semantic_tokens_data (po_tok_spans example_output)"
  shows "memo_step\<^sup>*\<^sup>* (example_snap, replicate 2 Load) (example_snap \<lparr> sem_memo := Some d \<rparr>, [Read d, Read d])"
proof -
  have d: "compute_semantic_tokens_data (snap_tok_spans example_snap) = d"
    and none: "sem_memo example_snap = None"
    by (simp_all add: d_def example_snap_def docsnap_new_def)
  have "memo_step\<^sup>*\<^sup>* (example_snap, [Load, Load]) (example_snap, [Computed d, Load])"
    using load_miss [of 0 "[Load, Load]" example_snap] d none by (simp add: r_into_rtranclp)
  also have "memo_step (example_snap, [Computed d, Load]) (example_snap, [Computed d, Computed d])"
    using load_miss [of 1 "[Computed d, Load]" example_snap] d none by simp
  also have "memo_step (example_snap, [Computed d, Computed d])
      (example_snap \<lparr> sem_memo := Some d \<rparr>, [Read d, Computed d])"
    using publish [of 0 "[Computed d, Computed d]" d example_snap] none by simp
  also have "memo_step (example_snap \<lparr> sem_memo := Some d \<rparr>, [Read d, Computed d])
      (example_snap \<lparr> sem_memo := Some d \<rparr>, [Read d, Read d])"
    using adopt [of 1 "[Read d, Computed d]" d "example_snap \<lparr> sem_memo := Some d \<rparr>" d] by simp
  finally show ?thesis
    by (simp add: numeral_2_eq_2)
qed


end
