(* ===== verification/Myers_Delta.thy ===== *)
theory Myers_Delta
  imports Snapshot
begin

text \<open>
  Incremental semantic tokens (\<open>src/src/semantic_tokens_delta.c\<close>): Myers' O(ND) difference of
  two token sequences and the edits sent to the client.  A buffer is read as its sequence of
  five-word tuples; the array \<open>v\<close>, indexed by \<open>k + max_total\<close> in the code, is a function of the
  diagonal \<open>k\<close>, and row \<open>d\<close> of the triangular array \<open>snap\<close> is the \<open>d\<close>-th list.
\<close>

definition TUPLE_LEN :: nat where [simp]: "TUPLE_LEN = 5"
definition D_BOUND :: nat where "D_BOUND = 1024"

type_synonym tok = "u32 list"

record EditOp =
  start_tok :: nat
  delete_tok :: nat
  insert_b_start :: nat
  insert_tok :: nat

definition tokens_equal :: "tok \<Rightarrow> tok \<Rightarrow> bool" where
  "tokens_equal a b = (a = b)"

subsection \<open>Forward search\<close>

function slide :: "tok list \<Rightarrow> tok list \<Rightarrow> int \<Rightarrow> int \<Rightarrow> int \<times> int" where
  "slide a b x y =
     (if x < int (length a) \<and> y < int (length b) \<and> tokens_equal (a ! nat x) (b ! nat y)
      then slide a b (x + 1) (y + 1) else (x, y))"
  by pat_completeness auto
termination
  by (relation "measure (\<lambda>(a, b, x, y). nat (int (length a) - x))") auto

declare slide.simps [simp del]

definition edge_x :: "(int \<Rightarrow> int) \<Rightarrow> int \<Rightarrow> int \<Rightarrow> int" where
  "edge_x v d k = (if k = - d \<or> (k \<noteq> d \<and> v (k - 1) < v (k + 1)) then v (k + 1) else v (k - 1) + 1)"

text \<open>The diagonals of one distance: the end point if it is reached, or the new \<open>v\<close>.\<close>

fun forward_k ::
  "tok list \<Rightarrow> tok list \<Rightarrow> int \<Rightarrow> int list \<Rightarrow> (int \<Rightarrow> int) \<Rightarrow> (int \<times> int) + (int \<Rightarrow> int)" where
  "forward_k a b d [] v = Inr v"
| "forward_k a b d (k # ks) v =
     (let x0 = edge_x v d k;
          (x, y) = slide a b x0 (x0 - k);
          v' = v(k := x) in
      if int (length a) \<le> x \<and> int (length b) \<le> y then Inl (x, y)
      else forward_k a b d ks v')"

definition k_range :: "nat \<Rightarrow> int list" where
  "k_range d = map (\<lambda>i. 2 * int i - int d) [0..<Suc d]"

function forward ::
  "tok list \<Rightarrow> tok list \<Rightarrow> nat \<Rightarrow> (int \<Rightarrow> int) \<Rightarrow> int list list \<Rightarrow>
     (nat \<times> int \<times> int \<times> int list list) option" where
  "forward a b d v snap =
     (if length a + length b < d then None
      else case forward_k a b (int d) (k_range d) v of
             Inl (x, y) \<Rightarrow> Some (d, x, y, snap)
           | Inr v' \<Rightarrow> forward a b (Suc d) v' (snap @ [map v' (k_range d)]))"
  by pat_completeness auto
termination
  by (relation "measure (\<lambda>(a, b, d, v, snap). Suc (length a + length b) - d)") auto

declare forward.simps [simp del]

subsection \<open>Backtrace\<close>

text \<open>The kinds of steps: 0 is a match, 1 deletes from the old and 2 inserts from the new.\<close>

function snake_back :: "int \<Rightarrow> int \<Rightarrow> int \<Rightarrow> int \<Rightarrow> nat list \<Rightarrow> int \<times> int \<times> nat list" where
  "snake_back x y x_edge y_edge raw =
     (if x_edge < x \<and> y_edge < y then snake_back (x - 1) (y - 1) x_edge y_edge (raw @ [0])
      else (x, y, raw))"
  by pat_completeness auto
termination
  by (relation "measure (\<lambda>(x, y, xe, ye, raw). nat (x - xe))") auto

declare snake_back.simps [simp del]

definition back_step :: "int list \<Rightarrow> nat \<Rightarrow> int \<times> int \<times> nat list \<Rightarrow> int \<times> int \<times> nat list" where
  "back_step row dd = (\<lambda>(x, y, raw).
     let d = int dd; k = x - y;
         idx_km1 = (k - 1 + (d - 1)) div 2; idx_kp1 = (k + 1 + (d - 1)) div 2;
         down = (if k = - d then True else if k = d then False
                 else row ! nat idx_km1 < row ! nat idx_kp1);
         k_prev = (if down then k + 1 else k - 1);
         x_prev = row ! nat ((k_prev + (d - 1)) div 2);
         y_prev = x_prev - k_prev;
         x_edge = (if down then x_prev else x_prev + 1);
         y_edge = (if down then y_prev + 1 else y_prev);
         (x1, y1, raw1) = snake_back x y x_edge y_edge raw in
     if down then (x1, y1 - 1, raw1 @ [2]) else (x1 - 1, y1, raw1 @ [1]))"

primrec backtrace :: "int list list \<Rightarrow> nat \<Rightarrow> int \<times> int \<times> nat list \<Rightarrow> int \<times> int \<times> nat list" where
  "backtrace snap 0 st = st"
| "backtrace snap (Suc d') st = backtrace snap d' (back_step (snap ! d') (Suc d') st)"

subsection \<open>Coalescing\<close>

text \<open>One run of consecutive deletions and insertions: their numbers and the rest.\<close>

fun edit_run :: "nat list \<Rightarrow> nat \<Rightarrow> nat \<Rightarrow> nat \<times> nat \<times> nat list" where
  "edit_run [] del ins = (del, ins, [])"
| "edit_run (r # rs) del ins =
     (if r = 0 then (del, ins, r # rs)
      else if r = 1 then edit_run rs (Suc del) ins
      else edit_run rs del (Suc ins))"

lemma edit_run_shorter: "edit_run rs del ins = (d, i, rest) \<Longrightarrow> length rest \<le> length rs"
  by (induction rs del ins rule: edit_run.induct) (auto split: if_splits)

function coalesce ::
  "nat list \<Rightarrow> nat \<Rightarrow> nat \<Rightarrow> nat \<Rightarrow> nat \<Rightarrow> EditOp list" where
  "coalesce [] a_offset b_offset cur_x cur_y = []"
| "coalesce (r # rs) a_offset b_offset cur_x cur_y =
     (if r = 0 then coalesce rs a_offset b_offset (Suc cur_x) (Suc cur_y)
      else (case edit_run (r # rs) 0 0 of
              (del, ins, rest) \<Rightarrow>
                \<lparr> start_tok = a_offset + cur_x, delete_tok = del,
                  insert_b_start = b_offset + cur_y, insert_tok = ins \<rparr> #
                coalesce rest a_offset b_offset (cur_x + del) (cur_y + ins)))"
  by pat_completeness auto
termination
  by (relation "measure (\<lambda>(rs, ao, bo, x, y). length rs)")
    (auto simp: less_Suc_eq_le split: if_splits dest: edit_run_shorter [OF sym])

text \<open>\<open>raw_kinds\<close> is recorded from the end of the script to its start.\<close>

definition coalesce_edit_ops :: "nat list \<Rightarrow> nat \<Rightarrow> nat \<Rightarrow> EditOp list" where
  "coalesce_edit_ops raw_kinds a_offset b_offset = coalesce (rev raw_kinds) a_offset b_offset 0 0"

definition myers_diff_run :: "tok list \<Rightarrow> tok list \<Rightarrow> nat \<Rightarrow> nat \<Rightarrow> EditOp list" where
  "myers_diff_run a b a_offset b_offset =
     (if a = [] \<and> b = [] then []
      else if a = [] \<or> b = [] \<or> D_BOUND < length a + length b
      then [\<lparr> start_tok = a_offset, delete_tok = length a,
              insert_b_start = b_offset, insert_tok = length b \<rparr>]
      else case forward a b 0 (\<lambda>_. 0) [] of
             None \<Rightarrow> []
           | Some (d_found, x_final, y_final, snap) \<Rightarrow>
               if d_found = 0 then []
               else (case backtrace snap d_found (x_final, y_final, []) of
                       (x, y, raw) \<Rightarrow>
                         (case snake_back x y 0 0 raw of
                            (_, _, raw') \<Rightarrow> coalesce_edit_ops raw' a_offset b_offset)))"

subsection \<open>The delta response\<close>

definition tok_at :: "u32 list \<Rightarrow> nat \<Rightarrow> tok" where
  "tok_at buf i = take TUPLE_LEN (drop (TUPLE_LEN * i) buf)"

definition tokens_of :: "u32 list \<Rightarrow> tok list" where
  "tokens_of buf = map (tok_at buf) [0..<length buf div TUPLE_LEN]"

fun common_prefix :: "tok list \<Rightarrow> tok list \<Rightarrow> nat" where
  "common_prefix (a # as) (b # bs) = (if tokens_equal a b then Suc (common_prefix as bs) else 0)"
| "common_prefix _ _ = 0"

record sem_edit =
  ed_start :: nat
  ed_deleteCount :: nat
  ed_data :: "u32 list"

definition build_edit_json :: "EditOp \<Rightarrow> u32 list \<Rightarrow> sem_edit" where
  "build_edit_json op new_buf =
     \<lparr> ed_start = start_tok op * TUPLE_LEN, ed_deleteCount = delete_tok op * TUPLE_LEN,
       ed_data = take (insert_tok op * TUPLE_LEN) (drop (insert_b_start op * TUPLE_LEN) new_buf) \<rparr>"

text \<open>The common suffix is searched in what the common prefix leaves of both sequences.\<close>

definition build_semantic_tokens_delta :: "u32 list \<Rightarrow> u32 list \<Rightarrow> sem_edit list" where
  "build_semantic_tokens_delta prev_buf new_buf =
     (let prev = tokens_of prev_buf; new = tokens_of new_buf;
          prefix = common_prefix prev new;
          suffix = common_prefix (rev (drop prefix prev)) (rev (drop prefix new));
          a = take (length prev - prefix - suffix) (drop prefix prev);
          b = take (length new - prefix - suffix) (drop prefix new) in
      map (\<lambda>op. build_edit_json op new_buf) (myers_diff_run a b prefix prefix))"


text \<open>The result id is the version in decimal; \<open>strtoull\<close> reads it back: optional blanks and
  sign, then digits, saturating.\<close>

function dec_u64_rev :: "nat \<Rightarrow> string" where
  "dec_u64_rev n = (if n = 0 then [] else char_of (48 + n mod 10) # dec_u64_rev (n div 10))"
  by pat_completeness auto
termination by (relation "measure id") auto

declare dec_u64_rev.simps [simp del]

definition sem_tokens_result_id :: "doc_snapshot \<Rightarrow> string" where
  "sem_tokens_result_id s =
     (if doc_version s = 0 then ''0'' else rev (dec_u64_rev (unat (doc_version s))))"

definition is_digit :: "char \<Rightarrow> bool" where
  "is_digit c = (48 \<le> (of_char c :: nat) \<and> (of_char c :: nat) \<le> 57)"

definition isspace :: "char \<Rightarrow> bool" where
  "isspace c = (c = CHR '' '' \<or> (9 \<le> (of_char c :: nat) \<and> (of_char c :: nat) \<le> 13))"

definition strtoull :: "string \<Rightarrow> u64" where
  "strtoull s =
     (let t = dropWhile isspace s;
          neg = (t \<noteq> [] \<and> hd t = CHR ''-'');
          u = (if t \<noteq> [] \<and> (hd t = CHR ''-'' \<or> hd t = CHR ''+'') then tl t else t);
          n = dec_value (takeWhile is_digit u) in
      if 2 ^ 64 \<le> n then - 1 else if neg then - of_nat n else of_nat n)"

datatype sem_response =
    NullResult
  | FullResult string "u32 list"
  | DeltaResult string "sem_edit list"

text \<open>The snapshot the client holds is the current one or the one before it (\<open>prev_snap\<close>).\<close>

definition handle_semantic_tokens_full_delta ::
  "string option \<Rightarrow> doc_snapshot option \<Rightarrow> doc_snapshot option \<Rightarrow> sem_response" where
  "handle_semantic_tokens_full_delta previousResultId prev_snap d =
     (case d of
        None \<Rightarrow> NullResult
      | Some snap \<Rightarrow>
          (let new_buf = fst (docsnap_sem_tokens snap);
               result_id = sem_tokens_result_id snap;
               base = (case previousResultId of
                         None \<Rightarrow> None
                       | Some r \<Rightarrow>
                           (let prev_version = strtoull r in
                            if prev_version = doc_version snap then Some snap
                            else (case prev_snap of
                                    None \<Rightarrow> None
                                  | Some p \<Rightarrow> if prev_version = doc_version p then Some p else None))) in
           case base of
             Some bs \<Rightarrow> DeltaResult result_id
               (build_semantic_tokens_delta (fst (docsnap_sem_tokens bs)) new_buf)
           | None \<Rightarrow> FullResult result_id new_buf))"

definition handle_semantic_tokens_full :: "doc_snapshot option \<Rightarrow> sem_response" where
  "handle_semantic_tokens_full d =
     (case d of
        None \<Rightarrow> NullResult
      | Some snap \<Rightarrow> FullResult (sem_tokens_result_id snap) (fst (docsnap_sem_tokens snap)))"

subsection \<open>Furthest points\<close>

lemma slide_spec:
  "0 \<le> x \<Longrightarrow> 0 \<le> y \<Longrightarrow>
   \<exists>n. slide a b x y = (x + int n, y + int n) \<and>
     (\<forall>i < n. nat x + i < length a \<and> nat y + i < length b \<and> a ! (nat x + i) = b ! (nat y + i)) \<and>
     \<not> (x + int n < int (length a) \<and> y + int n < int (length b) \<and>
        a ! nat (x + int n) = b ! nat (y + int n))"
proof (induction a b x y rule: slide.induct)
  case (1 a b x y)
  show ?case
  proof (cases "x < int (length a) \<and> y < int (length b) \<and> tokens_equal (a ! nat x) (b ! nat y)")
    case True
    obtain n where n: "slide a b (x + 1) (y + 1) = (x + 1 + int n, y + 1 + int n)"
      "\<forall>i < n. nat (x + 1) + i < length a \<and> nat (y + 1) + i < length b \<and>
         a ! (nat (x + 1) + i) = b ! (nat (y + 1) + i)"
      "\<not> (x + 1 + int n < int (length a) \<and> y + 1 + int n < int (length b) \<and>
          a ! nat (x + 1 + int n) = b ! nat (y + 1 + int n))"
      using "1.IH" [OF True] "1.prems" by auto
    have "nat x + i < length a \<and> nat y + i < length b \<and> a ! (nat x + i) = b ! (nat y + i)"
      if "i < Suc n" for i
      using that n(2) [rule_format, of "i - 1"] True "1.prems"
      by (cases i) (auto simp: tokens_equal_def nat_add_distrib)
    moreover have "slide a b x y = (x + int (Suc n), y + int (Suc n))"
      using True n(1) by (simp add: slide.simps [of a b x y])
    ultimately show ?thesis
      using n(3) by (intro exI [of _ "Suc n"]) (simp add: ac_simps)
  next
    case False
    then show ?thesis
      by (intro exI [of _ 0]) (auto simp: slide.simps [of a b x y] tokens_equal_def)
  qed
qed

definition slide_len :: "tok list \<Rightarrow> tok list \<Rightarrow> int \<Rightarrow> int \<Rightarrow> nat" where
  "slide_len a b x y = nat (fst (slide a b x y) - x)"

lemma slide_len:
  assumes "0 \<le> x" and "0 \<le> y"
  shows "slide a b x y = (x + int (slide_len a b x y), y + int (slide_len a b x y))"
    and "i < slide_len a b x y \<Longrightarrow>
      nat x + i < length a \<and> nat y + i < length b \<and> a ! (nat x + i) = b ! (nat y + i)"
    and "\<not> (x + int (slide_len a b x y) < int (length a) \<and> y + int (slide_len a b x y) < int (length b) \<and>
        a ! nat (x + int (slide_len a b x y)) = b ! nat (y + int (slide_len a b x y)))"
  using slide_spec [OF assms, of a b] by (auto simp: slide_len_def)

text \<open>\<open>fur a b d k\<close>: the row the search reaches on diagonal \<open>k\<close> with \<open>d\<close> edits.\<close>

fun fur :: "tok list \<Rightarrow> tok list \<Rightarrow> nat \<Rightarrow> int \<Rightarrow> int" where
  "fur a b 0 k = fst (slide a b (edge_x (\<lambda>_. 0) 0 k) (edge_x (\<lambda>_. 0) 0 k - k))"
| "fur a b (Suc d) k =
     fst (slide a b (edge_x (fur a b d) (int (Suc d)) k) (edge_x (fur a b d) (int (Suc d)) k - k))"

definition prev_row :: "tok list \<Rightarrow> tok list \<Rightarrow> nat \<Rightarrow> int \<Rightarrow> int" where
  "prev_row a b d = (case d of 0 \<Rightarrow> \<lambda>_. 0 | Suc d' \<Rightarrow> fur a b d')"

abbreviation edge :: "tok list \<Rightarrow> tok list \<Rightarrow> nat \<Rightarrow> int \<Rightarrow> int" where
  "edge a b d k \<equiv> edge_x (prev_row a b d) (int d) k"

lemma fur_slide: "fur a b d k = fst (slide a b (edge a b d k) (edge a b d k - k))"
  by (cases d) (auto simp: prev_row_def)

declare fur.simps [simp del]

definition on_diag :: "nat \<Rightarrow> int \<Rightarrow> bool" where
  "on_diag d k = (- int d \<le> k \<and> k \<le> int d \<and> even (k + int d))"

lemma on_diag_down: "on_diag (Suc d) k \<Longrightarrow> k \<noteq> int (Suc d) \<Longrightarrow> on_diag d (k + 1)"
  unfolding on_diag_def by presburger

lemma on_diag_right: "on_diag (Suc d) k \<Longrightarrow> k \<noteq> - int (Suc d) \<Longrightarrow> on_diag d (k - 1)"
  unfolding on_diag_def by presburger

lemma on_diag_0 [simp]: "on_diag 0 k \<longleftrightarrow> k = 0"
  by (auto simp: on_diag_def)

text \<open>The predecessor of a diagonal: below it (an insertion) or left of it (a deletion).\<close>

lemma edge_cases:
  assumes "on_diag (Suc d) k"
  obtains (down) "edge a b (Suc d) k = fur a b d (k + 1)" "on_diag d (k + 1)"
      "k = - int (Suc d) \<or> (k \<noteq> int (Suc d) \<and> fur a b d (k - 1) < fur a b d (k + 1))"
    | (right) "edge a b (Suc d) k = fur a b d (k - 1) + 1" "on_diag d (k - 1)"
      "k \<noteq> - int (Suc d)" "k = int (Suc d) \<or> \<not> fur a b d (k - 1) < fur a b d (k + 1)"
proof (cases "k = - int (Suc d) \<or> (k \<noteq> int (Suc d) \<and> fur a b d (k - 1) < fur a b d (k + 1))")
  case True
  show thesis
  proof (rule down)
    show "edge a b (Suc d) k = fur a b d (k + 1)"
      using True by (simp add: edge_x_def prev_row_def)
    show "on_diag d (k + 1)"
      using True by (intro on_diag_down [OF assms]) auto
  qed (rule True)
next
  case False
  show thesis
  proof (rule right)
    show "edge a b (Suc d) k = fur a b d (k - 1) + 1"
      using False by (simp only: edge_x_def prev_row_def nat.case if_False)
    show "on_diag d (k - 1)"
      using False by (intro on_diag_right [OF assms]) auto
  qed (use False in auto)
qed

lemma edge_nonneg:
  "on_diag d k \<Longrightarrow> 0 \<le> edge a b d k \<and> k \<le> edge a b d k \<and> int d \<le> 2 * edge a b d k - k"
proof (induction d arbitrary: k)
  case 0
  then show ?case by (simp add: edge_x_def prev_row_def)
next
  case (Suc d)
  have ge: "edge a b d k' \<le> fur a b d k'" if "on_diag d k'" for k'
    using slide_len(1) [of "edge a b d k'" "edge a b d k' - k'" a b] Suc.IH [OF that]
    by (simp add: fur_slide)
  show ?case
    using Suc.prems
  proof (cases rule: edge_cases [where a = a and b = b])
    case down
    with Suc.IH [of "k + 1"] ge [of "k + 1"] show ?thesis by simp
  next
    case right
    with Suc.IH [of "k - 1"] ge [of "k - 1"] show ?thesis by simp
  qed
qed

abbreviation run_len :: "tok list \<Rightarrow> tok list \<Rightarrow> nat \<Rightarrow> int \<Rightarrow> nat" where
  "run_len a b d k \<equiv> slide_len a b (edge a b d k) (edge a b d k - k)"

lemma fur_run:
  assumes "on_diag d k"
  shows "fur a b d k = edge a b d k + int (run_len a b d k)"
    and "slide a b (edge a b d k) (edge a b d k - k) = (fur a b d k, fur a b d k - k)"
  using slide_len(1) [of "edge a b d k" "edge a b d k - k" a b] edge_nonneg [OF assms, of a b]
  by (auto simp: fur_slide)

lemma fur_nonneg:
  assumes "on_diag d k"
  shows "0 \<le> fur a b d k \<and> k \<le> fur a b d k \<and> int d \<le> 2 * fur a b d k - k"
  using fur_run(1) [OF assms, of a b] edge_nonneg [OF assms, of a b] by simp

lemma fur_down: "on_diag (Suc d) k \<Longrightarrow> on_diag d (k + 1) \<Longrightarrow> fur a b d (k + 1) \<le> fur a b (Suc d) k"
  using fur_run(1) [of "Suc d" k a b]
  by (simp add: edge_x_def prev_row_def on_diag_def)

lemma fur_right: "on_diag (Suc d) k \<Longrightarrow> on_diag d (k - 1) \<Longrightarrow> fur a b d (k - 1) + 1 \<le> fur a b (Suc d) k"
  using fur_run(1) [of "Suc d" k a b]
  by (simp add: edge_x_def prev_row_def on_diag_def)

text \<open>A run of matches stays inside both sequences.\<close>

lemma run_inside:
  assumes "on_diag d k" and "0 < run_len a b d k"
  shows "fur a b d k \<le> int (length a)" and "fur a b d k - k \<le> int (length b)"
  using slide_len(2) [of "edge a b d k" "edge a b d k - k" "run_len a b d k - 1" a b]
    edge_nonneg [OF assms(1), of a b] fur_run(1) [OF assms(1), of a b] assms(2)
  by auto

lemma overshoot_b:
  "on_diag d k \<Longrightarrow> int (length b) < fur a b d k - k \<Longrightarrow>
   \<exists>d'. d = Suc d' \<and> on_diag d' (k + 1) \<and> fur a b d k \<le> fur a b d' (k + 1)"
proof (induction d arbitrary: k)
  case 0
  then show ?case
    using run_inside(2) [of 0 k a b] fur_run(1) [of 0 k a b]
    by (cases "run_len a b 0 k = 0") (auto simp: edge_x_def prev_row_def)
next
  case (Suc d)
  have run0: "fur a b (Suc d) k = edge a b (Suc d) k"
    using run_inside(2) [OF Suc.prems(1), of a b] Suc.prems(2) fur_run(1) [OF Suc.prems(1), of a b]
    by (cases "run_len a b (Suc d) k = 0") auto
  show ?case
    using Suc.prems(1)
  proof (cases rule: edge_cases [where a = a and b = b])
    case down
    with run0 show ?thesis by simp
  next
    case right
    then obtain d' where d': "d = Suc d'" "on_diag d' k" "fur a b d (k - 1) \<le> fur a b d' k"
      using Suc.IH [of "k - 1"] run0 Suc.prems(2) by auto
    then have "on_diag d (k + 1)"
      unfolding on_diag_def by presburger
    moreover from this have "fur a b d' k + 1 \<le> fur a b d (k + 1)"
      using fur_right [of d' "k + 1" a b] d' by simp
    ultimately show ?thesis
      using d' right run0 by simp
  qed
qed

lemma overshoot_a:
  "on_diag d k \<Longrightarrow> int (length a) < fur a b d k \<Longrightarrow>
   \<exists>d'. d = Suc d' \<and> on_diag d' (k - 1) \<and> fur a b d k - 1 \<le> fur a b d' (k - 1)"
proof (induction d arbitrary: k)
  case 0
  then show ?case
    using run_inside(1) [of 0 k a b] fur_run(1) [of 0 k a b]
    by (cases "run_len a b 0 k = 0") (auto simp: edge_x_def prev_row_def)
next
  case (Suc d)
  have run0: "fur a b (Suc d) k = edge a b (Suc d) k"
    using run_inside(1) [OF Suc.prems(1), of a b] Suc.prems(2) fur_run(1) [OF Suc.prems(1), of a b]
    by (cases "run_len a b (Suc d) k = 0") auto
  show ?case
    using Suc.prems(1)
  proof (cases rule: edge_cases [where a = a and b = b])
    case right
    with run0 show ?thesis by simp
  next
    case down
    then obtain d' where d': "d = Suc d'" "on_diag d' k" "fur a b d (k + 1) - 1 \<le> fur a b d' k"
      using Suc.IH [of "k + 1"] run0 Suc.prems(2) by auto
    then have "on_diag d (k - 1)"
      unfolding on_diag_def by presburger
    moreover from this have "fur a b d' k \<le> fur a b d (k - 1)"
      using fur_down [of d' "k - 1" a b] d' by simp
    ultimately show ?thesis
      using d' down run0 by simp
  qed
qed

definition ends :: "tok list \<Rightarrow> tok list \<Rightarrow> nat \<Rightarrow> int \<Rightarrow> bool" where
  "ends a b d k = (int (length a) \<le> fur a b d k \<and> int (length b) \<le> fur a b d k - k)"

text \<open>The first diagonal that ends the search ends exactly at the end of both sequences.\<close>

lemma ends_exact:
  assumes "on_diag d k" and "ends a b d k" and "\<forall>d' < d. \<forall>k. on_diag d' k \<longrightarrow> \<not> ends a b d' k"
  shows "fur a b d k = int (length a)" and "fur a b d k - k = int (length b)"
proof -
  have "\<not> int (length b) < fur a b d k - k"
    using overshoot_b [OF assms(1), of b a] assms(2,3) by (fastforce simp: ends_def)
  moreover have "\<not> int (length a) < fur a b d k"
    using overshoot_a [OF assms(1), of a b] assms(2,3) by (fastforce simp: ends_def)
  ultimately show "fur a b d k = int (length a)" "fur a b d k - k = int (length b)"
    using assms(2) by (auto simp: ends_def)
qed

lemma ends_last:
  "ends a b (length a + length b) (int (length a) - int (length b))"
  "on_diag (length a + length b) (int (length a) - int (length b))"
proof -
  show od: "on_diag (length a + length b) (int (length a) - int (length b))"
    by (simp add: on_diag_def)
  show "ends a b (length a + length b) (int (length a) - int (length b))"
    using fur_nonneg [OF od, of a b] by (simp add: ends_def)
qed


subsection \<open>The forward search computes the furthest points\<close>

lemma set_k_range: "set (k_range d) = {k. on_diag d k}"
proof -
  have "k \<in> set (k_range d)" if od: "on_diag d k" for k
  proof -
    have "2 dvd k + int d"
      using od by (simp add: on_diag_def)
    then obtain m where m: "k + int d = 2 * m"
      by (rule dvdE)
    have "k = 2 * int (nat m) - int d" "nat m < Suc d"
      using m od by (auto simp: on_diag_def)
    then show ?thesis
      by (auto simp: k_range_def intro!: image_eqI [of _ _ "nat m"])
  qed
  then show ?thesis
    by (auto simp: k_range_def on_diag_def)
qed

lemma distinct_k_range: "distinct (k_range d)"
  by (simp add: k_range_def distinct_map inj_on_def del: upt_Suc)

lemma k_range_nth: "on_diag d k \<Longrightarrow> map f (k_range d) ! nat ((k + int d) div 2) = f k"
proof -
  assume od: "on_diag d k"
  then obtain m where m: "k + int d = 2 * m"
    unfolding on_diag_def by blast
  with od have "nat m < Suc d" "0 \<le> m" "2 * m - int d = k"
    by (auto simp: on_diag_def)
  then have "map f (k_range d) ! nat m = f k"
    by (simp add: k_range_def del: upt_Suc)
  then show ?thesis
    using m by simp
qed

text \<open>What stage \<open>d\<close> reads of \<open>v\<close>: the points of stage \<open>d - 1\<close>.\<close>

definition reads_prev :: "tok list \<Rightarrow> tok list \<Rightarrow> nat \<Rightarrow> (int \<Rightarrow> int) \<Rightarrow> bool" where
  "reads_prev a b d v =
     (\<forall>k'. odd (k' + int d) \<and> (- int d < k' \<and> k' < int d \<or> d = 0 \<and> k' = 1) \<longrightarrow> v k' = prev_row a b d k')"

lemma edge_reads: "reads_prev a b d v \<Longrightarrow> on_diag d k \<Longrightarrow> edge_x v (int d) k = edge a b d k"
proof -
  assume r: "reads_prev a b d v" and od: "on_diag d k"
  have "v (k + 1) = prev_row a b d (k + 1)" if "k \<noteq> int d \<or> d = 0"
  proof -
    have "odd (k + 1 + int d)" "- int d < k + 1 \<and> k + 1 < int d \<or> d = 0 \<and> k + 1 = 1"
      using od that unfolding on_diag_def by presburger+
    with r show ?thesis unfolding reads_prev_def by blast
  qed
  moreover have "v (k - 1) = prev_row a b d (k - 1)" if "k \<noteq> - int d"
  proof -
    have "odd (k - 1 + int d)" "- int d < k - 1 \<and> k - 1 < int d"
      using od that unfolding on_diag_def by presburger+
    with r show ?thesis unfolding reads_prev_def by blast
  qed
  ultimately show ?thesis
    by (auto simp: edge_x_def)
qed

lemma reads_prev_upd: "reads_prev a b d v \<Longrightarrow> on_diag d k \<Longrightarrow> reads_prev a b d (v(k := x))"
  unfolding reads_prev_def on_diag_def by auto

lemma forward_k_spec:
  "reads_prev a b d v \<Longrightarrow> set ks \<subseteq> {k. on_diag d k} \<Longrightarrow> distinct ks \<Longrightarrow>
   (case forward_k a b (int d) ks v of
      Inl (x, y) \<Rightarrow> \<exists>k \<in> set ks. ends a b d k \<and> x = fur a b d k \<and> y = fur a b d k - k
    | Inr v' \<Rightarrow> (\<forall>k \<in> set ks. \<not> ends a b d k \<and> v' k = fur a b d k) \<and>
                (\<forall>k. k \<notin> set ks \<longrightarrow> v' k = v k))"
proof (induction ks arbitrary: v)
  case (Cons k ks)
  have od: "on_diag d k" and ks: "set ks \<subseteq> {k. on_diag d k}" "distinct ks" "k \<notin> set ks"
    using Cons.prems by auto
  have sl: "slide a b (edge_x v (int d) k) (edge_x v (int d) k - k) = (fur a b d k, fur a b d k - k)"
    using fur_run(2) [OF od] edge_reads [OF Cons.prems(1) od] by simp
  show ?case
  proof (cases "ends a b d k")
    case True
    then show ?thesis
      using sl by (simp add: ends_def Let_def)
  next
    case False
    then have step: "forward_k a b (int d) (k # ks) v =
        forward_k a b (int d) ks (v(k := fur a b d k))"
      using sl by (auto simp: ends_def Let_def)
    note IH = Cons.IH [OF reads_prev_upd [OF Cons.prems(1) od] ks(1,2), of "fur a b d k"]
    show ?thesis
    proof (cases "forward_k a b (int d) ks (v(k := fur a b d k))")
      case (Inl xy)
      then show ?thesis
        using IH unfolding step Inl by auto
    next
      case (Inr v')
      then show ?thesis
        using IH False ks(3) unfolding step Inr by simp
    qed
  qed
qed simp

definition rows :: "tok list \<Rightarrow> tok list \<Rightarrow> nat \<Rightarrow> int list list" where
  "rows a b d = map (\<lambda>d'. map (fur a b d') (k_range d')) [0..<d]"

lemma forward_spec:
  "reads_prev a b d v \<Longrightarrow> snap = rows a b d \<Longrightarrow> d \<le> length a + length b \<Longrightarrow>
   \<forall>d' < d. \<forall>k. on_diag d' k \<longrightarrow> \<not> ends a b d' k \<Longrightarrow>
   \<exists>df k. forward a b d v snap = Some (df, fur a b df k, fur a b df k - k, rows a b df) \<and>
     df \<le> length a + length b \<and> on_diag df k \<and> ends a b df k \<and>
     (\<forall>d' < df. \<forall>k. on_diag d' k \<longrightarrow> \<not> ends a b d' k)"
proof (induction a b d v snap rule: forward.induct)
  case (1 a b d v snap)
  note fk = forward_k_spec [OF "1.prems"(1) equalityD1 [OF set_k_range] distinct_k_range]
  show ?case
  proof (cases "forward_k a b (int d) (k_range d) v")
    case (Inl xy)
    then obtain k where "on_diag d k" "ends a b d k" "xy = (fur a b d k, fur a b d k - k)"
      using fk set_k_range by (cases xy) auto
    with Inl "1.prems" show ?thesis
      by (subst forward.simps) auto
  next
    case (Inr v')
    have v': "\<And>k. on_diag d k \<Longrightarrow> \<not> ends a b d k \<and> v' k = fur a b d k"
      "\<And>k. \<not> on_diag d k \<Longrightarrow> v' k = v k"
      using fk set_k_range [of d] unfolding Inr by auto
    have "d \<noteq> length a + length b"
      using ends_last v'(1) by blast
    then have le: "Suc d \<le> length a + length b"
      using "1.prems"(3) by simp
    have reads: "reads_prev a b (Suc d) v'"
      unfolding reads_prev_def
    proof (intro allI impI)
      fix k' assume "odd (k' + int (Suc d)) \<and>
        (- int (Suc d) < k' \<and> k' < int (Suc d) \<or> Suc d = 0 \<and> k' = 1)"
      then have "on_diag d k'"
        unfolding on_diag_def by auto
      then show "v' k' = prev_row a b (Suc d) k'"
        using v'(1) by (simp add: prev_row_def)
    qed
    have "map v' (k_range d) = map (fur a b d) (k_range d)"
      using v'(1) set_k_range [of d] by simp
    then have "snap @ [map v' (k_range d)] = rows a b (Suc d)"
      using "1.prems"(2) by (simp add: rows_def)
    moreover have "\<forall>d' < Suc d. \<forall>k. on_diag d' k \<longrightarrow> \<not> ends a b d' k"
      using "1.prems"(4) v'(1) by (auto simp: less_Suc_eq)
    moreover have "\<not> length a + length b < d"
      using le by simp
    ultimately obtain df k where
      "forward a b (Suc d) v' (snap @ [map v' (k_range d)]) =
         Some (df, fur a b df k, fur a b df k - k, rows a b df)"
      "df \<le> length a + length b" "on_diag df k" "ends a b df k"
      "\<forall>d' < df. \<forall>k. on_diag d' k \<longrightarrow> \<not> ends a b d' k"
      using "1.IH" [OF _ Inr reads _ le] by blast
    moreover have "forward a b d v snap = forward a b (Suc d) v' (snap @ [map v' (k_range d)])"
      using Inr le by (subst forward.simps) simp
    ultimately show ?thesis by auto
  qed
qed

text \<open>The forward search always succeeds and stops at the end of both sequences.\<close>

lemma forward_found:
  obtains df where
    "forward a b 0 (\<lambda>_. 0) [] = Some (df, int (length a), int (length b), rows a b df)"
    "df \<le> length a + length b" "on_diag df (int (length a) - int (length b))"
    "fur a b df (int (length a) - int (length b)) = int (length a)"
    "\<forall>d' < df. \<forall>k. on_diag d' k \<longrightarrow> \<not> ends a b d' k"
proof -
  have "reads_prev a b 0 (\<lambda>_. 0)"
    by (simp add: reads_prev_def prev_row_def)
  then obtain df k where f: "forward a b 0 (\<lambda>_. 0) [] =
        Some (df, fur a b df k, fur a b df k - k, rows a b df)"
      "df \<le> length a + length b" "on_diag df k" "ends a b df k"
      "\<forall>d' < df. \<forall>k. on_diag d' k \<longrightarrow> \<not> ends a b d' k"
    using forward_spec [of a b 0 "\<lambda>_. 0" "[]"] by (auto simp: rows_def)
  note ex = ends_exact [OF f(3,4,5)]
  then have "k = int (length a) - int (length b)"
    by simp
  with f ex that show thesis by auto
qed

subsection \<open>Edit scripts\<close>

fun runs :: "nat list \<Rightarrow> tok list \<Rightarrow> tok list \<Rightarrow> bool" where
  "runs [] a b = (a = [] \<and> b = [])"
| "runs (r # rs) a b =
     (if r = 0 then a \<noteq> [] \<and> b \<noteq> [] \<and> hd a = hd b \<and> runs rs (tl a) (tl b)
      else if r = 1 then a \<noteq> [] \<and> runs rs (tl a) b
      else b \<noteq> [] \<and> runs rs a (tl b))"

definition edits :: "nat list \<Rightarrow> nat" where
  "edits rs = length (filter (\<lambda>r. r \<noteq> 0) rs)"

lemma edits_append [simp]: "edits (r @ s) = edits r + edits s"
  by (simp add: edits_def)

lemma runs_append: "runs r a b \<Longrightarrow> runs s a' b' \<Longrightarrow> runs (r @ s) (a @ a') (b @ b')"
  by (induction r a b rule: runs.induct) (auto split: if_splits)

lemma runs_length: "runs r a b \<Longrightarrow> length r \<le> length a + length b \<and> length a \<le> length r + length b"
proof (induction r a b rule: runs.induct)
  case (2 r rs a b)
  then show ?case by (cases a; cases b) (auto split: if_splits)
qed simp

lemma runs_matches:
  "(\<forall>i < n. i < length a \<and> i < length b \<and> a ! i = b ! i) \<Longrightarrow>
   runs (replicate n 0) (take n a) (take n b)"
proof (induction n arbitrary: a b)
  case (Suc n)
  obtain x a' y b' where ab: "a = x # a'" "b = y # b'"
    using Suc.prems [rule_format, of 0] by (cases a; cases b) auto
  have "\<forall>i < n. i < length a' \<and> i < length b' \<and> a' ! i = b' ! i"
    using Suc.prems by (auto simp: ab dest: spec [of _ "Suc _"])
  then show ?case
    using Suc.IH Suc.prems [rule_format, of 0] by (simp add: ab)
qed simp

lemma runs_slide:
  assumes "runs s (take m a) (take l b)"
    and "\<forall>i < n. m + i < length a \<and> l + i < length b \<and> a ! (m + i) = b ! (l + i)"
  shows "runs (s @ replicate n 0) (take (m + n) a) (take (l + n) b)"
proof -
  have "runs (replicate n 0) (take n (drop m a)) (take n (drop l b))"
    using assms(2) by (intro runs_matches) auto
  from runs_append [OF assms(1) this] show ?thesis
    by (simp add: take_add)
qed

lemma runs_delete: "runs s (take m a) c \<Longrightarrow> m < length a \<Longrightarrow> runs (s @ [1]) (take (Suc m) a) c"
  using runs_append [of s "take m a" c "[1]" "[a ! m]" "[]"] by (simp add: take_Suc_conv_app_nth)

lemma runs_insert: "runs s c (take l b) \<Longrightarrow> l < length b \<Longrightarrow> runs (s @ [2]) c (take (Suc l) b)"
  using runs_append [of s c "take l b" "[2]" "[]" "[b ! l]"] by (simp add: take_Suc_conv_app_nth)


subsection \<open>The backtrace recovers a script\<close>

lemma snake_back_replicate:
  "snake_back (xe + int n) (ye + int n) xe ye raw = (xe, ye, raw @ replicate n 0)"
proof (induction n arbitrary: raw)
  case 0
  then show ?case by (simp add: snake_back.simps)
next
  case (Suc n)
  show ?case
    using Suc.IH [of "raw @ [0]"]
    by (subst snake_back.simps) (simp add: replicate_append_same [symmetric] algebra_simps)
qed

text \<open>One step back undoes the run of matches and the edit before it.\<close>

lemma back_step_fur:
  assumes od: "on_diag (Suc d) k"
    and n_def: "n = run_len a b (Suc d) k" and e_def: "e = edge a b (Suc d) k"
  shows "back_step (map (fur a b d) (k_range d)) (Suc d) (fur a b (Suc d) k, fur a b (Suc d) k - k, raw) =
     (if k = - int (Suc d) \<or> (k \<noteq> int (Suc d) \<and> fur a b d (k - 1) < fur a b d (k + 1))
      then (e, e - k - 1, raw @ replicate n 0 @ [2])
      else (e - 1, e - k, raw @ replicate n 0 @ [1]))"
proof -
  let ?row = "map (fur a b d) (k_range d)"
  have f: "fur a b (Suc d) k = e + int n"
    using fur_run(1) [OF od, of a b] by (simp add: n_def e_def)
  have snake: "snake_back (e + int n) (e + int n - k) e (e - k) raw = (e, e - k, raw @ replicate n 0)"
    using snake_back_replicate [of e n "e - k" raw] by (simp add: algebra_simps)
  show ?thesis
    using od
  proof (cases rule: edge_cases [where a = a and b = b])
    case down
    have kp: "?row ! nat ((k + 1 + int d) div 2) = fur a b d (k + 1)"
      by (rule k_range_nth [OF down(2)])
    have km: "?row ! nat ((k - 1 + int d) div 2) = fur a b d (k - 1)" if "k \<noteq> - int (Suc d)"
      by (rule k_range_nth [OF on_diag_right [OF od that]])
    have e: "e = fur a b d (k + 1)"
      using down(1) by (simp add: e_def)
    have "back_step ?row (Suc d) (e + int n, e + int n - k, raw) =
        (e, e - k - 1, raw @ replicate n 0 @ [2])"
      using down(3) kp km snake e by (auto simp: back_step_def Let_def algebra_simps)
    with down(3) f show ?thesis by simp
  next
    case right
    have km: "?row ! nat ((k - 1 + int d) div 2) = fur a b d (k - 1)"
      by (rule k_range_nth [OF right(2)])
    have kp: "?row ! nat ((k + 1 + int d) div 2) = fur a b d (k + 1)" if "k \<noteq> int (Suc d)"
      by (rule k_range_nth [OF on_diag_down [OF od that]])
    have e: "e = fur a b d (k - 1) + 1"
      using right(1) by (simp add: e_def)
    have "back_step ?row (Suc d) (e + int n, e + int n - k, raw) =
        (e - 1, e - k, raw @ replicate n 0 @ [1])"
      using right(3,4) kp km snake e by (auto simp: back_step_def Let_def algebra_simps)
    with right(3,4) f show ?thesis by auto
  qed
qed

lemma run_matches:
  assumes "on_diag d k" and "i < run_len a b d k"
  shows "nat (edge a b d k) + i < length a \<and> nat (edge a b d k - k) + i < length b \<and>
    a ! (nat (edge a b d k) + i) = b ! (nat (edge a b d k - k) + i)"
  using slide_len(2) [OF _ _ assms(2)] edge_nonneg [OF assms(1), of a b] by simp

lemma rows_nth: "d < df \<Longrightarrow> rows a b df ! d = map (fur a b d) (k_range d)"
  by (simp add: rows_def del: upt_Suc)

lemma runs_run:
  assumes od: "on_diag d k"
    and "runs s (take (nat (edge a b d k)) a) (take (nat (edge a b d k - k)) b)"
  shows "runs (s @ replicate (run_len a b d k) 0) (take (nat (fur a b d k)) a) (take (nat (fur a b d k - k)) b)"
proof -
  have "nat (fur a b d k) = nat (edge a b d k) + run_len a b d k"
    "nat (fur a b d k - k) = nat (edge a b d k - k) + run_len a b d k"
    using fur_run(1) [OF od, of a b] edge_nonneg [OF od, of a b] by auto
  with runs_slide [OF assms(2), of "run_len a b d k"] run_matches [OF od, of _ a b] show ?thesis
    by simp
qed

lemma backtrace_script:
  "on_diag d k \<Longrightarrow> d \<le> df \<Longrightarrow> fur a b d k \<le> int (length a) \<Longrightarrow> fur a b d k - k \<le> int (length b) \<Longrightarrow>
   \<exists>s x y raw1. backtrace (rows a b df) d (fur a b d k, fur a b d k - k, raw) = (x, y, raw1) \<and>
     snake_back x y 0 0 raw1 = (0, 0, raw @ rev s) \<and> edits s = d \<and>
     runs s (take (nat (fur a b d k)) a) (take (nat (fur a b d k - k)) b)"
proof (induction d arbitrary: k raw)
  case 0
  then have k: "k = 0" by simp
  let ?n = "run_len a b 0 0"
  have e: "edge a b 0 0 = 0"
    by (simp add: edge_x_def prev_row_def)
  then have f: "fur a b 0 0 = int ?n"
    using fur_run(1) [of 0 0 a b] by simp
  have "runs (replicate ?n 0) (take (nat (fur a b 0 0)) a) (take (nat (fur a b 0 0 - 0)) b)"
    using runs_run [of 0 0 "[]" a b] e by simp
  moreover have "snake_back (fur a b 0 0) (fur a b 0 0) 0 0 raw = (0, 0, raw @ replicate ?n 0)"
    using snake_back_replicate [of 0 ?n 0 raw] f by simp
  ultimately show ?case
    unfolding k by (intro exI [of _ "replicate ?n 0"]) (auto simp: edits_def)
next
  case (Suc d)
  let ?n = "run_len a b (Suc d) k" and ?e = "edge a b (Suc d) k"
  have f: "fur a b (Suc d) k = ?e + int ?n"
    using fur_run(1) [OF Suc.prems(1)] .
  have row: "rows a b df ! d = map (fur a b d) (k_range d)"
    using Suc.prems(2) by (simp add: rows_nth)
  show ?case
    using Suc.prems(1)
  proof (cases rule: edge_cases [where a = a and b = b])
    case down
    let ?raw1 = "raw @ replicate ?n 0 @ [2]"
    have ge: "0 \<le> fur a b d (k + 1) \<and> k + 1 \<le> fur a b d (k + 1)"
      using fur_nonneg [OF down(2), of a b] by simp
    have step: "backtrace (rows a b df) (Suc d) (fur a b (Suc d) k, fur a b (Suc d) k - k, raw) =
        backtrace (rows a b df) d (fur a b d (k + 1), fur a b d (k + 1) - (k + 1), ?raw1)"
      using back_step_fur [OF Suc.prems(1) refl refl, of a b raw] down row by (simp add: algebra_simps)
    obtain s x y raw1 where IH:
      "backtrace (rows a b df) d (fur a b d (k + 1), fur a b d (k + 1) - (k + 1), ?raw1) = (x, y, raw1)"
      "snake_back x y 0 0 raw1 = (0, 0, ?raw1 @ rev s)" "edits s = d"
      "runs s (take (nat (fur a b d (k + 1))) a) (take (nat (fur a b d (k + 1) - (k + 1))) b)"
      using Suc.IH [OF down(2), of ?raw1] Suc.prems(2,3,4) f down(1) by auto
    have "nat (?e - k) = Suc (nat (fur a b d (k + 1) - (k + 1)))"
      "nat (fur a b d (k + 1) - (k + 1)) < length b"
      using ge down(1) Suc.prems(4) f by auto
    then have "runs (s @ [2]) (take (nat ?e) a) (take (nat (?e - k)) b)"
      using runs_insert [OF IH(4)] down(1) by simp
    from runs_run [OF Suc.prems(1) this] show ?thesis
      using IH step
      by (intro exI [of _ "(s @ [2]) @ replicate ?n 0"] exI [of _ x] exI [of _ y] exI [of _ raw1])
        (simp add: edits_def)
  next
    case right
    let ?raw1 = "raw @ replicate ?n 0 @ [1]"
    have ge: "0 \<le> fur a b d (k - 1) \<and> k - 1 \<le> fur a b d (k - 1)"
      using fur_nonneg [OF right(2), of a b] by simp
    have step: "backtrace (rows a b df) (Suc d) (fur a b (Suc d) k, fur a b (Suc d) k - k, raw) =
        backtrace (rows a b df) d (fur a b d (k - 1), fur a b d (k - 1) - (k - 1), ?raw1)"
      using back_step_fur [OF Suc.prems(1) refl refl, of a b raw] right row by (auto simp: algebra_simps)
    obtain s x y raw1 where IH:
      "backtrace (rows a b df) d (fur a b d (k - 1), fur a b d (k - 1) - (k - 1), ?raw1) = (x, y, raw1)"
      "snake_back x y 0 0 raw1 = (0, 0, ?raw1 @ rev s)" "edits s = d"
      "runs s (take (nat (fur a b d (k - 1))) a) (take (nat (fur a b d (k - 1) - (k - 1))) b)"
      using Suc.IH [OF right(2), of ?raw1] Suc.prems(2,3,4) f right(1) by auto
    have "nat ?e = Suc (nat (fur a b d (k - 1)))" "nat (fur a b d (k - 1)) < length a"
      "nat (?e - k) = nat (fur a b d (k - 1) - (k - 1))"
      using ge right(1) Suc.prems(3) f by auto
    then have "runs (s @ [1]) (take (nat ?e) a) (take (nat (?e - k)) b)"
      using runs_delete [OF IH(4)] by simp
    from runs_run [OF Suc.prems(1) this] show ?thesis
      using IH step
      by (intro exI [of _ "(s @ [1]) @ replicate ?n 0"] exI [of _ x] exI [of _ y] exI [of _ raw1])
        (simp add: edits_def)
  qed
qed

subsection \<open>No script is shorter\<close>

lemma runs_snoc:
  "runs (s @ [r]) a b \<Longrightarrow>
   (if r = 0 then a \<noteq> [] \<and> b \<noteq> [] \<and> last a = last b \<and> runs s (butlast a) (butlast b)
    else if r = 1 then a \<noteq> [] \<and> runs s (butlast a) b
    else b \<noteq> [] \<and> runs s a (butlast b))"
proof (induction s a b rule: runs.induct)
  case (1 a b)
  then show ?case by (cases a; cases b) (auto split: if_splits)
next
  case (2 q s a b)
  have tl_ne: "runs (s @ [r]) xs ys \<Longrightarrow> r = 0 \<or> r = 1 \<Longrightarrow> xs \<noteq> []" for xs ys
    by (induction s xs ys rule: runs.induct) (auto split: if_splits)
  have tl_ne': "runs (s @ [r]) xs ys \<Longrightarrow> r \<noteq> 1 \<Longrightarrow> ys \<noteq> []" for xs ys
    by (induction s xs ys rule: runs.induct) (auto split: if_splits)
  show ?case
    using 2 tl_ne tl_ne' by (cases a; cases b) (auto split: if_splits)
qed

text \<open>No script of \<open>d\<close> edits reaches further on its diagonal than the search does.\<close>

lemma fur_furthest:
  "runs s (take x a) (take y b) \<Longrightarrow> x \<le> length a \<Longrightarrow> y \<le> length b \<Longrightarrow>
   on_diag (edits s) (int x - int y) \<and> int x \<le> fur a b (edits s) (int x - int y)"
proof (induction s arbitrary: x y rule: rev_induct)
  case Nil
  then show ?case
    using fur_nonneg [of 0 0 a b] by (auto simp: edits_def)
next
  case (snoc r s)
  note runs = runs_snoc [OF snoc.prems(1)]
  consider (zero) "r = 0" | (one) "r = 1" | (two) "r \<noteq> 0" "r \<noteq> 1" by blast
  then show ?case
  proof cases
    case zero
    then obtain x' y' where xy: "x = Suc x'" "y = Suc y'"
      using runs by (cases x; cases y) auto
    have eq: "a ! x' = b ! y'"
      using runs zero xy snoc.prems(2,3) by (auto simp: last_conv_nth min_def split: if_splits)
    have "runs s (take x' a) (take y' b)"
      using runs zero xy snoc.prems(2,3) by (simp add: butlast_take)
    then have IH: "on_diag (edits s) (int x' - int y')" "int x' \<le> fur a b (edits s) (int x' - int y')"
      using snoc.IH [of x' y'] xy snoc.prems(2,3) by auto
    let ?k = "int x' - int y'" and ?d = "edits s"
    have "fur a b ?d ?k \<noteq> int x'"
    proof
      assume fx: "fur a b ?d ?k = int x'"
      have "\<not> (fur a b ?d ?k < int (length a) \<and> fur a b ?d ?k - ?k < int (length b) \<and>
          a ! nat (fur a b ?d ?k) = b ! nat (fur a b ?d ?k - ?k))"
        using slide_len(3) [of "edge a b ?d ?k" "edge a b ?d ?k - ?k" a b]
          edge_nonneg [OF IH(1), of a b] fur_run(1) [OF IH(1), of a b] by (simp add: algebra_simps)
      then show False
        using eq xy snoc.prems(2,3) by (simp add: fx)
    qed
    then show ?thesis
      using IH zero xy by (simp add: edits_def)
  next
    case one
    then obtain x' where x: "x = Suc x'"
      using runs by (cases x) auto
    have "runs s (take x' a) (take y b)"
      using runs one x snoc.prems(2) by (simp add: butlast_take)
    then have IH: "on_diag (edits s) (int x' - int y)" "int x' \<le> fur a b (edits s) (int x' - int y)"
      using snoc.IH [of x' y] x snoc.prems(2,3) by auto
    have d: "on_diag (Suc (edits s)) (int x - int y)"
      using IH(1) x unfolding on_diag_def by auto
    moreover have "int x - int y - 1 = int x' - int y"
      using x by simp
    ultimately show ?thesis
      using fur_right [OF d, of a b] IH one x by (simp add: edits_def)
  next
    case two
    then obtain y' where y: "y = Suc y'"
      using runs by (cases y) auto
    have "runs s (take x a) (take y' b)"
      using runs two y snoc.prems(3) by (simp add: butlast_take)
    then have IH: "on_diag (edits s) (int x - int y')" "int x \<le> fur a b (edits s) (int x - int y')"
      using snoc.IH [of x y'] y snoc.prems(2,3) by auto
    have d: "on_diag (Suc (edits s)) (int x - int y)"
      using IH(1) y unfolding on_diag_def by auto
    moreover have "int x - int y + 1 = int x - int y'"
      using y by simp
    ultimately show ?thesis
      using fur_down [OF d, of a b] IH two y by (simp add: edits_def)
  qed
qed


subsection \<open>Applying the edits\<close>

text \<open>Edits in token units against the old sequence, from a position on.\<close>

fun patch_ops :: "nat \<Rightarrow> tok list \<Rightarrow> tok list \<Rightarrow> EditOp list \<Rightarrow> tok list" where
  "patch_ops pos old new [] = drop pos old"
| "patch_ops pos old new (op # ops) =
     take (start_tok op - pos) (drop pos old) @
     take (insert_tok op) (drop (insert_b_start op) new) @
     patch_ops (start_tok op + delete_tok op) old new ops"

text \<open>Edits in order that neither overlap nor touch.\<close>

fun ops_apart :: "nat \<Rightarrow> EditOp list \<Rightarrow> bool" where
  "ops_apart p [] = True"
| "ops_apart p (op # ops) =
     (p \<le> start_tok op \<and> 0 < delete_tok op + insert_tok op \<and>
      ops_apart (Suc (start_tok op + delete_tok op)) ops)"

lemma patch_ops_skip:
  "ops_apart (Suc p) ops \<Longrightarrow> p < length old \<Longrightarrow>
   patch_ops p old new ops = old ! p # patch_ops (Suc p) old new ops"
  by (cases ops) (auto simp: Cons_nth_drop_Suc [symmetric] Suc_diff_le [symmetric]
      Suc_le_eq take_Cons' split: if_splits)

lemma edit_run_spec:
  "edit_run rs del ins = (del', ins', rest) \<Longrightarrow> runs rs a b \<Longrightarrow>
   \<exists>dd ii. del' = del + dd \<and> ins' = ins + ii \<and> dd \<le> length a \<and> ii \<le> length b \<and>
     runs rest (drop dd a) (drop ii b) \<and> edits rs = dd + ii + edits rest \<and>
     length rs = dd + ii + length rest \<and> (rest = [] \<or> hd rest = 0)"
proof (induction rs del ins arbitrary: a b rule: edit_run.induct)
  case (1 del ins)
  then show ?case by (auto simp: edits_def)
next
  case (2 r rs del ins)
  consider (zero) "r = 0" | (one) "r = 1" | (two) "r \<noteq> 0" "r \<noteq> 1" by blast
  then show ?case
  proof cases
    case zero
    then show ?thesis
      using "2.prems" by (intro exI [of _ 0]) auto
  next
    case one
    then obtain x a' where a: "a = x # a'" "runs rs a' b"
      using "2.prems"(2) by (cases a) auto
    obtain dd ii where "del' = Suc del + dd" "ins' = ins + ii" "dd \<le> length a'" "ii \<le> length b"
      "runs rest (drop dd a') (drop ii b)" "edits rs = dd + ii + edits rest"
      "length rs = dd + ii + length rest" "rest = [] \<or> hd rest = 0"
      using "2.IH"(1) [of a' b] a(2) "2.prems"(1) one by auto
    then show ?thesis
      using one a(1) by (intro exI [of _ "Suc dd"] exI [of _ ii]) (simp add: edits_def)
  next
    case two
    then obtain y b' where b: "b = y # b'" "runs rs a b'"
      using "2.prems"(2) by (cases b) auto
    obtain dd ii where "del' = del + dd" "ins' = Suc ins + ii" "dd \<le> length a" "ii \<le> length b'"
      "runs rest (drop dd a) (drop ii b')" "edits rs = dd + ii + edits rest"
      "length rs = dd + ii + length rest" "rest = [] \<or> hd rest = 0"
      using "2.IH"(2) [of a b'] b(2) "2.prems"(1) two by auto
    then show ?thesis
      using two b(1) by (intro exI [of _ dd] exI [of _ "Suc ii"]) (simp add: edits_def)
  qed
qed

definition ops_size :: "EditOp list \<Rightarrow> nat" where
  "ops_size ops = sum_list (map (\<lambda>op. delete_tok op + insert_tok op) ops)"

lemma coalesce_apart:
  "runs rs a b \<Longrightarrow> ops_apart (ao + cx) (coalesce rs ao bo cx cy) \<and>
   (rs \<noteq> [] \<and> hd rs = 0 \<longrightarrow> ops_apart (Suc (ao + cx)) (coalesce rs ao bo cx cy)) \<and>
   ops_size (coalesce rs ao bo cx cy) = edits rs"
proof (induction rs ao bo cx cy arbitrary: a b rule: coalesce.induct)
  case (2 r rs ao bo cx cy)
  show ?case
  proof (cases "r = 0")
    case True
    have weaker: "ops_apart (Suc p) ops \<Longrightarrow> ops_apart p ops" for p ops
      by (cases ops) auto
    have "ops_apart (Suc (ao + cx)) (coalesce rs ao bo (Suc cx) (Suc cy)) \<and>
        ops_size (coalesce rs ao bo (Suc cx) (Suc cy)) = edits rs"
      using "2.IH"(1) [OF True, of "tl a" "tl b"] "2.prems" True by simp
    with True weaker show ?thesis by (simp add: edits_def)
  next
    case False
    obtain del ins rest where e: "edit_run (r # rs) 0 0 = (del, ins, rest)"
      by (metis prod_cases3)
    have sp: "runs rest (drop del a) (drop ins b)" "edits (r # rs) = del + ins + edits rest"
      "length (r # rs) = del + ins + length rest" "rest = [] \<or> hd rest = 0"
      using edit_run_spec [OF e "2.prems"] by auto
    have ne: "0 < del + ins"
      using e sp(3,4) False by (cases "del + ins = 0") (auto split: if_splits dest: edit_run_shorter)
    have IH: "ops_apart (ao + (cx + del)) (coalesce rest ao bo (cx + del) (cy + ins))"
      "rest \<noteq> [] \<and> hd rest = 0 \<longrightarrow>
         ops_apart (Suc (ao + (cx + del))) (coalesce rest ao bo (cx + del) (cy + ins))"
      "ops_size (coalesce rest ao bo (cx + del) (cy + ins)) = edits rest"
      using "2.IH"(2) [OF False e [symmetric] refl sp(1)] by auto
    have "ops_apart (Suc (ao + (cx + del))) (coalesce rest ao bo (cx + del) (cy + ins))"
      using IH(2) sp(4) by (cases "rest = []") auto
    with False e ne sp(2) IH(3) show ?thesis
      by (simp add: ops_size_def add.assoc)
  qed
qed (simp add: ops_size_def edits_def)

text \<open>The coalesced edits of a script turn the old sequence into the new one.\<close>

lemma coalesce_patch:
  "runs rs a b \<Longrightarrow> drop (ao + cx) old = a @ suf \<Longrightarrow> drop (bo + cy) new = b @ suf' \<Longrightarrow>
   patch_ops (ao + cx) old new (coalesce rs ao bo cx cy) = b @ suf"
proof (induction rs ao bo cx cy arbitrary: a b rule: coalesce.induct)
  case (2 r rs ao bo cx cy)
  show ?case
  proof (cases "r = 0")
    case True
    then obtain x a' b' where ab: "a = x # a'" "b = x # b'" "runs rs a' b'"
      using "2.prems"(1) by (cases a; cases b) auto
    have old: "drop (ao + cx) old = x # (a' @ suf)"
      using "2.prems"(2) ab(1) by simp
    have x: "old ! (ao + cx) = x"
      by (rule nth_via_drop [OF old])
    have lt: "ao + cx < length old"
      using old by (cases "ao + cx < length old") auto
    have d: "drop (ao + Suc cx) old = a' @ suf" "drop (bo + Suc cy) new = b' @ suf'"
      using "2.prems"(2,3) ab by (simp_all add: drop_Suc drop_tl)
    have "ops_apart (Suc (ao + cx)) (coalesce rs ao bo (Suc cx) (Suc cy))"
      using coalesce_apart [OF ab(3), of ao "Suc cx"] by simp
    then show ?thesis
      using "2.IH"(1) [OF True ab(3) d] True patch_ops_skip [OF _ lt] x ab(2) by simp
  next
    case False
    obtain del ins rest where e: "edit_run (r # rs) 0 0 = (del, ins, rest)"
      by (metis prod_cases3)
    have sp: "runs rest (drop del a) (drop ins b)" "del \<le> length a" "ins \<le> length b"
      using edit_run_spec [OF e "2.prems"(1)] by auto
    have "drop (ao + (cx + del)) old = drop del (drop (ao + cx) old)"
      "drop (bo + (cy + ins)) new = drop ins (drop (bo + cy) new)"
      by (simp_all add: ac_simps)
    then have d: "drop (ao + (cx + del)) old = drop del a @ suf"
      "drop (bo + (cy + ins)) new = drop ins b @ suf'"
      using "2.prems"(2,3) sp(2,3) by simp_all
    have rec: "patch_ops (ao + (cx + del)) old new (coalesce rest ao bo (cx + del) (cy + ins)) =
        drop ins b @ suf"
      by (rule "2.IH"(2) [OF False e [symmetric] refl sp(1) d])
    have "take ins (drop (bo + cy) new) = take ins b"
      using "2.prems"(3) sp(3) by simp
    then have "patch_ops (ao + cx) old new (coalesce (r # rs) ao bo cx cy) = take ins b @ drop ins b @ suf"
      using False e rec by (simp add: add.assoc)
    then show ?thesis
      by (simp only: append_assoc [symmetric] append_take_drop_id)
  qed
qed simp


subsection \<open>The whole difference\<close>

lemma runs_no_edits: "runs s a b \<Longrightarrow> edits s = 0 \<Longrightarrow> a = b"
  by (induction s a b rule: runs.induct)
    (auto simp: edits_def split: if_splits intro: list.expand)

lemma myers_script:
  obtains df s where
    "forward a b 0 (\<lambda>_. 0) [] = Some (df, int (length a), int (length b), rows a b df)"
    "case backtrace (rows a b df) df (int (length a), int (length b), []) of
       (x, y, raw) \<Rightarrow> snake_back x y 0 0 raw = (0, 0, rev s)"
    "runs s a b" "edits s = df" "\<And>s'. runs s' a b \<Longrightarrow> df \<le> edits s'"
proof -
  let ?k = "int (length a) - int (length b)"
  obtain df where f: "forward a b 0 (\<lambda>_. 0) [] = Some (df, int (length a), int (length b), rows a b df)"
    "on_diag df ?k" "fur a b df ?k = int (length a)"
    "\<forall>d' < df. \<forall>k. on_diag d' k \<longrightarrow> \<not> ends a b d' k"
    using forward_found [of a b] by metis
  obtain s x y raw where s: "backtrace (rows a b df) df (int (length a), int (length b), []) = (x, y, raw)"
    "snake_back x y 0 0 raw = (0, 0, rev s)" "edits s = df" "runs s a b"
    using backtrace_script [OF f(2) order_refl, of a b "[]"] f(3) by auto
  have "df \<le> edits s'" if "runs s' a b" for s'
  proof -
    have "on_diag (edits s') ?k" "ends a b (edits s') ?k"
      using fur_furthest [of s' "length a" a "length b" b] that by (auto simp: ends_def)
    then show ?thesis
      using f(4) not_le by blast
  qed
  with that f(1) s show thesis by auto
qed

lemma ops_apart_weaken: "ops_apart p ops \<Longrightarrow> q \<le> p \<Longrightarrow> ops_apart q ops"
  by (cases ops) auto

lemma patch_ops_from:
  "ops_apart p ops \<Longrightarrow> p \<le> length old \<Longrightarrow>
   patch_ops 0 old new ops = take p old @ patch_ops p old new ops"
proof (cases ops)
  case (Cons op ops')
  assume "ops_apart p ops"
  then have "start_tok op = p + (start_tok op - p)"
    using Cons by simp
  then have "take (start_tok op) old = take p old @ take (start_tok op - p) (drop p old)"
    by (metis take_add)
  with Cons show ?thesis by simp
qed simp

lemma myers_diff_run_spec:
  assumes "length pre = p"
  shows "patch_ops 0 (pre @ a @ suf) (pre @ b @ suf) (myers_diff_run a b p p) = pre @ b @ suf \<and>
    ops_apart p (myers_diff_run a b p p) \<and>
    (length a + length b \<le> D_BOUND \<longrightarrow>
       (\<forall>s. runs s a b \<longrightarrow> ops_size (myers_diff_run a b p p) \<le> edits s))"
proof -
  let ?old = "pre @ a @ suf" and ?new = "pre @ b @ suf" and ?ops = "myers_diff_run a b p p"
  have "patch_ops p ?old ?new ?ops = b @ suf \<and> ops_apart p ?ops \<and>
    (length a + length b \<le> D_BOUND \<longrightarrow> (\<forall>s. runs s a b \<longrightarrow> ops_size ?ops \<le> edits s))"
  proof (cases "a = [] \<or> b = [] \<or> D_BOUND < length a + length b")
    case True
    have "ops_size ?ops \<le> edits s" if "runs s a b" "length a + length b \<le> D_BOUND" for s
    proof -
      have "runs s a b \<Longrightarrow> a = [] \<or> b = [] \<Longrightarrow> length a + length b \<le> edits s" for a b
        by (induction s a b rule: runs.induct) (auto simp: edits_def split: if_splits)
      with that True show ?thesis
        by (auto simp: myers_diff_run_def ops_size_def)
    qed
    with True assms show ?thesis
      by (auto simp: myers_diff_run_def)
  next
    case False
    obtain df s where m: "forward a b 0 (\<lambda>_. 0) [] = Some (df, int (length a), int (length b), rows a b df)"
      "case backtrace (rows a b df) df (int (length a), int (length b), []) of
         (x, y, raw) \<Rightarrow> snake_back x y 0 0 raw = (0, 0, rev s)"
      "runs s a b" "edits s = df" "\<And>s'. runs s' a b \<Longrightarrow> df \<le> edits s'"
      using myers_script [of a b] by blast
    show ?thesis
    proof (cases "df = 0")
      case True
      then have "?ops = []"
        using False m(1) by (simp add: myers_diff_run_def)
      moreover have "a = b"
        using runs_no_edits m(3,4) True by blast
      ultimately show ?thesis
        using assms by (simp add: ops_size_def)
    next
      case df: False
      obtain x y raw where bt: "backtrace (rows a b df) df (int (length a), int (length b), []) = (x, y, raw)"
        by (metis prod_cases3)
      then have sb: "snake_back x y 0 0 raw = (0, 0, rev s)"
        using m(2) by simp
      have ops: "?ops = coalesce s p p 0 0"
        using False df m(1) bt sb by (simp add: myers_diff_run_def coalesce_edit_ops_def)
      have "patch_ops (p + 0) ?old ?new (coalesce s p p 0 0) = b @ suf"
        using m(3) assms by (intro coalesce_patch) auto
      then show ?thesis
        using coalesce_apart [OF m(3), of p 0 p 0] m(4,5) unfolding ops by simp
    qed
  qed
  then show ?thesis
    using patch_ops_from [of p ?ops ?old ?new] assms by simp
qed

lemma common_prefix_spec:
  "common_prefix xs ys \<le> length xs \<and> common_prefix xs ys \<le> length ys \<and>
   take (common_prefix xs ys) xs = take (common_prefix xs ys) ys"
  by (induction xs ys rule: common_prefix.induct) (auto simp: tokens_equal_def)

lemma trim_suffix:
  assumes "s = common_prefix (rev xs) (rev ys)"
  obtains suf where "xs = take (length xs - s) xs @ suf" "ys = take (length ys - s) ys @ suf"
proof -
  have "s \<le> length xs" "s \<le> length ys" "take s (rev xs) = take s (rev ys)"
    using common_prefix_spec [of "rev xs" "rev ys"] assms by auto
  then have "drop (length xs - s) xs = drop (length ys - s) ys"
    by (simp add: take_rev)
  with that [of "drop (length xs - s) xs"] show thesis
    by (metis append_take_drop_id)
qed

subsection \<open>Flat buffers\<close>

fun apply_sem_edits :: "nat \<Rightarrow> u32 list \<Rightarrow> sem_edit list \<Rightarrow> u32 list" where
  "apply_sem_edits pos old [] = drop pos old"
| "apply_sem_edits pos old (e # es) =
     take (ed_start e - pos) (drop pos old) @ ed_data e @
     apply_sem_edits (ed_start e + ed_deleteCount e) old es"

lemma concat_tok_at: "m \<le> k \<Longrightarrow> concat (map (tok_at buf) [m..<k]) = take (5 * (k - m)) (drop (5 * m) buf)"
proof (induction k)
  case (Suc k)
  show ?case
  proof (cases "m = Suc k")
    case False
    then have "m \<le> k" using Suc.prems by simp
    then have "concat (map (tok_at buf) [m..<Suc k]) =
        take (5 * (k - m)) (drop (5 * m) buf) @ take 5 (drop (5 * k) buf)"
      using Suc.IH by (simp add: tok_at_def [of buf k])
    also have "\<dots> = take (5 * (k - m) + 5) (drop (5 * m) buf)"
      using \<open>m \<le> k\<close> by (simp add: take_add add_mult_distrib2 [symmetric])
    also have "5 * (k - m) + 5 = 5 * (Suc k - m)"
      using \<open>m \<le> k\<close> by (simp add: Suc_diff_le)
    finally show ?thesis .
  qed simp
qed simp

lemma take_upt_min: "take n [m..<l] = [m..<min (m + n) l]"
  by (rule nth_equalityI) auto

lemma tokens_of_slice:
  assumes "5 dvd length buf"
  shows "concat (take n (drop m (tokens_of buf))) = take (5 * n) (drop (5 * m) buf)"
proof -
  obtain l where l: "length buf = 5 * l"
    using assms by (auto elim: dvdE)
  have "take n (drop m (tokens_of buf)) = map (tok_at buf) [m..<min (m + n) l]"
    by (simp add: tokens_of_def take_map drop_map l take_upt_min)
  also have "concat \<dots> = take (5 * (min (m + n) l - m)) (drop (5 * m) buf)"
    using concat_tok_at [of m "min (m + n) l" buf] l by (cases "m \<le> min (m + n) l") auto
  also have "\<dots> = take (5 * n) (drop (5 * m) buf)"
    by (cases "m + n \<le> l") (auto simp: l min_def)
  finally show ?thesis .
qed

lemma tokens_of_drop: "5 dvd length buf \<Longrightarrow> concat (drop m (tokens_of buf)) = drop (5 * m) buf"
  using tokens_of_slice [of buf "length buf" m]
  by (simp add: tokens_of_def)

lemma apply_build_edits:
  assumes "5 dvd length old" and "5 dvd length new"
  shows "apply_sem_edits (5 * pos) old (map (\<lambda>op. build_edit_json op new) ops) =
    concat (patch_ops pos (tokens_of old) (tokens_of new) ops)"
proof (induction ops arbitrary: pos)
  case Nil
  then show ?case
    by (simp add: tokens_of_drop [OF assms(1)])
next
  case (Cons op ops)
  have e: "ed_start (build_edit_json op new) + ed_deleteCount (build_edit_json op new) =
      5 * (start_tok op + delete_tok op)"
    "ed_start (build_edit_json op new) - 5 * pos = 5 * (start_tok op - pos)"
    "ed_data (build_edit_json op new) =
       take (5 * insert_tok op) (drop (5 * insert_b_start op) new)"
    by (simp_all add: build_edit_json_def mult.commute add_mult_distrib2)
  then show ?case
    using tokens_of_slice [OF assms(1)] tokens_of_slice [OF assms(2)]
    unfolding list.map apply_sem_edits.simps patch_ops.simps e Cons.IH by simp
qed


lemma delta_applies:
  assumes "5 dvd length old" and "5 dvd length new"
  shows "apply_sem_edits 0 old (build_semantic_tokens_delta old new) = new"
proof -
  let ?prev = "tokens_of old" and ?new = "tokens_of new"
  let ?p = "common_prefix ?prev ?new"
  let ?s = "common_prefix (rev (drop ?p ?prev)) (rev (drop ?p ?new))"
  let ?a = "take (length ?prev - ?p - ?s) (drop ?p ?prev)"
  let ?b = "take (length ?new - ?p - ?s) (drop ?p ?new)"
  have p: "?p \<le> length ?prev" "?p \<le> length ?new" "take ?p ?prev = take ?p ?new"
    using common_prefix_spec [of ?prev ?new] by auto
  obtain suf where suf: "drop ?p ?prev = ?a @ suf" "drop ?p ?new = ?b @ suf"
    using trim_suffix [OF refl, of "drop ?p ?prev" "drop ?p ?new"] by (auto simp: length_drop)
  have "?prev = take ?p ?prev @ ?a @ suf" "?new = take ?p ?prev @ ?b @ suf"
    using suf p(3) append_take_drop_id by metis+
  moreover have "length (take ?p ?prev) = ?p"
    using p(1) by simp
  ultimately have "patch_ops 0 ?prev ?new (myers_diff_run ?a ?b ?p ?p) = ?new"
    using myers_diff_run_spec [of "take ?p ?prev" ?p ?a suf ?b] by metis
  then show ?thesis
    using apply_build_edits [OF assms, of 0] tokens_of_drop [OF assms(2), of 0]
    by (simp add: build_semantic_tokens_delta_def Let_def)
qed

text \<open>A difference and the way a client applies it.  Following the differences between
  consecutive versions, the client always holds the last one.\<close>

locale delta_protocol =
  fixes diff :: "'b \<Rightarrow> 'b \<Rightarrow> 'd" and patch :: "'b \<Rightarrow> 'd \<Rightarrow> 'b" and valid :: "'b \<Rightarrow> bool"
  assumes patch_diff: "valid x \<Longrightarrow> valid y \<Longrightarrow> patch x (diff x y) = y"
begin

lemma session:
  "valid x \<Longrightarrow> list_all valid ys \<Longrightarrow>
   foldl (\<lambda>c (o', n). patch c (diff o' n)) x (zip (x # ys) ys) = last (x # ys)"
proof (induction ys arbitrary: x)
  case (Cons y ys)
  then show ?case
    by (simp add: patch_diff)
qed simp

end

interpretation delta: delta_protocol build_semantic_tokens_delta "apply_sem_edits 0"
    "\<lambda>b. 5 dvd length b"
  by unfold_locales (rule delta_applies)

subsection \<open>Result ids\<close>

lemma is_digit_char: "n < 10 \<Longrightarrow> is_digit (char_of (48 + n :: nat))"
  by (simp add: is_digit_def)

lemma dec_u64_rev_digits: "list_all is_digit (dec_u64_rev n)"
proof (induction n rule: dec_u64_rev.induct)
  case (1 n)
  then show ?case
    by (subst dec_u64_rev.simps) (simp add: is_digit_char)
qed

lemma dec_u64_rev_value: "dec_value (rev (dec_u64_rev n)) = n"
proof (induction n rule: dec_u64_rev.induct)
  case (1 n)
  have "n mod 10 < 10" by simp
  with 1 show ?case
    by (subst dec_u64_rev.simps) (auto simp: dec_value_snoc dec_value_def [of "[]"])
qed

lemma result_id_digits:
  "sem_tokens_result_id s \<noteq> [] \<and> list_all is_digit (sem_tokens_result_id s) \<and>
   dec_value (sem_tokens_result_id s) = unat (doc_version s)"
proof (cases "doc_version s = 0")
  case True
  then show ?thesis
    by (simp add: sem_tokens_result_id_def is_digit_def dec_value_def)
next
  case False
  then have "dec_u64_rev (unat (doc_version s)) \<noteq> []"
    by (subst dec_u64_rev.simps) (simp add: unat_eq_0)
  with False show ?thesis
    using dec_u64_rev_digits [of "unat (doc_version s)"]
    by (simp add: sem_tokens_result_id_def dec_u64_rev_value list_all_iff)
qed

lemma strtoull_digits:
  assumes "s \<noteq> []" and "list_all is_digit s" and "dec_value s < 2 ^ 64"
  shows "strtoull s = of_nat (dec_value s)"
proof -
  obtain c cs where s: "s = c # cs" using assms(1) by (cases s) auto
  then have "is_digit c" using assms(2) by simp
  then have "\<not> isspace c" "c \<noteq> CHR ''-''" "c \<noteq> CHR ''+''"
    by (auto simp: is_digit_def isspace_def)
  moreover have "takeWhile is_digit s = s"
    using assms(2) by (simp add: takeWhile_eq_all_conv list_all_iff)
  ultimately show ?thesis
    using assms(3) s by (simp add: strtoull_def Let_def)
qed

lemma strtoull_result_id: "strtoull (sem_tokens_result_id s) = doc_version s"
  using result_id_digits [of s] strtoull_digits [of "sem_tokens_result_id s"]
    unsigned_less [of "doc_version s", where 'a = nat] by simp

definition client_apply :: "u32 list \<Rightarrow> sem_response \<Rightarrow> u32 list" where
  "client_apply buf r = (case r of
     NullResult \<Rightarrow> buf | FullResult i d \<Rightarrow> d | DeltaResult i es \<Rightarrow> apply_sem_edits 0 buf es)"

definition response_id :: "sem_response \<Rightarrow> string option" where
  "response_id r = (case r of
     NullResult \<Rightarrow> None | FullResult i d \<Rightarrow> Some i | DeltaResult i es \<Rightarrow> Some i)"

lemma snap_tokens_dvd: "5 dvd length (snap_tokens s)"
  by (simp add: snap_tokens_def compute_dvd)

subsection \<open>Properties\<close>

text \<open>A client that applies, one after the other, the deltas between the token arrays of
  successive parses of a document holds the array of the last parse.\<close>

theorem semantic_delta_session:
  "foldl (\<lambda>c (prev, next). apply_sem_edits 0 c (build_semantic_tokens_delta prev next))
     (compute_semantic_tokens_data spans)
     (zip (map compute_semantic_tokens_data (spans # parses)) (map compute_semantic_tokens_data parses)) =
   last (map compute_semantic_tokens_data (spans # parses))"
  using delta.session [of "compute_semantic_tokens_data spans" "map compute_semantic_tokens_data parses"]
  by (simp add: compute_dvd list_all_iff)

text \<open>C8: The edits Myers' search produces for the part between the common prefix and suffix turn
  the old sequence into the new one, are in order, neither overlap nor touch, and, below the
  size bound, delete and insert as few tokens as any edit script can.\<close>

theorem myers_diff_minimal:
  "patch_ops 0 (pre @ a @ suf) (pre @ b @ suf) (myers_diff_run a b (length pre) (length pre)) =
     pre @ b @ suf \<and>
   ops_apart (length pre) (myers_diff_run a b (length pre) (length pre)) \<and>
   (length a + length b \<le> D_BOUND \<longrightarrow> runs s a b \<longrightarrow>
      ops_size (myers_diff_run a b (length pre) (length pre)) \<le> edits s)"
  using myers_diff_run_spec [OF refl, of pre a suf b] by blast

definition ex_tok :: "nat \<Rightarrow> tok" where
  "ex_tok n = [of_nat n, 0, 1, 0, 0]"

theorem myers_diff_minimal_witness:
  "ops_size (myers_diff_run (map ex_tok [1, 2, 3]) (map ex_tok [2, 3, 4]) 0 0) \<le> 2"
proof -
  have "runs [1, 0, 0, 2] (map ex_tok [1, 2, 3]) (map ex_tok [2, 3, 4])"
    by simp
  moreover have "length (map ex_tok [1, 2, 3]) + length (map ex_tok [2, 3, 4]) \<le> D_BOUND"
    by (simp add: D_BOUND_def)
  moreover have "edits [1, 0, 0, 2] = 2"
    by (simp add: edits_def)
  ultimately show ?thesis
    using myers_diff_minimal [of "[]" "map ex_tok [1, 2, 3]" "[]" "map ex_tok [2, 3, 4]" "[1, 0, 0, 2]"]
    by simp
qed

text \<open>The arrays of the backward search stay in bounds: the search stops at a distance of at
  most \<open>na + nb\<close> with one row of diagonals for every smaller distance, and the recorded steps fit
  in \<open>na + nb\<close> cells, one edit at most per distance.\<close>

theorem myers_search_bounds:
  "\<exists>d_found snap x y raw.
     forward a b 0 (\<lambda>_. 0) [] = Some (d_found, int (length a), int (length b), snap) \<and>
     d_found \<le> length a + length b \<and> map length snap = map Suc [0..<d_found] \<and>
     snake_back (fst (backtrace snap d_found (int (length a), int (length b), [])))
       (fst (snd (backtrace snap d_found (int (length a), int (length b), [])))) 0 0
       (snd (snd (backtrace snap d_found (int (length a), int (length b), [])))) = (x, y, raw) \<and>
     x = 0 \<and> y = 0 \<and> length raw \<le> length a + length b \<and>
     length (coalesce_edit_ops raw p q) \<le> d_found"
proof -
  obtain df s where m: "forward a b 0 (\<lambda>_. 0) [] = Some (df, int (length a), int (length b), rows a b df)"
    "case backtrace (rows a b df) df (int (length a), int (length b), []) of
       (x, y, raw) \<Rightarrow> snake_back x y 0 0 raw = (0, 0, rev s)"
    "runs s a b" "edits s = df"
    using myers_script [of a b] by metis
  have ops: "length ops \<le> ops_size ops" if "ops_apart c ops" for c ops
    using that by (induction c ops rule: ops_apart.induct) (auto simp: ops_size_def)
  have df: "df \<le> length a + length b"
    using forward_found [of a b] m(1) by (metis option.inject prod.inject)
  have "map length (rows a b df) = map Suc [0..<df]"
    by (simp add: rows_def k_range_def)
  moreover have "length (rev s) \<le> length a + length b"
    using runs_length [OF m(3)] by simp
  moreover have "length (coalesce_edit_ops (rev s) p q) \<le> df"
    using ops coalesce_apart [OF m(3), of p 0 q 0] m(4) by (simp add: coalesce_edit_ops_def) metis
  ultimately show ?thesis
    using m(1,2) df by (intro exI [of _ df] exI [of _ "rows a b df"] exI [of _ 0] exI [of _ 0]
        exI [of _ "rev s"]) (auto split: prod.splits)
qed


text \<open>C9: If the client holds the array of the snapshot its \<open>previousResultId\<close> names (whenever that
  is the current snapshot or the one before), the delta response leaves it with the array of the
  current snapshot, and carries an id that reads back as the current version.\<close>

theorem delta_request_updates_client:
  assumes "memo_ok snap" and "\<forall>p. prev_snap = Some p \<longrightarrow> memo_ok p"
    and "\<forall>s. (s = snap \<or> prev_snap = Some s) \<and> strtoull r = doc_version s \<longrightarrow> buf = snap_tokens s"
  shows "client_apply buf (handle_semantic_tokens_full_delta (Some r) prev_snap (Some snap)) =
      snap_tokens snap \<and>
    map_option strtoull
      (response_id (handle_semantic_tokens_full_delta (Some r) prev_snap (Some snap))) =
      Some (doc_version snap)"
proof -
  have patch: "apply_sem_edits 0 (snap_tokens s) (build_semantic_tokens_delta (snap_tokens s) (snap_tokens snap)) =
      snap_tokens snap" for s
    by (rule delta.patch_diff) (rule snap_tokens_dvd)+
  have cur: "fst (docsnap_sem_tokens snap) = snap_tokens snap"
    using assms(1) by (simp add: docsnap_sem_tokens_ok)
  have prev: "fst (docsnap_sem_tokens p) = snap_tokens p" if "prev_snap = Some p" for p
    using assms(2) that by (simp add: docsnap_sem_tokens_ok)
  show ?thesis
    using assms(3) patch cur prev
    by (auto simp: handle_semantic_tokens_full_delta_def client_apply_def response_id_def Let_def
        strtoull_result_id split: option.splits)
qed

theorem delta_request_updates_client_witness:
  "client_apply (snap_tokens example_snap)
     (handle_semantic_tokens_full_delta (Some ''1'') (Some example_snap)
       (Some (example_snap \<lparr> doc_version := 2, snap_tok_spans := [] \<rparr>))) = []"
proof -
  let ?new = "example_snap \<lparr> doc_version := 2, snap_tok_spans := [] \<rparr>"
  have v: "doc_version example_snap = 1" "sem_memo ?new = None" "memo_ok example_snap"
    by (simp_all add: example_snap_def docsnap_new_def memo_ok_def)
  have "strtoull ''1'' = 1"
    using strtoull_digits [of "''1''"] by (simp add: is_digit_def dec_value_def)
  then have "client_apply (snap_tokens example_snap)
      (handle_semantic_tokens_full_delta (Some ''1'') (Some example_snap) (Some ?new)) = snap_tokens ?new"
    using v by (intro delta_request_updates_client [THEN conjunct1]) (auto simp: memo_ok_def)
  then show ?thesis
    by (simp add: snap_tokens_def compute_semantic_tokens_data_def sem_start_def)
qed

end
