(* ===== verification/Project_Tree.thy ===== *)
theory Project_Tree
  imports Syntax_Tree
begin

text \<open>
  The assembled tree of a project (\<open>src/src/project_tree.c\<close>, \<open>project_tree.h\<close>): copies of the
  declarations of its documents, navigation by dotted ids within one namespace, and the resolution
  of \<open>depends\<close> and \<open>precedes\<close> references with its memo cells.  Node pointers are paths from the
  root; the atomic memo cells of all dependencies are one map from (owner, index).
\<close>

record pn_info =
  pn_keyword :: nat
  pn_id :: "string option"
  pn_name :: "string option"
  pn_range :: LspRange
  pn_selection_range :: LspRange
  source_uri :: "string option"
  pn_dependencies :: "Dependency list"

datatype ProjectNode = PNode (pinfo: pn_info) (pchildren: "ProjectNode list")

definition project_root_new :: ProjectNode where
  "project_root_new = PNode \<lparr> pn_keyword = 0, pn_id = None, pn_name = None, pn_range = zero_range,
     pn_selection_range = zero_range, source_uri = None, pn_dependencies = [] \<rparr> []"

definition project_node_append_child :: "ProjectNode \<Rightarrow> ProjectNode \<Rightarrow> ProjectNode" where
  "project_node_append_child parent child = PNode (pinfo parent) (pchildren parent @ [child])"

fun project_node_from_tj :: "tj_node \<Rightarrow> string option \<Rightarrow> ProjectNode" where
  "project_node_from_tj (TjNode i cs) uri =
     PNode \<lparr> pn_keyword = keyword i, pn_id = node_id i, pn_name = node_name i,
             pn_range = node_range i, pn_selection_range = selection_range i, source_uri = uri,
             pn_dependencies = dependencies i \<rparr>
       (map (\<lambda>c. project_node_from_tj c uri) cs)"

fun pnode_at :: "ProjectNode \<Rightarrow> path \<Rightarrow> ProjectNode option" where
  "pnode_at n [] = Some n"
| "pnode_at n (i # p) = (if i < length (pchildren n) then pnode_at (pchildren n ! i) p else None)"

text \<open>Appending below the node at a path.\<close>

fun append_at :: "ProjectNode \<Rightarrow> path \<Rightarrow> ProjectNode \<Rightarrow> ProjectNode" where
  "append_at n [] child = project_node_append_child n child"
| "append_at n (i # p) child =
     PNode (pinfo n) ((pchildren n)[i := append_at (pchildren n ! i) p child])"

subsection \<open>Resolution\<close>

definition split_dotted_path :: "string \<Rightarrow> string list" where
  "split_dotted_path p = strtok_all (CHR ''.'') p"

definition is_task :: "string \<Rightarrow> ProjectNode \<Rightarrow> bool" where
  "is_task i c = (pn_keyword (pinfo c) = KW_TASK \<and> pn_id (pinfo c) = Some i)"

text \<open>The first child with a property, by its index.\<close>

definition find_child :: "(ProjectNode \<Rightarrow> bool) \<Rightarrow> ProjectNode \<Rightarrow> nat option" where
  "find_child P parent = List.find (\<lambda>i. P (pchildren parent ! i)) [0..<length (pchildren parent)]"

definition child_task :: "ProjectNode \<Rightarrow> string \<Rightarrow> nat option" where
  "child_task parent i = find_child (is_task i) parent"

fun walk_tasks :: "ProjectNode \<Rightarrow> string list \<Rightarrow> path option" where
  "walk_tasks n [] = Some []"
| "walk_tasks n (s # segs) =
     (case child_task n s of
        None \<Rightarrow> None
      | Some i \<Rightarrow> map_option (\<lambda>q. i # q) (walk_tasks (pchildren n ! i) segs))"

definition find_task :: "ProjectNode \<Rightarrow> string list \<Rightarrow> path option" where
  "find_task n segs = (if segs = [] then None else walk_tasks n segs)"

text \<open>One level up per bang; the root (keyword 0) and a missing parent escape.\<close>

fun climb :: "ProjectNode \<Rightarrow> path \<Rightarrow> nat \<Rightarrow> path option" where
  "climb root p 0 = Some p"
| "climb root p (Suc b) =
     (if p = [] then None
      else (case pnode_at root (butlast p) of
              None \<Rightarrow> None
            | Some parent \<Rightarrow>
                if pn_keyword (pinfo parent) = 0 then None else climb root (butlast p) b))"

definition resolve_dependency :: "ProjectNode \<Rightarrow> path \<Rightarrow> Dependency \<Rightarrow> path option" where
  "resolve_dependency root owner dep =
     (let segs = split_dotted_path (dep_path dep) in
      if segs = [] then None
      else if bang_count dep = 0 then find_task root segs
      else (case climb root owner (bang_count dep) of
              None \<Rightarrow> None
            | Some ancestor \<Rightarrow>
                (case pnode_at root ancestor of
                   None \<Rightarrow> None
                 | Some a \<Rightarrow> map_option (\<lambda>q. ancestor @ q) (find_task a segs))))"

text \<open>A memo cell: None is \<open>PROJECT_DEP_UNRESOLVED\<close>, \<open>Some None\<close> is \<open>PROJECT_DEP_RESOLVED_NULL\<close>.\<close>

type_synonym dep_memo = "path \<times> nat \<Rightarrow> path option option"

definition memo_unresolved :: dep_memo where
  "memo_unresolved = (\<lambda>_. None)"

definition project_dep_resolve ::
  "ProjectNode \<Rightarrow> path \<Rightarrow> nat \<Rightarrow> dep_memo \<Rightarrow> path option \<times> dep_memo" where
  "project_dep_resolve root owner dep_index memo =
     (case memo (owner, dep_index) of
        Some cached \<Rightarrow> (cached, memo)
      | None \<Rightarrow>
          (let resolved = (case pnode_at root owner of
                             None \<Rightarrow> None
                           | Some o_node \<Rightarrow>
                               resolve_dependency root owner
                                 (pn_dependencies (pinfo o_node) ! dep_index)) in
           (resolved, memo((owner, dep_index) := Some resolved))))"

subsection \<open>Namespaces\<close>

datatype NodeKind =
  NODE_KIND_TASK | NODE_KIND_ACCOUNT | NODE_KIND_RESOURCE | NODE_KIND_REPORT | NODE_KIND_OTHER

definition node_kind_of :: "nat \<Rightarrow> NodeKind" where
  "node_kind_of kw =
     (if kw = KW_TASK then NODE_KIND_TASK
      else if kw = KW_ACCOUNT then NODE_KIND_ACCOUNT
      else if kw = KW_RESOURCE \<or> kw = KW_SHIFT then NODE_KIND_RESOURCE
      else if kw = KW_PROJECT then NODE_KIND_OTHER
      else NODE_KIND_REPORT)"

fun walk_kind :: "NodeKind \<Rightarrow> ProjectNode \<Rightarrow> string list \<Rightarrow> path option" where
  "walk_kind kind n [] = Some []"
| "walk_kind kind n (s # segs) =
     (case find_child (\<lambda>c. node_kind_of (pn_keyword (pinfo c)) = kind \<and> pn_id (pinfo c) = Some s) n of
        None \<Rightarrow> None
      | Some i \<Rightarrow> map_option (\<lambda>q. i # q) (walk_kind kind (pchildren n ! i) segs))"

definition find_node_by_dotted_path :: "ProjectNode \<Rightarrow> string option \<Rightarrow> NodeKind \<Rightarrow> path option" where
  "find_node_by_dotted_path start path kind =
     (case path of
        None \<Rightarrow> Some []
      | Some p \<Rightarrow> if p = [] then Some [] else walk_kind kind start (split_dotted_path p))"

text \<open>The nodes from the root of a document to the one at a path, and the qualified id
  (\<open>sym_qualified_id\<close> of \<open>hover.c\<close>) over at most 64 of them of the node's own kind.\<close>

fun nodes_on :: "tj_node \<Rightarrow> path \<Rightarrow> tj_node list" where
  "nodes_on n [] = [n]"
| "nodes_on n (i # p) = n # (if i < length (children n) then nodes_on (children n ! i) p else [])"

definition id_of :: "tj_node \<Rightarrow> string" where
  "id_of n = (case node_id (info n) of Some i \<Rightarrow> i | None \<Rightarrow> [])"

definition sym_qualified_id :: "tj_node \<Rightarrow> path \<Rightarrow> string" where
  "sym_qualified_id root p =
     (case node_at root p of
        None \<Rightarrow> []
      | Some this_node \<Rightarrow>
          if node_id (info this_node) = None then []
          else (let chain = take 64 (filter (\<lambda>s. keyword (info s) = keyword (info this_node) \<and> id_of s \<noteq> [])
                                            (rev (nodes_on root p))) in
                if chain = [] then id_of this_node else join_with (CHR ''.'') (map id_of (rev chain))))"

definition project_node_for_doc_task :: "ProjectNode \<Rightarrow> string option \<Rightarrow> tj_node \<Rightarrow> path \<Rightarrow> path option" where
  "project_node_for_doc_task project_root tprefix doc_root per_doc_task =
     (let qualified_id = sym_qualified_id doc_root per_doc_task in
      if qualified_id = [] then None
      else (case find_node_by_dotted_path project_root tprefix NODE_KIND_TASK of
              None \<Rightarrow> None
            | Some start \<Rightarrow>
                (case pnode_at project_root start of
                   None \<Rightarrow> None
                 | Some n \<Rightarrow> map_option (\<lambda>q. start @ q)
                               (walk_tasks n (strtok_all (CHR ''.'') qualified_id)))))"

definition project_resolve_dep_ref ::
  "ProjectNode \<Rightarrow> string option \<Rightarrow> tj_node \<Rightarrow> path \<Rightarrow> nat \<Rightarrow> dep_memo \<Rightarrow> path option \<times> dep_memo" where
  "project_resolve_dep_ref project_root tprefix doc_root owner ordinal memo =
     (case project_node_for_doc_task project_root tprefix doc_root owner of
        None \<Rightarrow> (None, memo)
      | Some merged_owner \<Rightarrow>
          (case pnode_at project_root merged_owner of
             None \<Rightarrow> (None, memo)
           | Some m \<Rightarrow>
               if length (pn_dependencies (pinfo m)) \<le> ordinal then (None, memo)
               else project_dep_resolve project_root merged_owner ordinal memo))"

subsection \<open>What a reference means\<close>

text \<open>A chain of task ids below a node, each naming a child of the one before.\<close>

fun task_chain :: "ProjectNode \<Rightarrow> string list \<Rightarrow> path \<Rightarrow> bool" where
  "task_chain n [] q = (q = [])"
| "task_chain n (s # segs) [] = False"
| "task_chain n (s # segs) (i # q) =
     (i < length (pchildren n) \<and> is_task s (pchildren n ! i) \<and> task_chain (pchildren n ! i) segs q)"

definition task_ids :: "ProjectNode list \<Rightarrow> string list" where
  "task_ids cs = map (\<lambda>c. the (pn_id (pinfo c)))
     (filter (\<lambda>c. pn_keyword (pinfo c) = KW_TASK \<and> pn_id (pinfo c) \<noteq> None) cs)"

text \<open>Task ids unique among siblings, and keyword 0 only at the root.\<close>

fun unique_tasks :: "ProjectNode \<Rightarrow> bool" where
  "unique_tasks (PNode i cs) = (distinct (task_ids cs) \<and> list_all unique_tasks cs)"

fun inner_keywords :: "ProjectNode \<Rightarrow> bool" where
  "inner_keywords (PNode i cs) =
     list_all (\<lambda>c. pn_keyword (pinfo c) \<noteq> 0 \<and> inner_keywords c) cs"

lemma find_child_Some:
  "find_child P n = Some i \<Longrightarrow> i < length (pchildren n) \<and> P (pchildren n ! i)"
  by (auto simp: find_child_def find_Some_iff)

lemma find_child_None: "find_child P n = None \<longleftrightarrow> (\<forall>c \<in> set (pchildren n). \<not> P c)"
  by (auto simp: find_child_def find_None_iff set_conv_nth)

lemma walk_tasks_sound: "walk_tasks n segs = Some q \<Longrightarrow> task_chain n segs q"
  by (induction n segs arbitrary: q rule: walk_tasks.induct)
    (auto simp: child_task_def split: option.splits dest: find_child_Some)

lemma distinct_task_index:
  assumes "distinct (task_ids cs)" and "i < length cs" and "j < length cs"
    and "is_task s (cs ! i)" and "is_task s (cs ! j)"
  shows "i = j"
  using assms
proof (induction cs arbitrary: i j)
  case (Cons c cs)
  have tl: "distinct (task_ids cs)"
    using Cons.prems(1) by (simp add: task_ids_def split: if_splits)
  have hd: "s \<notin> set (task_ids cs)" if "is_task s c"
    using Cons.prems(1) that by (simp add: task_ids_def is_task_def)
  have mem: "s \<in> set (task_ids cs)" if "k < length cs" "is_task s (cs ! k)" for k
  proof -
    have "cs ! k \<in> set (filter (\<lambda>c. pn_keyword (pinfo c) = KW_TASK \<and> pn_id (pinfo c) \<noteq> None) cs)"
      using that by (simp add: is_task_def)
    then have "the (pn_id (pinfo (cs ! k))) \<in> set (task_ids cs)"
      unfolding task_ids_def by simp
    with that(2) show ?thesis
      by (simp add: is_task_def)
  qed
  have no: False if "is_task s c" "k < length cs" "is_task s (cs ! k)" for k
    using hd [OF that(1)] mem [OF that(2,3)] by contradiction
  show ?case
  proof (cases i)
    case i: 0
    show ?thesis
    proof (cases j)
      case (Suc j')
      then show ?thesis
        using no [of j'] Cons.prems(3,4,5) i by simp
    qed (simp add: i)
  next
    case i: (Suc i')
    show ?thesis
    proof (cases j)
      case 0
      then show ?thesis
        using no [of i'] Cons.prems(2,4,5) i by simp
    next
      case (Suc j')
      then show ?thesis
        using Cons.IH [OF tl, of i' j'] Cons.prems(2-5) i by simp
    qed
  qed
qed simp

lemma unique_child: "unique_tasks n \<Longrightarrow> i < length (pchildren n) \<Longrightarrow> unique_tasks (pchildren n ! i)"
  by (cases n) (auto simp: list_all_length)

lemma unique_siblings: "unique_tasks n \<Longrightarrow> distinct (task_ids (pchildren n))"
  by (cases n) auto

lemma walk_tasks_iff: "unique_tasks n \<Longrightarrow> walk_tasks n segs = Some q \<longleftrightarrow> task_chain n segs q"
proof (induction n segs arbitrary: q rule: walk_tasks.induct)
  case (2 n s segs)
  show ?case
  proof (cases "child_task n s")
    case None
    then have "\<not> task_chain n (s # segs) q"
      by (cases q) (auto simp: child_task_def find_child_None)
    with None show ?thesis by simp
  next
    case (Some i)
    then have i: "i < length (pchildren n)" "is_task s (pchildren n ! i)"
      using find_child_Some by (auto simp: child_task_def)
    have uniq: "j = i" if "j < length (pchildren n)" "is_task s (pchildren n ! j)" for j
      using distinct_task_index [OF unique_siblings [OF "2.prems"] that(1) i(1) that(2) i(2)] .
    show ?thesis
    proof (cases q)
      case Nil
      with Some show ?thesis by simp
    next
      case (Cons j q')
      then have "walk_tasks n (s # segs) = Some q \<longleftrightarrow> i = j \<and> walk_tasks (pchildren n ! i) segs = Some q'"
        using Some by (simp only: walk_tasks.simps option.case map_option_eq_Some list.inject) blast
      also have "\<dots> \<longleftrightarrow> i = j \<and> task_chain (pchildren n ! i) segs q'"
        using "2.IH" [OF Some unique_child [OF "2.prems" i(1)]] by simp
      also have "\<dots> \<longleftrightarrow> task_chain n (s # segs) q"
        using Cons i uniq [of j] by (simp only: task_chain.simps) blast
      finally show ?thesis .
    qed
  qed
qed auto

lemma pnode_at_append: "pnode_at n (p @ q) = (case pnode_at n p of None \<Rightarrow> None | Some m \<Rightarrow> pnode_at m q)"
  by (induction n p rule: pnode_at.induct) auto

lemma pnode_at_unique: "pnode_at n p = Some m \<Longrightarrow> unique_tasks n \<Longrightarrow> unique_tasks m"
  by (induction n p rule: pnode_at.induct) (auto split: if_splits dest: unique_child)

lemma pnode_at_inner:
  "pnode_at n p = Some m \<Longrightarrow> inner_keywords n \<Longrightarrow> p \<noteq> [] \<Longrightarrow> pn_keyword (pinfo m) \<noteq> 0"
proof (induction n p rule: pnode_at.induct)
  case (2 n i p)
  then have i: "i < length (pchildren n)"
    by (auto split: if_splits)
  then have "pn_keyword (pinfo (pchildren n ! i)) \<noteq> 0" "inner_keywords (pchildren n ! i)"
    using 2(3) by (cases n, auto simp: list_all_length)+
  with 2 i show ?case
    by (cases "p = []") auto
qed simp

lemma climb_spec:
  assumes "inner_keywords root" and "pn_keyword (pinfo root) = 0"
  shows "pnode_at root p = Some m \<Longrightarrow>
    climb root p b = (if b = 0 then Some p
      else if b < length p then Some (take (length p - b) p) else None)"
proof (induction b arbitrary: p m)
  case (Suc b)
  show ?case
  proof (cases "p = []")
    case False
    then obtain r x where p: "p = r @ [x]"
      by (metis append_butlast_last_id)
    then obtain m' where m': "pnode_at root r = Some m'"
      using Suc.prems by (auto simp: pnode_at_append split: option.splits)
    show ?thesis
    proof (cases "r = []")
      case True
      then show ?thesis
        using p m' assms(2) by simp
    next
      case r: False
      then show ?thesis
        using p m' pnode_at_inner [OF m' assms(1) r] Suc.IH [OF m'] by (auto simp: Suc_lessI)
    qed
  qed simp
qed simp


text \<open>Where a reference starts: at the root, or as many levels up as it has bangs, staying below
  the root.\<close>

definition dep_base :: "path \<Rightarrow> nat \<Rightarrow> path option" where
  "dep_base owner bangs =
     (if bangs = 0 then Some []
      else if bangs < length owner then Some (take (length owner - bangs) owner) else None)"

definition dep_target :: "ProjectNode \<Rightarrow> path \<Rightarrow> Dependency \<Rightarrow> path \<Rightarrow> bool" where
  "dep_target root owner dep t \<longleftrightarrow>
     split_dotted_path (dep_path dep) \<noteq> [] \<and>
     (\<exists>base q m. dep_base owner (bang_count dep) = Some base \<and> pnode_at root base = Some m \<and>
        t = base @ q \<and> task_chain m (split_dotted_path (dep_path dep)) q)"

text \<open>The tree of a project: one root with keyword 0, and task ids unique among siblings.\<close>

definition tree_ok :: "ProjectNode \<Rightarrow> bool" where
  "tree_ok root = (unique_tasks root \<and> inner_keywords root \<and> pn_keyword (pinfo root) = 0)"

lemma find_task_iff:
  "unique_tasks n \<Longrightarrow> segs \<noteq> [] \<Longrightarrow> find_task n segs = Some q \<longleftrightarrow> task_chain n segs q"
  by (simp add: find_task_def walk_tasks_iff)

lemma pnode_at_take: "pnode_at root p = Some m \<Longrightarrow> \<exists>m'. pnode_at root (take k p) = Some m'"
  using pnode_at_append [of root "take k p" "drop k p"] by (auto split: option.splits)

lemma resolve_dependency_iff:
  assumes "tree_ok root" and "pnode_at root owner = Some own"
  shows "resolve_dependency root owner dep = Some t \<longleftrightarrow> dep_target root owner dep t"
proof (cases "split_dotted_path (dep_path dep) = []")
  case True
  then show ?thesis
    by (simp add: resolve_dependency_def dep_target_def)
next
  case segs: False
  have root: "unique_tasks root" "inner_keywords root" "pn_keyword (pinfo root) = 0"
    using assms(1) by (auto simp: tree_ok_def)
  have climb: "climb root owner (bang_count dep) =
      (if bang_count dep = 0 then Some owner else dep_base owner (bang_count dep))"
    using climb_spec [OF root(2,3) assms(2)] by (simp add: dep_base_def)
  show ?thesis
  proof (cases "bang_count dep = 0")
    case True
    then show ?thesis
      using segs find_task_iff [OF root(1) segs]
      by (simp add: resolve_dependency_def dep_target_def dep_base_def Let_def)
  next
    case bang: False
    show ?thesis
    proof (cases "dep_base owner (bang_count dep)")
      case None
      then show ?thesis
        using segs bang climb by (simp add: resolve_dependency_def dep_target_def Let_def)
    next
      case (Some base)
      then have "base = take (length owner - bang_count dep) owner"
        using bang by (auto simp: dep_base_def split: if_splits)
      then obtain m where m: "pnode_at root base = Some m"
        using pnode_at_take [OF assms(2)] by blast
      have "find_task m (split_dotted_path (dep_path dep)) = Some q \<longleftrightarrow>
          task_chain m (split_dotted_path (dep_path dep)) q" for q
        using find_task_iff [OF pnode_at_unique [OF m root(1)] segs] .
      then show ?thesis
        using segs bang climb Some m
        by (auto simp: resolve_dependency_def dep_target_def Let_def)
    qed
  qed
qed

text \<open>The memo never changes an answer.\<close>

definition dep_answer :: "ProjectNode \<Rightarrow> path \<Rightarrow> nat \<Rightarrow> path option" where
  "dep_answer root owner i = fst (project_dep_resolve root owner i memo_unresolved)"

definition memo_valid :: "ProjectNode \<Rightarrow> dep_memo \<Rightarrow> bool" where
  "memo_valid root memo = (\<forall>p i r. memo (p, i) = Some r \<longrightarrow> r = dep_answer root p i)"

lemma dep_answer_eq:
  "pnode_at root p = Some n \<Longrightarrow>
   dep_answer root p i = resolve_dependency root p (pn_dependencies (pinfo n) ! i)"
  by (simp add: dep_answer_def project_dep_resolve_def memo_unresolved_def Let_def)

lemma resolve_miss:
  "memo (p, i) = None \<Longrightarrow>
   project_dep_resolve root p i memo = (dep_answer root p i, memo((p, i) := Some (dep_answer root p i)))"
  by (simp add: dep_answer_def project_dep_resolve_def memo_unresolved_def Let_def)

lemma resolve_memo:
  "memo_valid root memo \<Longrightarrow>
   fst (project_dep_resolve root p i memo) = dep_answer root p i \<and>
   memo_valid root (snd (project_dep_resolve root p i memo))"
proof (cases "memo (p, i)")
  case None
  moreover assume "memo_valid root memo"
  ultimately show ?thesis
    by (simp add: resolve_miss) (simp add: memo_valid_def)
next
  case (Some r)
  moreover assume "memo_valid root memo"
  ultimately show ?thesis
    by (simp add: memo_valid_def project_dep_resolve_def)
qed

definition memo_after :: "ProjectNode \<Rightarrow> (path \<times> nat) list \<Rightarrow> dep_memo" where
  "memo_after root qs = foldl (\<lambda>m (p, i). snd (project_dep_resolve root p i m)) memo_unresolved qs"

lemma memo_after_valid: "memo_valid root (memo_after root qs)"
proof -
  have step: "memo_valid root m \<Longrightarrow>
      memo_valid root (foldl (\<lambda>m (p, i). snd (project_dep_resolve root p i m)) m qs)" for m
  proof (induction qs arbitrary: m)
    case (Cons q qs)
    have "memo_valid root (snd (project_dep_resolve root (fst q) (snd q) m))"
      using resolve_memo [OF Cons.prems] by blast
    then show ?case
      using Cons.IH by (cases q) simp
  qed simp
  have "memo_valid root memo_unresolved"
    by (simp add: memo_valid_def memo_unresolved_def)
  from step [OF this] show ?thesis
    by (simp add: memo_after_def)
qed

subsection \<open>From a document to its copy\<close>

definition task_id_ok :: "tj_node \<Rightarrow> bool" where
  "task_id_ok n = (keyword (info n) = KW_TASK \<and> node_id (info n) \<noteq> None \<and> id_of n \<noteq> [] \<and>
                   CHR ''.'' \<notin> set (id_of n))"

lemma from_tj_fields:
  "pn_keyword (pinfo (project_node_from_tj n u)) = keyword (info n)"
  "pn_id (pinfo (project_node_from_tj n u)) = node_id (info n)"
  "pn_dependencies (pinfo (project_node_from_tj n u)) = dependencies (info n)"
  "pchildren (project_node_from_tj n u) = map (\<lambda>c. project_node_from_tj c u) (children n)"
  by (cases n; simp)+

lemma pnode_at_from_tj:
  "pnode_at (project_node_from_tj n u) q = map_option (\<lambda>m. project_node_from_tj m u) (node_at n q)"
  by (induction n q rule: node_at.induct) (auto simp: from_tj_fields)

lemma is_task_from_tj: "task_id_ok n \<Longrightarrow> is_task (id_of n) (project_node_from_tj n u)"
  by (auto simp: task_id_ok_def is_task_def from_tj_fields id_of_def split: option.splits)

lemma task_chain_from_tj:
  "node_at child q = Some n \<Longrightarrow> list_all task_id_ok (nodes_on child q) \<Longrightarrow>
   k < length (pchildren m) \<Longrightarrow> pchildren m ! k = project_node_from_tj child u \<Longrightarrow>
   task_chain m (map id_of (nodes_on child q)) (k # q)"
proof (induction child q arbitrary: m k rule: node_at.induct)
  case (1 child)
  then show ?case by (simp add: is_task_from_tj)
next
  case (2 child i q)
  have i: "i < length (children child)"
    using "2.prems"(1) by (auto split: if_splits)
  have "task_chain (pchildren m ! k) (map id_of (nodes_on (children child ! i) q)) (i # q)"
    using "2.IH" [OF i] "2.prems" i by (simp add: from_tj_fields)
  then show ?case
    using "2.prems" i is_task_from_tj by simp
qed

lemma nodes_on_last: "node_at n q = Some m \<Longrightarrow> nodes_on n q \<noteq> [] \<and> last (nodes_on n q) = m"
proof (induction n q rule: node_at.induct)
  case (2 n i p)
  then show ?case by (auto split: if_splits)
qed simp

lemma length_nodes_on: "length (nodes_on n q) \<le> Suc (length q)"
  by (induction n q rule: nodes_on.induct) auto

lemma sym_qualified_id_task:
  assumes "node_at root (i # q) = Some n" and "i < length (children root)"
    and "keyword (info root) \<noteq> KW_TASK"
    and "list_all task_id_ok (nodes_on (children root ! i) q)" and "length q < 64"
  shows "sym_qualified_id root (i # q) = join_with (CHR ''.'') (map id_of (nodes_on (children root ! i) q))"
proof -
  let ?ns = "nodes_on (children root ! i) q"
  have n: "n = last ?ns" "?ns \<noteq> []"
    using assms(1,2) nodes_on_last [of "children root ! i" q n] by auto
  then have task: "task_id_ok n"
    using assms(4) by (simp add: list_all_iff)
  have "filter (\<lambda>s. keyword (info s) = KW_TASK \<and> id_of s \<noteq> []) (rev (nodes_on root (i # q))) = rev ?ns"
    using assms(2,3,4) by (auto simp: task_id_ok_def list_all_iff filter_id_conv)
  moreover have "take 64 (rev ?ns) = rev ?ns"
    using length_nodes_on [of "children root ! i" q] assms(5) by simp
  ultimately show ?thesis
    using assms(1) n(2) task
    by (auto simp: sym_qualified_id_def task_id_ok_def Let_def simp del: nodes_on.simps)
qed

text \<open>The copy of a task is found from its in-file ids and the prefix of its document.\<close>

lemma project_node_for_doc_task_copy:
  assumes doc: "node_at doc (i # q) = Some n" "keyword (info doc) \<noteq> KW_TASK" "length q < 64"
      "list_all task_id_ok (nodes_on (children doc ! i) q)"
    and tree: "unique_tasks root" "find_node_by_dotted_path root prefix NODE_KIND_TASK = Some tp"
      "pnode_at root (tp @ [k]) = Some (project_node_from_tj (children doc ! i) u)"
  shows "project_node_for_doc_task root prefix doc (i # q) = Some (tp @ k # q)"
    and "pnode_at root (tp @ k # q) = Some (project_node_from_tj n u)"
proof -
  let ?ns = "nodes_on (children doc ! i) q"
  have i: "i < length (children doc)" "node_at (children doc ! i) q = Some n"
    using doc(1) by (auto split: if_splits)
  obtain m where m: "pnode_at root tp = Some m" "k < length (pchildren m)"
      "pchildren m ! k = project_node_from_tj (children doc ! i) u"
    using tree(3) by (auto simp: pnode_at_append split: option.splits if_splits)
  have chain: "task_chain m (map id_of ?ns) (k # q)"
    using task_chain_from_tj [OF i(2) doc(4) m(2,3)] .
  have q: "sym_qualified_id doc (i # q) = join_with (CHR ''.'') (map id_of ?ns)"
    using sym_qualified_id_task [OF doc(1) i(1) doc(2,4,3)] .
  have segs: "strtok_all (CHR ''.'') (sym_qualified_id doc (i # q)) = map id_of ?ns"
    unfolding q using doc(4) by (intro strtok_all_join_with) (auto simp: task_id_ok_def list_all_iff)
  then have "sym_qualified_id doc (i # q) \<noteq> []"
    using nodes_on_last [OF i(2)] by (auto simp: cstr_simps)
  moreover have "walk_tasks m (map id_of ?ns) = Some (k # q)"
    using walk_tasks_iff [OF pnode_at_unique [OF m(1) tree(1)]] chain by blast
  ultimately show "project_node_for_doc_task root prefix doc (i # q) = Some (tp @ k # q)"
    using tree(2) m(1) segs by (simp add: project_node_for_doc_task_def)
  have "pnode_at root (tp @ k # q) = pnode_at (project_node_from_tj (children doc ! i) u) q"
    using m by (simp add: pnode_at_append)
  then show "pnode_at root (tp @ k # q) = Some (project_node_from_tj n u)"
    using i(2) by (simp add: pnode_at_from_tj)
qed

subsection \<open>Properties\<close>

text \<open>A project task \<open>a\<close> and an included document with tasks \<open>b\<close> and \<open>c\<close> under the prefix
  \<open>a\<close>; \<open>b\<close> depends on its sibling with \<open>!c\<close>.\<close>

definition ex_task :: "string \<Rightarrow> Dependency list \<Rightarrow> tj_node" where
  "ex_task i deps = TjNode (info tj_node_new
     \<lparr> keyword := KW_TASK, node_id := Some i, dependencies := deps \<rparr>) []"

definition ex_dep :: Dependency where
  "ex_dep = \<lparr> dep_kind = DEP_KIND_DEPENDS, bang_count = 1, dep_path = ''c'', source_range = zero_range \<rparr>"

definition ex_doc :: tj_node where
  "ex_doc = TjNode (info tj_node_new) [ex_task ''b'' [ex_dep], ex_task ''c'' []]"

definition ex_project :: ProjectNode where
  "ex_project = append_at (append_at (append_at project_root_new []
       (project_node_from_tj (ex_task ''a'' []) None))
     [0] (project_node_from_tj (ex_task ''b'' [ex_dep]) None))
     [0] (project_node_from_tj (ex_task ''c'' []) None)"

lemma ex_project_ok: "tree_ok ex_project"
  by code_simp

lemma ex_project_target: "dep_target ex_project [0, 0] ex_dep [0, 1]"
proof -
  have "dep_base [0, 0] (bang_count ex_dep) = Some [0]" "split_dotted_path (dep_path ex_dep) = [''c'']"
    by code_simp+
  moreover have "map_option (\<lambda>m. task_chain m [''c''] [1]) (pnode_at ex_project [0]) = Some True"
    by code_simp
  ultimately show ?thesis
    unfolding dep_target_def by auto
qed

text \<open>C10: After any history of resolutions of a project's dependencies, through their shared memo,
  a dependency resolves to exactly the task its reference names: from the root or as many levels
  above its owner as it has bangs (never reaching the root), down the dotted ids.\<close>

theorem project_dep_resolve_spec:
  assumes "tree_ok root" and "pnode_at root owner = Some own"
  shows "fst (project_dep_resolve root owner i (memo_after root history)) = Some t \<longleftrightarrow>
    dep_target root owner (pn_dependencies (pinfo own) ! i) t"
proof -
  have "fst (project_dep_resolve root owner i (memo_after root history)) = dep_answer root owner i"
    using resolve_memo [OF memo_after_valid] by blast
  also have "\<dots> = resolve_dependency root owner (pn_dependencies (pinfo own) ! i)"
    by (rule dep_answer_eq [OF assms(2)])
  finally show ?thesis
    using resolve_dependency_iff [OF assms] by simp
qed

theorem project_dep_resolve_spec_witness:
  "fst (project_dep_resolve ex_project [0, 0] 0 (memo_after ex_project [([0, 1], 0)])) = Some [0, 1]"
proof -
  have "pnode_at ex_project [0, 0] = Some (project_node_from_tj (ex_task ''b'' [ex_dep]) None)"
    by code_simp
  from project_dep_resolve_spec [OF ex_project_ok this] show ?thesis
    using ex_project_target by (simp add: from_tj_fields ex_task_def)
qed

text \<open>C11: A dependency under the cursor in a document resolves in the project as the reference
  written there names it: the task's copy is found through its in-file ids below the prefix of the
  document, its dependencies are the document's, and the answer does not depend on earlier
  requests.\<close>

theorem doc_dependency_resolution:
  assumes "node_at doc (i # q) = Some n" and "keyword (info doc) \<noteq> KW_TASK" and "length q < 64"
    and "list_all task_id_ok (nodes_on (children doc ! i) q)"
    and "tree_ok root" and "find_node_by_dotted_path root prefix NODE_KIND_TASK = Some tp"
    and "pnode_at root (tp @ [k]) = Some (project_node_from_tj (children doc ! i) u)"
    and "j < length (dependencies (info n))"
  shows "fst (project_resolve_dep_ref root prefix doc (i # q) j (memo_after root history)) = Some t \<longleftrightarrow>
    dep_target root (tp @ k # q) (dependencies (info n) ! j) t"
proof -
  have "unique_tasks root"
    using assms(5) by (simp add: tree_ok_def)
  note copy = project_node_for_doc_task_copy [OF assms(1-4) this assms(6,7)]
  have "fst (project_resolve_dep_ref root prefix doc (i # q) j (memo_after root history)) =
      fst (project_dep_resolve root (tp @ k # q) j (memo_after root history))"
    using copy assms(8) by (simp add: project_resolve_dep_ref_def from_tj_fields)
  also have "\<dots> = dep_answer root (tp @ k # q) j"
    using resolve_memo [OF memo_after_valid] by blast
  also have "\<dots> = resolve_dependency root (tp @ k # q) (dependencies (info n) ! j)"
    using dep_answer_eq [OF copy(2)] by (simp add: from_tj_fields)
  finally show ?thesis
    using resolve_dependency_iff [OF assms(5) copy(2)] by simp
qed


theorem doc_dependency_resolution_witness:
  "fst (project_resolve_dep_ref ex_project (Some ''a'') ex_doc [0] 0 (memo_after ex_project [])) = Some [0, 1]"
proof -
  have "node_at ex_doc [0] = Some (ex_task ''b'' [ex_dep])" "keyword (info ex_doc) \<noteq> KW_TASK"
    "list_all task_id_ok (nodes_on (children ex_doc ! 0) [])"
    "find_node_by_dotted_path ex_project (Some ''a'') NODE_KIND_TASK = Some [0]"
    "pnode_at ex_project ([0] @ [0]) = Some (project_node_from_tj (children ex_doc ! 0) None)"
    "0 < length (dependencies (info (ex_task ''b'' [ex_dep])))"
    by code_simp+
  from doc_dependency_resolution [OF this(1,2) _ this(3) ex_project_ok this(4,5,6)] show ?thesis
    using ex_project_target by (simp add: ex_task_def)
qed

end
