(* ===== verification/Doc_Store.thy ===== *)
theory Doc_Store
  imports Snapshot Path_Uri
begin

text \<open>
  The document store (\<open>src/src/document_store.c\<close>, \<open>document_store.h\<close>): \<open>MAX_DOCS\<close> slots, found by
  exact and then by canonical URI, allocated first-fit, with the current and the previous parse.
  A \<open>Document *\<close> is the slot's index.  The canonicalisation is an argument: \<open>normalize_uri\<close> with
  the C library's \<open>realpath\<close>.  Reference counts are not kept: a snapshot is a value.
\<close>

definition MAX_DOCS :: nat where "MAX_DOCS = 64"

record Document =
  uri :: string
  doc_text :: "string option"
  next_version :: u64
  in_use :: bool
  disk_only :: bool
  is_cc_root :: bool
  snap :: "doc_snapshot option"
  prev_snap :: "doc_snapshot option"
  prefixes :: prefix_set
  included_uris :: "string list"

definition zero_doc :: Document where
  "zero_doc = \<lparr> uri = [], doc_text = None, next_version = 0, in_use = False, disk_only = False,
     is_cc_root = False, snap = None, prev_snap = None, prefixes = no_prefixes, included_uris = [] \<rparr>"

definition docstore_init :: "Document list \<Rightarrow> Document list" where
  "docstore_init docs = map (\<lambda>d. d \<lparr> in_use := False \<rparr>) docs"

definition find_slot :: "(Document \<Rightarrow> bool) \<Rightarrow> Document list \<Rightarrow> nat option" where
  "find_slot P docs = List.find (\<lambda>i. P (docs ! i)) [0..<length docs]"

definition doc_find :: "(string \<Rightarrow> string) \<Rightarrow> Document list \<Rightarrow> string \<Rightarrow> nat option" where
  "doc_find norm docs u =
     (case find_slot (\<lambda>d. in_use d \<and> uri d = u) docs of
        Some i \<Rightarrow> Some i
      | None \<Rightarrow>
          (let canon = norm u in
           if canon \<noteq> u then find_slot (\<lambda>d. in_use d \<and> uri d = canon) docs else None))"

definition doc_alloc :: "(string \<Rightarrow> string) \<Rightarrow> Document list \<Rightarrow> string \<Rightarrow> (nat \<times> Document list) option" where
  "doc_alloc norm docs u =
     (let canon = norm u in
      case find_slot (\<lambda>d. \<not> in_use d) docs of
        None \<Rightarrow> None
      | Some i \<Rightarrow> Some (i, docs[i := (docs ! i) \<lparr> in_use := True, uri := canon, next_version := 1 \<rparr>]))"

definition doc_clear_parse_state :: "Document \<Rightarrow> Document" where
  "doc_clear_parse_state d = d \<lparr> snap := None, prev_snap := None \<rparr>"

definition doc_install_parse :: "Document \<Rightarrow> ParseOutput option \<Rightarrow> Document" where
  "doc_install_parse d po =
     (case po of
        None \<Rightarrow> d \<lparr> prev_snap := snap d, snap := None \<rparr>
      | Some p \<Rightarrow>
          (let version = next_version d;
               fresh = docsnap_new (uri d) (case doc_text d of Some t \<Rightarrow> t | None \<Rightarrow> []) p version in
           d \<lparr> next_version := version + 1, prev_snap := snap d, snap := Some fresh \<rparr>))"

definition doc_free :: "Document \<Rightarrow> Document" where
  "doc_free d = zero_doc"

definition upd_slot :: "nat \<Rightarrow> (Document \<Rightarrow> Document) \<Rightarrow> Document list \<Rightarrow> Document list" where
  "upd_slot i f docs = docs[i := f (docs ! i)]"

definition free_slots :: "Document list \<Rightarrow> nat" where
  "free_slots docs = length (filter (\<lambda>d. \<not> in_use d) docs)"

subsection \<open>Slots\<close>

lemma find_slot_Some:
  "find_slot P docs = Some i \<longleftrightarrow> i < length docs \<and> P (docs ! i) \<and> (\<forall>j < i. \<not> P (docs ! j))"
  by (auto simp: find_slot_def find_Some_iff)

lemma find_slot_None: "find_slot P docs = None \<longleftrightarrow> (\<forall>d \<in> set docs. \<not> P d)"
  by (auto simp: find_slot_def find_None_iff set_conv_nth)

lemma doc_find_Some:
  "doc_find norm docs u = Some i \<Longrightarrow>
   i < length docs \<and> in_use (docs ! i) \<and> (uri (docs ! i) = u \<or> uri (docs ! i) = norm u)"
  by (auto simp: doc_find_def find_slot_Some Let_def split: option.splits if_splits)

lemma doc_find_None:
  "doc_find norm docs u = None \<longleftrightarrow> (\<forall>d \<in> set docs. in_use d \<longrightarrow> uri d \<noteq> u \<and> uri d \<noteq> norm u)"
proof -
  have "doc_find norm docs u = None \<longleftrightarrow>
      find_slot (\<lambda>d. in_use d \<and> uri d = u) docs = None \<and>
      (norm u = u \<or> find_slot (\<lambda>d. in_use d \<and> uri d = norm u) docs = None)"
    by (simp add: doc_find_def Let_def split: option.split)
  then show ?thesis
    unfolding find_slot_None by auto
qed

lemma doc_alloc_Some:
  "doc_alloc norm docs u = Some (i, docs') \<Longrightarrow>
   i < length docs \<and> \<not> in_use (docs ! i) \<and>
   docs' = docs[i := (docs ! i) \<lparr> in_use := True, uri := norm u, next_version := 1 \<rparr>]"
  by (auto simp: doc_alloc_def find_slot_Some Let_def split: option.splits)

lemma free_slots_update:
  "i < length docs \<Longrightarrow>
   free_slots (docs[i := d]) + (if in_use (docs ! i) then 0 else 1) =
   free_slots docs + (if in_use d then 0 else 1)"
proof (induction docs arbitrary: i)
  case (Cons e docs)
  show ?case
  proof (cases i)
    case 0
    then show ?thesis by (simp add: free_slots_def)
  next
    case (Suc j)
    then show ?thesis
      using Cons.IH [of j] Cons.prems
      by (cases "in_use d"; cases "in_use (docs ! j)") (simp_all add: free_slots_def)
  qed
qed simp

lemma doc_alloc_free_slots: "doc_alloc norm docs u = Some (i, docs') \<Longrightarrow> free_slots docs = Suc (free_slots docs')"
  using doc_alloc_Some [of norm docs u i docs'] free_slots_update [of i docs] by force

lemma doc_alloc_None: "doc_alloc norm docs u = None \<longleftrightarrow> free_slots docs = 0"
proof -
  have "doc_alloc norm docs u = None \<longleftrightarrow> find_slot (\<lambda>d. \<not> in_use d) docs = None"
    by (simp add: doc_alloc_def Let_def split: option.split)
  then show ?thesis
    unfolding find_slot_None by (simp add: free_slots_def filter_empty_conv)
qed

lemma upd_slot_length [simp]: "length (upd_slot i f docs) = length docs"
  by (simp add: upd_slot_def)

lemma upd_slot_free [simp]:
  "(\<And>d. in_use (f d) = in_use d) \<Longrightarrow> free_slots (upd_slot i f docs) = free_slots docs"
proof (cases "i < length docs")
  case True
  assume "\<And>d. in_use (f d) = in_use d"
  then show ?thesis
    using free_slots_update [OF True, of "f (docs ! i)"] by (simp add: upd_slot_def)
next
  case False
  then show ?thesis
    by (simp add: upd_slot_def list_update_beyond not_less)
qed

lemma find_slot_upd:
  "(\<And>d. P (f d) = P d) \<Longrightarrow> find_slot P (upd_slot i f docs) = find_slot P docs"
proof -
  assume P: "\<And>d. P (f d) = P d"
  have "P (upd_slot i f docs ! j) = P (docs ! j)" if "j < length docs" for j
    using P that by (cases "j = i") (simp_all add: upd_slot_def)
  then show ?thesis
    unfolding find_slot_def upd_slot_length by (intro find_cong) simp_all
qed

text \<open>Only the URI and the use flag decide a lookup.\<close>

lemma doc_find_upd:
  "(\<And>d. in_use (f d) = in_use d \<and> uri (f d) = uri d) \<Longrightarrow>
   doc_find norm (upd_slot i f docs) u = doc_find norm docs u"
proof -
  assume "\<And>d. in_use (f d) = in_use d \<and> uri (f d) = uri d"
  then have "find_slot (\<lambda>d. in_use d \<and> uri d = v) (upd_slot i f docs) =
      find_slot (\<lambda>d. in_use d \<and> uri d = v) docs" for v
    by (intro find_slot_upd) simp
  then show ?thesis
    by (simp only: doc_find_def Let_def)
qed

lemma install_parse_fields [simp]:
  "in_use (doc_install_parse d po) = in_use d" "uri (doc_install_parse d po) = uri d"
  "doc_text (doc_install_parse d po) = doc_text d" "disk_only (doc_install_parse d po) = disk_only d"
  "is_cc_root (doc_install_parse d po) = is_cc_root d" "prefixes (doc_install_parse d po) = prefixes d"
  "included_uris (doc_install_parse d po) = included_uris d"
  by (auto simp: doc_install_parse_def Let_def split: option.splits)

subsection \<open>The store as an index\<close>

text \<open>Documents in use have different URIs, all canonical.\<close>

definition uris_ok :: "(string \<Rightarrow> string) \<Rightarrow> Document list \<Rightarrow> bool" where
  "uris_ok norm docs =
     ((\<forall>i < length docs. \<forall>j < length docs.
         in_use (docs ! i) \<and> in_use (docs ! j) \<and> uri (docs ! i) = uri (docs ! j) \<longrightarrow> i = j) \<and>
      (\<forall>i < length docs. in_use (docs ! i) \<longrightarrow> norm (uri (docs ! i)) = uri (docs ! i)))"

text \<open>A store keyed by names that may have several spellings: what is inserted is found, what was
  found stays where it is.\<close>

locale keyed_store =
  fixes ok :: "'s \<Rightarrow> bool"
    and lookup :: "'s \<Rightarrow> 'k \<Rightarrow> 'i option"
    and insert_key :: "'s \<Rightarrow> 'k \<Rightarrow> ('i \<times> 's) option"
  assumes insert_found: "ok s \<Longrightarrow> lookup s k = None \<Longrightarrow> insert_key s k = Some (i, s') \<Longrightarrow> lookup s' k = Some i"
    and insert_stays: "ok s \<Longrightarrow> lookup s k = None \<Longrightarrow> insert_key s k = Some (i, s') \<Longrightarrow>
      lookup s k' = Some j \<Longrightarrow> lookup s' k' = Some j"
    and insert_ok: "ok s \<Longrightarrow> lookup s k = None \<Longrightarrow> insert_key s k = Some (i, s') \<Longrightarrow> ok s'"
begin

text \<open>Asking for a key and inserting it when it is missing.\<close>

definition demand :: "'s \<Rightarrow> 'k \<Rightarrow> 's" where
  "demand s k = (case lookup s k of
     Some i \<Rightarrow> s
   | None \<Rightarrow> (case insert_key s k of Some (i, s') \<Rightarrow> s' | None \<Rightarrow> s))"

lemma demand_ok: "ok s \<Longrightarrow> ok (demand s k)"
  by (auto simp: demand_def split: option.splits prod.splits intro: insert_ok)

lemma demand_stays: "ok s \<Longrightarrow> lookup s k' = Some j \<Longrightarrow> lookup (demand s k) k' = Some j"
  by (auto simp: demand_def split: option.splits prod.splits intro: insert_stays)

lemma demand_found: "ok s \<Longrightarrow> lookup (demand s k) k \<noteq> None \<or> insert_key s k = None"
  by (auto simp: demand_def split: option.splits prod.splits dest: insert_found)

lemma demand_all_stays: "ok s \<Longrightarrow> lookup s k' = Some j \<Longrightarrow> lookup (foldl demand s ks) k' = Some j"
  by (induction ks arbitrary: s) (auto intro: demand_ok demand_stays)

end


text \<open>In such a store a lookup finds the one document whose URI is the canonical form.\<close>

lemma find_slot_unique:
  assumes "i < length docs" and "P (docs ! i)"
    and uniq: "\<And>j. j < length docs \<Longrightarrow> P (docs ! j) \<Longrightarrow> j = i"
  shows "find_slot P docs = Some i"
proof -
  have "\<not> P (docs ! j)" if "j < i" for j
    using uniq [of j] that assms(1) by auto
  then show ?thesis
    using assms(1,2) by (simp add: find_slot_Some)
qed

lemma doc_find_iff:
  assumes "uris_ok norm docs"
  shows "doc_find norm docs u = Some j \<longleftrightarrow> j < length docs \<and> in_use (docs ! j) \<and> uri (docs ! j) = norm u"
proof
  assume "doc_find norm docs u = Some j"
  then show "j < length docs \<and> in_use (docs ! j) \<and> uri (docs ! j) = norm u"
    using doc_find_Some [of norm docs u j] assms by (metis uris_ok_def)
next
  assume j: "j < length docs \<and> in_use (docs ! j) \<and> uri (docs ! j) = norm u"
  have uniq: "k = j" if "k < length docs" "in_use (docs ! k)" "uri (docs ! k) = norm u" for k
    using assms j that unfolding uris_ok_def by metis
  have canon: "norm u = u" if "k < length docs" "in_use (docs ! k)" "uri (docs ! k) = u" for k
    using assms that unfolding uris_ok_def by metis
  show "doc_find norm docs u = Some j"
  proof (cases "norm u = u")
    case True
    then have "find_slot (\<lambda>d. in_use d \<and> uri d = u) docs = Some j"
      using j uniq by (intro find_slot_unique) auto
    then show ?thesis by (simp add: doc_find_def)
  next
    case False
    then have "find_slot (\<lambda>d. in_use d \<and> uri d = u) docs = None"
      unfolding find_slot_None by (metis canon in_set_conv_nth)
    moreover have "find_slot (\<lambda>d. in_use d \<and> uri d = norm u) docs = Some j"
      using j uniq by (intro find_slot_unique) auto
    ultimately show ?thesis using False by (simp add: doc_find_def)
  qed
qed

lemma doc_find_None_iff:
  assumes "uris_ok norm docs"
  shows "doc_find norm docs u = None \<longleftrightarrow> (\<forall>j < length docs. in_use (docs ! j) \<longrightarrow> uri (docs ! j) \<noteq> norm u)"
  using doc_find_iff [OF assms, of u] by (metis not_None_eq)

type_synonym store = "(string \<Rightarrow> string) \<times> Document list"

definition store_ok :: "store \<Rightarrow> bool" where
  "store_ok s = ((\<forall>u. fst s (fst s u) = fst s u) \<and> uris_ok (fst s) (snd s))"

definition store_find :: "store \<Rightarrow> string \<Rightarrow> nat option" where
  "store_find s u = doc_find (fst s) (snd s) u"

definition store_alloc :: "store \<Rightarrow> string \<Rightarrow> (nat \<times> store) option" where
  "store_alloc s u = map_option (\<lambda>(i, docs). (i, (fst s, docs))) (doc_alloc (fst s) (snd s) u)"

lemma doc_alloc_uris_ok:
  assumes "uris_ok norm docs" and "doc_find norm docs u = None" and "doc_alloc norm docs u = Some (i, docs')"
    and "norm (norm u) = norm u"
  shows "uris_ok norm docs'"
  using doc_alloc_Some [OF assms(3)] assms(1,4) doc_find_None_iff [OF assms(1)] assms(2)
  unfolding uris_ok_def by (auto simp: nth_list_update)

lemma doc_alloc_finds:
  assumes "uris_ok norm docs" and "doc_find norm docs u = None" and "doc_alloc norm docs u = Some (i, docs')"
    and "norm (norm u) = norm u"
  shows "doc_find norm docs' u = Some i"
    and "doc_find norm docs u' = Some j \<Longrightarrow> doc_find norm docs' u' = Some j"
  using doc_alloc_Some [OF assms(3)] doc_find_iff [OF assms(1)]
    doc_find_iff [OF doc_alloc_uris_ok [OF assms]]
  by (auto simp: nth_list_update)

interpretation doc_store: keyed_store store_ok store_find store_alloc
proof unfold_locales
  fix s :: store and k k' :: string and i j :: nat and s' :: store
  assume ok: "store_ok s" and none: "store_find s k = None" and ins: "store_alloc s k = Some (i, s')"
  obtain docs' where a: "doc_alloc (fst s) (snd s) k = Some (i, docs')" "s' = (fst s, docs')"
    using ins by (auto simp: store_alloc_def)
  have u: "uris_ok (fst s) (snd s)" "doc_find (fst s) (snd s) k = None" "fst s (fst s k) = fst s k"
    using ok none by (auto simp: store_ok_def store_find_def)
  show "store_find s' k = Some i"
    using doc_alloc_finds(1) [OF u(1,2) a(1) u(3)] a(2) by (simp add: store_find_def)
  show "store_find s k' = Some j \<Longrightarrow> store_find s' k' = Some j"
    using doc_alloc_finds(2) [OF u(1,2) a(1) u(3)] a(2) by (simp add: store_find_def)
  show "store_ok s'"
    using doc_alloc_uris_ok [OF u(1,2) a(1) u(3)] ok a(2) by (simp add: store_ok_def)
qed

end
