(* ===== verification/Loading.thy ===== *)
theory Loading
  imports Doc_Store
begin

text \<open>
  Loading files and following includes (\<open>load_file_from_disk\<close>, \<open>follow_includes\<close>,
  \<open>install_disk_text\<close>, \<open>load_compile_entries\<close> of \<open>src/src/workspace.c\<close>).  The file system is a
  parameter, and so is the parser (flex and bison generate it).  The two functions call each other;
  the recursion is written with the recursive call as an argument and closed with fuel, and the
  equations of the code hold without fuel because every nested load takes a free slot.
\<close>

record file_sys =
  fs_read :: "string \<Rightarrow> string option"
  fs_realpath :: "string \<Rightarrow> string option"

definition fs_norm :: "file_sys \<Rightarrow> string \<Rightarrow> string" where
  "fs_norm fs = normalize_uri (fs_realpath fs)"

type_synonym loader = "Document list \<Rightarrow> string \<Rightarrow> Document list"

definition includer_append_included_uri :: "string \<Rightarrow> Document \<Rightarrow> Document" where
  "includer_append_included_uri u d = d \<lparr> included_uris := included_uris d @ [u] \<rparr>"

definition set_prefixes :: "prefix_set \<Rightarrow> Document \<Rightarrow> Document" where
  "set_prefixes ps d = d \<lparr> prefixes := prefix_set_copy (prefixes d) (Some ps) \<rparr>"

definition upd_opt :: "nat option \<Rightarrow> (Document \<Rightarrow> Document) \<Rightarrow> Document list \<Rightarrow> Document list" where
  "upd_opt i f docs = (case i of None \<Rightarrow> docs | Some j \<Rightarrow> upd_slot j f docs)"

text \<open>One include: load the file, give its document the prefixes, record its URI.\<close>

definition follow_one ::
  "file_sys \<Rightarrow> loader \<Rightarrow> string \<Rightarrow> nat option \<Rightarrow> IncludeRef \<Rightarrow> Document list \<Rightarrow> Document list" where
  "follow_one fs load file_path includer inc docs =
     (let full_path = resolve_include_path file_path (inc_filename inc);
          docs1 = load docs full_path;
          target_uri = path_to_uri full_path;
          docs2 = upd_opt (doc_find (fs_norm fs) docs1 target_uri) (set_prefixes (inc_prefixes inc)) docs1 in
      upd_opt includer (includer_append_included_uri target_uri) docs2)"

definition follow_includes_with ::
  "file_sys \<Rightarrow> loader \<Rightarrow> Document list \<Rightarrow> string \<Rightarrow> ParseOutput \<Rightarrow> Document list" where
  "follow_includes_with fs load docs file_path po =
     (let includer = doc_find (fs_norm fs) docs (path_to_uri file_path);
          docs1 = upd_opt includer (\<lambda>d. d \<lparr> included_uris := [] \<rparr>) docs in
      fold (follow_one fs load file_path includer) (po_includes po) docs1)"

definition load_body :: "file_sys \<Rightarrow> (string \<Rightarrow> ParseOutput) \<Rightarrow> loader \<Rightarrow> loader" where
  "load_body fs parse load docs path =
     (let u = path_to_uri path in
      if doc_find (fs_norm fs) docs u \<noteq> None then docs
      else (case fs_read fs path of
              None \<Rightarrow> docs
            | Some text \<Rightarrow>
                (case doc_alloc (fs_norm fs) docs u of
                   None \<Rightarrow> docs
                 | Some (i, docs1) \<Rightarrow>
                     (let docs2 = upd_slot i (\<lambda>d. d \<lparr> doc_text := Some text, disk_only := True \<rparr>) docs1;
                          po = parse text;
                          docs3 = follow_includes_with fs load docs2 path po in
                      upd_slot i (\<lambda>d. doc_install_parse d (Some po)) docs3))))"

primrec load_fuel :: "file_sys \<Rightarrow> (string \<Rightarrow> ParseOutput) \<Rightarrow> nat \<Rightarrow> loader" where
  "load_fuel fs parse 0 = (\<lambda>docs path. docs)"
| "load_fuel fs parse (Suc n) = load_body fs parse (load_fuel fs parse n)"

definition load_file_from_disk :: "file_sys \<Rightarrow> (string \<Rightarrow> ParseOutput) \<Rightarrow> loader" where
  "load_file_from_disk fs parse docs path = load_fuel fs parse (Suc (free_slots docs)) docs path"

definition follow_includes ::
  "file_sys \<Rightarrow> (string \<Rightarrow> ParseOutput) \<Rightarrow> Document list \<Rightarrow> string \<Rightarrow> ParseOutput \<Rightarrow> Document list" where
  "follow_includes fs parse = follow_includes_with fs (load_file_from_disk fs parse)"

definition install_disk_text ::
  "file_sys \<Rightarrow> (string \<Rightarrow> ParseOutput) \<Rightarrow> nat \<Rightarrow> string \<Rightarrow> string \<Rightarrow> Document list \<Rightarrow> Document list" where
  "install_disk_text fs parse i text path docs =
     (let docs1 = upd_slot i (\<lambda>d. d \<lparr> doc_text := Some text, disk_only := True \<rparr>) docs;
          po = parse text;
          docs2 = follow_includes fs parse docs1 path po in
      upd_slot i (\<lambda>d. doc_install_parse d (Some po)) docs2)"

definition load_compile_entry ::
  "file_sys \<Rightarrow> (string \<Rightarrow> ParseOutput) \<Rightarrow> string \<Rightarrow> Document list \<Rightarrow> Document list" where
  "load_compile_entry fs parse file_abs docs =
     (let docs1 = load_file_from_disk fs parse docs file_abs in
      upd_opt (doc_find (fs_norm fs) docs1 (path_to_uri file_abs)) (\<lambda>d. d \<lparr> is_cc_root := True \<rparr>) docs1)"

definition load_compile_entries ::
  "file_sys \<Rightarrow> (string \<Rightarrow> ParseOutput) \<Rightarrow> string list \<Rightarrow> Document list \<Rightarrow> Document list" where
  "load_compile_entries fs parse entries docs = fold (load_compile_entry fs parse) entries docs"

subsection \<open>The recursion needs no more fuel than free slots\<close>

text \<open>Updates that touch neither the URI nor the use of a slot.\<close>

definition keeps_slot :: "(Document \<Rightarrow> Document) \<Rightarrow> bool" where
  "keeps_slot f = (\<forall>d. in_use (f d) = in_use d \<and> uri (f d) = uri d)"

named_theorems keeps \<open>updates that keep the slot\<close>

lemma keeps_slot_updates [keeps]:
  "keeps_slot (set_prefixes ps)" "keeps_slot (includer_append_included_uri u)"
  "keeps_slot (\<lambda>d. d \<lparr> included_uris := us \<rparr>)"
  "keeps_slot (\<lambda>d. d \<lparr> doc_text := t, disk_only := b \<rparr>)"
  "keeps_slot (\<lambda>d. d \<lparr> is_cc_root := b \<rparr>)" "keeps_slot (\<lambda>d. doc_install_parse d po)"
  by (auto simp: keeps_slot_def set_prefixes_def includer_append_included_uri_def)

lemma keeps_free_slots [simp]: "keeps_slot f \<Longrightarrow> free_slots (upd_slot i f docs) = free_slots docs"
  by (simp add: keeps_slot_def)

lemma keeps_doc_find: "keeps_slot f \<Longrightarrow> doc_find norm (upd_slot i f docs) u = doc_find norm docs u"
  by (rule doc_find_upd) (simp add: keeps_slot_def)

lemma upd_opt_free_slots [simp]: "keeps_slot f \<Longrightarrow> free_slots (upd_opt i f docs) = free_slots docs"
  by (simp add: upd_opt_def split: option.split)

lemma follow_one_free:
  "(\<And>d p. free_slots (load d p) \<le> free_slots d) \<Longrightarrow>
   free_slots (follow_one fs load path includer inc docs) \<le> free_slots docs"
  by (simp add: follow_one_def Let_def keeps)

lemma fold_follow_free:
  "(\<And>d p. free_slots (load d p) \<le> free_slots d) \<Longrightarrow>
   free_slots (fold (follow_one fs load path includer) incs docs) \<le> free_slots docs"
proof (induction incs arbitrary: docs)
  case (Cons inc incs)
  have "free_slots (fold (follow_one fs load path includer) incs (follow_one fs load path includer inc docs))
      \<le> free_slots (follow_one fs load path includer inc docs)"
    by (rule Cons.IH [OF Cons.prems])
  also have "\<dots> \<le> free_slots docs"
    by (rule follow_one_free [OF Cons.prems])
  finally show ?case by simp
qed simp

lemma load_body_free:
  assumes "\<And>d p. free_slots (load d p) \<le> free_slots d"
  shows "free_slots (load_body fs parse load docs path) \<le> free_slots docs"
proof -
  have follow: "free_slots (follow_includes_with fs load d path po) \<le> free_slots d" for d po
  proof -
    have "free_slots (follow_includes_with fs load d path po) \<le>
        free_slots (upd_opt (doc_find (fs_norm fs) d (path_to_uri path)) (\<lambda>d. d \<lparr> included_uris := [] \<rparr>) d)"
      unfolding follow_includes_with_def Let_def by (rule fold_follow_free [OF assms])
    then show ?thesis by (simp add: keeps)
  qed
  show ?thesis
  proof (cases "doc_alloc (fs_norm fs) docs (path_to_uri path)")
    case (Some r)
    obtain i docs1 where r: "r = (i, docs1)" by (cases r)
    have "free_slots (follow_includes_with fs load
        (upd_slot i (\<lambda>d. d \<lparr> doc_text := t, disk_only := True \<rparr>) docs1) path po) \<le> free_slots docs" for t po
      using follow [of "upd_slot i (\<lambda>d. d \<lparr> doc_text := t, disk_only := True \<rparr>) docs1" po]
        doc_alloc_free_slots [of "fs_norm fs" docs "path_to_uri path" i docs1] Some r
      by (simp add: keeps)
    then show ?thesis
      using Some r by (simp add: load_body_def Let_def keeps split: option.split)
  qed (simp add: load_body_def Let_def split: option.split)
qed

lemma load_fuel_free: "free_slots (load_fuel fs parse n docs path) \<le> free_slots docs"
proof (induction n arbitrary: docs path)
  case (Suc n)
  show ?case
    unfolding load_fuel.simps by (rule load_body_free) (rule Suc.IH)
qed simp

lemma fold_follow_cong:
  assumes "\<And>d p. free_slots d \<le> m \<Longrightarrow> load1 d p = load2 d p"
    and "\<And>d p. free_slots (load1 d p) \<le> free_slots d"
  shows "free_slots docs \<le> m \<Longrightarrow>
    fold (follow_one fs load1 path includer) incs docs = fold (follow_one fs load2 path includer) incs docs"
proof (induction incs arbitrary: docs)
  case (Cons inc incs)
  have "follow_one fs load1 path includer inc docs = follow_one fs load2 path includer inc docs"
    unfolding follow_one_def assms(1) [OF Cons.prems] ..
  moreover have "free_slots (follow_one fs load1 path includer inc docs) \<le> m"
    by (rule le_trans [OF follow_one_free [OF assms(2)] Cons.prems])
  ultimately show ?case
    using Cons.IH [of "follow_one fs load1 path includer inc docs"] by (simp only: fold_simps)
qed simp

lemma load_body_cong:
  assumes "\<And>d p. Suc (free_slots d) \<le> free_slots docs \<Longrightarrow> load1 d p = load2 d p"
    and "\<And>d p. free_slots (load1 d p) \<le> free_slots d"
  shows "load_body fs parse load1 docs path = load_body fs parse load2 docs path"
proof (cases "doc_alloc (fs_norm fs) docs (path_to_uri path)")
  case (Some r)
  obtain i docs1 where r: "r = (i, docs1)" by (cases r)
  have free: "free_slots docs = Suc (free_slots docs1)"
    using Some r doc_alloc_free_slots by blast
  have "follow_includes_with fs load1 d path po = follow_includes_with fs load2 d path po"
    if "free_slots d \<le> free_slots docs1" for d po
    unfolding follow_includes_with_def Let_def
    using assms free that
    by (intro fold_follow_cong [of "free_slots docs1"]) (simp_all add: keeps)
  then show ?thesis
    using Some r by (simp add: load_body_def Let_def keeps split: option.split)
qed (simp add: load_body_def Let_def split: option.split)

lemma load_fuel_enough:
  "free_slots docs < n \<Longrightarrow> free_slots docs < m \<Longrightarrow> load_fuel fs parse n docs path = load_fuel fs parse m docs path"
proof (induction n arbitrary: docs path m)
  case (Suc n)
  obtain m' where m: "m = Suc m'"
    using Suc.prems(2) by (cases m) auto
  have "load_body fs parse (load_fuel fs parse n) docs path = load_body fs parse (load_fuel fs parse m') docs path"
    using Suc m by (intro load_body_cong) (auto intro: load_fuel_free)
  then show ?case
    by (simp add: m)
qed simp


lemma load_file_from_disk_eq:
  "load_file_from_disk fs parse docs path = load_body fs parse (load_file_from_disk fs parse) docs path"
proof -
  have "load_body fs parse (load_fuel fs parse (free_slots docs)) docs path =
      load_body fs parse (load_file_from_disk fs parse) docs path"
  proof (rule load_body_cong)
    fix d p assume "Suc (free_slots d) \<le> free_slots docs"
    then show "load_fuel fs parse (free_slots docs) d p = load_file_from_disk fs parse d p"
      unfolding load_file_from_disk_def by (intro load_fuel_enough) simp_all
  qed (rule load_fuel_free)
  then show ?thesis
    by (simp add: load_file_from_disk_def)
qed

subsection \<open>What a load leaves in the store\<close>

definition include_uri :: "string \<Rightarrow> IncludeRef \<Rightarrow> string" where
  "include_uri path inc = path_to_uri (resolve_include_path path (inc_filename inc))"

text \<open>An include is satisfied when its document is in the store, its file cannot be read, or the
  store is full.\<close>

definition satisfied :: "file_sys \<Rightarrow> Document list \<Rightarrow> string \<Rightarrow> bool" where
  "satisfied fs docs path =
     (doc_find (fs_norm fs) docs (path_to_uri path) \<noteq> None \<or> fs_read fs path = None \<or> free_slots docs = 0)"

definition complete :: "file_sys \<Rightarrow> (string \<Rightarrow> ParseOutput) \<Rightarrow> Document list \<Rightarrow> Document \<Rightarrow> bool" where
  "complete fs parse docs d \<longleftrightarrow>
     (\<exists>path text v. uri d = fs_norm fs (path_to_uri path) \<and> fs_read fs path = Some text \<and>
        doc_text d = Some text \<and> disk_only d \<and> snap d = Some (docsnap_new (uri d) text (parse text) v) \<and>
        included_uris d = map (include_uri path) (po_includes (parse text)) \<and>
        (\<forall>inc \<in> set (po_includes (parse text)).
           satisfied fs docs (resolve_include_path path (inc_filename inc))))"

definition same_doc :: "Document \<Rightarrow> Document \<Rightarrow> bool" where
  "same_doc d d' = (d' = d \<lparr> prefixes := prefixes d' \<rparr>)"

lemma same_doc_refl [simp]: "same_doc d d"
  by (simp add: same_doc_def)

lemma same_doc_trans: "same_doc a b \<Longrightarrow> same_doc b c \<Longrightarrow> same_doc a c"
  unfolding same_doc_def by (cases a; cases b; cases c) simp

lemma same_doc_fields:
  "same_doc d d' \<Longrightarrow> uri d' = uri d \<and> in_use d' = in_use d \<and> doc_text d' = doc_text d \<and>
     disk_only d' = disk_only d \<and> snap d' = snap d \<and> included_uris d' = included_uris d"
  unfolding same_doc_def by (cases d; cases d') simp

text \<open>The store grew: slots in use kept their document (those in \<open>X\<close> at least their identity), and
  new ones are complete.\<close>

definition grows ::
  "file_sys \<Rightarrow> (string \<Rightarrow> ParseOutput) \<Rightarrow> nat set \<Rightarrow> Document list \<Rightarrow> Document list \<Rightarrow> bool" where
  "grows fs parse X docs docs' \<longleftrightarrow>
     length docs' = length docs \<and> uris_ok (fs_norm fs) docs' \<and> free_slots docs' \<le> free_slots docs \<and>
     (\<forall>j < length docs. in_use (docs ! j) \<longrightarrow>
        in_use (docs' ! j) \<and> uri (docs' ! j) = uri (docs ! j) \<and>
        (j \<notin> X \<longrightarrow> same_doc (docs ! j) (docs' ! j))) \<and>
     (\<forall>j < length docs. \<not> in_use (docs ! j) \<and> in_use (docs' ! j) \<longrightarrow> complete fs parse docs' (docs' ! j))"

lemma grows_finds:
  "grows fs parse X docs docs' \<Longrightarrow> uris_ok (fs_norm fs) docs \<Longrightarrow>
   doc_find (fs_norm fs) docs u = Some j \<Longrightarrow> doc_find (fs_norm fs) docs' u = Some j"
  unfolding grows_def by (simp add: doc_find_iff)

lemma grows_satisfied:
  "grows fs parse X docs docs' \<Longrightarrow> uris_ok (fs_norm fs) docs \<Longrightarrow> satisfied fs docs path \<Longrightarrow> satisfied fs docs' path"
  unfolding satisfied_def using grows_finds by (fastforce simp: grows_def)

lemma complete_mono:
  assumes "complete fs parse docs d" and "same_doc d d'"
    and "\<And>path. satisfied fs docs path \<Longrightarrow> satisfied fs docs' path"
  shows "complete fs parse docs' d'"
proof -
  obtain path content v where c: "uri d = fs_norm fs (path_to_uri path)" "fs_read fs path = Some content"
    "doc_text d = Some content" "disk_only d" "snap d = Some (docsnap_new (uri d) content (parse content) v)"
    "included_uris d = map (include_uri path) (po_includes (parse content))"
    "\<forall>inc \<in> set (po_includes (parse content)). satisfied fs docs (resolve_include_path path (inc_filename inc))"
    using assms(1) unfolding complete_def by blast
  then show ?thesis
    unfolding complete_def using same_doc_fields [OF assms(2)] assms(3)
    by (intro exI [of _ path] exI [of _ content] exI [of _ v]) simp
qed

lemma grows_refl: "uris_ok (fs_norm fs) docs \<Longrightarrow> grows fs parse X docs docs"
  by (simp add: grows_def)

lemma grows_trans:
  assumes "grows fs parse X a b" and "grows fs parse X b c" and "uris_ok (fs_norm fs) a"
    and X: "\<forall>j \<in> X. j < length a \<longrightarrow> in_use (a ! j)"
  shows "grows fs parse X a c"
  unfolding grows_def
proof (intro conjI allI impI)
  have b: "uris_ok (fs_norm fs) b" "length b = length a"
    using assms(1) by (auto simp: grows_def)
  fix j assume j: "j < length a"
  {
    assume "in_use (a ! j)"
    then have "in_use (b ! j)" "uri (b ! j) = uri (a ! j)" "j \<notin> X \<longrightarrow> same_doc (a ! j) (b ! j)"
      using assms(1) j by (auto simp: grows_def)
    moreover from this have "in_use (c ! j)" "uri (c ! j) = uri (b ! j)" "j \<notin> X \<longrightarrow> same_doc (b ! j) (c ! j)"
      using assms(2) j b(2) by (auto simp: grows_def)
    ultimately show "in_use (c ! j)" "uri (c ! j) = uri (a ! j)" "j \<notin> X \<Longrightarrow> same_doc (a ! j) (c ! j)"
      using same_doc_trans by auto
  }
  assume new: "\<not> in_use (a ! j) \<and> in_use (c ! j)"
  show "complete fs parse c (c ! j)"
  proof (cases "in_use (b ! j)")
    case True
    then have "complete fs parse b (b ! j)"
      using assms(1) j new by (simp add: grows_def)
    moreover have "same_doc (b ! j) (c ! j)"
      using assms(2) True j b(2) new X by (auto simp: grows_def)
    ultimately show ?thesis
      using grows_satisfied [OF assms(2) b(1)] by (rule complete_mono)
  next
    case False
    then show ?thesis
      using assms(2) new j b(2) by (simp add: grows_def)
  qed
qed (use assms in \<open>auto simp: grows_def\<close>)

lemma upd_slot_nth:
  "j < length docs \<Longrightarrow> upd_slot i f docs ! j = (if j = i then f (docs ! j) else docs ! j)"
  by (auto simp: upd_slot_def)

lemma upd_slot_keeps:
  assumes "keeps_slot f" and "j < length docs"
  shows "in_use (upd_slot i f docs ! j) = in_use (docs ! j)" "uri (upd_slot i f docs ! j) = uri (docs ! j)"
  using assms by (simp_all add: upd_slot_nth keeps_slot_def)

lemma uris_ok_upd:
  assumes "keeps_slot f"
  shows "uris_ok norm (upd_slot i f docs) = uris_ok norm docs"
  unfolding uris_ok_def upd_slot_length using upd_slot_keeps [OF assms] by (simp cong: conj_cong)

lemma grows_upd:
  assumes f: "keeps_slot f" and ok: "uris_ok (fs_norm fs) docs"
    and same: "i \<notin> X \<Longrightarrow> same_doc (docs ! i) (f (docs ! i))"
  shows "grows fs parse X docs (upd_slot i f docs)"
proof -
  have "j \<notin> X \<longrightarrow> same_doc (docs ! j) (upd_slot i f docs ! j)" if "j < length docs" for j
    using same that by (simp add: upd_slot_nth)
  then show ?thesis
    unfolding grows_def using ok upd_slot_keeps [OF f] by (simp add: uris_ok_upd [OF f] f)
qed

lemma same_doc_prefixes: "same_doc d (set_prefixes ps d)"
  by (simp add: same_doc_def set_prefixes_def prefix_set_copy_def)


lemma grows_weaken: "grows fs parse X a b \<Longrightarrow> X \<subseteq> Y \<Longrightarrow> grows fs parse Y a b"
  unfolding grows_def by blast

lemma satisfied_upd [simp]: "keeps_slot f \<Longrightarrow> satisfied fs (upd_slot i f docs) path = satisfied fs docs path"
  by (simp add: satisfied_def keeps_doc_find)

definition loader_ok :: "file_sys \<Rightarrow> (string \<Rightarrow> ParseOutput) \<Rightarrow> nat \<Rightarrow> loader \<Rightarrow> bool" where
  "loader_ok fs parse n load \<longleftrightarrow>
     (\<forall>docs path. uris_ok (fs_norm fs) docs \<and> free_slots docs < n \<longrightarrow>
        grows fs parse {} docs (load docs path) \<and> satisfied fs (load docs path) path)"

text \<open>The document whose includes are followed: only its prefixes and recorded URIs change.\<close>

definition same_but_includes :: "Document \<Rightarrow> Document \<Rightarrow> bool" where
  "same_but_includes d d' = (d' = d \<lparr> prefixes := prefixes d', included_uris := included_uris d' \<rparr>)"

lemma same_but_includes_trans:
  "same_but_includes a b \<Longrightarrow> same_but_includes b c \<Longrightarrow> same_but_includes a c"
  unfolding same_but_includes_def by (cases a; cases b; cases c) simp

lemma same_doc_but_includes: "same_doc a b \<Longrightarrow> same_but_includes a b \<and> included_uris b = included_uris a"
  unfolding same_but_includes_def same_doc_def by (cases a; cases b) simp

lemma same_but_includes_append: "same_but_includes d (includer_append_included_uri u d)"
  unfolding same_but_includes_def includer_append_included_uri_def by simp

lemma same_but_includes_fields:
  "same_but_includes d d' \<Longrightarrow> uri d' = uri d \<and> in_use d' = in_use d \<and> doc_text d' = doc_text d \<and>
     disk_only d' = disk_only d \<and> snap d' = snap d \<and> next_version d' = next_version d"
  unfolding same_but_includes_def by (cases d; cases d') simp

lemma follow_one_grows:
  assumes load: "loader_ok fs parse n load" and ok: "uris_ok (fs_norm fs) docs" "free_slots docs < n"
    and i: "i < length docs" "in_use (docs ! i)"
    and docs'_def: "docs' = follow_one fs load path (Some i) inc docs"
  shows "grows fs parse {i} docs docs'"
    and "same_but_includes (docs ! i) (docs' ! i)"
    and "included_uris (docs' ! i) = included_uris (docs ! i) @ [include_uri path inc]"
    and "satisfied fs docs' (resolve_include_path path (inc_filename inc))"
proof -
  let ?full = "resolve_include_path path (inc_filename inc)"
  let ?d1 = "load docs ?full"
  let ?t = "doc_find (fs_norm fs) ?d1 (path_to_uri ?full)"
  let ?d2 = "upd_opt ?t (set_prefixes (inc_prefixes inc)) ?d1"
  let ?app = "includer_append_included_uri (path_to_uri ?full)"
  have d1: "grows fs parse {} docs ?d1" "satisfied fs ?d1 ?full"
    using load ok by (auto simp: loader_ok_def)
  then have ok1: "uris_ok (fs_norm fs) ?d1" "length ?d1 = length docs"
    by (auto simp: grows_def)
  have s1: "same_doc (docs ! i) (?d1 ! i)"
    using d1(1) i by (simp add: grows_def)
  have d2: "grows fs parse {} ?d1 ?d2 \<and> satisfied fs ?d2 ?full \<and> same_doc (?d1 ! i) (?d2 ! i)"
  proof (cases ?t)
    case None
    then show ?thesis
      using grows_refl [OF ok1(1)] d1(2) by (simp add: upd_opt_def)
  next
    case (Some t)
    have "grows fs parse {} ?d1 (upd_slot t (set_prefixes (inc_prefixes inc)) ?d1)"
      using ok1(1) by (intro grows_upd keeps same_doc_prefixes)
    with Some show ?thesis
      using d1(2) i(1) ok1(2) by (simp add: upd_opt_def keeps upd_slot_nth same_doc_prefixes)
  qed
  then have ok2: "uris_ok (fs_norm fs) ?d2" "length ?d2 = length docs"
    using ok1(2) by (auto simp: grows_def)
  have docs': "docs' = upd_slot i ?app ?d2"
    by (simp add: docs'_def follow_one_def Let_def upd_opt_def)
  have "grows fs parse {i} ?d2 docs'"
    unfolding docs' using ok2(1) by (intro grows_upd keeps) auto
  moreover have "grows fs parse {} docs ?d2"
    using d1(1) d2 ok(1) by (auto intro: grows_trans)
  ultimately show "grows fs parse {i} docs docs'"
    using i(2) ok(1) by (auto intro: grows_trans [of fs parse "{i}" docs ?d2] grows_weaken)
  have at_i: "docs' ! i = ?app (?d2 ! i)"
    unfolding docs' using ok2(2) i(1) by (simp add: upd_slot_nth)
  have s2: "same_doc (docs ! i) (?d2 ! i)"
    using s1 d2 same_doc_trans by blast
  then show "same_but_includes (docs ! i) (docs' ! i)"
    unfolding at_i using same_doc_but_includes same_but_includes_append same_but_includes_trans by blast
  show "included_uris (docs' ! i) = included_uris (docs ! i) @ [include_uri path inc]"
    unfolding at_i using same_doc_fields [OF s2]
    by (simp add: includer_append_included_uri_def include_uri_def)
  show "satisfied fs docs' ?full"
    unfolding docs' using d2 by (simp add: keeps)
qed

lemma fold_follow_grows:
  assumes load: "loader_ok fs parse n load"
  shows "uris_ok (fs_norm fs) docs \<Longrightarrow> free_slots docs < n \<Longrightarrow> i < length docs \<Longrightarrow> in_use (docs ! i) \<Longrightarrow>
    grows fs parse {i} docs (fold (follow_one fs load path (Some i)) incs docs) \<and>
    same_but_includes (docs ! i) (fold (follow_one fs load path (Some i)) incs docs ! i) \<and>
    included_uris (fold (follow_one fs load path (Some i)) incs docs ! i) =
      included_uris (docs ! i) @ map (include_uri path) incs \<and>
    (\<forall>inc \<in> set incs. satisfied fs (fold (follow_one fs load path (Some i)) incs docs)
       (resolve_include_path path (inc_filename inc)))"
proof (induction incs arbitrary: docs)
  case Nil
  then show ?case
    by (simp add: grows_refl same_but_includes_def)
next
  case (Cons inc incs)
  let ?d1 = "follow_one fs load path (Some i) inc docs"
  let ?d2 = "fold (follow_one fs load path (Some i)) incs ?d1"
  note one = follow_one_grows [OF load Cons.prems refl, of path inc]
  have d1: "uris_ok (fs_norm fs) ?d1" "free_slots ?d1 < n" "i < length ?d1" "in_use (?d1 ! i)"
    using one(1) Cons.prems by (auto simp: grows_def)
  note rest = Cons.IH [OF d1]
  have "grows fs parse {i} docs ?d2"
    using grows_trans [OF one(1)] rest Cons.prems by auto
  moreover have "same_but_includes (docs ! i) (?d2 ! i)"
    using one(2) rest same_but_includes_trans by blast
  moreover have "satisfied fs ?d2 (resolve_include_path path (inc_filename inc))"
    using grows_satisfied [OF _ d1(1) one(4)] rest by blast
  ultimately show ?case
    using rest one(3) by simp
qed


text \<open>Loading into a fresh slot: everything after the allocation.\<close>

lemma install_fresh_complete:
  assumes load: "loader_ok fs parse n load" and ok: "uris_ok (fs_norm fs) docs" "free_slots docs < n"
    and i: "i < length docs" "in_use (docs ! i)" "uri (docs ! i) = fs_norm fs (path_to_uri path)"
    and find: "doc_find (fs_norm fs) docs (path_to_uri path) = Some i"
    and read: "fs_read fs path = Some content"
    and res: "docs' = upd_slot i (\<lambda>d. doc_install_parse d (Some (parse content)))
       (follow_includes_with fs load
          (upd_slot i (\<lambda>d. d \<lparr> doc_text := Some content, disk_only := True \<rparr>) docs) path (parse content))"
  shows "grows fs parse {i} docs docs'" and "complete fs parse docs' (docs' ! i)"
    and "satisfied fs docs' path"
proof -
  let ?d1 = "upd_slot i (\<lambda>d. d \<lparr> doc_text := Some content, disk_only := True \<rparr>) docs"
  let ?d2 = "upd_slot i (\<lambda>d. d \<lparr> included_uris := [] \<rparr>) ?d1"
  let ?incs = "po_includes (parse content)"
  let ?d3 = "fold (follow_one fs load path (Some i)) ?incs ?d2"
  let ?inst = "\<lambda>d. doc_install_parse d (Some (parse content))"
  have "doc_find (fs_norm fs) ?d1 (path_to_uri path) = Some i"
    using find by (simp add: keeps_doc_find keeps)
  then have docs': "docs' = upd_slot i ?inst ?d3"
    unfolding res follow_includes_with_def Let_def by (simp add: upd_opt_def)
  have g12: "grows fs parse {i} docs ?d1" "grows fs parse {i} ?d1 ?d2"
    using ok(1) by (intro grows_upd keeps; simp add: uris_ok_upd keeps)+
  have d2: "uris_ok (fs_norm fs) ?d2" "free_slots ?d2 < n" "i < length ?d2" "in_use (?d2 ! i)"
    using ok i by (simp_all add: uris_ok_upd keeps upd_slot_nth)
  note f = fold_follow_grows [OF load d2, of path ?incs]
  have d3: "uris_ok (fs_norm fs) ?d3" "length ?d3 = length docs"
    using f by (auto simp: grows_def)
  have "grows fs parse {i} docs ?d2"
    using grows_trans [OF g12 ok(1)] i(2) by simp
  then have g: "grows fs parse {i} docs ?d3"
    using f grows_trans [of fs parse "{i}" docs ?d2 ?d3] ok(1) i(2) by simp
  have "grows fs parse {i} ?d3 docs'"
    unfolding docs' using d3(1) by (intro grows_upd keeps) auto
  then show grown: "grows fs parse {i} docs docs'"
    using grows_trans [OF g _ ok(1)] i(2) by simp
  have at_i: "docs' ! i = ?inst (?d3 ! i)"
    unfolding docs' using d3(2) i(1) by (simp add: upd_slot_nth)
  have fields: "uri (?d3 ! i) = fs_norm fs (path_to_uri path)" "doc_text (?d3 ! i) = Some content"
    "disk_only (?d3 ! i)" "included_uris (?d3 ! i) = map (include_uri path) ?incs"
    using same_but_includes_fields [of "?d2 ! i" "?d3 ! i"] f i by (simp_all add: upd_slot_nth)
  have sat: "\<forall>inc \<in> set ?incs. satisfied fs docs' (resolve_include_path path (inc_filename inc))"
    unfolding docs' using f by (simp add: keeps)
  show "complete fs parse docs' (docs' ! i)"
    unfolding complete_def at_i
    using fields sat read
    by (intro exI [of _ path] exI [of _ content]
        exI [of _ "next_version (?d3 ! i)"])
      (simp add: doc_install_parse_def Let_def)
  show "satisfied fs docs' path"
    using grows_finds [OF grown ok(1) find] by (simp add: satisfied_def)
qed

lemma load_body_ok:
  assumes idem: "\<And>u. fs_norm fs (fs_norm fs u) = fs_norm fs u" and load: "loader_ok fs parse n load"
  shows "loader_ok fs parse (Suc n) (load_body fs parse load)"
  unfolding loader_ok_def
proof (intro allI impI, elim conjE)
  fix docs path
  assume ok: "uris_ok (fs_norm fs) docs" and free: "free_slots docs < Suc n"
  let ?u = "path_to_uri path"
  show "grows fs parse {} docs (load_body fs parse load docs path) \<and>
      satisfied fs (load_body fs parse load docs path) path"
  proof (cases "doc_find (fs_norm fs) docs ?u \<noteq> None \<or> fs_read fs path = None \<or>
      doc_alloc (fs_norm fs) docs ?u = None")
    case True
    then have "load_body fs parse load docs path = docs \<and> satisfied fs docs path"
      using doc_alloc_None [of "fs_norm fs" docs ?u]
      by (auto simp: load_body_def satisfied_def Let_def split: option.split)
    then show ?thesis
      using grows_refl [OF ok] by simp
  next
    case False
    then obtain content i docs1 where c: "doc_find (fs_norm fs) docs ?u = None"
      "fs_read fs path = Some content" "doc_alloc (fs_norm fs) docs ?u = Some (i, docs1)"
      by auto
    let ?docs' = "load_body fs parse load docs path"
    have ok1: "uris_ok (fs_norm fs) docs1"
      using doc_alloc_uris_ok [OF ok c(1,3) idem] .
    have al: "i < length docs" "\<not> in_use (docs ! i)" "length docs1 = length docs"
        "in_use (docs1 ! i)" "uri (docs1 ! i) = fs_norm fs ?u"
        "\<And>j. j \<noteq> i \<Longrightarrow> docs1 ! j = docs ! j"
      using doc_alloc_Some [OF c(3)] by auto
    have fr: "free_slots docs1 < n" "free_slots docs1 \<le> free_slots docs"
      using doc_alloc_free_slots [OF c(3)] free by auto
    have res: "?docs' = upd_slot i (\<lambda>d. doc_install_parse d (Some (parse content)))
       (follow_includes_with fs load
          (upd_slot i (\<lambda>d. d \<lparr> doc_text := Some content, disk_only := True \<rparr>) docs1) path (parse content))"
      using c by (simp add: load_body_def Let_def)
    have i1: "i < length docs1"
      using al by simp
    note fresh = install_fresh_complete [OF load ok1 fr(1) i1 al(4,5)
        doc_alloc_finds(1) [OF ok c(1,3) idem] c(2) res]
    have "grows fs parse {} docs ?docs'"
      unfolding grows_def
    proof (intro conjI allI impI)
      fix j assume j: "j < length docs"
      show "in_use (docs ! j) \<Longrightarrow> in_use (?docs' ! j)" "in_use (docs ! j) \<Longrightarrow> uri (?docs' ! j) = uri (docs ! j)"
        "in_use (docs ! j) \<Longrightarrow> same_doc (docs ! j) (?docs' ! j)"
        using fresh(1) j al(2,3,6) by (cases "j = i"; simp add: grows_def)+
      assume new: "\<not> in_use (docs ! j) \<and> in_use (?docs' ! j)"
      show "complete fs parse ?docs' (?docs' ! j)"
        using fresh(1,2) j new al(3,6) by (cases "j = i") (simp_all add: grows_def)
    qed (use fresh(1) al(3) fr(2) in \<open>auto simp: grows_def\<close>)
    then show ?thesis
      using fresh(3) by simp
  qed
qed

lemma load_fuel_ok:
  assumes "\<And>u. fs_norm fs (fs_norm fs u) = fs_norm fs u"
  shows "loader_ok fs parse n (load_fuel fs parse n)"
proof (induction n)
  case 0
  then show ?case by (simp add: loader_ok_def)
next
  case (Suc n)
  then show ?case
    using load_body_ok [OF assms Suc] by simp
qed

lemma load_file_ok:
  assumes "\<And>u. fs_norm fs (fs_norm fs u) = fs_norm fs u"
  shows "loader_ok fs parse n (load_file_from_disk fs parse)"
  using load_fuel_ok [OF assms] unfolding loader_ok_def load_file_from_disk_def by blast


subsection \<open>Properties\<close>

text \<open>C12: Following includes always ends, cycles included: the mutually recursive functions of the
  code satisfy their own equations as total functions, each level of recursion having taken a free
  slot.\<close>

theorem load_recursion_total:
  "load_file_from_disk fs parse docs path =
     (let u = path_to_uri path in
      if doc_find (fs_norm fs) docs u \<noteq> None then docs
      else (case fs_read fs path of
              None \<Rightarrow> docs
            | Some content \<Rightarrow>
                (case doc_alloc (fs_norm fs) docs u of
                   None \<Rightarrow> docs
                 | Some (i, docs1) \<Rightarrow>
                     upd_slot i (\<lambda>d. doc_install_parse d (Some (parse content)))
                       (follow_includes fs parse
                          (upd_slot i (\<lambda>d. d \<lparr> doc_text := Some content, disk_only := True \<rparr>) docs1)
                          path (parse content))))) \<and>
   free_slots (load_file_from_disk fs parse docs path) \<le> free_slots docs"
proof
  show "free_slots (load_file_from_disk fs parse docs path) \<le> free_slots docs"
    unfolding load_file_from_disk_def by (rule load_fuel_free)
next
  show "load_file_from_disk fs parse docs path =
     (let u = path_to_uri path in
      if doc_find (fs_norm fs) docs u \<noteq> None then docs
      else (case fs_read fs path of
              None \<Rightarrow> docs
            | Some content \<Rightarrow>
                (case doc_alloc (fs_norm fs) docs u of
                   None \<Rightarrow> docs
                 | Some (i, docs1) \<Rightarrow>
                     upd_slot i (\<lambda>d. doc_install_parse d (Some (parse content)))
                       (follow_includes fs parse
                          (upd_slot i (\<lambda>d. d \<lparr> doc_text := Some content, disk_only := True \<rparr>) docs1)
                          path (parse content)))))"
    by (subst load_file_from_disk_eq)
       (auto simp: load_body_def follow_includes_def Let_def split: option.split)
qed

text \<open>C13: Loading a file with a canonicalisation that is idempotent leaves documents in use where they
  are (only their include prefixes may change), keeps URIs canonical and unique, finds the file
  unless it is unreadable or the store is full, and every document it adds holds the text and parse
  of its file with all of its includes recorded and, on the same terms, loaded.\<close>

theorem load_closes_includes:
  assumes "\<And>u. fs_norm fs (fs_norm fs u) = fs_norm fs u" and "uris_ok (fs_norm fs) docs"
  shows "grows fs parse {} docs (load_file_from_disk fs parse docs path) \<and>
    satisfied fs (load_file_from_disk fs parse docs path) path"
  using load_file_ok [OF assms(1), where parse = parse and n = "Suc (free_slots docs)"] assms(2)
  by (simp add: loader_ok_def)

text \<open>Two files that include each other, in a store of three slots.\<close>

definition cyc_fs :: file_sys where
  "cyc_fs = \<lparr> fs_read = (\<lambda>p. if p = ''/w/a'' then Some ''A'' else if p = ''/w/b'' then Some ''B'' else None),
              fs_realpath = (\<lambda>_. None) \<rparr>"

definition cyc_parse :: "string \<Rightarrow> ParseOutput" where
  "cyc_parse t = example_output \<lparr> po_includes :=
     [\<lparr> inc_filename = (if t = ''A'' then ''b'' else ''/w/a''), inc_prefixes = no_prefixes \<rparr>] \<rparr>"

lemma cyc_norm_idem: "fs_norm cyc_fs (fs_norm cyc_fs u) = fs_norm cyc_fs u"
  unfolding fs_norm_def by (rule normalize_uri_twice) (simp_all add: cyc_fs_def)

theorem load_closes_includes_witness:
  "uris_ok (fs_norm cyc_fs) (load_file_from_disk cyc_fs cyc_parse (replicate 3 zero_doc) ''/w/a'') \<and>
   satisfied cyc_fs (load_file_from_disk cyc_fs cyc_parse (replicate 3 zero_doc) ''/w/a'') ''/w/a''"
proof -
  have "uris_ok (fs_norm cyc_fs) (replicate 3 zero_doc)"
    by (simp add: uris_ok_def zero_doc_def)
  from load_closes_includes [OF cyc_norm_idem this, of cyc_parse "''/w/a''"] show ?thesis
    by (simp add: grows_def)
qed

end
