(* ===== verification/Workspace.thy ===== *)
theory Workspace
  imports Loading Project_Tree
begin

text \<open>
  Building the workspace snapshot (\<open>src/src/workspace.c\<close>, \<open>query_context.c\<close>): one entry per parsed
  document, one project per compile-commands root with the closure of its includes copied in
  breadth-first order, one project for every document no root reaches.  Documents are slots of the
  store, project indices positions in the project list; \<open>None\<close> is the index -1.
\<close>

datatype cc_status = CC_STATUS_OK | CC_STATUS_MISSING | CC_STATUS_MALFORMED

record ws_doc =
  wd_snap :: doc_snapshot
  wd_prefixes :: prefix_set
  project_index :: "nat option"
  wd_disk_only :: bool

record ws_project =
  proj_id :: string
  proj_root :: ProjectNode
  from_compile_commands :: bool

record workspace_snapshot =
  ws_docs :: "ws_doc list"
  ws_projects :: "ws_project list"
  ws_cc_status :: cc_status

definition parsed :: "Document \<Rightarrow> bool" where
  "parsed d = (in_use d \<and> snap d \<noteq> None)"

subsection \<open>Operations\<close>

definition slot_to_wsdoc :: "Document list \<Rightarrow> nat \<Rightarrow> nat option" where
  "slot_to_wsdoc docs i =
     (if i < length docs \<and> parsed (docs ! i) then Some (length (filter parsed (take i docs))) else None)"

definition ws_alloc :: "ws_doc list \<Rightarrow> cc_status \<Rightarrow> workspace_snapshot" where
  "ws_alloc wds cc = \<lparr> ws_docs = wds, ws_projects = [], ws_cc_status = cc \<rparr>"

definition populate_ws_doc :: "Document \<Rightarrow> ws_doc" where
  "populate_ws_doc d = \<lparr> wd_snap = the (snap d), wd_prefixes = prefixes d, project_index = None,
     wd_disk_only = disk_only d \<rparr>"

definition ws_add_project :: "workspace_snapshot \<Rightarrow> string \<Rightarrow> bool \<Rightarrow> nat \<times> workspace_snapshot" where
  "ws_add_project ws i cc =
     (length (ws_projects ws),
      ws \<lparr> ws_projects := ws_projects ws @
        [\<lparr> proj_id = i, proj_root = project_root_new, from_compile_commands = cc \<rparr>] \<rparr>)"

fun prefix_of_kind :: "NodeKind \<Rightarrow> prefix_kind" where
  "prefix_of_kind NODE_KIND_ACCOUNT = PREFIX_ACCOUNT"
| "prefix_of_kind NODE_KIND_RESOURCE = PREFIX_RESOURCE"
| "prefix_of_kind NODE_KIND_REPORT = PREFIX_REPORT"
| "prefix_of_kind _ = PREFIX_TASK"

definition copy_child :: "Document \<Rightarrow> ProjectNode \<Rightarrow> tj_node \<Rightarrow> ProjectNode" where
  "copy_child d proot child =
     (let kind = node_kind_of (keyword (info child)) in
      if kind = NODE_KIND_OTHER then proot
      else (case find_node_by_dotted_path proot
                   (prefix_get (Some (prefixes d)) (prefix_of_kind kind)) kind of
              None \<Rightarrow> proot
            | Some target \<Rightarrow> append_at proot target (project_node_from_tj child (Some (uri d)))))"

definition copy_document :: "Document \<Rightarrow> ProjectNode \<Rightarrow> ProjectNode" where
  "copy_document d proot =
     (case snap d of None \<Rightarrow> proot | Some s \<Rightarrow> foldl (copy_child d) proot (children (snap_root s)))"

definition copy_document_into_project :: "workspace_snapshot \<Rightarrow> nat \<Rightarrow> Document \<Rightarrow> workspace_snapshot" where
  "copy_document_into_project ws pidx d =
     ws \<lparr> ws_projects := (ws_projects ws)[pidx :=
       (ws_projects ws ! pidx) \<lparr> proj_root := copy_document d (proj_root (ws_projects ws ! pidx)) \<rparr>] \<rparr>"

definition set_project_index :: "nat \<Rightarrow> nat \<Rightarrow> workspace_snapshot \<Rightarrow> workspace_snapshot" where
  "set_project_index w pidx ws =
     ws \<lparr> ws_docs := (ws_docs ws)[w := (ws_docs ws ! w) \<lparr> project_index := Some pidx \<rparr>] \<rparr>"

definition assign_doc_to_project ::
  "Document list \<Rightarrow> nat \<Rightarrow> workspace_snapshot \<Rightarrow> nat \<Rightarrow> workspace_snapshot" where
  "assign_doc_to_project docs pidx ws i =
     (let ws1 = copy_document_into_project ws pidx (docs ! i) in
      case slot_to_wsdoc docs i of
        None \<Rightarrow> ws1
      | Some w \<Rightarrow> if project_index (ws_docs ws1 ! w) = None then set_project_index w pidx ws1 else ws1)"

text \<open>One included URI of the document taken off the queue.  The state is the rest of the queue,
  the documents visited in order, and the snapshot.\<close>

type_synonym bfs = "nat list \<times> nat list \<times> workspace_snapshot"

definition visit_include ::
  "(string \<Rightarrow> string) \<Rightarrow> Document list \<Rightarrow> nat \<Rightarrow> bfs \<Rightarrow> string \<Rightarrow> bfs" where
  "visit_include norm docs pidx st u =
     (case st of (queue, visited, ws) \<Rightarrow>
        (case doc_find norm docs u of
           None \<Rightarrow> st
         | Some c \<Rightarrow>
             if snap (docs ! c) = None \<or> c \<in> set visited then st
             else (queue @ [c], visited @ [c], assign_doc_to_project docs pidx ws c)))"

lemma visit_includes_measure:
  assumes "foldl (visit_include norm docs pidx) (queue, visited, ws) us = (queue', visited', ws')"
  shows "length queue' + card ({..<length docs} - set visited') \<le>
         length queue + card ({..<length docs} - set visited)"
  using assms
proof (induction us arbitrary: queue visited ws)
  case (Cons u us)
  show ?case
  proof (cases "\<exists>c. doc_find norm docs u = Some c \<and> snap (docs ! c) \<noteq> None \<and> c \<notin> set visited")
    case True
    then obtain c where c: "doc_find norm docs u = Some c" "snap (docs ! c) \<noteq> None" "c \<notin> set visited"
      by auto
    have visit: "visit_include norm docs pidx (queue, visited, ws) u =
        (queue @ [c], visited @ [c], assign_doc_to_project docs pidx ws c)"
      using c by (simp add: visit_include_def)
    have lt: "c < length docs"
      using c(1) by (auto dest: doc_find_Some)
    have "card ({..<length docs} - set (visited @ [c])) = card ({..<length docs} - set visited - {c})"
      by (rule arg_cong [where f = card]) auto
    also have "\<dots> = card ({..<length docs} - set visited) - 1"
      using lt c(3) by (subst card_Diff_singleton) auto
    finally have "card ({..<length docs} - set (visited @ [c])) = card ({..<length docs} - set visited) - 1" .
    moreover have "0 < card ({..<length docs} - set visited)"
      using lt c(3) by (auto simp: card_gt_0_iff)
    ultimately have "length (queue @ [c]) + card ({..<length docs} - set (visited @ [c])) =
        length queue + card ({..<length docs} - set visited)"
      by simp
    moreover have "foldl (visit_include norm docs pidx)
        (queue @ [c], visited @ [c], assign_doc_to_project docs pidx ws c) us = (queue', visited', ws')"
      using Cons.prems visit by simp
    ultimately show ?thesis
      using Cons.IH by metis
  next
    case False
    then have "visit_include norm docs pidx (queue, visited, ws) u = (queue, visited, ws)"
      by (auto simp: visit_include_def split: option.split)
    then show ?thesis
      using Cons.prems Cons.IH by simp
  qed
qed simp

function populate_loop :: "(string \<Rightarrow> string) \<Rightarrow> Document list \<Rightarrow> nat \<Rightarrow> bfs \<Rightarrow> nat list \<times> workspace_snapshot" where
  "populate_loop norm docs pidx (queue, visited, ws) =
     (case queue of
        [] \<Rightarrow> (visited, ws)
      | cur # rest \<Rightarrow>
          populate_loop norm docs pidx
            (foldl (visit_include norm docs pidx) (rest, visited, ws) (included_uris (docs ! cur))))"
  by pat_completeness auto
termination
proof (relation "measure (\<lambda>(norm, docs, pidx, queue, visited, ws).
    length queue + card ({..<length docs} - set visited))")
  fix norm docs pidx and queue visited :: "nat list" and ws cur rest
  assume "queue = cur # rest"
  then show "((norm, docs, pidx, foldl (visit_include norm docs pidx) (rest, visited, ws) (included_uris (docs ! cur))),
      norm, docs, pidx, queue, visited, ws) \<in>
      measure (\<lambda>(norm, docs, pidx, queue, visited, ws). length queue + card ({..<length docs} - set visited))"
    using visit_includes_measure
    by (cases "foldl (visit_include norm docs pidx) (rest, visited, ws) (included_uris (docs ! cur))")
       (fastforce simp: less_Suc_eq_le)
qed simp

definition project_populate_from_root ::
  "(string \<Rightarrow> string) \<Rightarrow> Document list \<Rightarrow> nat \<Rightarrow> workspace_snapshot \<Rightarrow> nat \<Rightarrow> workspace_snapshot" where
  "project_populate_from_root norm docs pidx ws root =
     snd (populate_loop norm docs pidx ([root], [root], assign_doc_to_project docs pidx ws root))"

definition root_pass ::
  "(string \<Rightarrow> string) \<Rightarrow> Document list \<Rightarrow> workspace_snapshot \<Rightarrow> nat \<Rightarrow> workspace_snapshot" where
  "root_pass norm docs ws i =
     (let root = docs ! i in
      if \<not> in_use root \<or> \<not> is_cc_root root \<or> snap root = None then ws
      else (case ws_add_project ws (uri root) True of
              (pidx, ws1) \<Rightarrow> project_populate_from_root norm docs pidx ws1 i))"

definition orphan_pass :: "Document list \<Rightarrow> workspace_snapshot \<Rightarrow> nat \<Rightarrow> workspace_snapshot" where
  "orphan_pass docs ws i =
     (case slot_to_wsdoc docs i of
        None \<Rightarrow> ws
      | Some w \<Rightarrow>
          if project_index (ws_docs ws ! w) \<noteq> None then ws
          else (case ws_add_project ws (uri (docs ! i)) False of
                  (pidx, ws1) \<Rightarrow>
                    set_project_index w pidx (copy_document_into_project ws1 pidx (docs ! i))))"

definition build_workspace_snapshot ::
  "(string \<Rightarrow> string) \<Rightarrow> cc_status \<Rightarrow> Document list \<Rightarrow> workspace_snapshot" where
  "build_workspace_snapshot norm cc docs =
     (let ws = ws_alloc (map populate_ws_doc (filter parsed docs)) cc;
          ws1 = foldl (root_pass norm docs) ws [0..<length docs] in
      foldl (orphan_pass docs) ws1 [0..<length docs])"

subsection \<open>What the breadth-first pass visits\<close>

text \<open>The include graph: an edge to the parsed document an included URI names.\<close>

definition include_edge :: "(string \<Rightarrow> string) \<Rightarrow> Document list \<Rightarrow> nat rel" where
  "include_edge norm docs =
     {(a, b). \<exists>u \<in> set (included_uris (docs ! a)). doc_find norm docs u = Some b \<and> snap (docs ! b) \<noteq> None}"

definition include_closure :: "(string \<Rightarrow> string) \<Rightarrow> Document list \<Rightarrow> nat \<Rightarrow> nat set" where
  "include_closure norm docs r = {c. (r, c) \<in> (include_edge norm docs)\<^sup>*}"

lemma visit_include_step:
  "\<exists>new. visit_include norm docs pidx (q, v, ws) u =
       (q @ new, v @ new, foldl (assign_doc_to_project docs pidx) ws new) \<and>
     distinct new \<and> set new \<inter> set v = {} \<and>
     (\<forall>c. doc_find norm docs u = Some c \<and> snap (docs ! c) \<noteq> None \<longrightarrow> c \<in> set (v @ new)) \<and>
     (\<forall>c \<in> set new. doc_find norm docs u = Some c \<and> snap (docs ! c) \<noteq> None)"
proof (cases "\<exists>c. doc_find norm docs u = Some c \<and> snap (docs ! c) \<noteq> None \<and> c \<notin> set v")
  case True
  then obtain c where c: "doc_find norm docs u = Some c" "snap (docs ! c) \<noteq> None" "c \<notin> set v"
    by auto
  then show ?thesis
    by (intro exI [of _ "[c]"]) (simp add: visit_include_def)
next
  case False
  then show ?thesis
    by (intro exI [of _ "[]"]) (auto simp: visit_include_def split: option.split)
qed

lemma visit_includes_step:
  "\<exists>new. foldl (visit_include norm docs pidx) (q, v, ws) us =
       (q @ new, v @ new, foldl (assign_doc_to_project docs pidx) ws new) \<and>
     distinct new \<and> set new \<inter> set v = {} \<and>
     (\<forall>u \<in> set us. \<forall>c. doc_find norm docs u = Some c \<and> snap (docs ! c) \<noteq> None \<longrightarrow> c \<in> set (v @ new)) \<and>
     (\<forall>c \<in> set new. \<exists>u \<in> set us. doc_find norm docs u = Some c \<and> snap (docs ! c) \<noteq> None)"
proof (induction us arbitrary: q v ws)
  case (Cons u us)
  obtain n1 where n1: "visit_include norm docs pidx (q, v, ws) u =
       (q @ n1, v @ n1, foldl (assign_doc_to_project docs pidx) ws n1)"
    "distinct n1" "set n1 \<inter> set v = {}"
    "\<forall>c. doc_find norm docs u = Some c \<and> snap (docs ! c) \<noteq> None \<longrightarrow> c \<in> set (v @ n1)"
    "\<forall>c \<in> set n1. doc_find norm docs u = Some c \<and> snap (docs ! c) \<noteq> None"
    using visit_include_step [of norm docs pidx q v ws u] by blast
  obtain n2 where n2: "foldl (visit_include norm docs pidx)
       (q @ n1, v @ n1, foldl (assign_doc_to_project docs pidx) ws n1) us =
       ((q @ n1) @ n2, (v @ n1) @ n2, foldl (assign_doc_to_project docs pidx) (foldl (assign_doc_to_project docs pidx) ws n1) n2)"
    "distinct n2" "set n2 \<inter> set (v @ n1) = {}"
    "\<forall>u \<in> set us. \<forall>c. doc_find norm docs u = Some c \<and> snap (docs ! c) \<noteq> None \<longrightarrow> c \<in> set ((v @ n1) @ n2)"
    "\<forall>c \<in> set n2. \<exists>u \<in> set us. doc_find norm docs u = Some c \<and> snap (docs ! c) \<noteq> None"
    using Cons.IH [of "q @ n1" "v @ n1" "foldl (assign_doc_to_project docs pidx) ws n1"] by blast
  show ?case
  proof (intro exI [of _ "n1 @ n2"] conjI)
    show "distinct (n1 @ n2)" using n1(2) n2(2,3) by auto
    show "set (n1 @ n2) \<inter> set v = {}" using n1(3) n2(3) by auto
    show "\<forall>u' \<in> set (u # us). \<forall>c. doc_find norm docs u' = Some c \<and> snap (docs ! c) \<noteq> None \<longrightarrow>
        c \<in> set (v @ n1 @ n2)"
      using n1(4) n2(4) by auto
    show "\<forall>c \<in> set (n1 @ n2). \<exists>u' \<in> set (u # us). doc_find norm docs u' = Some c \<and> snap (docs ! c) \<noteq> None"
      using n1(5) n2(5) by auto
  qed (use n1(1) n2(1) in simp)
qed (intro exI [of _ "[]"], simp)

text \<open>Everything visited is off the queue and expanded, or on the queue.\<close>

definition bfs_ok :: "(string \<Rightarrow> string) \<Rightarrow> Document list \<Rightarrow> nat \<Rightarrow> nat list \<Rightarrow> nat list \<Rightarrow> bool" where
  "bfs_ok norm docs r q v =
     (distinct v \<and> r \<in> set v \<and> set q \<subseteq> set v \<and> set v \<subseteq> include_closure norm docs r \<and>
      (\<forall>a \<in> set v - set q. include_edge norm docs `` {a} \<subseteq> set v))"

lemma include_closure_step:
  "a \<in> include_closure norm docs r \<Longrightarrow> (a, b) \<in> include_edge norm docs \<Longrightarrow> b \<in> include_closure norm docs r"
  unfolding include_closure_def by (simp add: rtrancl.rtrancl_into_rtrancl)

lemma include_edgeI:
  "u \<in> set (included_uris (docs ! a)) \<Longrightarrow> doc_find norm docs u = Some b \<Longrightarrow> snap (docs ! b) \<noteq> None \<Longrightarrow>
   (a, b) \<in> include_edge norm docs"
  by (auto simp: include_edge_def)

lemma bfs_ok_step:
  assumes ok: "bfs_ok norm docs r (cur # rest) v"
    and new: "distinct new" "set new \<inter> set v = {}"
    "\<forall>u \<in> set (included_uris (docs ! cur)). \<forall>c. doc_find norm docs u = Some c \<and> snap (docs ! c) \<noteq> None \<longrightarrow> c \<in> set (v @ new)"
    "\<forall>c \<in> set new. \<exists>u \<in> set (included_uris (docs ! cur)). doc_find norm docs u = Some c \<and> snap (docs ! c) \<noteq> None"
  shows "bfs_ok norm docs r (rest @ new) (v @ new)"
proof -
  have cur: "cur \<in> include_closure norm docs r"
    using ok by (auto simp: bfs_ok_def)
  have "set new \<subseteq> include_closure norm docs r"
  proof
    fix c assume "c \<in> set new"
    then have "(cur, c) \<in> include_edge norm docs"
      using new(4) by (auto simp: include_edge_def)
    then show "c \<in> include_closure norm docs r"
      by (rule include_closure_step [OF cur])
  qed
  moreover have "include_edge norm docs `` {a} \<subseteq> set (v @ new)"
    if "a \<in> set (v @ new) - set (rest @ new)" for a
  proof (cases "a = cur")
    case True
    then show ?thesis using new(3) by (auto simp: include_edge_def)
  next
    case False
    then have "a \<in> set v - set (cur # rest)" using that by auto
    then show ?thesis using ok by (auto simp: bfs_ok_def)
  qed
  ultimately show ?thesis
    using ok new(1,2) unfolding bfs_ok_def by auto
qed

lemma bfs_done:
  assumes "bfs_ok norm docs r [] v"
  shows "set v = include_closure norm docs r"
proof
  show "include_closure norm docs r \<subseteq> set v"
  proof
    fix c assume "c \<in> include_closure norm docs r"
    then have "(r, c) \<in> (include_edge norm docs)\<^sup>*" by (simp add: include_closure_def)
    then show "c \<in> set v"
      by (induction rule: rtrancl_induct) (use assms in \<open>auto simp: bfs_ok_def\<close>)
  qed
qed (use assms in \<open>simp add: bfs_ok_def\<close>)

lemma populate_loop_visits:
  "bfs_ok norm docs r q v \<Longrightarrow>
   \<exists>new. populate_loop norm docs pidx (q, v, ws) =
       (v @ new, foldl (assign_doc_to_project docs pidx) ws new) \<and>
     distinct (v @ new) \<and> set (v @ new) = include_closure norm docs r"
proof (induction norm docs pidx "(q, v, ws)" arbitrary: q v ws rule: populate_loop.induct)
  case (1 norm docs pidx q v ws)
  show ?case
  proof (cases q)
    case Nil
    have v: "set v = include_closure norm docs r"
      by (rule bfs_done) (use 1(2) Nil in simp)
    have "distinct v"
      using 1(2) by (simp only: bfs_ok_def)
    moreover have "populate_loop norm docs pidx (q, v, ws) = (v, ws)"
      by (subst populate_loop.simps) (simp add: Nil)
    ultimately show ?thesis
      using v by (intro exI [of _ "[]"]) (simp only: append_Nil2 foldl_Nil simp_thms)
  next
    case (Cons cur rest)
    obtain n1 where n1: "foldl (visit_include norm docs pidx) (rest, v, ws) (included_uris (docs ! cur)) =
       (rest @ n1, v @ n1, foldl (assign_doc_to_project docs pidx) ws n1)"
      "distinct n1" "set n1 \<inter> set v = {}"
      "\<forall>u \<in> set (included_uris (docs ! cur)). \<forall>c. doc_find norm docs u = Some c \<and> snap (docs ! c) \<noteq> None \<longrightarrow> c \<in> set (v @ n1)"
      "\<forall>c \<in> set n1. \<exists>u \<in> set (included_uris (docs ! cur)). doc_find norm docs u = Some c \<and> snap (docs ! c) \<noteq> None"
      using visit_includes_step [of norm docs pidx rest v ws "included_uris (docs ! cur)"] by blast
    have ok: "bfs_ok norm docs r (rest @ n1) (v @ n1)"
      by (rule bfs_ok_step [OF 1(2) [unfolded Cons] n1(2-5)])
    obtain n2 where n2: "populate_loop norm docs pidx (rest @ n1, v @ n1, foldl (assign_doc_to_project docs pidx) ws n1) =
       ((v @ n1) @ n2, foldl (assign_doc_to_project docs pidx) (foldl (assign_doc_to_project docs pidx) ws n1) n2)"
      "distinct ((v @ n1) @ n2)" "set ((v @ n1) @ n2) = include_closure norm docs r"
      using 1(1) [OF Cons n1(1) ok] by blast
    have "populate_loop norm docs pidx (q, v, ws) =
        (v @ n1 @ n2, foldl (assign_doc_to_project docs pidx) ws (n1 @ n2))"
      by (subst populate_loop.simps) (simp only: Cons list.case n1(1) n2(1) append_assoc foldl_append)
    then show ?thesis
      using n2(2,3) by (intro exI [of _ "n1 @ n2"]) (simp only: append_assoc simp_thms)
  qed
qed

lemma populate_from_root:
  "\<exists>ms. project_populate_from_root norm docs pidx ws root = foldl (assign_doc_to_project docs pidx) ws ms \<and>
     distinct ms \<and> set ms = include_closure norm docs root"
proof -
  have "bfs_ok norm docs root [root] [root]"
    by (simp add: bfs_ok_def include_closure_def)
  then obtain new where "populate_loop norm docs pidx ([root], [root], assign_doc_to_project docs pidx ws root) =
       ([root] @ new, foldl (assign_doc_to_project docs pidx) (assign_doc_to_project docs pidx ws root) new)"
     "distinct ([root] @ new)" "set ([root] @ new) = include_closure norm docs root"
    using populate_loop_visits by blast
  then show ?thesis
    unfolding project_populate_from_root_def by (intro exI [of _ "[root] @ new"]) simp
qed

subsection \<open>What a pass leaves in the snapshot\<close>

text \<open>The project that claimed a document.\<close>

definition claim_of :: "Document list \<Rightarrow> workspace_snapshot \<Rightarrow> nat \<Rightarrow> nat option" where
  "claim_of docs ws i =
     (case slot_to_wsdoc docs i of None \<Rightarrow> None | Some w \<Rightarrow> project_index (ws_docs ws ! w))"

definition parsed_slots :: "Document list \<Rightarrow> nat list" where
  "parsed_slots docs = filter (\<lambda>i. parsed (docs ! i)) [0..<length docs]"

definition docs_match :: "Document list \<Rightarrow> workspace_snapshot \<Rightarrow> bool" where
  "docs_match docs ws =
     (map (\<lambda>w. w \<lparr> project_index := None \<rparr>) (ws_docs ws) = map populate_ws_doc (filter parsed docs))"

lemma slots_numbered:
  "n \<le> length docs \<Longrightarrow>
   map (slot_to_wsdoc docs) (filter (\<lambda>i. parsed (docs ! i)) [0..<n]) =
   map Some [0..<length (filter parsed (take n docs))]"
  by (induction n) (auto simp: slot_to_wsdoc_def take_Suc_conv_app_nth)

lemma slot_in_range:
  assumes "slot_to_wsdoc docs i = Some w"
  shows "w < length (filter parsed docs)"
proof -
  have i: "i < length docs" "parsed (docs ! i)" "w = length (filter parsed (take i docs))"
    using assms by (auto simp: slot_to_wsdoc_def split: if_splits)
  have "filter parsed docs = filter parsed (take i docs) @ filter parsed (drop i docs)"
    by (metis append_take_drop_id filter_append)
  moreover have "filter parsed (drop i docs) \<noteq> []"
    using i by (simp add: Cons_nth_drop_Suc [symmetric])
  ultimately show ?thesis using i(3) by simp
qed

lemma slot_inj:
  assumes "slot_to_wsdoc docs i = Some w" and "slot_to_wsdoc docs j = Some w"
  shows "i = j"
proof (rule ccontr)
  have less: False if "i < j" "slot_to_wsdoc docs i = Some w" "slot_to_wsdoc docs j = Some w" for i j
  proof -
    have i: "i < length docs" "parsed (docs ! i)" "length (filter parsed (take i docs)) = w"
      and j: "length (filter parsed (take j docs)) = w"
      using that by (auto simp: slot_to_wsdoc_def split: if_splits)
    have "take j docs = take (Suc i) docs @ take (j - Suc i) (drop (Suc i) docs)"
      using that(1) by (metis Suc_leI le_add_diff_inverse take_add)
    moreover have "take (Suc i) docs = take i docs @ [docs ! i]"
      using i(1) by (rule take_Suc_conv_app_nth)
    ultimately show False using i j by simp
  qed
  assume "i \<noteq> j"
  then show False
    using less [of i j] less [of j i] assms by (cases "i < j") auto
qed

lemma docs_match_length: "docs_match docs ws \<Longrightarrow> length (ws_docs ws) = length (filter parsed docs)"
  unfolding docs_match_def by (metis length_map)

lemma claims_listed:
  assumes "docs_match docs ws"
  shows "map project_index (ws_docs ws) = map (claim_of docs ws) (parsed_slots docs)"
proof -
  have slots: "map (slot_to_wsdoc docs) (parsed_slots docs) = map Some [0..<length (ws_docs ws)]"
    using slots_numbered [of "length docs" docs] assms by (simp add: parsed_slots_def docs_match_length)
  have "map (claim_of docs ws) (parsed_slots docs) =
      map (\<lambda>s. case s of None \<Rightarrow> None | Some w \<Rightarrow> project_index (ws_docs ws ! w))
        (map (slot_to_wsdoc docs) (parsed_slots docs))"
    by (simp add: claim_of_def)
  also have "\<dots> = map (\<lambda>w. project_index (ws_docs ws ! w)) [0..<length (ws_docs ws)]"
    unfolding slots by simp
  also have "\<dots> = map project_index (ws_docs ws)"
    by (rule nth_equalityI) simp_all
  finally show ?thesis by simp
qed

lemma set_project_index_match:
  assumes "docs_match docs ws" and "slot_to_wsdoc docs i = Some w"
  shows "docs_match docs (set_project_index w p ws)"
    and "claim_of docs (set_project_index w p ws) = (claim_of docs ws)(i := Some p)"
proof -
  have w: "w < length (ws_docs ws)"
    using slot_in_range [OF assms(2)] docs_match_length [OF assms(1)] by simp
  have "map (\<lambda>w. w \<lparr> project_index := None \<rparr>) (ws_docs (set_project_index w p ws)) =
      map (\<lambda>w. w \<lparr> project_index := None \<rparr>) (ws_docs ws)"
    by (simp add: set_project_index_def map_update list_update_same_conv w)
  then show "docs_match docs (set_project_index w p ws)"
    using assms(1) unfolding docs_match_def by simp
  show "claim_of docs (set_project_index w p ws) = (claim_of docs ws)(i := Some p)"
  proof
    fix j
    show "claim_of docs (set_project_index w p ws) j = ((claim_of docs ws)(i := Some p)) j"
    proof (cases "j = i")
      case True
      then show ?thesis
        using assms(2) w by (simp add: claim_of_def set_project_index_def)
    next
      case False
      then have "slot_to_wsdoc docs j \<noteq> Some w"
        using slot_inj [OF assms(2)] by blast
      then show ?thesis
        using False by (auto simp: claim_of_def set_project_index_def split: option.split)
    qed
  qed
qed

lemma projects_keep_docs [simp]:
  "docs_match docs (ws_projects_update f ws) = docs_match docs ws"
  "claim_of docs (ws_projects_update f ws) = claim_of docs ws"
  by (auto simp: docs_match_def claim_of_def fun_eq_iff split: option.split)

lemma copy_document_into_project_docs [simp]:
  "ws_docs (copy_document_into_project ws p d) = ws_docs ws"
  "docs_match docs (copy_document_into_project ws p d) = docs_match docs ws"
  "claim_of docs (copy_document_into_project ws p d) = claim_of docs ws"
  by (simp_all add: copy_document_into_project_def)

lemma set_project_index_projects [simp]: "ws_projects (set_project_index w p ws) = ws_projects ws"
  by (simp add: set_project_index_def)

definition assemble :: "Document list \<Rightarrow> ProjectNode \<Rightarrow> nat list \<Rightarrow> ProjectNode" where
  "assemble docs t ms = foldl (\<lambda>t i. copy_document (docs ! i) t) t ms"

lemma assign_projects:
  "ws_projects ws = ps @ [q] \<Longrightarrow> p = length ps \<Longrightarrow>
   ws_projects (assign_doc_to_project docs p ws i) = ps @ [q \<lparr> proj_root := copy_document (docs ! i) (proj_root q) \<rparr>]"
  by (simp add: assign_doc_to_project_def copy_document_into_project_def Let_def split: option.split)

lemma assign_docs:
  assumes "docs_match docs ws"
  shows "docs_match docs (assign_doc_to_project docs p ws i)"
    and "claim_of docs (assign_doc_to_project docs p ws i) =
      (\<lambda>j. if j = i \<and> slot_to_wsdoc docs i \<noteq> None \<and> claim_of docs ws i = None then Some p else claim_of docs ws j)"
proof -
  let ?ws1 = "copy_document_into_project ws p (docs ! i)"
  have m: "docs_match docs ?ws1" using assms by simp
  show "docs_match docs (assign_doc_to_project docs p ws i)"
    using m set_project_index_match(1) [OF m]
    by (auto simp: assign_doc_to_project_def Let_def split: option.split)
  show "claim_of docs (assign_doc_to_project docs p ws i) =
      (\<lambda>j. if j = i \<and> slot_to_wsdoc docs i \<noteq> None \<and> claim_of docs ws i = None then Some p else claim_of docs ws j)"
  proof (cases "slot_to_wsdoc docs i")
    case None
    then show ?thesis by (simp add: assign_doc_to_project_def Let_def)
  next
    case (Some w)
    then have "claim_of docs ws i = project_index (ws_docs ws ! w)"
      by (simp add: claim_of_def)
    then show ?thesis
      using Some set_project_index_match(2) [OF m Some, of p]
      by (auto simp: assign_doc_to_project_def Let_def)
  qed
qed

lemma assigns_projects:
  "ws_projects ws = ps @ [q] \<Longrightarrow> p = length ps \<Longrightarrow>
   ws_projects (foldl (assign_doc_to_project docs p) ws ms) = ps @ [q \<lparr> proj_root := assemble docs (proj_root q) ms \<rparr>]"
proof (induction ms arbitrary: ws q)
  case (Cons m ms)
  show ?case
    using Cons.IH [OF assign_projects [OF Cons.prems]] Cons.prems(2)
    by (simp add: assemble_def)
qed (simp add: assemble_def)

lemma assigns_docs:
  "docs_match docs ws \<Longrightarrow>
   docs_match docs (foldl (assign_doc_to_project docs p) ws ms) \<and>
   claim_of docs (foldl (assign_doc_to_project docs p) ws ms) =
     (\<lambda>j. if j \<in> set ms \<and> slot_to_wsdoc docs j \<noteq> None \<and> claim_of docs ws j = None then Some p else claim_of docs ws j)"
proof (induction ms arbitrary: ws)
  case (Cons m ms)
  let ?ws1 = "assign_doc_to_project docs p ws m"
  note step = assign_docs [OF Cons.prems, of p m]
  note ih = Cons.IH [OF step(1)]
  show ?case
  proof
    show "docs_match docs (foldl (assign_doc_to_project docs p) ws (m # ms))"
      using ih by simp
    show "claim_of docs (foldl (assign_doc_to_project docs p) ws (m # ms)) =
      (\<lambda>j. if j \<in> set (m # ms) \<and> slot_to_wsdoc docs j \<noteq> None \<and> claim_of docs ws j = None then Some p else claim_of docs ws j)"
      unfolding foldl_Cons ih [THEN conjunct2] step(2) by (rule ext) auto
  qed
qed simp

subsection \<open>The two passes\<close>

definition cc_roots :: "Document list \<Rightarrow> nat list" where
  "cc_roots docs = filter (\<lambda>i. parsed (docs ! i) \<and> is_cc_root (docs ! i)) [0..<length docs]"

definition reached :: "(string \<Rightarrow> string) \<Rightarrow> Document list \<Rightarrow> nat list \<Rightarrow> nat \<Rightarrow> bool" where
  "reached norm docs rs i = (\<exists>r \<in> set rs. i \<in> include_closure norm docs r)"

text \<open>The first root in a list whose closure holds a document.\<close>

definition first_root :: "(string \<Rightarrow> string) \<Rightarrow> Document list \<Rightarrow> nat list \<Rightarrow> nat \<Rightarrow> nat" where
  "first_root norm docs rs i = length (takeWhile (\<lambda>r. i \<notin> include_closure norm docs r) rs)"

definition orphans_upto :: "(string \<Rightarrow> string) \<Rightarrow> Document list \<Rightarrow> nat \<Rightarrow> nat list" where
  "orphans_upto norm docs n =
     filter (\<lambda>i. parsed (docs ! i) \<and> \<not> reached norm docs (cc_roots docs) i) [0..<n]"

definition orphan_docs :: "(string \<Rightarrow> string) \<Rightarrow> Document list \<Rightarrow> nat list" where
  "orphan_docs norm docs = orphans_upto norm docs (length docs)"

definition project_for :: "Document list \<Rightarrow> bool \<Rightarrow> nat \<Rightarrow> nat list \<Rightarrow> ws_project" where
  "project_for docs cc i ms = \<lparr> proj_id = uri (docs ! i), proj_root = assemble docs project_root_new ms,
     from_compile_commands = cc \<rparr>"

lemma first_root_snoc:
  "first_root norm docs (rs @ [r]) i =
     (if reached norm docs rs i then first_root norm docs rs i
      else if i \<in> include_closure norm docs r then length rs else Suc (length rs))"
  by (simp add: first_root_def reached_def takeWhile_append takeWhile_eq_all_conv [THEN iffD2])

lemma first_root_less: "reached norm docs rs i \<Longrightarrow> first_root norm docs rs i < length rs"
proof (induction rs rule: rev_induct)
  case (snoc r rs)
  show ?case
  proof (cases "reached norm docs rs i")
    case True
    then show ?thesis using snoc.IH by (simp add: first_root_snoc)
  next
    case False
    then show ?thesis using snoc.prems by (auto simp: first_root_snoc reached_def)
  qed
qed (simp add: reached_def)

definition roots_done :: "(string \<Rightarrow> string) \<Rightarrow> Document list \<Rightarrow> nat list \<Rightarrow> workspace_snapshot \<Rightarrow> bool" where
  "roots_done norm docs rs ws =
     (docs_match docs ws \<and>
      (\<exists>mss. ws_projects ws = map2 (project_for docs True) rs mss \<and> list_all distinct mss \<and>
             map set mss = map (include_closure norm docs) rs) \<and>
      claim_of docs ws = (\<lambda>i. if slot_to_wsdoc docs i \<noteq> None \<and> reached norm docs rs i
                              then Some (first_root norm docs rs i) else None))"

lemma root_pass_step:
  assumes ok: "roots_done norm docs rs ws" and root: "parsed (docs ! r)" "is_cc_root (docs ! r)"
  shows "roots_done norm docs (rs @ [r]) (root_pass norm docs ws r)"
proof -
  obtain mss where mss: "ws_projects ws = map2 (project_for docs True) rs mss" "list_all distinct mss"
      "map set mss = map (include_closure norm docs) rs"
    and m: "docs_match docs ws"
    and cl: "claim_of docs ws = (\<lambda>i. if slot_to_wsdoc docs i \<noteq> None \<and> reached norm docs rs i
                              then Some (first_root norm docs rs i) else None)"
    using ok unfolding roots_done_def by blast
  have len: "length mss = length rs" using arg_cong [OF mss(3), of length] by simp
  let ?p = "length (ws_projects ws)"
  have p: "?p = length rs" using mss(1) len by simp
  define ws1 where "ws1 = snd (ws_add_project ws (uri (docs ! r)) True)"
  have ws1: "ws_projects ws1 = ws_projects ws @
      [\<lparr> proj_id = uri (docs ! r), proj_root = project_root_new, from_compile_commands = True \<rparr>]"
    "docs_match docs ws1" "claim_of docs ws1 = claim_of docs ws"
    using m by (simp_all add: ws1_def ws_add_project_def)
  have pass: "root_pass norm docs ws r = project_populate_from_root norm docs ?p ws1 r"
    using root by (auto simp: root_pass_def ws_add_project_def ws1_def parsed_def Let_def)
  obtain ms where ms: "project_populate_from_root norm docs ?p ws1 r = foldl (assign_doc_to_project docs ?p) ws1 ms"
    "distinct ms" "set ms = include_closure norm docs r"
    using populate_from_root by blast
  have ps: "ws_projects (root_pass norm docs ws r) = map2 (project_for docs True) (rs @ [r]) (mss @ [ms])"
    unfolding pass ms(1) assigns_projects [OF ws1(1) refl]
    by (simp add: mss(1) len project_for_def)
  note docs' = assigns_docs [OF ws1(2), of ?p ms]
  have pm: "root_pass norm docs ws r = foldl (assign_doc_to_project docs ?p) ws1 ms"
    using pass ms(1) by simp
  have cl': "claim_of docs (root_pass norm docs ws r) = (\<lambda>j. if j \<in> set ms \<and> slot_to_wsdoc docs j \<noteq> None \<and>
      claim_of docs ws1 j = None then Some ?p else claim_of docs ws1 j)"
    unfolding pm by (rule docs' [THEN conjunct2])
  have "claim_of docs (root_pass norm docs ws r) = (\<lambda>i. if slot_to_wsdoc docs i \<noteq> None \<and> reached norm docs (rs @ [r]) i
          then Some (first_root norm docs (rs @ [r]) i) else None)"
    unfolding cl' ws1(3) cl ms(3) p first_root_snoc
    by (rule ext) (auto simp: reached_def)
  then show ?thesis
    unfolding roots_done_def
    using docs' ps mss(2,3) ms(2,3) pm
    by (intro conjI exI [of _ "mss @ [ms]"]) (simp_all add: pm)
qed

lemma root_passes:
  assumes "docs_match docs ws" and "ws_projects ws = []" and "claim_of docs ws = (\<lambda>_. None)"
  shows "roots_done norm docs (filter (\<lambda>i. parsed (docs ! i) \<and> is_cc_root (docs ! i)) [0..<n])
           (foldl (root_pass norm docs) ws [0..<n])"
proof (induction n)
  case 0
  show ?case
    using assms by (simp add: roots_done_def reached_def)
next
  case (Suc n)
  show ?case
  proof (cases "parsed (docs ! n) \<and> is_cc_root (docs ! n)")
    case True
    then show ?thesis using root_pass_step [OF Suc] by simp
  next
    case False
    then have "root_pass norm docs w n = w" for w
      by (auto simp: root_pass_def parsed_def)
    then have "foldl (root_pass norm docs) ws [0..<Suc n] = foldl (root_pass norm docs) ws [0..<n]"
      by simp
    moreover have "filter (\<lambda>i. parsed (docs ! i) \<and> is_cc_root (docs ! i)) [0..<Suc n] =
        filter (\<lambda>i. parsed (docs ! i) \<and> is_cc_root (docs ! i)) [0..<n]"
      using False by auto
    ultimately show ?thesis using Suc by (simp only:)
  qed
qed

definition orphans_done ::
  "(string \<Rightarrow> string) \<Rightarrow> Document list \<Rightarrow> ws_project list \<Rightarrow> nat \<Rightarrow> workspace_snapshot \<Rightarrow> bool" where
  "orphans_done norm docs ps n ws =
     (docs_match docs ws \<and>
      ws_projects ws = ps @ map (\<lambda>i. project_for docs False i [i]) (orphans_upto norm docs n) \<and>
      claim_of docs ws = (\<lambda>i. if slot_to_wsdoc docs i = None then None
        else if reached norm docs (cc_roots docs) i then Some (first_root norm docs (cc_roots docs) i)
        else if i < n then Some (length ps + length (orphans_upto norm docs i)) else None))"

lemma orphan_passes:
  assumes "roots_done norm docs (cc_roots docs) ws" and "n \<le> length docs"
  shows "orphans_done norm docs (ws_projects ws) n (foldl (orphan_pass docs) ws [0..<n])"
  using assms(2)
proof (induction n)
  case 0
  show ?case
    using assms(1) by (auto simp: roots_done_def orphans_done_def orphans_upto_def fun_eq_iff)
next
  case (Suc n)
  define w where "w = foldl (orphan_pass docs) ws [0..<n]"
  have m: "docs_match docs w"
    and ps: "ws_projects w = ws_projects ws @ map (\<lambda>i. project_for docs False i [i]) (orphans_upto norm docs n)"
    and cl: "claim_of docs w = (\<lambda>i. if slot_to_wsdoc docs i = None then None
        else if reached norm docs (cc_roots docs) i then Some (first_root norm docs (cc_roots docs) i)
        else if i < n then Some (length (ws_projects ws) + length (orphans_upto norm docs i)) else None)"
    using Suc unfolding orphans_done_def w_def by simp_all
  have step: "foldl (orphan_pass docs) ws [0..<Suc n] = orphan_pass docs w n"
    by (simp add: w_def)
  show ?case
  proof (cases "parsed (docs ! n) \<and> \<not> reached norm docs (cc_roots docs) n")
    case False
    have "orphan_pass docs w n = w"
    proof (cases "slot_to_wsdoc docs n")
      case (Some s)
      then have "parsed (docs ! n)"
        by (simp add: slot_to_wsdoc_def split: if_splits)
      then have "claim_of docs w n \<noteq> None"
        using False Some by (simp add: cl)
      then show ?thesis
        using Some by (simp add: orphan_pass_def claim_of_def)
    qed (simp add: orphan_pass_def)
    moreover have "orphans_upto norm docs (Suc n) = orphans_upto norm docs n"
      using False by (auto simp: orphans_upto_def)
    moreover have "claim_of docs w = (\<lambda>i. if slot_to_wsdoc docs i = None then None
        else if reached norm docs (cc_roots docs) i then Some (first_root norm docs (cc_roots docs) i)
        else if i < Suc n then Some (length (ws_projects ws) + length (orphans_upto norm docs i)) else None)"
      unfolding cl using False by (auto simp: less_Suc_eq slot_to_wsdoc_def)
    ultimately show ?thesis
      unfolding step orphans_done_def using m ps by simp
  next
    case True
    obtain s where s: "slot_to_wsdoc docs n = Some s"
      using True Suc.prems by (simp add: slot_to_wsdoc_def)
    have none: "project_index (ws_docs w ! s) = None"
      using fun_cong [OF cl, of n] True s by (simp add: claim_of_def)
    define p where "p = length (ws_projects w)"
    define w1 where "w1 = snd (ws_add_project w (uri (docs ! n)) False)"
    define w2 where "w2 = copy_document_into_project w1 p (docs ! n)"
    have pass: "orphan_pass docs w n = set_project_index s p w2"
      using s none by (simp add: orphan_pass_def ws_add_project_def w1_def w2_def p_def)
    have w2: "docs_match docs w2" "claim_of docs w2 = claim_of docs w"
      using m by (simp_all add: w1_def w2_def ws_add_project_def)
    have "ws_projects (orphan_pass docs w n) = ws_projects w @ [project_for docs False n [n]]"
      unfolding pass w2_def w1_def
      by (simp add: copy_document_into_project_def ws_add_project_def p_def project_for_def assemble_def)
    moreover have "orphans_upto norm docs (Suc n) = orphans_upto norm docs n @ [n]"
      using True by (simp add: orphans_upto_def)
    moreover have "claim_of docs (orphan_pass docs w n) = (\<lambda>i. if slot_to_wsdoc docs i = None then None
        else if reached norm docs (cc_roots docs) i then Some (first_root norm docs (cc_roots docs) i)
        else if i < Suc n then Some (length (ws_projects ws) + length (orphans_upto norm docs i)) else None)"
      unfolding pass set_project_index_match(2) [OF w2(1) s] w2(2) cl
      using True s by (auto simp: p_def ps less_Suc_eq)
    ultimately show ?thesis
      unfolding step orphans_done_def
      using ps set_project_index_match(1) [OF w2(1) s] pass by simp
  qed
qed

lemma build_workspace_snapshot_spec:
  "\<exists>mss. list_all distinct mss \<and> map set mss = map (include_closure norm docs) (cc_roots docs) \<and>
     orphans_done norm docs (map2 (project_for docs True) (cc_roots docs) mss) (length docs)
       (build_workspace_snapshot norm cc docs)"
proof -
  let ?ws = "ws_alloc (map populate_ws_doc (filter parsed docs)) cc"
  have "docs_match docs ?ws"
    by (simp add: docs_match_def ws_alloc_def populate_ws_doc_def)
  moreover have "claim_of docs ?ws = (\<lambda>_. None)"
    using slot_in_range [of docs]
    by (fastforce simp: claim_of_def ws_alloc_def populate_ws_doc_def split: option.split)
  ultimately have r: "roots_done norm docs (cc_roots docs) (foldl (root_pass norm docs) ?ws [0..<length docs])"
    using root_passes [of docs ?ws norm "length docs"] by (simp add: cc_roots_def ws_alloc_def)
  obtain mss where "ws_projects (foldl (root_pass norm docs) ?ws [0..<length docs]) = map2 (project_for docs True) (cc_roots docs) mss"
      "list_all distinct mss" "map set mss = map (include_closure norm docs) (cc_roots docs)"
    using r unfolding roots_done_def by blast
  moreover have "orphans_done norm docs (ws_projects (foldl (root_pass norm docs) ?ws [0..<length docs])) (length docs)
      (build_workspace_snapshot norm cc docs)"
    using orphan_passes [OF r, of "length docs"] by (simp add: build_workspace_snapshot_def Let_def)
  ultimately show ?thesis by auto
qed

subsection \<open>Where a document's declarations land\<close>

lemma append_at_pinfo [simp]: "pinfo (append_at t q c) = pinfo t"
  by (cases q) (simp_all add: project_node_append_child_def)

lemma pnode_at_append_at:
  "pnode_at t q = Some n \<Longrightarrow> pnode_at (append_at t q c) q = Some (project_node_append_child n c)"
  by (induction t q c rule: append_at.induct) (auto split: if_splits)

lemma find_child_iff:
  "find_child P n = Some i \<longleftrightarrow> i < length (pchildren n) \<and> P (pchildren n ! i) \<and> (\<forall>j < i. \<not> P (pchildren n ! j))"
  unfolding find_child_def find_Some_iff by (auto intro: exI [of _ i])

lemma find_child_update:
  assumes "find_child P n = Some i" and "P m = P (pchildren n ! i)"
  shows "find_child P (PNode j ((pchildren n)[i := m])) = Some i"
  using assms by (auto simp: find_child_iff)

lemma walk_kind_append_at:
  "walk_kind k t segs = Some q \<Longrightarrow> walk_kind k (append_at t q c) segs = Some q"
proof (induction k t segs arbitrary: q rule: walk_kind.induct)
  case (2 k n s segs)
  let ?P = "\<lambda>c. node_kind_of (pn_keyword (pinfo c)) = k \<and> pn_id (pinfo c) = Some s"
  obtain i q' where i: "find_child ?P n = Some i" and q': "walk_kind k (pchildren n ! i) segs = Some q'" "q = i # q'"
    using 2(2) by (auto split: option.splits)
  have lt: "i < length (pchildren n)" using i by (simp add: find_child_Some)
  have "find_child ?P (PNode (pinfo n) ((pchildren n)[i := append_at (pchildren n ! i) q' c])) = Some i"
    by (rule find_child_update [OF i]) simp
  then show ?case
    using 2(1) [OF i q'(1)] lt q'(2) by simp
qed (simp add: project_node_append_child_def)

lemma find_node_append_at:
  "find_node_by_dotted_path t p k = Some q \<Longrightarrow> find_node_by_dotted_path (append_at t q c) p k = Some q"
  by (auto simp: find_node_by_dotted_path_def walk_kind_append_at split: option.splits if_splits)

definition lands_at :: "Document \<Rightarrow> ProjectNode \<Rightarrow> path \<Rightarrow> tj_node \<Rightarrow> bool" where
  "lands_at d t q c =
     (let k = node_kind_of (keyword (info c)) in
      k = NODE_KIND_OTHER \<or>
      find_node_by_dotted_path t (prefix_get (Some (prefixes d)) (prefix_of_kind k)) k = Some q)"

definition declared :: "tj_node list \<Rightarrow> tj_node list" where
  "declared cs = filter (\<lambda>c. node_kind_of (keyword (info c)) \<noteq> NODE_KIND_OTHER) cs"

lemma copy_children:
  "list_all (lands_at d t q) cs \<Longrightarrow> pnode_at t q = Some n \<Longrightarrow>
   pnode_at (foldl (copy_child d) t cs) q =
     Some (PNode (pinfo n) (pchildren n @ map (\<lambda>c. project_node_from_tj c (Some (uri d))) (declared cs)))"
proof (induction cs arbitrary: t n)
  case (Cons c cs)
  show ?case
  proof (cases "node_kind_of (keyword (info c)) = NODE_KIND_OTHER")
    case True
    then show ?thesis
      using Cons by (simp add: copy_child_def Let_def declared_def)
  next
    case False
    let ?t = "append_at t q (project_node_from_tj c (Some (uri d)))"
    have "copy_child d t c = ?t"
      using Cons.prems(1) False by (simp add: copy_child_def lands_at_def Let_def)
    moreover have "list_all (lands_at d ?t q) cs"
      using Cons.prems(1) by (auto simp: lands_at_def Let_def list_all_iff find_node_append_at)
    moreover have "pnode_at ?t q = Some (project_node_append_child n (project_node_from_tj c (Some (uri d))))"
      by (rule pnode_at_append_at [OF Cons.prems(2)])
    ultimately show ?thesis
      using Cons.IH False by (simp add: project_node_append_child_def declared_def)
  qed
qed (simp add: declared_def)

subsection \<open>Properties\<close>

text \<open>The project of a document: the first compile-commands root whose includes reach it, else its
  own, after the roots and the earlier orphans.\<close>

definition home_project :: "(string \<Rightarrow> string) \<Rightarrow> Document list \<Rightarrow> nat \<Rightarrow> nat" where
  "home_project norm docs i =
     (if reached norm docs (cc_roots docs) i then first_root norm docs (cc_roots docs) i
      else length (cc_roots docs) + length (orphans_upto norm docs i))"

lemma home_project_less:
  assumes "i \<in> set (parsed_slots docs)"
  shows "home_project norm docs i < length (cc_roots docs) + length (orphan_docs norm docs)"
proof (cases "reached norm docs (cc_roots docs) i")
  case True
  then show ?thesis
    using first_root_less [OF True] by (simp add: home_project_def)
next
  case False
  have i: "i < length docs" "parsed (docs ! i)"
    using assms by (auto simp: parsed_slots_def)
  have "orphan_docs norm docs = orphans_upto norm docs i @
      filter (\<lambda>j. parsed (docs ! j) \<and> \<not> reached norm docs (cc_roots docs) j) [i..<length docs]"
    using i(1) unfolding orphan_docs_def orphans_upto_def
    by (metis filter_append le_add_diff_inverse less_imp_le_nat upt_add_eq_append zero_le)
  moreover have "[i..<length docs] = i # [Suc i..<length docs]"
    using i(1) by (rule upt_conv_Cons)
  ultimately show ?thesis
    using False i(2) by (simp add: home_project_def)
qed

text \<open>C14: The snapshot's projects are the compile-commands roots in slot order and then the documents
  no root reaches; each root's tree is assembled from the documents of its include closure, every one
  once, however they include each other, and an orphan's from itself alone.\<close>

theorem snapshot_projects:
  "\<exists>mss. list_all distinct mss \<and>
     map set mss = map (include_closure norm docs) (cc_roots docs) @ map (\<lambda>i. {i}) (orphan_docs norm docs) \<and>
     map proj_root (ws_projects (build_workspace_snapshot norm cc docs)) = map (assemble docs project_root_new) mss \<and>
     map proj_id (ws_projects (build_workspace_snapshot norm cc docs)) =
       map (\<lambda>i. uri (docs ! i)) (cc_roots docs @ orphan_docs norm docs) \<and>
     map from_compile_commands (ws_projects (build_workspace_snapshot norm cc docs)) =
       map (\<lambda>_. True) (cc_roots docs) @ map (\<lambda>_. False) (orphan_docs norm docs)"
proof -
  obtain mss where mss: "list_all distinct mss" "map set mss = map (include_closure norm docs) (cc_roots docs)"
    and ok: "orphans_done norm docs (map2 (project_for docs True) (cc_roots docs) mss) (length docs)
       (build_workspace_snapshot norm cc docs)"
    using build_workspace_snapshot_spec by blast
  have len: "length mss = length (cc_roots docs)"
    using arg_cong [OF mss(2), of length] by simp
  have ps: "ws_projects (build_workspace_snapshot norm cc docs) =
      map2 (project_for docs True) (cc_roots docs) mss @ map (\<lambda>i. project_for docs False i [i]) (orphan_docs norm docs)"
    using ok by (simp add: orphans_done_def orphan_docs_def)
  have 1: "map proj_root (map2 (project_for docs True) rs ms) = map (assemble docs project_root_new) ms \<and>
      map proj_id (map2 (project_for docs True) rs ms) = map (\<lambda>i. uri (docs ! i)) rs \<and>
      map from_compile_commands (map2 (project_for docs True) rs ms) = map (\<lambda>_. True) rs"
    if "length ms = length rs" for rs ms
    using that by (induction ms rs rule: list_induct2) (simp_all add: project_for_def)
  show ?thesis
  proof (intro exI [of _ "mss @ map (\<lambda>i. [i]) (orphan_docs norm docs)"] conjI)
    show "list_all distinct (mss @ map (\<lambda>i. [i]) (orphan_docs norm docs))"
      using mss(1) by (auto simp: list_all_iff)
    show "map set (mss @ map (\<lambda>i. [i]) (orphan_docs norm docs)) =
        map (include_closure norm docs) (cc_roots docs) @ map (\<lambda>i. {i}) (orphan_docs norm docs)"
      using mss(2) by simp
  qed (use 1 [OF len] in \<open>simp_all add: ps project_for_def\<close>)
qed

text \<open>C15: Every parsed document has one entry, in slot order, with its current parse and prefixes; it
  belongs to exactly one project, the first root that reaches it or its own, and that project exists.\<close>

theorem snapshot_membership:
  "map (\<lambda>w. w \<lparr> project_index := None \<rparr>) (ws_docs (build_workspace_snapshot norm cc docs)) =
     map populate_ws_doc (filter parsed docs) \<and>
   map project_index (ws_docs (build_workspace_snapshot norm cc docs)) =
     map (\<lambda>i. Some (home_project norm docs i)) (parsed_slots docs) \<and>
   list_all (\<lambda>w. \<exists>p < length (ws_projects (build_workspace_snapshot norm cc docs)). project_index w = Some p)
     (ws_docs (build_workspace_snapshot norm cc docs))"
proof -
  let ?ws = "build_workspace_snapshot norm cc docs"
  obtain mss where mss: "map set mss = map (include_closure norm docs) (cc_roots docs)"
    and ok: "orphans_done norm docs (map2 (project_for docs True) (cc_roots docs) mss) (length docs) ?ws"
    using build_workspace_snapshot_spec by blast
  let ?ps = "map2 (project_for docs True) (cc_roots docs) mss"
  have len: "length ?ps = length (cc_roots docs)"
    using arg_cong [OF mss, of length] by simp
  have m: "docs_match docs ?ws" using ok by (simp add: orphans_done_def)
  have cl: "claim_of docs ?ws i = Some (home_project norm docs i)" if "i \<in> set (parsed_slots docs)" for i
  proof -
    have "slot_to_wsdoc docs i \<noteq> None" "i < length docs"
      using that by (auto simp: parsed_slots_def slot_to_wsdoc_def)
    then show ?thesis
      using ok len unfolding orphans_done_def home_project_def by simp
  qed
  have idx: "map project_index (ws_docs ?ws) = map (\<lambda>i. Some (home_project norm docs i)) (parsed_slots docs)"
    unfolding claims_listed [OF m] by (rule map_cong [OF refl cl])
  have n: "length (ws_projects ?ws) = length (cc_roots docs) + length (orphan_docs norm docs)"
    using ok len by (simp add: orphans_done_def orphan_docs_def)
  have "list_all (\<lambda>x. \<exists>p < length (ws_projects ?ws). x = Some p) (map project_index (ws_docs ?ws))"
    unfolding idx n using home_project_less by (auto simp: list_all_iff)
  then have "list_all (\<lambda>w. \<exists>p < length (ws_projects ?ws). project_index w = Some p) (ws_docs ?ws)"
    by (simp add: list.pred_map o_def)
  then show ?thesis
    using m idx unfolding docs_match_def by blast
qed

text \<open>Copying a document whose kinds' prefixes all name one node appends copies of its top-level
  declarations, the project block excepted, to that node in source order; without prefixes the node
  is the root of the project.\<close>

theorem copy_document_places:
  assumes "snap d = Some s" and "list_all (lands_at d t q) (children (snap_root s))" and "pnode_at t q = Some n"
  shows "pnode_at (copy_document d t) q =
      Some (PNode (pinfo n) (pchildren n @
        map (\<lambda>c. project_node_from_tj c (Some (uri d))) (declared (children (snap_root s)))))"
  using copy_children [OF assms(2,3)] assms(1) by (simp add: copy_document_def)

definition ex_decl :: "nat \<Rightarrow> string \<Rightarrow> tj_node" where
  "ex_decl kw i = TjNode \<lparr> keyword = kw, node_id = Some i, node_name = Some i, node_range = zero_range,
     selection_range = zero_range, start_date = 0, end_date = 0, has_start = False, has_end = False,
     dependencies = [] \<rparr> []"

definition ex_member :: Document where
  "ex_member = zero_doc \<lparr> uri := ''file:///b.tji'', in_use := True,
     prefixes := no_prefixes \<lparr> task_prefix := Some ''plan'' \<rparr>,
     snap := Some (example_snap \<lparr> snap_root := TjNode (info tj_node_new) [ex_decl KW_TASK ''a'', ex_decl KW_PROJECT ''p''] \<rparr>) \<rparr>"

definition ex_tree :: ProjectNode where
  "ex_tree = project_node_append_child project_root_new (project_node_from_tj (ex_decl KW_TASK ''plan'') None)"

lemma ex_member_lands: "list_all (lands_at ex_member ex_tree [0]) (children (snap_root (the (snap ex_member))))"
  by code_simp

theorem copy_document_places_witness:
  "pnode_at (copy_document ex_member ex_tree) [0] =
     Some (PNode (pinfo (pchildren ex_tree ! 0)) [project_node_from_tj (ex_decl KW_TASK ''a'') (Some ''file:///b.tji'')])"
proof -
  have "snap ex_member = Some (the (snap ex_member))"
    by (simp add: ex_member_def)
  moreover have "pnode_at ex_tree [0] = Some (pchildren ex_tree ! 0)" "pchildren (pchildren ex_tree ! 0) = []"
    by (simp_all add: ex_tree_def project_node_append_child_def project_root_new_def ex_decl_def)
  moreover have "declared (children (snap_root (the (snap ex_member)))) = [ex_decl KW_TASK ''a'']"
    "uri ex_member = ''file:///b.tji''"
    by (simp_all add: ex_member_def ex_decl_def declared_def node_kind_of_def tok_simps)
  ultimately show ?thesis
    using copy_document_places [OF _ ex_member_lands] by simp
qed

end
