(* ===== verification/Compile_Commands.thy ===== *)
theory Compile_Commands
  imports Path_Uri
begin

text \<open>
  Reading \<open>compile_commands.json\<close> (\<open>src/src/compile_commands.c\<close>).  The JSON reader is not part of
  the sources: what it returns for a path is an argument, with the three string fields of every
  array element already looked up (\<open>None\<close> when missing or not a string).
\<close>

datatype cc_item =
    Not_Object
  | Item (item_file: "string option") (item_directory: "string option") (item_command: "string option")

datatype cc_json = Unreadable | Not_Array | Entries "cc_item list"

record CompileEntry =
  file_abs :: string
  directory :: "string option"
  command :: "string option"

datatype CompileCommandsResult = CC_OK | CC_NOT_FOUND | CC_PARSE_ERROR | CC_SCHEMA_ERROR | CC_NO_ROOT

definition parse_compile_entry :: "string option \<Rightarrow> cc_item \<Rightarrow> CompileEntry option" where
  "parse_compile_entry workspace_root item =
     (case item of
        Not_Object \<Rightarrow> None
      | Item None _ _ \<Rightarrow> None
      | Item (Some file_s) dir_s cmd_s \<Rightarrow>
          (case resolve_entry_path workspace_root dir_s (Some file_s) of
             None \<Rightarrow> None
           | Some abs_path \<Rightarrow>
               Some \<lparr> file_abs = abs_path, directory = dir_s, command = cmd_s \<rparr>))"

text \<open>\<open>entries[written]\<close> is overwritten until an element is accepted.\<close>

fun parse_entries :: "string option \<Rightarrow> cc_item list \<Rightarrow> CompileEntry list \<Rightarrow> CompileEntry list" where
  "parse_entries workspace_root [] entries = entries"
| "parse_entries workspace_root (item # items) entries =
     (case parse_compile_entry workspace_root item of
        None \<Rightarrow> parse_entries workspace_root items entries
      | Some e \<Rightarrow> parse_entries workspace_root items (entries @ [e]))"

definition compile_commands_load ::
  "(string \<Rightarrow> 'st option) \<Rightarrow> (string \<Rightarrow> cc_json) \<Rightarrow> string option \<Rightarrow> CompileCommandsResult \<times> CompileEntry list" where
  "compile_commands_load stat_file read_json workspace_root =
     (case workspace_root of
        None \<Rightarrow> (CC_NO_ROOT, [])
      | Some root \<Rightarrow>
          (let path = path_join root ''compile_commands.json'' in
           if stat_file path = None then (CC_NOT_FOUND, [])
           else (case read_json path of
                   Unreadable \<Rightarrow> (CC_PARSE_ERROR, [])
                 | Not_Array \<Rightarrow> (CC_SCHEMA_ERROR, [])
                 | Entries items \<Rightarrow> (CC_OK, parse_entries workspace_root items []))))"

definition absolute :: "string \<Rightarrow> bool" where
  "absolute p = (p \<noteq> [] \<and> hd p = CHR ''/'')"

lemma parse_entries_eq: "parse_entries r items es = es @ List.map_filter (parse_compile_entry r) items"
  by (induction items arbitrary: es) (auto simp: map_filter_simps split: option.split)

lemma path_join_absolute: "absolute a \<Longrightarrow> absolute (path_join a b)"
  by (auto simp: absolute_def path_join_def)

lemma resolve_entry_absolute:
  assumes "resolve_entry_path (Some root) dir (Some file) = Some p" and "absolute root"
    and "\<And>d. dir = Some d \<Longrightarrow> d \<noteq> [] \<Longrightarrow> absolute d"
  shows "absolute p"
  using assms path_join_absolute
  by (auto simp: resolve_entry_path_def absolute_def Let_def split: if_splits option.splits)

lemma parse_compile_entry_absolute:
  assumes "parse_compile_entry (Some root) item = Some e" and "absolute root"
    and "\<And>d. item_directory item = Some d \<Longrightarrow> d \<noteq> [] \<Longrightarrow> absolute d"
  shows "absolute (file_abs e)"
proof -
  obtain f d c where item: "item = Item (Some f) d c" and p: "resolve_entry_path (Some root) d (Some f) = Some (file_abs e)"
    using assms(1) by (auto simp: parse_compile_entry_def split: cc_item.splits option.splits)
  show ?thesis
    by (rule resolve_entry_absolute [OF p assms(2)]) (use assms(3) item in simp)
qed

subsection \<open>Properties\<close>



end
