(* ===== verification/Text_Change.thy ===== *)
theory Text_Change
  imports Syntax_Tree
begin

text \<open>
  Incremental text changes (\<open>src/src/lifecycle.c\<close>): finding the bytes a range covers by counting
  lines and characters from the start of the text, and folding the changes of one notification.
\<close>

subsection \<open>Incremental text changes\<close>

text \<open>Bytes consumed before the position is reached, counting from a current line and character.\<close>

fun scan_to :: "LspPos \<Rightarrow> u32 \<Rightarrow> u32 \<Rightarrow> string \<Rightarrow> nat" where
  "scan_to target cur_line cur_char [] = 0"
| "scan_to target cur_line cur_char (c # cs) =
     (if cur_line = line target \<and> cur_char = character target then 0
      else if c = CHR 0x0A then Suc (scan_to target (cur_line + 1) 0 cs)
      else Suc (scan_to target cur_line (cur_char + 1) cs))"

definition apply_incremental_change :: "string \<Rightarrow> LspRange \<Rightarrow> string \<Rightarrow> string" where
  "apply_incremental_change src rng new_text =
     (let start_byte = scan_to (range_start rng) 0 0 src;
          end_byte = start_byte + scan_to (range_end rng) (line (range_start rng))
                       (character (range_start rng)) (drop start_byte src) in
      take start_byte src @ new_text @ drop end_byte src)"

type_synonym content_change = "LspRange option \<times> string option"

text \<open>\<open>current\<close> is NULL until a change has been applied.\<close>

fun fold_changes :: "string \<Rightarrow> string option \<Rightarrow> content_change list \<Rightarrow> string option" where
  "fold_changes base_text current [] = current"
| "fold_changes base_text current ((rng, new_text) # changes) =
     (let base = (case current of Some t \<Rightarrow> t | None \<Rightarrow> base_text) in
      case new_text of
        None \<Rightarrow> None
      | Some t \<Rightarrow>
          (case rng of
             Some r \<Rightarrow> fold_changes base_text (Some (apply_incremental_change base r t)) changes
           | None \<Rightarrow> fold_changes base_text (Some t) changes))"

definition apply_content_changes :: "string option \<Rightarrow> content_change list \<Rightarrow> string option" where
  "apply_content_changes base_text changes =
     fold_changes (case base_text of Some t \<Rightarrow> t | None \<Rightarrow> []) None changes"

subsection \<open>Positions in a text\<close>

text \<open>The line and character reached after reading a text; the client's view of a position.\<close>

fun pos_after :: "nat \<times> nat \<Rightarrow> string \<Rightarrow> nat \<times> nat" where
  "pos_after p [] = p"
| "pos_after (l, c) (x # xs) = (if x = CHR 0x0A then pos_after (Suc l, 0) xs else pos_after (l, Suc c) xs)"

definition pos_word :: "nat \<times> nat \<Rightarrow> LspPos" where
  "pos_word p = LspPos (of_nat (fst p)) (of_nat (snd p))"

lemma pos_after_bounds:
  "fst p \<le> fst (pos_after p s) \<and> fst (pos_after p s) \<le> fst p + length s \<and>
   snd (pos_after p s) \<le> snd p + length s \<and> (fst (pos_after p s) = fst p \<longrightarrow> snd (pos_after p s) = snd p + length s)"
proof (induction p s rule: pos_after.induct)
  case (2 l c x xs)
  then show ?case by (cases "x = CHR 0x0A") auto
qed simp

lemma pos_after_append: "pos_after p (a @ b) = pos_after (pos_after p a) b"
  by (induction p a rule: pos_after.induct) auto

lemma pos_word_eq:
  assumes "pos_word p = pos_word q" and "fst p < 2 ^ 32" "snd p < 2 ^ 32" "fst q < 2 ^ 32" "snd q < 2 ^ 32"
  shows "p = q"
proof -
  have "unat (of_nat (fst p) :: u32) = unat (of_nat (fst q) :: u32)"
    "unat (of_nat (snd p) :: u32) = unat (of_nat (snd q) :: u32)"
    using assms(1) by (simp_all add: pos_word_def)
  then show ?thesis
    using assms(2-) by (simp add: unat_of_nat take_bit_nat_eq_self prod_eq_iff)
qed

lemma pos_after_moves: "s \<noteq> [] \<Longrightarrow> pos_after p s \<noteq> p"
proof (cases "fst (pos_after p s) = fst p")
  case True
  assume "s \<noteq> []"
  then have "snd (pos_after p s) \<noteq> snd p"
    using True pos_after_bounds [of p s] by simp
  then show ?thesis by auto
qed auto

text \<open>A scan finds the byte after a known beginning: the position changes with every byte.\<close>

lemma scan_to_prefix:
  "l + length (a @ b) < 2 ^ 32 \<Longrightarrow> c + length (a @ b) < 2 ^ 32 \<Longrightarrow>
   scan_to (pos_word (pos_after (l, c) a)) (of_nat l) (of_nat c) (a @ b) = length a"
proof (induction a arbitrary: l c)
  case Nil
  then show ?case by (cases b) (simp_all add: pos_word_def)
next
  case (Cons x a)
  let ?t = "pos_after (l, c) (x # a)"
  have "pos_word ?t \<noteq> pos_word (l, c)"
  proof
    assume "pos_word ?t = pos_word (l, c)"
    then have "?t = (l, c)"
      by (rule pos_word_eq) (use pos_after_bounds [of "(l, c)" "x # a"] Cons.prems in auto)
    then show False using pos_after_moves [of "x # a" "(l, c)"] by simp
  qed
  then have differs: "\<not> (of_nat l = line (pos_word ?t) \<and> of_nat c = character (pos_word ?t))"
    by (auto simp: pos_word_def)
  show ?case
  proof (cases "x = CHR 0x0A")
    case True
    have "scan_to (pos_word (pos_after (Suc l, 0) a)) (of_nat (Suc l)) (of_nat 0) (a @ b) = length a"
      by (rule Cons.IH) (use Cons.prems in simp_all)
    then show ?thesis using True differs by (simp add: add.commute)
  next
    case False
    have "scan_to (pos_word (pos_after (l, Suc c) a)) (of_nat l) (of_nat (Suc c)) (a @ b) = length a"
      by (rule Cons.IH) (use Cons.prems in simp_all)
    then show ?thesis using False differs by (simp add: add.commute)
  qed
qed

lemma apply_change_splices:
  assumes "length (before @ mid @ after) < 2 ^ 32"
    and rng: "range_start rng = pos_word (pos_after (0, 0) before)"
      "range_end rng = pos_word (pos_after (0, 0) (before @ mid))"
  shows "apply_incremental_change (before @ mid @ after) rng new = before @ new @ after"
proof -
  obtain l c where lc: "pos_after (0, 0) before = (l, c)" by fastforce
  have s: "scan_to (range_start rng) 0 0 (before @ mid @ after) = length before"
    using scan_to_prefix [of 0 before "mid @ after" 0] assms(1) rng(1) by simp
  have "l + length (mid @ after) < 2 ^ 32" "c + length (mid @ after) < 2 ^ 32"
    using pos_after_bounds [of "(0, 0)" before] lc assms(1) by auto
  then have "scan_to (range_end rng) (of_nat l) (of_nat c) (mid @ after) = length mid"
    using scan_to_prefix [of l mid after c] rng(2) lc by (simp add: pos_after_append)
  moreover have "line (range_start rng) = of_nat l" "character (range_start rng) = of_nat c"
    using rng(1) lc by (simp_all add: pos_word_def)
  ultimately show ?thesis
    using s by (simp add: apply_incremental_change_def Let_def)
qed

subsection \<open>A client's edits\<close>

text \<open>An edit replaces a number of bytes from an offset, or the whole text.\<close>

datatype client_edit = Splice (edit_at: nat) (edit_len: nat) (edit_new: string) | Whole string

fun edited :: "string \<Rightarrow> client_edit \<Rightarrow> string" where
  "edited t (Splice i n new) = take i t @ new @ drop (i + n) t"
| "edited t (Whole new) = new"

fun change_of :: "string \<Rightarrow> client_edit \<Rightarrow> content_change" where
  "change_of t (Splice i n new) =
     (Some \<lparr> range_start = pos_word (pos_after (0, 0) (take i t)),
             range_end = pos_word (pos_after (0, 0) (take (i + n) t)) \<rparr>, Some new)"
| "change_of t (Whole new) = (None, Some new)"

fun changes_of :: "string \<Rightarrow> client_edit list \<Rightarrow> content_change list" where
  "changes_of t [] = []"
| "changes_of t (e # es) = change_of t e # changes_of (edited t e) es"

fun texts_short :: "string \<Rightarrow> client_edit list \<Rightarrow> bool" where
  "texts_short t [] = True"
| "texts_short t (e # es) = (length t < 2 ^ 32 \<and> texts_short (edited t e) es)"

lemma change_of_applied:
  assumes "length t < 2 ^ 32"
  shows "apply_incremental_change t \<lparr> range_start = pos_word (pos_after (0, 0) (take i t)),
      range_end = pos_word (pos_after (0, 0) (take (i + n) t)) \<rparr> new = take i t @ new @ drop (i + n) t"
proof -
  have "t = take i t @ take n (drop i t) @ drop (i + n) t"
    by (metis append_assoc append_take_drop_id take_add)
  then show ?thesis
    using apply_change_splices [of "take i t" "take n (drop i t)" "drop (i + n) t"] assms
    by (simp add: take_add [symmetric] del: take_add)
qed

lemma fold_changes_edits:
  "texts_short t es \<Longrightarrow>
   (case cur of Some c \<Rightarrow> c | None \<Rightarrow> base) = t \<Longrightarrow>
   fold_changes base cur (changes_of t es) = (if es = [] then cur else Some (foldl edited t es))"
proof (induction es arbitrary: t cur)
  case (Cons e es)
  show ?case
    using Cons.IH [of "edited t e" "Some (edited t e)"] Cons.prems
    by (cases e) (simp_all add: change_of_applied Let_def)
qed simp

subsection \<open>Properties\<close>



end
