(* ===== verification/Lifecycle.thy ===== *)
theory Lifecycle
  imports Workspace Compile_Commands Text_Change
begin

text \<open>
  The coordinator's state and the notifications that change it (\<open>src/src/lifecycle.c\<close>, the
  compile-commands cache and revalidation of \<open>workspace.c\<close>): incremental text changes, document
  synchronisation, watched files, renames.  Every handler is a function of the world (files,
  \<open>stat\<close>, the JSON reader) and the state; what it sends is appended to \<open>outbox\<close>.
\<close>

record world =
  w_files :: file_sys
  w_stat :: "string \<Rightarrow> (int \<times> int \<times> int) option"
  w_json :: "string \<Rightarrow> cc_json"

datatype out_msg =
    Publish_Diagnostics string
  | Show_Message int string
  | Register_File_Watchers
  | Registry_Update workspace_snapshot

record coordinator =
  docs :: "Document list"
  g_workspace_root :: "string option"
  g_cc_path :: "string option"
  g_cc_stamp :: "int \<times> int \<times> int"
  g_cc_attempted :: bool
  g_cc_status :: cc_status
  g_ws :: "workspace_snapshot option"
  outbox :: "out_msg list"

definition coordinator_init :: coordinator where
  "coordinator_init = \<lparr> docs = replicate MAX_DOCS zero_doc, g_workspace_root = None, g_cc_path = None,
     g_cc_stamp = (0, 0, 0), g_cc_attempted = False, g_cc_status = CC_STATUS_OK, g_ws = None, outbox = [] \<rparr>"

definition send :: "out_msg \<Rightarrow> coordinator \<Rightarrow> coordinator" where
  "send m st = st \<lparr> outbox := outbox st @ [m] \<rparr>"

abbreviation w_norm :: "world \<Rightarrow> string \<Rightarrow> string" where
  "w_norm w \<equiv> fs_norm (w_files w)"

subsection \<open>The workspace root and compile_commands.json\<close>

definition workspace_set_root_from_uri :: "string option \<Rightarrow> coordinator \<Rightarrow> coordinator" where
  "workspace_set_root_from_uri root_uri st =
     (let st1 = (case (root_uri, g_workspace_root st) of
                   (Some u, None) \<Rightarrow> st \<lparr> g_workspace_root := uri_to_path u \<rparr>
                 | _ \<Rightarrow> st) in
      case (g_workspace_root st1, g_cc_path st1) of
        (Some root, None) \<Rightarrow> st1 \<lparr> g_cc_path := Some (path_join root ''compile_commands.json'') \<rparr>
      | _ \<Rightarrow> st1)"

definition reload_compile_commands ::
  "world \<Rightarrow> (string \<Rightarrow> ParseOutput) \<Rightarrow> coordinator \<Rightarrow> coordinator" where
  "reload_compile_commands w parse st =
     (let st1 = st \<lparr> g_cc_attempted := True \<rparr> in
      case g_cc_path st1 of
        None \<Rightarrow> st1 \<lparr> g_cc_status := CC_STATUS_MISSING \<rparr>
      | Some path \<Rightarrow>
          (let st2 = st1 \<lparr> g_cc_status := CC_STATUS_OK,
                            g_cc_stamp := (case w_stat w path of Some s \<Rightarrow> s | None \<Rightarrow> (0, 0, 0)) \<rparr> in
           case compile_commands_load (w_stat w) (w_json w) (g_workspace_root st2) of
             (CC_OK, entries) \<Rightarrow>
               st2 \<lparr> docs := load_compile_entries (w_files w) parse (map file_abs entries) (docs st2) \<rparr>
           | (CC_NOT_FOUND, _) \<Rightarrow> st2 \<lparr> g_cc_status := CC_STATUS_MISSING \<rparr>
           | (CC_PARSE_ERROR, _) \<Rightarrow> st2 \<lparr> g_cc_status := CC_STATUS_MALFORMED \<rparr>
           | (CC_SCHEMA_ERROR, _) \<Rightarrow> st2 \<lparr> g_cc_status := CC_STATUS_MALFORMED \<rparr>
           | (CC_NO_ROOT, _) \<Rightarrow> st2))"

definition maybe_reload_compile_commands ::
  "world \<Rightarrow> (string \<Rightarrow> ParseOutput) \<Rightarrow> coordinator \<Rightarrow> coordinator" where
  "maybe_reload_compile_commands w parse st =
     (case g_cc_path st of
        None \<Rightarrow> st
      | Some path \<Rightarrow>
          (case w_stat w path of
             None \<Rightarrow>
               if g_cc_stamp st \<noteq> (0, 0, 0)
               then send (Show_Message 1 ''taskjuggler-lsp: compile_commands.json has been removed.'')
                      (st \<lparr> g_cc_stamp := (0, 0, 0) \<rparr>)
               else st
           | Some s \<Rightarrow>
               if s \<noteq> g_cc_stamp st \<or> \<not> g_cc_attempted st then reload_compile_commands w parse st else st))"

definition publish_workspace_snapshot :: "world \<Rightarrow> coordinator \<Rightarrow> coordinator" where
  "publish_workspace_snapshot w st =
     st \<lparr> g_ws := Some (build_workspace_snapshot (w_norm w) (g_cc_status st) (docs st)) \<rparr>"

definition republish_all_diagnostics :: "coordinator \<Rightarrow> coordinator" where
  "republish_all_diagnostics st =
     foldl (\<lambda>s d. if in_use d \<and> \<not> disk_only d then send (Publish_Diagnostics (uri d)) s else s) st (docs st)"

definition revalidate_all_docs :: "world \<Rightarrow> (string \<Rightarrow> ParseOutput) \<Rightarrow> coordinator \<Rightarrow> coordinator" where
  "revalidate_all_docs w parse st =
     (let st1 = republish_all_diagnostics
                  (publish_workspace_snapshot w (maybe_reload_compile_commands w parse st)) in
      case g_ws st1 of Some ws \<Rightarrow> send (Registry_Update ws) st1 | None \<Rightarrow> st1)"

definition handle_initialized :: "world \<Rightarrow> (string \<Rightarrow> ParseOutput) \<Rightarrow> coordinator \<Rightarrow> coordinator" where
  "handle_initialized w parse st =
     (let st1 = reload_compile_commands w parse (send Register_File_Watchers st) in
      if g_workspace_root st1 \<noteq> None then revalidate_all_docs w parse st1 else st1)"

subsection \<open>Document synchronisation\<close>

text \<open>Parsing a document's new text: its includes are followed when its URI has a path.\<close>

definition parse_into ::
  "world \<Rightarrow> (string \<Rightarrow> ParseOutput) \<Rightarrow> nat \<Rightarrow> string \<Rightarrow> string \<Rightarrow> Document list \<Rightarrow> Document list" where
  "parse_into w parse i u new_text ds =
     (let po = parse new_text;
          ds1 = (case uri_to_path u of
                   Some path \<Rightarrow> follow_includes (w_files w) parse ds path po
                 | None \<Rightarrow> ds) in
      upd_slot i (\<lambda>d. doc_install_parse d (Some po)) ds1)"

definition open_text ::
  "world \<Rightarrow> (string \<Rightarrow> ParseOutput) \<Rightarrow> nat \<Rightarrow> string \<Rightarrow> string \<Rightarrow> Document list \<Rightarrow> coordinator \<Rightarrow> coordinator" where
  "open_text w parse i u new_text ds st =
     (let ds1 = upd_slot i (\<lambda>d. d \<lparr> disk_only := False, doc_text := Some new_text \<rparr>) ds in
      revalidate_all_docs w parse (st \<lparr> docs := parse_into w parse i u new_text ds1 \<rparr>))"

definition handle_didopen ::
  "world \<Rightarrow> (string \<Rightarrow> ParseOutput) \<Rightarrow> string option \<Rightarrow> string option \<Rightarrow> coordinator \<Rightarrow> coordinator" where
  "handle_didopen w parse p_uri p_text st =
     (case (p_uri, p_text) of
        (Some u, Some t) \<Rightarrow>
          (case doc_find (w_norm w) (docs st) u of
             Some i \<Rightarrow>
               (let d = docs st ! i in
                if \<not> disk_only d then st
                else if doc_text d = Some t
                then revalidate_all_docs w parse
                       (st \<lparr> docs := upd_slot i (\<lambda>d. d \<lparr> disk_only := False \<rparr>) (docs st) \<rparr>)
                else open_text w parse i u t
                       (upd_slot i (\<lambda>d. doc_clear_parse_state (d \<lparr> doc_text := None \<rparr>)) (docs st)) st)
           | None \<Rightarrow>
               (case doc_alloc (w_norm w) (docs st) u of
                  None \<Rightarrow> st
                | Some (i, ds) \<Rightarrow> open_text w parse i u t ds st))
      | _ \<Rightarrow> st)"

definition handle_didchange ::
  "world \<Rightarrow> (string \<Rightarrow> ParseOutput) \<Rightarrow> string option \<Rightarrow> content_change list \<Rightarrow> coordinator \<Rightarrow> coordinator" where
  "handle_didchange w parse p_uri changes st =
     (case p_uri of
        None \<Rightarrow> st
      | Some u \<Rightarrow>
          if changes = [] then st
          else (case doc_find (w_norm w) (docs st) u of
                  None \<Rightarrow> st
                | Some i \<Rightarrow>
                    (case apply_content_changes (doc_text (docs st ! i)) changes of
                       None \<Rightarrow> st
                     | Some t \<Rightarrow>
                         revalidate_all_docs w parse
                           (st \<lparr> docs := parse_into w parse i u t
                                   (upd_slot i (\<lambda>d. d \<lparr> doc_text := Some t \<rparr>) (docs st)) \<rparr>))))"

definition handle_didclose ::
  "world \<Rightarrow> (string \<Rightarrow> ParseOutput) \<Rightarrow> string option \<Rightarrow> coordinator \<Rightarrow> coordinator" where
  "handle_didclose w parse p_uri st =
     (case p_uri of
        None \<Rightarrow> st
      | Some u \<Rightarrow>
          (case doc_find (w_norm w) (docs st) u of
             None \<Rightarrow> st
           | Some i \<Rightarrow>
               revalidate_all_docs w parse
                 (case Option.bind (uri_to_path u) (\<lambda>p. map_option (Pair p) (fs_read (w_files w) p)) of
                    Some (path, t) \<Rightarrow>
                      st \<lparr> docs := install_disk_text (w_files w) parse i t path (docs st) \<rparr>
                  | None \<Rightarrow>
                      (send (Publish_Diagnostics u) st) \<lparr> docs := upd_slot i doc_free (docs st) \<rparr>)))"

subsection \<open>Watched files and renames\<close>

text \<open>Both return whether the store changed.\<close>

definition forget_watched_file :: "world \<Rightarrow> string \<Rightarrow> Document list \<Rightarrow> bool \<times> Document list" where
  "forget_watched_file w u ds =
     (case doc_find (w_norm w) ds u of
        Some i \<Rightarrow> if disk_only (ds ! i) then (True, upd_slot i doc_free ds) else (False, ds)
      | None \<Rightarrow> (False, ds))"

text \<open>The document of a URI, a new slot if it has none, and its file's text installed in it.\<close>

definition load_document ::
  "world \<Rightarrow> (string \<Rightarrow> ParseOutput) \<Rightarrow> string \<Rightarrow> Document list \<Rightarrow> bool \<times> Document list" where
  "load_document w parse u ds =
     (case uri_to_path u of
        None \<Rightarrow> (False, ds)
      | Some path \<Rightarrow>
          (case fs_read (w_files w) path of
             None \<Rightarrow> (False, ds)
           | Some t \<Rightarrow>
               (case (case doc_find (w_norm w) ds u of
                        Some i \<Rightarrow> Some (i, ds) | None \<Rightarrow> doc_alloc (w_norm w) ds u) of
                  None \<Rightarrow> (False, ds)
                | Some (i, ds1) \<Rightarrow> (True, install_disk_text (w_files w) parse i t path ds1))))"

definition admit_watched_file ::
  "world \<Rightarrow> (string \<Rightarrow> ParseOutput) \<Rightarrow> string \<Rightarrow> Document list \<Rightarrow> bool \<times> Document list" where
  "admit_watched_file w parse u ds =
     (case doc_find (w_norm w) ds u of
        Some i \<Rightarrow> if \<not> disk_only (ds ! i) then (False, ds) else load_document w parse u ds
      | None \<Rightarrow> load_document w parse u ds)"

text \<open>An event without a URI or a numeric type is skipped.\<close>

definition watched_event ::
  "world \<Rightarrow> (string \<Rightarrow> ParseOutput) \<Rightarrow> bool \<times> Document list \<Rightarrow> string option \<times> int option \<Rightarrow> bool \<times> Document list" where
  "watched_event w parse acc event =
     (case event of
        (Some u, Some ty) \<Rightarrow>
          (let (c, ds) = (if ty = 3 then forget_watched_file w u (snd acc)
                          else admit_watched_file w parse u (snd acc)) in
           (fst acc \<or> c, ds))
      | _ \<Rightarrow> acc)"

definition handle_did_change_watched_files ::
  "world \<Rightarrow> (string \<Rightarrow> ParseOutput) \<Rightarrow> (string option \<times> int option) list \<Rightarrow> coordinator \<Rightarrow> coordinator" where
  "handle_did_change_watched_files w parse changes st =
     (let (changed, ds) = foldl (watched_event w parse) (False, docs st) changes;
          st1 = st \<lparr> docs := ds \<rparr> in
      if changed then revalidate_all_docs w parse st1 else st1)"

definition rename_file ::
  "world \<Rightarrow> (string \<Rightarrow> ParseOutput) \<Rightarrow> bool \<times> coordinator \<Rightarrow> string option \<times> string option \<Rightarrow> bool \<times> coordinator" where
  "rename_file w parse acc file =
     (case file of
        (Some old_uri, Some new_uri) \<Rightarrow>
          (let (changed, st) = acc;
               (c1, st1) = (case doc_find (w_norm w) (docs st) old_uri of
                              Some i \<Rightarrow>
                                (True, (if \<not> disk_only (docs st ! i)
                                        then send (Publish_Diagnostics old_uri) st else st)
                                         \<lparr> docs := upd_slot i doc_free (docs st) \<rparr>)
                            | None \<Rightarrow> (changed, st));
               (c2, ds) = load_document w parse new_uri (docs st1) in
           (c1 \<or> c2, st1 \<lparr> docs := ds \<rparr>))
      | _ \<Rightarrow> acc)"

definition handle_did_rename_files ::
  "world \<Rightarrow> (string \<Rightarrow> ParseOutput) \<Rightarrow> (string option \<times> string option) list \<Rightarrow> coordinator \<Rightarrow> coordinator" where
  "handle_did_rename_files w parse files st =
     (let (changed, st1) = foldl (rename_file w parse) (False, st) files in
      if changed then revalidate_all_docs w parse st1 else st1)"

end
