(* ===== verification/Lifecycle_Inv.thy ===== *)
theory Lifecycle_Inv
  imports Lifecycle
begin

text \<open>
  What every notification keeps (\<open>src/src/lifecycle.c\<close>): URIs canonical and unique, the parse of
  every document in use that of its current text, the published workspace snapshot that of the
  current store, and the documents an editor manages untouched by files.
\<close>

subsection \<open>The state machine of notifications\<close>

datatype notification =
    Initialize "string option"
  | Initialized
  | DidOpen "string option" "string option"
  | DidChange "string option" "content_change list"
  | DidClose "string option"
  | DidChangeWatchedFiles "(string option \<times> int option) list"
  | DidRenameFiles "(string option \<times> string option) list"

fun notify :: "world \<Rightarrow> (string \<Rightarrow> ParseOutput) \<Rightarrow> notification \<Rightarrow> coordinator \<Rightarrow> coordinator" where
  "notify w parse (Initialize root_uri) st = workspace_set_root_from_uri root_uri st"
| "notify w parse Initialized st = handle_initialized w parse st"
| "notify w parse (DidOpen u t) st = handle_didopen w parse u t st"
| "notify w parse (DidChange u cs) st = handle_didchange w parse u cs st"
| "notify w parse (DidClose u) st = handle_didclose w parse u st"
| "notify w parse (DidChangeWatchedFiles evs) st = handle_did_change_watched_files w parse evs st"
| "notify w parse (DidRenameFiles fs) st = handle_did_rename_files w parse fs st"

text \<open>Files may change between notifications; how paths resolve does not.\<close>

inductive reachable :: "(string \<Rightarrow> string option) \<Rightarrow> (string \<Rightarrow> ParseOutput) \<Rightarrow> coordinator \<Rightarrow> bool"
  for rp :: "string \<Rightarrow> string option" and parse :: "string \<Rightarrow> ParseOutput" where
  start: "reachable rp parse coordinator_init"
| step: "reachable rp parse st \<Longrightarrow> fs_realpath (w_files w) = rp \<Longrightarrow> reachable rp parse (notify w parse n st)"

inductive_cases reachable_stepE: "reachable rp parse st"

definition realpath_ok :: "(string \<Rightarrow> string option) \<Rightarrow> bool" where
  "realpath_ok rp =
     ((\<forall>p q. rp p = Some q \<longrightarrow> nul \<notin> set q \<and> rp q = Some q) \<and>
      (\<forall>p. rp p = None \<longrightarrow> rp (lexical_normalize_path p) = None))"

lemma realpath_ok_idem: "realpath_ok rp \<Longrightarrow> normalize_uri rp (normalize_uri rp u) = normalize_uri rp u"
  unfolding realpath_ok_def by (rule normalize_uri_twice) blast+

lemma w_norm_rp: "fs_realpath (w_files w) = rp \<Longrightarrow> w_norm w = normalize_uri rp"
  by (rule ext) (simp add: fs_norm_def)

lemma same_but_includes_refl [simp]: "same_but_includes d d"
  by (simp add: same_but_includes_def)

subsection \<open>The invariant\<close>

definition current :: "(string \<Rightarrow> ParseOutput) \<Rightarrow> Document \<Rightarrow> bool" where
  "current parse d = (\<exists>t v. doc_text d = Some t \<and> snap d = Some (docsnap_new (uri d) t (parse t) v))"

definition others_current :: "(string \<Rightarrow> ParseOutput) \<Rightarrow> nat set \<Rightarrow> Document list \<Rightarrow> bool" where
  "others_current parse X ds = (\<forall>j < length ds. in_use (ds ! j) \<and> j \<notin> X \<longrightarrow> current parse (ds ! j))"

definition store_inv :: "(string \<Rightarrow> string) \<Rightarrow> (string \<Rightarrow> ParseOutput) \<Rightarrow> Document list \<Rightarrow> bool" where
  "store_inv norm parse ds = (uris_ok norm ds \<and> others_current parse {} ds)"

text \<open>A step of the store that keeps the documents in use, their includes and prefixes apart, and
  adds only current ones.\<close>

definition extends ::
  "(string \<Rightarrow> string) \<Rightarrow> (string \<Rightarrow> ParseOutput) \<Rightarrow> nat set \<Rightarrow> Document list \<Rightarrow> Document list \<Rightarrow> bool" where
  "extends norm parse X ds ds' =
     (length ds' = length ds \<and> uris_ok norm ds' \<and>
      (\<forall>j < length ds. in_use (ds ! j) \<longrightarrow> in_use (ds' ! j) \<and> uri (ds' ! j) = uri (ds ! j) \<and>
         (j \<notin> X \<longrightarrow> same_but_includes (ds ! j) (ds' ! j))) \<and>
      (\<forall>j < length ds. \<not> in_use (ds ! j) \<and> in_use (ds' ! j) \<longrightarrow> current parse (ds' ! j) \<and> disk_only (ds' ! j)))"

lemma current_same: "same_but_includes d d' \<Longrightarrow> current parse d \<Longrightarrow> current parse d'"
  unfolding current_def using same_but_includes_fields [of d d'] by auto

lemma complete_current: "complete fs parse ds d \<Longrightarrow> current parse d \<and> disk_only d"
  unfolding complete_def current_def by blast

lemma grows_extends:
  assumes "grows fs parse X ds ds'"
  shows "extends (fs_norm fs) parse X ds ds'"
  unfolding extends_def
proof (intro conjI allI impI)
  fix j assume j: "j < length ds"
  show "in_use (ds ! j) \<Longrightarrow> in_use (ds' ! j)" "in_use (ds ! j) \<Longrightarrow> uri (ds' ! j) = uri (ds ! j)"
    using assms j by (simp_all add: grows_def)
  show "same_but_includes (ds ! j) (ds' ! j)" if "in_use (ds ! j)" "j \<notin> X"
    using assms j that same_doc_but_includes [of "ds ! j" "ds' ! j"] by (simp add: grows_def)
  assume "\<not> in_use (ds ! j) \<and> in_use (ds' ! j)"
  then have "complete fs parse ds' (ds' ! j)"
    using assms j by (simp add: grows_def)
  then show "current parse (ds' ! j)" "disk_only (ds' ! j)"
    using complete_current by auto
qed (use assms in \<open>simp_all add: grows_def\<close>)

lemma extends_current:
  assumes "extends norm parse X ds ds'" and "others_current parse X ds"
  shows "others_current parse X ds'"
  unfolding others_current_def
proof (intro allI impI)
  fix j assume j: "j < length ds'" "in_use (ds' ! j) \<and> j \<notin> X"
  show "current parse (ds' ! j)"
  proof (cases "in_use (ds ! j)")
    case True
    then have "same_but_includes (ds ! j) (ds' ! j)" "current parse (ds ! j)"
      using assms j by (simp_all add: extends_def others_current_def)
    then show ?thesis by (rule current_same)
  next
    case False
    then show ?thesis using assms(1) j by (simp add: extends_def)
  qed
qed

lemma extends_refl: "uris_ok norm ds \<Longrightarrow> extends norm parse X ds ds"
  by (simp add: extends_def)

lemma extends_trans:
  assumes ab: "extends norm parse X a b" and bc: "extends norm parse X b c"
    and X: "\<forall>j \<in> X. j < length a \<longrightarrow> in_use (a ! j)"
  shows "extends norm parse X a c"
  unfolding extends_def
proof (intro conjI allI impI)
  fix j assume j: "j < length a"
  {
    assume "in_use (a ! j)"
    then have "in_use (b ! j)" "uri (b ! j) = uri (a ! j)" "j \<notin> X \<longrightarrow> same_but_includes (a ! j) (b ! j)"
      using ab j by (simp_all add: extends_def)
    moreover from this have "in_use (c ! j)" "uri (c ! j) = uri (b ! j)" "j \<notin> X \<longrightarrow> same_but_includes (b ! j) (c ! j)"
      using ab bc j by (simp_all add: extends_def)
    ultimately show "in_use (c ! j)" "uri (c ! j) = uri (a ! j)" "j \<notin> X \<Longrightarrow> same_but_includes (a ! j) (c ! j)"
      using same_but_includes_trans by auto
  }
  assume new: "\<not> in_use (a ! j) \<and> in_use (c ! j)"
  have "current parse (c ! j) \<and> disk_only (c ! j)"
  proof (cases "in_use (b ! j)")
    case True
    then have "current parse (b ! j)" "disk_only (b ! j)"
      using ab j new by (simp_all add: extends_def)
    moreover have "same_but_includes (b ! j) (c ! j)"
      using ab bc True j new X by (auto simp: extends_def)
    ultimately show ?thesis
      using current_same same_but_includes_fields by metis
  next
    case False
    then show ?thesis using ab bc new j by (simp add: extends_def)
  qed
  then show "current parse (c ! j)" "disk_only (c ! j)" by auto
qed (use ab bc in \<open>auto simp: extends_def\<close>)

lemma extends_upd:
  assumes "uris_ok norm ds" and "keeps_slot f"
    and "i \<notin> X \<Longrightarrow> same_but_includes (ds ! i) (f (ds ! i))"
  shows "extends norm parse X ds (upd_slot i f ds)"
  using assms upd_slot_keeps [OF assms(2)]
  by (auto simp: extends_def uris_ok_upd upd_slot_nth)

subsection \<open>Loading and parsing\<close>

lemma load_extends:
  assumes "\<And>u. fs_norm fs (fs_norm fs u) = fs_norm fs u" and "uris_ok (fs_norm fs) ds"
  shows "extends (fs_norm fs) parse {} ds (load_file_from_disk fs parse ds path)"
  using load_file_ok [OF assms(1), where parse = parse and n = "Suc (free_slots ds)"] assms(2)
  by (intro grows_extends) (simp add: loader_ok_def)

lemma set_prefixes_same: "same_but_includes d (set_prefixes ps d)"
  by (simp add: same_but_includes_def set_prefixes_def)

lemma follow_one_extends:
  assumes idem: "\<And>u. fs_norm fs (fs_norm fs u) = fs_norm fs u" and ok: "uris_ok (fs_norm fs) ds"
  shows "extends (fs_norm fs) parse {} ds (follow_one fs (load_file_from_disk fs parse) path i inc ds)"
proof -
  let ?full = "resolve_include_path path (inc_filename inc)"
  let ?d1 = "load_file_from_disk fs parse ds ?full"
  let ?d2 = "upd_opt (doc_find (fs_norm fs) ?d1 (path_to_uri ?full)) (set_prefixes (inc_prefixes inc)) ?d1"
  have 1: "extends (fs_norm fs) parse {} ds ?d1"
    using assms by (rule load_extends)
  have 2: "extends (fs_norm fs) parse {} ?d1 ?d2"
    using 1 by (auto simp: upd_opt_def extends_def [of _ _ _ ds] keeps set_prefixes_same
        intro: extends_refl extends_upd split: option.split)
  have 3: "extends (fs_norm fs) parse {} ?d2 (upd_opt i (includer_append_included_uri (path_to_uri ?full)) ?d2)"
    using 2 by (auto simp: upd_opt_def [of i] extends_def [of _ _ _ ?d1] keeps same_but_includes_append
        intro: extends_refl extends_upd split: option.split)
  show ?thesis
    unfolding follow_one_def Let_def
    by (intro extends_trans [OF extends_trans [OF 1 2] 3]) simp_all
qed

lemma follow_includes_extends:
  assumes idem: "\<And>u. fs_norm fs (fs_norm fs u) = fs_norm fs u" and ok: "uris_ok (fs_norm fs) ds"
  shows "extends (fs_norm fs) parse {} ds (follow_includes fs parse ds path po)"
proof -
  have f: "extends (fs_norm fs) parse {} ds (fold (follow_one fs (load_file_from_disk fs parse) path i) incs ds)"
    if "uris_ok (fs_norm fs) ds" for i incs ds
    using that
  proof (induction incs arbitrary: ds)
    case (Cons inc incs)
    note one = follow_one_extends [OF idem Cons.prems, of parse path i inc]
    then have "uris_ok (fs_norm fs) (follow_one fs (load_file_from_disk fs parse) path i inc ds)"
      by (simp add: extends_def)
    then show ?case
      using extends_trans [OF one Cons.IH] by simp
  qed (simp add: extends_refl)
  let ?i = "doc_find (fs_norm fs) ds (path_to_uri path)"
  let ?d1 = "upd_opt ?i (\<lambda>d. d \<lparr> included_uris := [] \<rparr>) ds"
  have 1: "extends (fs_norm fs) parse {} ds ?d1"
    using ok by (auto simp: upd_opt_def keeps same_but_includes_def intro: extends_refl extends_upd split: option.split)
  then have "uris_ok (fs_norm fs) ?d1"
    by (simp add: extends_def)
  then show ?thesis
    unfolding follow_includes_def follow_includes_with_def Let_def
    using extends_trans [OF 1 f] by simp
qed

text \<open>Installing the parse of a text that is already in the slot.\<close>

lemma install_inv:
  assumes ext: "extends norm parse {} ds ds'" and i: "i < length ds" "in_use (ds ! i)" "doc_text (ds ! i) = Some t"
    and cur: "others_current parse {i} ds"
  shows "store_inv norm parse (upd_slot i (\<lambda>d. doc_install_parse d (Some (parse t))) ds')"
    and "extends norm parse {i} ds (upd_slot i (\<lambda>d. doc_install_parse d (Some (parse t))) ds')"
proof -
  let ?f = "\<lambda>d. doc_install_parse d (Some (parse t))"
  have ok: "uris_ok norm ds'" and len: "length ds' = length ds"
    using ext by (simp_all add: extends_def)
  have exti: "extends norm parse {i} ds ds'"
    using ext unfolding extends_def by blast
  have 2: "extends norm parse {i} ds' (upd_slot i ?f ds')"
    by (rule extends_upd [OF ok keeps_slot_updates(6)]) simp
  show "extends norm parse {i} ds (upd_slot i ?f ds')"
    by (rule extends_trans [OF exti 2]) (use i in simp)
  have "doc_text (ds' ! i) = Some t"
    using ext i same_but_includes_fields [of "ds ! i" "ds' ! i"] by (simp add: extends_def)
  then have "current parse (?f (ds' ! i))"
    by (auto simp: current_def doc_install_parse_def Let_def)
  moreover have "others_current parse {i} ds'"
    by (rule extends_current [OF exti cur])
  ultimately have "others_current parse {} (upd_slot i ?f ds')"
    using upd_slot_keeps [OF keeps_slot_updates(6), of _ ds'] by (auto simp: others_current_def upd_slot_nth)
  then show "store_inv norm parse (upd_slot i ?f ds')"
    unfolding store_inv_def using uris_ok_upd [OF keeps_slot_updates(6)] ok by blast
qed

subsection \<open>Operations on the store\<close>

lemma extends_inv: "extends norm parse {} ds ds' \<Longrightarrow> store_inv norm parse ds \<Longrightarrow> store_inv norm parse ds'"
  unfolding store_inv_def using extends_current by (auto simp: extends_def)

lemma parse_into_inv:
  assumes idem: "\<And>u. w_norm w (w_norm w u) = w_norm w u" and ok: "uris_ok (w_norm w) ds"
    and i: "i < length ds" "in_use (ds ! i)" "doc_text (ds ! i) = Some t" and cur: "others_current parse {i} ds"
  shows "store_inv (w_norm w) parse (parse_into w parse i u t ds)"
    and "extends (w_norm w) parse {i} ds (parse_into w parse i u t ds)"
  using install_inv [OF _ i cur, of "w_norm w"] follow_includes_extends [OF idem ok] extends_refl [OF ok]
  by (auto simp: parse_into_def Let_def split: option.split)

lemma text_update_extends:
  assumes "uris_ok norm ds" and "keeps_slot f"
  shows "extends norm parse {i} ds (upd_slot i f ds)"
  using assms by (intro extends_upd) simp_all

lemma others_current_weaken: "others_current parse {} ds \<Longrightarrow> others_current parse X ds"
  by (simp add: others_current_def)

lemma install_disk_text_inv:
  assumes idem: "\<And>u. fs_norm fs (fs_norm fs u) = fs_norm fs u" and ok: "uris_ok (fs_norm fs) ds"
    and i: "i < length ds" "in_use (ds ! i)" and cur: "others_current parse {i} ds"
  shows "store_inv (fs_norm fs) parse (install_disk_text fs parse i t path ds)"
    and "extends (fs_norm fs) parse {i} ds (install_disk_text fs parse i t path ds)"
proof -
  let ?d1 = "upd_slot i (\<lambda>d. d \<lparr> doc_text := Some t, disk_only := True \<rparr>) ds"
  have 1: "extends (fs_norm fs) parse {i} ds ?d1"
    by (rule text_update_extends [OF ok]) (rule keeps)
  have cur1: "others_current parse {i} ?d1"
    by (rule extends_current [OF 1 cur])
  have ok1: "uris_ok (fs_norm fs) ?d1"
    using 1 by (simp add: extends_def)
  have i1: "i < length ?d1" "in_use (?d1 ! i)" "doc_text (?d1 ! i) = Some t"
    using i by (simp_all add: upd_slot_nth)
  note inst = install_inv [OF follow_includes_extends [OF idem ok1] i1 cur1]
  show "store_inv (fs_norm fs) parse (install_disk_text fs parse i t path ds)"
    using inst(1) by (simp add: install_disk_text_def Let_def)
  show "extends (fs_norm fs) parse {i} ds (install_disk_text fs parse i t path ds)"
    unfolding install_disk_text_def Let_def
    by (rule extends_trans [OF 1 inst(2)]) (use i in simp)
qed

lemma doc_free_inv:
  assumes "store_inv norm parse ds"
  shows "store_inv norm parse (upd_slot i doc_free ds)"
proof -
  have slot: "in_use (upd_slot i doc_free ds ! j) \<Longrightarrow> upd_slot i doc_free ds ! j = ds ! j" if "j < length ds" for j
    using that by (auto simp: upd_slot_nth doc_free_def zero_doc_def split: if_splits)
  have used: "in_use (upd_slot i doc_free ds ! j) \<Longrightarrow> in_use (ds ! j)" if "j < length ds" for j
    using slot [OF that] by auto
  have "uris_ok norm ds" "others_current parse {} ds"
    using assms by (simp_all add: store_inv_def)
  note inv = this
  have "uris_ok norm (upd_slot i doc_free ds)"
    unfolding uris_ok_def upd_slot_length
  proof (intro conjI allI impI)
    fix j k assume jk: "j < length ds" "k < length ds" "in_use (upd_slot i doc_free ds ! j) \<and>
        in_use (upd_slot i doc_free ds ! k) \<and> uri (upd_slot i doc_free ds ! j) = uri (upd_slot i doc_free ds ! k)"
    then have "in_use (ds ! j)" "in_use (ds ! k)" "uri (ds ! j) = uri (ds ! k)"
      using slot [of j] slot [of k] by auto
    then show "j = k"
      using inv(1) jk(1,2) unfolding uris_ok_def by blast
  next
    fix j assume "j < length ds" "in_use (upd_slot i doc_free ds ! j)"
    then show "norm (uri (upd_slot i doc_free ds ! j)) = uri (upd_slot i doc_free ds ! j)"
      using slot [of j] inv(1) by (simp add: uris_ok_def)
  qed
  moreover have "others_current parse {} (upd_slot i doc_free ds)"
    unfolding others_current_def upd_slot_length
  proof (intro allI impI)
    fix j assume j: "j < length ds" "in_use (upd_slot i doc_free ds ! j) \<and> j \<notin> {}"
    then show "current parse (upd_slot i doc_free ds ! j)"
      using slot [of j] inv(2) by (simp add: others_current_def)
  qed
  ultimately show ?thesis
    by (simp add: store_inv_def)
qed

text \<open>A slot just allocated is in use but has no parse of its own yet.\<close>

lemma doc_alloc_inv:
  assumes "store_inv norm parse ds" and "doc_find norm ds u = None" and "doc_alloc norm ds u = Some (i, ds')"
    and "norm (norm u) = norm u"
  shows "uris_ok norm ds'" and "others_current parse {i} ds'" and "i < length ds'" and "in_use (ds' ! i)"
    and "\<not> in_use (ds ! i)" and "\<And>j. j \<noteq> i \<Longrightarrow> ds' ! j = ds ! j" and "length ds' = length ds"
    and "uri (ds' ! i) = norm u"
  using doc_alloc_Some [OF assms(3)] doc_alloc_uris_ok [OF _ assms(2,3,4)] assms(1)
  by (auto simp: store_inv_def others_current_def nth_list_update)

lemma load_compile_entry_extends:
  assumes idem: "\<And>u. fs_norm fs (fs_norm fs u) = fs_norm fs u" and ok: "uris_ok (fs_norm fs) ds"
    and cur: "others_current parse {} ds"
  shows "store_inv (fs_norm fs) parse (load_compile_entry fs parse path ds)"
proof -
  let ?d1 = "load_file_from_disk fs parse ds path"
  have "store_inv (fs_norm fs) parse ?d1"
    using extends_inv [OF load_extends [OF idem ok]] ok cur by (simp add: store_inv_def)
  then have 1: "uris_ok (fs_norm fs) ?d1" "others_current parse {} ?d1"
    by (simp_all add: store_inv_def)
  have "store_inv (fs_norm fs) parse (upd_slot k (\<lambda>d. d \<lparr> is_cc_root := True \<rparr>) ?d1)" for k
    using 1 by (auto simp: store_inv_def uris_ok_upd keeps others_current_def upd_slot_nth current_def)
  then show ?thesis
    using 1 by (auto simp: load_compile_entry_def Let_def upd_opt_def store_inv_def split: option.split)
qed

lemma load_compile_entries_inv:
  assumes idem: "\<And>u. fs_norm fs (fs_norm fs u) = fs_norm fs u"
  shows "store_inv (fs_norm fs) parse ds \<Longrightarrow> store_inv (fs_norm fs) parse (load_compile_entries fs parse es ds)"
  unfolding load_compile_entries_def
proof (induction es arbitrary: ds)
  case (Cons e es)
  then show ?case
    using load_compile_entry_extends [OF idem, of ds parse e] by (simp add: store_inv_def)
qed simp

subsection \<open>Handlers\<close>

definition published :: "(string \<Rightarrow> string) \<Rightarrow> coordinator \<Rightarrow> bool" where
  "published norm st =
     (case g_ws st of
        None \<Rightarrow> \<forall>d \<in> set (docs st). \<not> in_use d
      | Some ws \<Rightarrow> \<exists>cc. ws = build_workspace_snapshot norm cc (docs st))"

definition coord_inv :: "(string \<Rightarrow> string) \<Rightarrow> (string \<Rightarrow> ParseOutput) \<Rightarrow> coordinator \<Rightarrow> bool" where
  "coord_inv norm parse st = (store_inv norm parse (docs st) \<and> published norm st)"

lemma reload_inv:
  assumes idem: "\<And>u. w_norm w (w_norm w u) = w_norm w u" and "store_inv (w_norm w) parse (docs st)"
  shows "store_inv (w_norm w) parse (docs (reload_compile_commands w parse st))"
  using assms(2) load_compile_entries_inv [OF idem]
  by (auto simp: reload_compile_commands_def Let_def split: option.split prod.split CompileCommandsResult.split)

lemma send_fields [simp]: "docs (send m st) = docs st" "g_ws (send m st) = g_ws st"
  "g_cc_status (send m st) = g_cc_status st" "g_workspace_root (send m st) = g_workspace_root st"
  by (simp_all add: send_def)

lemma maybe_reload_inv:
  assumes idem: "\<And>u. w_norm w (w_norm w u) = w_norm w u" and "store_inv (w_norm w) parse (docs st)"
  shows "store_inv (w_norm w) parse (docs (maybe_reload_compile_commands w parse st))"
  using assms(2) reload_inv [OF assms]
  by (auto simp: maybe_reload_compile_commands_def split: option.split)

lemma republish_fields [simp]:
  "docs (republish_all_diagnostics st) = docs st" "g_ws (republish_all_diagnostics st) = g_ws st"
proof -
  let ?f = "\<lambda>s d. if in_use d \<and> \<not> disk_only d then send (Publish_Diagnostics (uri d)) s else s"
  have *: "docs (foldl ?f st ds) = docs st \<and> g_ws (foldl ?f st ds) = g_ws st" for ds st
    by (induction ds arbitrary: st) auto
  show "docs (republish_all_diagnostics st) = docs st" "g_ws (republish_all_diagnostics st) = g_ws st"
    unfolding republish_all_diagnostics_def using * by blast+
qed

lemma revalidate_docs:
  "docs (revalidate_all_docs w parse st) = docs (maybe_reload_compile_commands w parse st)"
  "g_ws (revalidate_all_docs w parse st) =
     Some (build_workspace_snapshot (w_norm w) (g_cc_status (maybe_reload_compile_commands w parse st))
             (docs (maybe_reload_compile_commands w parse st)))"
  by (simp_all add: revalidate_all_docs_def publish_workspace_snapshot_def Let_def)

lemma revalidate_inv:
  assumes idem: "\<And>u. w_norm w (w_norm w u) = w_norm w u" and "store_inv (w_norm w) parse (docs st)"
  shows "coord_inv (w_norm w) parse (revalidate_all_docs w parse st)"
  using maybe_reload_inv [OF assms] unfolding coord_inv_def published_def revalidate_docs by auto

lemma open_text_inv:
  assumes idem: "\<And>u. w_norm w (w_norm w u) = w_norm w u"
    and ok: "uris_ok (w_norm w) ds" "i < length ds" "in_use (ds ! i)" "others_current parse {i} ds"
  shows "coord_inv (w_norm w) parse (open_text w parse i u t ds st)"
proof -
  let ?d1 = "upd_slot i (\<lambda>d. d \<lparr> disk_only := False, doc_text := Some t \<rparr>) ds"
  have 1: "extends (w_norm w) parse {i} ds ?d1"
    by (rule text_update_extends [OF ok(1)]) (simp add: keeps_slot_def)
  have "store_inv (w_norm w) parse (parse_into w parse i u t ?d1)"
    by (rule parse_into_inv [OF idem])
       (use 1 extends_current [OF 1 ok(4)] ok(2,3) in \<open>simp_all add: extends_def upd_slot_nth\<close>)
  then show ?thesis
    unfolding open_text_def Let_def by (intro revalidate_inv [OF idem]) simp
qed

lemma published_docs: "g_ws st' = g_ws st \<Longrightarrow> docs st' = docs st \<Longrightarrow> published norm st' = published norm st"
  by (simp add: published_def cong: option.case_cong)

lemma set_root_inv:
  "coord_inv norm parse st \<Longrightarrow> coord_inv norm parse (workspace_set_root_from_uri u st)"
  by (auto simp: coord_inv_def published_def workspace_set_root_from_uri_def Let_def split: option.split)

lemma initialized_inv:
  assumes idem: "\<And>u. w_norm w (w_norm w u) = w_norm w u" and "coord_inv (w_norm w) parse st"
    and root: "g_workspace_root st = None \<Longrightarrow> g_cc_path st = None"
  shows "coord_inv (w_norm w) parse (handle_initialized w parse st)"
proof (cases "g_workspace_root st")
  case None
  then show ?thesis
    using assms(2) root
    by (simp add: handle_initialized_def reload_compile_commands_def send_def coord_inv_def published_def
        cong: option.case_cong)
next
  case (Some r)
  have "store_inv (w_norm w) parse (docs (reload_compile_commands w parse (send Register_File_Watchers st)))"
    using assms(2) by (intro reload_inv [OF idem]) (simp add: coord_inv_def)
  moreover have "g_workspace_root (reload_compile_commands w parse (send Register_File_Watchers st)) \<noteq> None"
    using Some by (auto simp: reload_compile_commands_def Let_def split: option.split prod.split CompileCommandsResult.split)
  ultimately show ?thesis
    by (simp add: handle_initialized_def revalidate_inv [OF idem])
qed

lemma didopen_inv:
  assumes idem: "\<And>u. w_norm w (w_norm w u) = w_norm w u" and inv: "coord_inv (w_norm w) parse st"
  shows "coord_inv (w_norm w) parse (handle_didopen w parse pu pt st)"
proof -
  have st: "store_inv (w_norm w) parse (docs st)" using inv by (simp add: coord_inv_def)
  have found: "coord_inv (w_norm w) parse (handle_didopen w parse (Some u) (Some t) st)"
    if i: "doc_find (w_norm w) (docs st) u = Some i" for u t i
  proof -
    have il: "i < length (docs st)" "in_use (docs st ! i)"
      using doc_find_Some [OF i] by auto
    have "store_inv (w_norm w) parse (upd_slot i (\<lambda>d. d \<lparr> disk_only := False \<rparr>) (docs st))"
      using st by (auto simp: store_inv_def uris_ok_upd keeps_slot_def others_current_def upd_slot_nth current_def)
    then have 1: "coord_inv (w_norm w) parse (revalidate_all_docs w parse
        (st \<lparr> docs := upd_slot i (\<lambda>d. d \<lparr> disk_only := False \<rparr>) (docs st) \<rparr>))"
      by (intro revalidate_inv [OF idem]) simp
    let ?c = "upd_slot i (\<lambda>d. doc_clear_parse_state (d \<lparr> doc_text := None \<rparr>)) (docs st)"
    have c: "uris_ok (w_norm w) ?c" "others_current parse {i} ?c" "in_use (?c ! i)" "i < length ?c"
      using st il by (auto simp: store_inv_def uris_ok_upd keeps_slot_def doc_clear_parse_state_def
          others_current_def upd_slot_nth)
    show ?thesis
      using i inv 1 open_text_inv [OF idem c(1,4,3,2)]
      by (simp add: handle_didopen_def Let_def)
  qed
  have new: "coord_inv (w_norm w) parse (open_text w parse i u t ds st)"
    if "doc_find (w_norm w) (docs st) u = None" "doc_alloc (w_norm w) (docs st) u = Some (i, ds)" for u t i ds
    by (rule open_text_inv [OF idem]) (use doc_alloc_inv [OF st that idem] in auto)
  show ?thesis
    using found new inv
    by (cases pu; cases pt) (auto simp: handle_didopen_def split: option.split)
qed

lemma didchange_inv:
  assumes idem: "\<And>u. w_norm w (w_norm w u) = w_norm w u" and inv: "coord_inv (w_norm w) parse st"
  shows "coord_inv (w_norm w) parse (handle_didchange w parse pu cs st)"
proof -
  have st: "uris_ok (w_norm w) (docs st)" "others_current parse {} (docs st)"
    using inv by (simp_all add: coord_inv_def store_inv_def)
  have "coord_inv (w_norm w) parse (revalidate_all_docs w parse
      (st \<lparr> docs := parse_into w parse i u t (upd_slot i (\<lambda>d. d \<lparr> doc_text := Some t \<rparr>) (docs st)) \<rparr>))"
    if "doc_find (w_norm w) (docs st) u = Some i" for u i t
  proof -
    let ?d1 = "upd_slot i (\<lambda>d. d \<lparr> doc_text := Some t \<rparr>) (docs st)"
    have i: "i < length (docs st)" "in_use (docs st ! i)"
      using doc_find_Some [OF that] by auto
    have 1: "extends (w_norm w) parse {i} (docs st) ?d1"
      by (rule text_update_extends [OF st(1)]) (simp add: keeps_slot_def)
    have "store_inv (w_norm w) parse (parse_into w parse i u t ?d1)"
      by (rule parse_into_inv [OF idem])
         (use 1 extends_current [OF 1 others_current_weaken [OF st(2)]] i in \<open>simp_all add: extends_def upd_slot_nth\<close>)
    then show ?thesis by (intro revalidate_inv [OF idem]) simp
  qed
  then show ?thesis
    using inv by (auto simp: handle_didchange_def split: option.split)
qed

lemma didclose_inv:
  assumes idem: "\<And>u. w_norm w (w_norm w u) = w_norm w u" and inv: "coord_inv (w_norm w) parse st"
  shows "coord_inv (w_norm w) parse (handle_didclose w parse pu st)"
proof -
  have st: "store_inv (w_norm w) parse (docs st)" using inv by (simp add: coord_inv_def)
  have "store_inv (w_norm w) parse (docs
      (case Option.bind (uri_to_path u) (\<lambda>p. map_option (Pair p) (fs_read (w_files w) p)) of
         Some (path, t) \<Rightarrow> st \<lparr> docs := install_disk_text (w_files w) parse i t path (docs st) \<rparr>
       | None \<Rightarrow> (send (Publish_Diagnostics u) st) \<lparr> docs := upd_slot i doc_free (docs st) \<rparr>))"
    if "doc_find (w_norm w) (docs st) u = Some i" for u i
    using doc_find_Some [OF that] st doc_free_inv [OF st, of i] install_disk_text_inv(1) [OF idem]
    by (auto simp: store_inv_def others_current_def split: option.split)
  then show ?thesis
    using inv revalidate_inv [OF idem] by (auto simp: handle_didclose_def split: option.split)
qed

lemma load_document_inv:
  assumes idem: "\<And>u. w_norm w (w_norm w u) = w_norm w u" and inv: "store_inv (w_norm w) parse ds"
  shows "store_inv (w_norm w) parse (snd (load_document w parse u ds))"
proof -
  have "store_inv (w_norm w) parse (install_disk_text (w_files w) parse i t path ds)"
    if "doc_find (w_norm w) ds u = Some i" for i t path
    using doc_find_Some [OF that] inv install_disk_text_inv(1) [OF idem]
    by (simp add: store_inv_def others_current_weaken)
  moreover have "store_inv (w_norm w) parse (install_disk_text (w_files w) parse i t path ds')"
    if "doc_find (w_norm w) ds u = None" "doc_alloc (w_norm w) ds u = Some (i, ds')" for i ds' t path
    using doc_alloc_inv [OF inv that idem] install_disk_text_inv(1) [OF idem] by simp
  ultimately show ?thesis
    using inv by (auto simp: load_document_def split: option.split)
qed

lemma watched_event_inv:
  assumes idem: "\<And>u. w_norm w (w_norm w u) = w_norm w u" and inv: "store_inv (w_norm w) parse (snd acc)"
  shows "store_inv (w_norm w) parse (snd (watched_event w parse acc ev))"
proof -
  have "store_inv (w_norm w) parse (snd (forget_watched_file w u (snd acc)))" for u
    using inv doc_free_inv [OF inv] by (auto simp: forget_watched_file_def split: option.split)
  moreover have "store_inv (w_norm w) parse (snd (admit_watched_file w parse u (snd acc)))" for u
    using inv load_document_inv [OF idem inv] by (auto simp: admit_watched_file_def split: option.split)
  ultimately show ?thesis
    using inv by (auto simp: watched_event_def Let_def split_def split: option.split)
qed

text \<open>No change reported, no change made.\<close>

lemma watched_event_unchanged:
  "\<not> fst (watched_event w parse acc ev) \<Longrightarrow> watched_event w parse acc ev = acc"
  by (cases acc)
     (auto simp: watched_event_def forget_watched_file_def admit_watched_file_def load_document_def
       split: option.splits if_splits prod.splits)

lemma watched_inv:
  assumes idem: "\<And>u. w_norm w (w_norm w u) = w_norm w u" and inv: "coord_inv (w_norm w) parse st"
  shows "coord_inv (w_norm w) parse (handle_did_change_watched_files w parse evs st)"
proof -
  have 1: "store_inv (w_norm w) parse (snd acc) \<Longrightarrow>
      store_inv (w_norm w) parse (snd (foldl (watched_event w parse) acc evs))" for acc evs
    by (induction evs arbitrary: acc) (simp_all add: watched_event_inv [OF idem])
  have 2: "\<not> fst (foldl (watched_event w parse) acc evs) \<Longrightarrow> foldl (watched_event w parse) acc evs = acc" for acc evs
    by (induction evs arbitrary: acc) (simp, metis foldl_Cons watched_event_unchanged)
  show ?thesis
  proof (cases "foldl (watched_event w parse) (False, docs st) evs")
    case (Pair changed ds)
    show ?thesis
    proof (cases changed)
      case True
      have "store_inv (w_norm w) parse ds"
        using 1 [of "(False, docs st)" evs] inv Pair by (simp add: coord_inv_def)
      then show ?thesis
        using True Pair by (simp add: handle_did_change_watched_files_def revalidate_inv [OF idem])
    next
      case False
      then have "ds = docs st" using 2 [of "(False, docs st)" evs] Pair by simp
      then show ?thesis
        using False Pair inv by (simp add: handle_did_change_watched_files_def)
    qed
  qed
qed

lemma rename_file_inv:
  assumes idem: "\<And>u. w_norm w (w_norm w u) = w_norm w u" and inv: "store_inv (w_norm w) parse (docs (snd acc))"
  shows "store_inv (w_norm w) parse (docs (snd (rename_file w parse acc f)))"
proof -
  have "store_inv (w_norm w) parse (snd (load_document w parse u (upd_slot i doc_free (docs (snd acc)))))" for u i
    by (rule load_document_inv [OF idem doc_free_inv [OF inv]])
  moreover have "store_inv (w_norm w) parse (snd (load_document w parse u (docs (snd acc))))" for u
    by (rule load_document_inv [OF idem inv])
  ultimately show ?thesis
    using inv by (cases acc) (auto simp: rename_file_def Let_def split_def split: option.split)
qed

lemma rename_file_unchanged:
  "\<not> fst (rename_file w parse acc f) \<Longrightarrow> rename_file w parse acc f = acc"
  by (cases acc)
     (auto simp: rename_file_def load_document_def Let_def split_def split: option.splits if_splits)

lemma rename_inv:
  assumes idem: "\<And>u. w_norm w (w_norm w u) = w_norm w u" and inv: "coord_inv (w_norm w) parse st"
  shows "coord_inv (w_norm w) parse (handle_did_rename_files w parse fs st)"
proof -
  have 1: "store_inv (w_norm w) parse (docs (snd acc)) \<Longrightarrow>
      store_inv (w_norm w) parse (docs (snd (foldl (rename_file w parse) acc fs)))" for acc fs
    by (induction fs arbitrary: acc) (simp_all add: rename_file_inv [OF idem])
  have 2: "\<not> fst (foldl (rename_file w parse) acc fs) \<Longrightarrow> foldl (rename_file w parse) acc fs = acc" for acc fs
    by (induction fs arbitrary: acc) (simp, metis foldl_Cons rename_file_unchanged)
  show ?thesis
  proof (cases "foldl (rename_file w parse) (False, st) fs")
    case (Pair changed st1)
    show ?thesis
    proof (cases changed)
      case True
      have "store_inv (w_norm w) parse (docs st1)"
        using 1 [of "(False, st)" fs] inv Pair by (simp add: coord_inv_def)
      then show ?thesis
        using True Pair by (simp add: handle_did_rename_files_def revalidate_inv [OF idem])
    next
      case False
      then have "st1 = st" using 2 [of "(False, st)" fs] Pair by simp
      then show ?thesis
        using False Pair inv by (simp add: handle_did_rename_files_def)
    qed
  qed
qed

subsection \<open>The workspace root\<close>

definition rooted :: "coordinator \<Rightarrow> bool" where
  "rooted st = (g_cc_path st = map_option (\<lambda>r. path_join r ''compile_commands.json'') (g_workspace_root st))"

lemma rooted_send [simp]: "rooted (send m st) = rooted st" "rooted (docs_update f st) = rooted st"
  "rooted (g_ws_update h st) = rooted st"
  by (simp_all add: rooted_def send_def)

lemma rooted_reload [simp]: "rooted (reload_compile_commands w parse st) = rooted st"
  by (auto simp: reload_compile_commands_def rooted_def Let_def
      split: option.split prod.split CompileCommandsResult.split)

lemma rooted_maybe [simp]: "rooted (maybe_reload_compile_commands w parse st) = rooted st"
  unfolding maybe_reload_compile_commands_def
  by (auto split: option.split) (simp_all add: rooted_def)

lemma rooted_republish [simp]: "rooted (republish_all_diagnostics st) = rooted st"
proof -
  have "rooted (foldl (\<lambda>s d. if in_use d \<and> \<not> disk_only d then send (Publish_Diagnostics (uri d)) s else s) st ds) =
      rooted st" for ds
    by (induction ds arbitrary: st) auto
  then show ?thesis unfolding republish_all_diagnostics_def .
qed

lemma rooted_revalidate [simp]: "rooted (revalidate_all_docs w parse st) = rooted st"
  by (auto simp: revalidate_all_docs_def publish_workspace_snapshot_def Let_def split: option.split)

lemma rooted_rename: "rooted (snd acc) \<Longrightarrow> rooted (snd (rename_file w parse acc f))"
  by (cases acc) (auto simp: rename_file_def Let_def split_def split: option.split)

lemma rooted_notify: "rooted st \<Longrightarrow> rooted (notify w parse n st)"
proof (cases n)
  case (Initialize u)
  assume "rooted st"
  then show ?thesis
    using Initialize by (auto simp: rooted_def workspace_set_root_from_uri_def Let_def split: option.splits)
next
  case (DidRenameFiles fs)
  assume "rooted st"
  moreover have "rooted (snd acc) \<Longrightarrow> rooted (snd (foldl (rename_file w parse) acc fs))" for acc fs
    by (induction fs arbitrary: acc) (simp_all add: rooted_rename)
  ultimately have "rooted (snd (foldl (rename_file w parse) (False, st) fs))" by simp
  then show ?thesis
    using DidRenameFiles by (simp add: handle_did_rename_files_def Let_def split_def)
qed (auto simp: handle_initialized_def handle_didopen_def open_text_def handle_didchange_def handle_didclose_def
    handle_did_change_watched_files_def Let_def split_def split: option.split)

lemma notify_inv:
  assumes idem: "\<And>u. w_norm w (w_norm w u) = w_norm w u" and "coord_inv (w_norm w) parse st" and "rooted st"
  shows "coord_inv (w_norm w) parse (notify w parse n st)"
  using assms(2,3) set_root_inv initialized_inv [OF idem] didopen_inv [OF idem] didchange_inv [OF idem]
    didclose_inv [OF idem] watched_inv [OF idem] rename_inv [OF idem]
  by (cases n) (simp_all add: rooted_def)

lemma reachable_inv:
  assumes rp: "realpath_ok rp" and "reachable rp parse st"
  shows "coord_inv (normalize_uri rp) parse st \<and> rooted st"
  using assms(2)
proof induction
  case start
  show ?case
    by (simp add: coordinator_init_def coord_inv_def store_inv_def uris_ok_def others_current_def published_def
        rooted_def zero_doc_def)
next
  case (step st w n)
  have "w_norm w = normalize_uri rp"
    by (rule w_norm_rp [OF step.hyps(2)])
  then show ?case
    using notify_inv [of w parse st n] step.IH realpath_ok_idem [OF rp] rooted_notify by auto
qed

subsection \<open>Properties\<close>


text \<open>A client opens one of two files that include each other and closes it again.\<close>

definition ex_world :: world where
  "ex_world = \<lparr> w_files = cyc_fs, w_stat = (\<lambda>_. None), w_json = (\<lambda>_. Unreadable) \<rparr>"

definition ex_session :: coordinator where
  "ex_session = notify ex_world cyc_parse (DidClose (Some ''file:///w/a''))
     (notify ex_world cyc_parse (DidOpen (Some ''file:///w/a'') (Some ''edited'')) coordinator_init)"

lemma ex_realpath_ok: "realpath_ok (\<lambda>_. None)"
  by (simp add: realpath_ok_def)

lemma ex_session_reachable: "reachable (\<lambda>_. None) cyc_parse ex_session"
  unfolding ex_session_def by (intro reachable.intros) (simp_all add: ex_world_def cyc_fs_def)


end
