(* ===== verification/Editor_Docs.thy ===== *)
theory Editor_Docs
  imports Lifecycle_Inv
begin

text \<open>
  Documents an editor manages (\<open>src/src/lifecycle.c\<close>): file events do not touch them, an opened
  document is found with the editor's text and served from the published snapshot.
\<close>

subsection \<open>Documents an editor manages\<close>

definition same_text :: "Document \<Rightarrow> Document \<Rightarrow> bool" where
  "same_text d d' = (uri d' = uri d \<and> in_use d' = in_use d \<and> disk_only d' = disk_only d \<and>
     doc_text d' = doc_text d \<and> snap d' = snap d)"

definition editor_kept :: "Document list \<Rightarrow> Document list \<Rightarrow> bool" where
  "editor_kept ds ds' = (length ds' = length ds \<and>
     (\<forall>j < length ds. in_use (ds ! j) \<and> \<not> disk_only (ds ! j) \<longrightarrow> same_text (ds ! j) (ds' ! j)))"

lemma editor_kept_refl [simp]: "editor_kept ds ds"
  by (simp add: editor_kept_def same_text_def)

lemma editor_kept_trans: "editor_kept a b \<Longrightarrow> editor_kept b c \<Longrightarrow> editor_kept a c"
  unfolding editor_kept_def same_text_def by simp

lemma extends_kept:
  assumes "extends norm parse X ds ds'" and "\<forall>j \<in> X. \<not> in_use (ds ! j) \<or> disk_only (ds ! j)"
  shows "editor_kept ds ds'"
  unfolding editor_kept_def
proof (intro conjI allI impI)
  fix j assume j: "j < length ds" "in_use (ds ! j) \<and> \<not> disk_only (ds ! j)"
  then have "same_but_includes (ds ! j) (ds' ! j)"
    using assms by (auto simp: extends_def)
  then show "same_text (ds ! j) (ds' ! j)"
    using same_but_includes_fields [of "ds ! j" "ds' ! j"] by (simp add: same_text_def)
qed (use assms(1) in \<open>simp add: extends_def\<close>)

lemma free_kept: "disk_only (ds ! i) \<Longrightarrow> editor_kept ds (upd_slot i doc_free ds)"
  by (auto simp: editor_kept_def upd_slot_nth same_text_def)

lemma load_document_kept:
  assumes idem: "\<And>u. w_norm w (w_norm w u) = w_norm w u" and inv: "store_inv (w_norm w) parse ds"
    and disk: "\<And>i. doc_find (w_norm w) ds u = Some i \<Longrightarrow> disk_only (ds ! i)"
  shows "editor_kept ds (snd (load_document w parse u ds))"
proof -
  have "editor_kept ds (install_disk_text (w_files w) parse i t path ds)"
    if "doc_find (w_norm w) ds u = Some i" for i t path
    using doc_find_Some [OF that] inv disk [OF that]
    by (intro extends_kept [OF install_disk_text_inv(2) [OF idem]])
       (auto simp: store_inv_def others_current_weaken)
  moreover have "editor_kept ds (install_disk_text (w_files w) parse i t path ds')"
    if f: "doc_find (w_norm w) ds u = None" "doc_alloc (w_norm w) ds u = Some (i, ds')" for i ds' t path
  proof -
    note a = doc_alloc_inv [OF inv f idem]
    have "extends (w_norm w) parse {i} ds' (install_disk_text (w_files w) parse i t path ds')"
      by (rule install_disk_text_inv(2) [OF idem a(1,3,4,2)])
    then have "j \<noteq> i \<Longrightarrow> j < length ds \<Longrightarrow> in_use (ds ! j) \<Longrightarrow>
        same_but_includes (ds ! j) (install_disk_text (w_files w) parse i t path ds' ! j)" for j
      using a(6,7) by (simp add: extends_def)
    note others = this
    have "same_text (ds ! j) (install_disk_text (w_files w) parse i t path ds' ! j)"
      if "j < length ds" "in_use (ds ! j)" for j
    proof -
      have "j \<noteq> i" using that(2) a(5) by auto
      then have "same_but_includes (ds ! j) (install_disk_text (w_files w) parse i t path ds' ! j)"
        by (rule others [OF _ that])
      from same_but_includes_fields [OF this] show ?thesis
        by (simp add: same_text_def)
    qed
    moreover have "length (install_disk_text (w_files w) parse i t path ds') = length ds"
      using install_disk_text_inv(2) [OF idem a(1,3,4,2)] a(7) by (simp add: extends_def)
    ultimately show ?thesis by (simp add: editor_kept_def)
  qed
  ultimately show ?thesis
    by (auto simp: load_document_def split: option.split)
qed

lemma watched_event_kept:
  assumes idem: "\<And>u. w_norm w (w_norm w u) = w_norm w u" and inv: "store_inv (w_norm w) parse (snd acc)"
  shows "editor_kept (snd acc) (snd (watched_event w parse acc ev))"
proof -
  have "editor_kept (snd acc) (snd (forget_watched_file w u (snd acc)))" for u
    using free_kept by (auto simp: forget_watched_file_def split: option.split)
  moreover have "editor_kept (snd acc) (snd (admit_watched_file w parse u (snd acc)))" for u
  proof (cases "doc_find (w_norm w) (snd acc) u")
    case None
    then show ?thesis
      using load_document_kept [OF idem inv, of u] by (simp add: admit_watched_file_def)
  next
    case (Some i)
    then show ?thesis
      using load_document_kept [OF idem inv, of u] by (simp add: admit_watched_file_def)
  qed
  ultimately show ?thesis
    by (auto simp: watched_event_def Let_def split_def split: option.split)
qed

lemma load_entry_kept:
  assumes idem: "\<And>u. fs_norm fs (fs_norm fs u) = fs_norm fs u" and "uris_ok (fs_norm fs) ds"
  shows "editor_kept ds (load_compile_entry fs parse path ds)"
proof -
  have "editor_kept ds (load_file_from_disk fs parse ds path)"
    by (rule extends_kept [OF load_extends [OF assms]]) simp
  moreover have "editor_kept ds1 (upd_slot k (\<lambda>d. d \<lparr> is_cc_root := True \<rparr>) ds1)" for k ds1
    by (auto simp: editor_kept_def upd_slot_nth same_text_def)
  ultimately show ?thesis
    by (auto simp: load_compile_entry_def Let_def upd_opt_def split: option.split intro: editor_kept_trans)
qed

lemma load_entries_kept:
  assumes idem: "\<And>u. fs_norm fs (fs_norm fs u) = fs_norm fs u"
  shows "store_inv (fs_norm fs) parse ds \<Longrightarrow> editor_kept ds (load_compile_entries fs parse es ds)"
  unfolding load_compile_entries_def
proof (induction es arbitrary: ds)
  case (Cons e es)
  have "store_inv (fs_norm fs) parse (load_compile_entry fs parse e ds)"
    using load_compile_entry_extends [OF idem] Cons.prems by (simp add: store_inv_def)
  then have "editor_kept (load_compile_entry fs parse e ds)
      (fold (load_compile_entry fs parse) es (load_compile_entry fs parse e ds))"
    by (rule Cons.IH)
  moreover have "editor_kept ds (load_compile_entry fs parse e ds)"
    using Cons.prems by (intro load_entry_kept [OF idem]) (simp add: store_inv_def)
  ultimately show ?case
    by (simp add: editor_kept_trans)
qed simp

lemma revalidate_kept:
  assumes idem: "\<And>u. w_norm w (w_norm w u) = w_norm w u" and inv: "store_inv (w_norm w) parse (docs st)"
  shows "editor_kept (docs st) (docs (revalidate_all_docs w parse st))"
proof -
  have "editor_kept (docs st) (docs (reload_compile_commands w parse st))"
    using load_entries_kept [OF idem inv]
    by (auto simp: reload_compile_commands_def Let_def split: option.split prod.split CompileCommandsResult.split)
  then show ?thesis
    unfolding revalidate_docs by (auto simp: maybe_reload_compile_commands_def split: option.split)
qed

lemma watched_kept:
  assumes idem: "\<And>u. w_norm w (w_norm w u) = w_norm w u" and inv: "store_inv (w_norm w) parse (docs st)"
  shows "editor_kept (docs st) (docs (handle_did_change_watched_files w parse evs st))"
proof -
  have "store_inv (w_norm w) parse (snd acc) \<Longrightarrow>
      store_inv (w_norm w) parse (snd (foldl (watched_event w parse) acc evs)) \<and>
      editor_kept (snd acc) (snd (foldl (watched_event w parse) acc evs))" for acc evs
  proof (induction evs arbitrary: acc)
    case (Cons ev evs)
    let ?acc = "watched_event w parse acc ev"
    note rest = Cons.IH [OF watched_event_inv [OF idem Cons.prems, of ev]]
    have "editor_kept (snd acc) (snd (foldl (watched_event w parse) ?acc evs))"
      by (rule editor_kept_trans [OF watched_event_kept [OF idem Cons.prems] rest [THEN conjunct2]])
    then show ?case using rest by simp
  qed simp
  note all = this
  define ds where "ds = snd (foldl (watched_event w parse) (False, docs st) evs)"
  have ds: "store_inv (w_norm w) parse ds" "editor_kept (docs st) ds"
    using all [of "(False, docs st)" evs] inv by (simp_all add: ds_def)
  have "editor_kept ds (docs (revalidate_all_docs w parse (st \<lparr> docs := ds \<rparr>)))"
    using revalidate_kept [OF idem, of parse "st \<lparr> docs := ds \<rparr>"] ds(1) by simp
  then show ?thesis
    using editor_kept_trans [OF ds(2)] ds(2)
    by (auto simp: handle_did_change_watched_files_def Let_def split_def ds_def)
qed

subsection \<open>Opening\<close>

lemma install_fields: "in_use (doc_install_parse d po) = in_use d \<and> disk_only (doc_install_parse d po) = disk_only d \<and>
    doc_text (doc_install_parse d po) = doc_text d"
  by (auto simp: doc_install_parse_def Let_def split: option.split)

lemma parse_into_at:
  assumes idem: "\<And>u. w_norm w (w_norm w u) = w_norm w u" and ok: "uris_ok (w_norm w) ds"
    and i: "i < length ds" "in_use (ds ! i)"
  shows "disk_only (parse_into w parse i u t ds ! i) = disk_only (ds ! i) \<and>
    doc_text (parse_into w parse i u t ds ! i) = doc_text (ds ! i) \<and>
    in_use (parse_into w parse i u t ds ! i) \<and> uri (parse_into w parse i u t ds ! i) = uri (ds ! i)"
proof -
  obtain ds' where ds': "parse_into w parse i u t ds = upd_slot i (\<lambda>d. doc_install_parse d (Some (parse t))) ds'"
    and ext: "extends (w_norm w) parse {} ds ds'"
    using follow_includes_extends [OF idem ok] extends_refl [OF ok]
    by (auto simp: parse_into_def Let_def split: option.split)
  have "same_but_includes (ds ! i) (ds' ! i)" "length ds' = length ds"
    using ext i by (simp_all add: extends_def)
  then show ?thesis
    unfolding ds' using same_but_includes_fields [of "ds ! i" "ds' ! i"] i install_fields
    by (simp add: upd_slot_nth)
qed

text \<open>The document in a slot is the editor's, with a text.\<close>

definition opened_at :: "(string \<Rightarrow> string) \<Rightarrow> string \<Rightarrow> string \<Rightarrow> nat \<Rightarrow> Document list \<Rightarrow> bool" where
  "opened_at norm u t i ds = (i < length ds \<and> in_use (ds ! i) \<and> uri (ds ! i) = norm u \<and>
     doc_text (ds ! i) = Some t \<and> \<not> disk_only (ds ! i))"

lemma revalidate_opened:
  assumes idem: "\<And>u. w_norm w (w_norm w u) = w_norm w u" and inv: "store_inv (w_norm w) parse (docs st)"
    and "opened_at (w_norm w) u t i (docs st)"
  shows "opened_at (w_norm w) u t i (docs (revalidate_all_docs w parse st))"
  using revalidate_kept [OF idem inv] assms(3) by (simp add: opened_at_def editor_kept_def same_text_def)

lemma open_text_opened:
  assumes idem: "\<And>u. w_norm w (w_norm w u) = w_norm w u"
    and ok: "uris_ok (w_norm w) ds" "i < length ds" "in_use (ds ! i)" "others_current parse {i} ds"
    and u: "uri (ds ! i) = w_norm w u"
  shows "opened_at (w_norm w) u t i (docs (open_text w parse i u t ds st))"
proof -
  let ?d1 = "upd_slot i (\<lambda>d. d \<lparr> disk_only := False, doc_text := Some t \<rparr>) ds"
  have 1: "extends (w_norm w) parse {i} ds ?d1"
    by (rule text_update_extends [OF ok(1)]) (simp add: keeps_slot_def)
  then have d1: "uris_ok (w_norm w) ?d1" "i < length ?d1" "in_use (?d1 ! i)" "doc_text (?d1 ! i) = Some t"
      "\<not> disk_only (?d1 ! i)" "uri (?d1 ! i) = w_norm w u"
    using ok(2,3) u by (simp_all add: extends_def upd_slot_nth)
  note inst = parse_into_inv [OF idem d1(1-4) extends_current [OF 1 ok(4)], of u]
  have "length (parse_into w parse i u t ?d1) = length ?d1"
    using inst(2) by (simp add: extends_def)
  then have "opened_at (w_norm w) u t i (parse_into w parse i u t ?d1)"
    using parse_into_at [OF idem d1(1-3), of parse u t] d1(2,4-6) by (simp add: opened_at_def)
  then show ?thesis
    unfolding open_text_def Let_def using inst(1) by (intro revalidate_opened [OF idem]) simp_all
qed

lemma didopen_opens:
  assumes idem: "\<And>u. w_norm w (w_norm w u) = w_norm w u" and st: "store_inv (w_norm w) parse (docs st)"
    and room: "case doc_find (w_norm w) (docs st) u of Some i \<Rightarrow> disk_only (docs st ! i) | None \<Rightarrow> free_slots (docs st) \<noteq> 0"
  shows "\<exists>i. opened_at (w_norm w) u t i (docs (handle_didopen w parse (Some u) (Some t) st))"
proof (cases "doc_find (w_norm w) (docs st) u")
  case (Some i)
  have il: "i < length (docs st)" "in_use (docs st ! i)" "uri (docs st ! i) = w_norm w u"
    using doc_find_iff [of "w_norm w" "docs st"] st Some by (auto simp: store_inv_def)
  have disk: "disk_only (docs st ! i)" using room Some by simp
  let ?c = "upd_slot i (\<lambda>d. doc_clear_parse_state (d \<lparr> doc_text := None \<rparr>)) (docs st)"
  have c: "uris_ok (w_norm w) ?c" "i < length ?c" "in_use (?c ! i)" "others_current parse {i} ?c" "uri (?c ! i) = w_norm w u"
    using st il by (auto simp: store_inv_def uris_ok_upd keeps_slot_def doc_clear_parse_state_def
        others_current_def upd_slot_nth)
  let ?o = "st \<lparr> docs := upd_slot i (\<lambda>d. d \<lparr> disk_only := False \<rparr>) (docs st) \<rparr>"
  have o: "store_inv (w_norm w) parse (docs ?o)"
    using st by (auto simp: store_inv_def uris_ok_upd keeps_slot_def others_current_def upd_slot_nth current_def)
  have "opened_at (w_norm w) u t i (docs (revalidate_all_docs w parse ?o))" if "doc_text (docs st ! i) = Some t"
    by (rule revalidate_opened [OF idem o]) (use that il in \<open>simp add: opened_at_def upd_slot_nth\<close>)
  then show ?thesis
    using Some disk open_text_opened [OF idem c] by (auto simp: handle_didopen_def Let_def)
next
  case None
  then obtain i ds where al: "doc_alloc (w_norm w) (docs st) u = Some (i, ds)"
    using room doc_alloc_None [of "w_norm w" "docs st" u] by (cases "doc_alloc (w_norm w) (docs st) u") auto
  note a = doc_alloc_inv [OF st None al idem]
  show ?thesis
    using None al open_text_opened [OF idem a(1,3,4,2,8)] by (auto simp: handle_didopen_def)
qed

lemma served:
  assumes inv: "coord_inv norm parse st" and o: "opened_at norm u t i (docs st)"
  shows "doc_find norm (docs st) u = Some i \<and>
    (\<exists>ws k v. g_ws st = Some ws \<and> k < length (ws_docs ws) \<and> \<not> wd_disk_only (ws_docs ws ! k) \<and>
       wd_snap (ws_docs ws ! k) = docsnap_new (norm u) t (parse t) v)"
proof
  have st: "uris_ok norm (docs st)" "others_current parse {} (docs st)"
    using inv by (simp_all add: coord_inv_def store_inv_def)
  have i: "i < length (docs st)" "in_use (docs st ! i)" "uri (docs st ! i) = norm u" "doc_text (docs st ! i) = Some t"
    "\<not> disk_only (docs st ! i)"
    using o by (simp_all add: opened_at_def)
  show "doc_find norm (docs st) u = Some i"
    using doc_find_iff [OF st(1)] i by simp
  obtain v where v: "snap (docs st ! i) = Some (docsnap_new (norm u) t (parse t) v)"
    using st(2) i by (auto simp: others_current_def current_def)
  obtain ws where ws: "g_ws st = Some ws"
    using inv i by (auto simp: coord_inv_def published_def split: option.splits)
  then obtain cc where cc: "ws = build_workspace_snapshot norm cc (docs st)"
    using inv by (auto simp: coord_inv_def published_def)
  have "docs_match (docs st) ws"
    using build_workspace_snapshot_spec [of norm "docs st" cc] by (auto simp: cc orphans_done_def)
  then have m: "map (\<lambda>w. w \<lparr> project_index := None \<rparr>) (ws_docs ws) = map populate_ws_doc (filter parsed (docs st))"
    by (simp add: docs_match_def)
  have "docs st ! i \<in> set (filter parsed (docs st))"
    using i v by (simp add: parsed_def)
  then have "populate_ws_doc (docs st ! i) \<in> set (map (\<lambda>w. w \<lparr> project_index := None \<rparr>) (ws_docs ws))"
    unfolding m by simp
  then obtain k where k: "k < length (ws_docs ws)"
      "populate_ws_doc (docs st ! i) = (ws_docs ws ! k) \<lparr> project_index := None \<rparr>"
    by (auto simp: in_set_conv_nth)
  have "wd_snap (ws_docs ws ! k) = wd_snap (populate_ws_doc (docs st ! i))"
    "wd_disk_only (ws_docs ws ! k) = wd_disk_only (populate_ws_doc (docs st ! i))"
    by (simp_all add: k(2))
  then show "\<exists>ws k v. g_ws st = Some ws \<and> k < length (ws_docs ws) \<and> \<not> wd_disk_only (ws_docs ws ! k) \<and>
       wd_snap (ws_docs ws ! k) = docsnap_new (norm u) t (parse t) v"
    using ws k(1) v i(5) by (intro exI [of _ ws] exI [of _ k] exI [of _ v]) (simp add: populate_ws_doc_def)
qed

subsection \<open>Properties\<close>





end
