(* ===== verification/Job_Queue.thy ===== *)
theory Job_Queue
  imports Main
begin

text \<open>
  The thread-safe queue of jobs (\<open>src/src/job_queue.c\<close>): an intrusive singly linked list with a tail
  pointer.  A \<open>Job *\<close> is a number, the \<open>next\<close> fields of all jobs are one store shared by the queues,
  and each operation is one critical section of the queue's mutex.
\<close>

record 'a job_store =
  payload :: "nat \<Rightarrow> 'a"
  next_job :: "nat \<Rightarrow> nat option"

record JobQueue =
  q_head :: "nat option"
  q_tail :: "nat option"
  q_closed :: bool

definition job_queue_create :: JobQueue where
  "job_queue_create = \<lparr> q_head = None, q_tail = None, q_closed = False \<rparr>"

definition job_queue_push :: "nat \<Rightarrow> JobQueue \<times> 'a job_store \<Rightarrow> JobQueue \<times> 'a job_store" where
  "job_queue_push job qs =
     (let (q, s) = qs;
          s1 = s \<lparr> next_job := (next_job s)(job := None) \<rparr> in
      case q_tail q of
        Some t \<Rightarrow> (q \<lparr> q_tail := Some job \<rparr>, s1 \<lparr> next_job := (next_job s1)(t := Some job) \<rparr>)
      | None \<Rightarrow> (q \<lparr> q_head := Some job, q_tail := Some job \<rparr>, s1))"

text \<open>What a pop does once it need not wait: \<open>Inl True\<close> is NULL from a closed empty queue,
  \<open>Inl False\<close> goes on waiting.\<close>

definition job_queue_pop :: "JobQueue \<times> 'a job_store \<Rightarrow> bool + (nat \<times> JobQueue \<times> 'a job_store)" where
  "job_queue_pop qs =
     (let (q, s) = qs in
      case q_head q of
        None \<Rightarrow> Inl (q_closed q)
      | Some job \<Rightarrow>
          (let q1 = q \<lparr> q_head := next_job s job \<rparr> in
           Inr (job, if q_head q1 = None then q1 \<lparr> q_tail := None \<rparr> else q1, s)))"

definition job_queue_close :: "JobQueue \<Rightarrow> JobQueue" where
  "job_queue_close q = q \<lparr> q_closed := True \<rparr>"

text \<open>The walk over the list that flags jobs.\<close>

partial_function (option) mark_from ::
  "('a \<Rightarrow> 'a) \<Rightarrow> (nat \<Rightarrow> nat option) \<Rightarrow> nat option \<Rightarrow> (nat \<Rightarrow> 'a) \<Rightarrow> (nat \<Rightarrow> 'a) option" where
  "mark_from f links j jobs =
     (case j of
        None \<Rightarrow> Some jobs
      | Some k \<Rightarrow> mark_from f links (links k) (jobs(k := f (jobs k))))"

definition job_queue_mark :: "('a \<Rightarrow> 'a) \<Rightarrow> JobQueue \<times> 'a job_store \<Rightarrow> 'a job_store option" where
  "job_queue_mark f qs =
     (let (q, s) = qs in
      map_option (\<lambda>jobs. s \<lparr> payload := jobs \<rparr>) (mark_from f (next_job s) (q_head q) (payload s)))"

subsection \<open>The list a queue holds\<close>

fun chain :: "(nat \<Rightarrow> nat option) \<Rightarrow> nat option \<Rightarrow> nat list \<Rightarrow> bool" where
  "chain links h [] = (h = None)"
| "chain links h (x # xs) = (h = Some x \<and> chain links (links x) xs)"

definition queue_rep :: "JobQueue \<times> 'a job_store \<Rightarrow> nat list \<Rightarrow> bool" where
  "queue_rep qs xs =
     (distinct xs \<and> chain (next_job (snd qs)) (q_head (fst qs)) xs \<and>
      q_tail (fst qs) = (if xs = [] then None else Some (last xs)))"

lemma chain_cong: "\<forall>x \<in> set xs. l x = l' x \<Longrightarrow> chain l h xs = chain l' h xs"
  by (induction xs arbitrary: h) auto

lemma chain_snoc:
  assumes "distinct (xs @ [y])" and "xs \<noteq> []" and "chain l h xs"
  shows "chain (l(y := None, last xs := Some y)) h (xs @ [y])"
  using assms
proof (induction xs arbitrary: h)
  case (Cons x xs)
  show ?case
  proof (cases "xs = []")
    case True
    then show ?thesis using Cons.prems by auto
  next
    case False
    then have "chain (l(y := None, last xs := Some y)) (l x) (xs @ [y])"
      by (intro Cons.IH) (use Cons.prems False in auto)
    moreover have "x \<noteq> last xs" "x \<noteq> y"
      using Cons.prems(1) False by auto
    moreover from this have "(l(y := None, last xs := Some y)) x = l x"
      by simp
    ultimately show ?thesis
      using Cons.prems(3) False by (simp only: append_Cons chain.simps last.simps if_False simp_thms)
  qed
qed simp

lemma chain_head_tail: "chain l h xs \<Longrightarrow> (h = None) = (xs = [])"
  by (cases xs) auto

lemma push_rep:
  assumes "queue_rep qs xs" and "job \<notin> set xs"
  shows "queue_rep (job_queue_push job qs) (xs @ [job])"
proof (cases "xs = []")
  case True
  then show ?thesis
    using assms by (cases qs) (simp add: queue_rep_def job_queue_push_def)
next
  case False
  have d: "distinct (xs @ [job])" using assms by (simp add: queue_rep_def)
  have "chain ((next_job (snd qs))(job := None, last xs := Some job)) (q_head (fst qs)) (xs @ [job])"
    using chain_snoc [OF d False] assms(1) by (simp add: queue_rep_def)
  then show ?thesis
    using False assms d by (cases qs) (simp add: queue_rep_def job_queue_push_def)
qed

lemma pop_rep_empty: "queue_rep qs [] \<Longrightarrow> job_queue_pop qs = Inl (q_closed (fst qs))"
  by (cases qs) (simp add: queue_rep_def job_queue_pop_def)

lemma pop_rep:
  assumes "queue_rep qs (x # xs)"
  shows "\<exists>qs'. job_queue_pop qs = Inr (x, qs') \<and> queue_rep qs' xs \<and> snd qs' = snd qs \<and>
    q_closed (fst qs') = q_closed (fst qs)"
proof -
  obtain q s where qs: "qs = (q, s)" by fastforce
  have "(next_job s x = None) = (xs = [])"
    using assms chain_head_tail by (auto simp: qs queue_rep_def)
  then show ?thesis
    using assms by (auto simp: qs queue_rep_def job_queue_pop_def)
qed

lemma mark_from_chain:
  "chain links h xs \<Longrightarrow> distinct xs \<Longrightarrow>
   mark_from f links h jobs = Some (\<lambda>k. if k \<in> set xs then f (jobs k) else jobs k)"
proof (induction xs arbitrary: h jobs)
  case Nil
  then show ?case by (subst mark_from.simps) simp
next
  case (Cons x xs)
  then show ?case
    by (subst mark_from.simps) (auto simp: fun_eq_iff)
qed

lemma mark_rep:
  assumes "queue_rep qs xs"
  shows "map_option payload (job_queue_mark f qs) =
    Some (\<lambda>k. if k \<in> set xs then f (payload (snd qs) k) else payload (snd qs) k)"
proof -
  have "mark_from f (next_job (snd qs)) (q_head (fst qs)) (payload (snd qs)) =
      Some (\<lambda>k. if k \<in> set xs then f (payload (snd qs) k) else payload (snd qs) k)"
    using assms by (intro mark_from_chain) (simp_all add: queue_rep_def)
  then show ?thesis
    by (simp add: job_queue_mark_def split_def Let_def option.map_comp o_def)
qed

subsection \<open>The queue as a first-in first-out interface\<close>

locale fifo =
  fixes contents :: "'s \<Rightarrow> 'a list \<Rightarrow> bool"
    and enq :: "'a \<Rightarrow> 's \<Rightarrow> 's"
    and deq :: "'s \<Rightarrow> ('a \<times> 's) option"
  assumes enq_contents: "contents s xs \<Longrightarrow> x \<notin> set xs \<Longrightarrow> contents (enq x s) (xs @ [x])"
    and deq_empty: "contents s [] \<Longrightarrow> deq s = None"
    and deq_contents: "contents s (x # xs) \<Longrightarrow> \<exists>s'. deq s = Some (x, s') \<and> contents s' xs"
begin

fun deq_many :: "nat \<Rightarrow> 's \<Rightarrow> 'a list \<times> 's" where
  "deq_many 0 s = ([], s)"
| "deq_many (Suc n) s =
     (case deq s of None \<Rightarrow> ([], s) | Some (x, s1) \<Rightarrow> (case deq_many n s1 of (xs, s2) \<Rightarrow> (x # xs, s2)))"

lemma enq_all_contents:
  "contents s xs \<Longrightarrow> distinct (xs @ ys) \<Longrightarrow> contents (fold enq ys s) (xs @ ys)"
proof (induction ys arbitrary: s xs)
  case (Cons y ys)
  then show ?case
    using Cons.IH [OF enq_contents [OF Cons.prems(1)], of y] by auto
qed simp

lemma deq_many_contents:
  "contents s xs \<Longrightarrow> fst (deq_many n s) = take n xs \<and> contents (snd (deq_many n s)) (drop n xs)"
proof (induction n arbitrary: s xs)
  case (Suc n)
  show ?case
  proof (cases xs)
    case Nil
    then show ?thesis using Suc.prems deq_empty by simp
  next
    case (Cons x ys)
    then obtain s' where "deq s = Some (x, s')" "contents s' ys"
      using Suc.prems deq_contents by blast
    then show ?thesis
      using Suc.IH [of s' ys] Cons by (simp add: split_def)
  qed
qed simp

text \<open>What goes in comes out in the same order.\<close>

lemma in_order:
  "contents s [] \<Longrightarrow> distinct ys \<Longrightarrow> fst (deq_many n (fold enq ys s)) = take n ys"
  using deq_many_contents [OF enq_all_contents [of s "[]" ys]] by simp

end

definition pop_job :: "JobQueue \<times> 'a job_store \<Rightarrow> (nat \<times> JobQueue \<times> 'a job_store) option" where
  "pop_job qs = (case job_queue_pop qs of Inl _ \<Rightarrow> None | Inr r \<Rightarrow> Some r)"

interpretation job_fifo: fifo queue_rep job_queue_push pop_job
proof unfold_locales
  fix qs :: "JobQueue \<times> 'a job_store" and xs x
  show "queue_rep qs xs \<Longrightarrow> x \<notin> set xs \<Longrightarrow> queue_rep (job_queue_push x qs) (xs @ [x])"
    by (rule push_rep)
  show "queue_rep qs [] \<Longrightarrow> pop_job qs = None"
    by (simp add: pop_job_def pop_rep_empty)
  show "queue_rep qs (x # xs) \<Longrightarrow> \<exists>s'. pop_job qs = Some (x, s') \<and> queue_rep s' xs"
    using pop_rep by (fastforce simp: pop_job_def)
qed

subsection \<open>Properties\<close>

text \<open>C22: The linked queue is a first-in first-out list: jobs pushed onto an empty queue are popped in
  the order they were pushed, a pop of an empty queue waits or, once closed, returns NULL, and
  flagging reaches exactly the queued jobs and leaves the links alone.\<close>

theorem job_queue_refines_list:
  assumes "queue_rep (q, s) []" and "distinct js"
  shows "fst (job_fifo.deq_many n (fold job_queue_push js (q, s))) = take n js \<and>
    job_queue_pop (q, s) = Inl (q_closed q) \<and>
    map_option payload (job_queue_mark f (fold job_queue_push js (q, s))) =
      Some (\<lambda>k. if k \<in> set js then f (payload (snd (fold job_queue_push js (q, s))) k)
                else payload (snd (fold job_queue_push js (q, s))) k)"
proof -
  have rep: "queue_rep (fold job_queue_push js (q, s)) js"
    using job_fifo.enq_all_contents [OF assms(1), of js] assms(2) by simp
  have "map_option payload (job_queue_mark f (fold job_queue_push js (q, s))) =
      Some (\<lambda>k. if k \<in> set js then f (payload (snd (fold job_queue_push js (q, s))) k)
                else payload (snd (fold job_queue_push js (q, s))) k)"
    by (rule mark_rep [OF rep])
  then show ?thesis
    using job_fifo.in_order [OF assms] pop_rep_empty [OF assms(1)] by simp
qed

theorem job_queue_refines_list_witness:
  "fst (job_fifo.deq_many 2 (fold job_queue_push [5, 3, 8]
      (job_queue_create, \<lparr> payload = (\<lambda>_. False), next_job = (\<lambda>_. Some 3) \<rparr>))) = [5, 3]"
proof -
  have "queue_rep (job_queue_create, \<lparr> payload = (\<lambda>_. False), next_job = (\<lambda>_. Some 3) \<rparr>) []"
    by (simp add: queue_rep_def job_queue_create_def)
  from job_queue_refines_list [OF this, of "[5, 3, 8]" 2 Not] show ?thesis by simp
qed

end
