(* ===== verification/Query_Context.thy ===== *)
theory Query_Context
  imports Editor_Docs
begin

text \<open>
  The read view of a query (\<open>build_query_context_locked\<close> of \<open>src/src/server.c\<close>, \<open>query_context.c\<close>):
  the requested document and its project's documents, taken from the published snapshot, with the
  previous parse for semantic-token deltas.  The fields a \<open>query_doc\<close> borrows from its snapshot are
  read from it here.
\<close>

record query_doc =
  qd_snap :: doc_snapshot
  qd_prefixes :: prefix_set
  is_primary :: bool

record query_context =
  qc_ws :: "workspace_snapshot option"
  qc_prev_snap :: "doc_snapshot option"
  qc_docs :: "query_doc list"
  primary_idx :: "nat option"
  qc_project_root :: "ProjectNode option"
  qc_project_id :: "string option"

definition make_query_doc :: "ws_doc \<Rightarrow> bool \<Rightarrow> query_doc" where
  "make_query_doc w primary = \<lparr> qd_snap = wd_snap w, qd_prefixes = wd_prefixes w, is_primary = primary \<rparr>"

definition is_doc :: "string option \<Rightarrow> ws_doc \<Rightarrow> bool" where
  "is_doc canon w = (canon = Some (snap_uri (wd_snap w)))"

text \<open>One document of the snapshot: skipped, or appended, and recorded as the primary one.\<close>

definition add_query_doc ::
  "string option \<Rightarrow> bool \<Rightarrow> nat option \<Rightarrow> query_doc list \<times> nat option \<Rightarrow> ws_doc \<Rightarrow> query_doc list \<times> nat option" where
  "add_query_doc canon want_all primary_proj acc w =
     (let primary = is_doc canon w in
      if \<not> primary \<and> \<not> want_all \<and> (primary_proj = None \<or> project_index w \<noteq> primary_proj) then acc
      else (fst acc @ [make_query_doc w primary],
            if primary then Some (length (fst acc)) else snd acc))"

definition build_query_context_locked ::
  "(string \<Rightarrow> string) \<Rightarrow> coordinator \<Rightarrow> string option \<Rightarrow> bool \<Rightarrow> query_context" where
  "build_query_context_locked norm st primary_uri want_all =
     (let primary_doc = Option.bind primary_uri (doc_find norm (docs st));
          canon = map_option (\<lambda>i. uri (docs st ! i)) primary_doc;
          prev = Option.bind primary_doc (\<lambda>i. prev_snap (docs st ! i)) in
      case g_ws st of
        None \<Rightarrow> \<lparr> qc_ws = None, qc_prev_snap = prev, qc_docs = [], primary_idx = None,
                  qc_project_root = None, qc_project_id = None \<rparr>
      | Some ws \<Rightarrow>
          (let primary_proj = (case List.find (is_doc canon) (ws_docs ws) of
                                 None \<Rightarrow> None | Some w \<Rightarrow> project_index w);
               (qds, idx) = foldl (add_query_doc canon want_all primary_proj) ([], None) (ws_docs ws);
               proj = (case primary_proj of
                         Some p \<Rightarrow> if p < length (ws_projects ws) then Some (ws_projects ws ! p) else None
                       | None \<Rightarrow> None) in
           \<lparr> qc_ws = Some ws, qc_prev_snap = prev, qc_docs = qds, primary_idx = idx,
             qc_project_root = map_option proj_root proj, qc_project_id = map_option proj_id proj \<rparr>))"

definition query_context_primary :: "query_context \<Rightarrow> query_doc option" where
  "query_context_primary qc =
     (case primary_idx qc of
        Some i \<Rightarrow> if i < length (qc_docs qc) then Some (qc_docs qc ! i) else None
      | None \<Rightarrow> None)"

definition doc_symbol_pool :: "query_doc option \<Rightarrow> tj_node list" where
  "doc_symbol_pool d = (case d of Some q \<Rightarrow> children (snap_root (qd_snap q)) | None \<Rightarrow> [])"

subsection \<open>The entries of the published snapshot\<close>

lemma filter_parsed_slots: "filter parsed ds = map ((!) ds) (parsed_slots ds)"
proof -
  have "filter parsed ds = filter parsed (map ((!) ds) [0..<length ds])"
    by (simp add: map_nth)
  then show ?thesis
    by (simp add: filter_map o_def parsed_slots_def)
qed

definition entry :: "(string \<Rightarrow> string) \<Rightarrow> Document list \<Rightarrow> nat \<Rightarrow> ws_doc" where
  "entry norm ds j = (populate_ws_doc (ds ! j)) \<lparr> project_index := Some (home_project norm ds j) \<rparr>"

lemma snapshot_shape:
  "map (\<lambda>w. w \<lparr> project_index := None \<rparr>) (ws_docs (build_workspace_snapshot norm cc ds)) =
     map populate_ws_doc (filter parsed ds) \<and>
   map project_index (ws_docs (build_workspace_snapshot norm cc ds)) =
     map (\<lambda>i. Some (home_project norm ds i)) (parsed_slots ds) \<and>
   length (ws_projects (build_workspace_snapshot norm cc ds)) =
     length (cc_roots ds) + length (orphan_docs norm ds)"
proof -
  let ?ws = "build_workspace_snapshot norm cc ds"
  obtain mss where mss: "map set mss = map (include_closure norm ds) (cc_roots ds)"
    and ok: "orphans_done norm ds (map2 (project_for ds True) (cc_roots ds) mss) (length ds) ?ws"
    using build_workspace_snapshot_spec by blast
  have len: "length (map2 (project_for ds True) (cc_roots ds) mss) = length (cc_roots ds)"
    using arg_cong [OF mss, of length] by simp
  have m: "docs_match ds ?ws" using ok by (simp add: orphans_done_def)
  have cl: "claim_of ds ?ws i = Some (home_project norm ds i)" if "i \<in> set (parsed_slots ds)" for i
  proof -
    have "slot_to_wsdoc ds i \<noteq> None" "i < length ds"
      using that by (auto simp: parsed_slots_def slot_to_wsdoc_def)
    then show ?thesis
      using ok len unfolding orphans_done_def home_project_def by simp
  qed
  have "map project_index (ws_docs ?ws) = map (\<lambda>i. Some (home_project norm ds i)) (parsed_slots ds)"
    unfolding claims_listed [OF m] by (rule map_cong [OF refl cl])
  then show ?thesis
    using m ok len by (simp add: docs_match_def orphans_done_def orphan_docs_def)
qed

lemma snapshot_entries: "ws_docs (build_workspace_snapshot norm cc ds) = map (entry norm ds) (parsed_slots ds)"
proof (rule nth_equalityI)
  let ?wds = "ws_docs (build_workspace_snapshot norm cc ds)"
  note shape = snapshot_shape [of norm cc ds]
  show len: "length ?wds = length (map (entry norm ds) (parsed_slots ds))"
    using arg_cong [OF conjunct1 [OF conjunct2 [OF shape]], of length] by simp
  fix k assume k: "k < length ?wds"
  let ?j = "parsed_slots ds ! k"
  have "(?wds ! k) \<lparr> project_index := None \<rparr> = populate_ws_doc (ds ! ?j)"
    using arg_cong [OF conjunct1 [OF shape], of "\<lambda>xs. xs ! k"] k len by (simp add: filter_parsed_slots)
  moreover have "project_index (?wds ! k) = Some (home_project norm ds ?j)"
    using arg_cong [OF conjunct1 [OF conjunct2 [OF shape]], of "\<lambda>xs. xs ! k"] k len by simp
  moreover have "w = (w \<lparr> project_index := None \<rparr>) \<lparr> project_index := project_index w \<rparr>" for w :: ws_doc
    by simp
  ultimately have "?wds ! k = entry norm ds ?j"
    unfolding entry_def by metis
  then show "?wds ! k = map (entry norm ds) (parsed_slots ds) ! k"
    using k len by simp
qed

text \<open>The documents of one project, in slot order.\<close>

definition project_docs :: "(string \<Rightarrow> string) \<Rightarrow> Document list \<Rightarrow> nat \<Rightarrow> nat list" where
  "project_docs norm ds p = filter (\<lambda>j. home_project norm ds j = p) (parsed_slots ds)"

lemma add_query_docs:
  "fst (foldl (add_query_doc canon want_all pp) acc ws) =
     fst acc @ map (\<lambda>w. make_query_doc w (is_doc canon w))
       (filter (\<lambda>w. is_doc canon w \<or> want_all \<or> (pp \<noteq> None \<and> project_index w = pp)) ws)"
proof (induction ws arbitrary: acc)
  case (Cons w ws)
  have "fst (add_query_doc canon want_all pp acc w) = fst acc @
      (if is_doc canon w \<or> want_all \<or> (pp \<noteq> None \<and> project_index w = pp)
       then [make_query_doc w (is_doc canon w)] else [])"
    by (simp add: add_query_doc_def Let_def)
  then show ?case
    using Cons.IH [of "add_query_doc canon want_all pp acc w"] by simp
qed simp

text \<open>With one primary entry its position is recorded.\<close>

lemma no_primary: "filter (is_doc canon) ws = [] \<Longrightarrow> snd (foldl (add_query_doc canon want_all pp) acc ws) = snd acc"
proof (induction ws arbitrary: acc)
  case (Cons w ws)
  then have "snd (add_query_doc canon want_all pp acc w) = snd acc"
    by (simp add: add_query_doc_def Let_def split: if_splits)
  then show ?case
    using Cons by (simp split: if_splits)
qed simp

lemma one_primary:
  assumes "filter (is_doc canon) ws = [w]" and "res = foldl (add_query_doc canon want_all pp) ([], None) ws"
  shows "\<exists>k. snd res = Some k \<and> k < length (fst res) \<and> fst res ! k = make_query_doc w True"
proof -
  obtain us vs where ws: "ws = us @ w # vs" and us: "filter (is_doc canon) us = []" and w: "is_doc canon w"
    and vs: "filter (is_doc canon) vs = []"
  proof -
    obtain us vs where "ws = us @ w # vs" "\<forall>u \<in> set us. \<not> is_doc canon u" "is_doc canon w" "[] = filter (is_doc canon) vs"
      using assms(1) unfolding filter_eq_Cons_iff by blast
    then show thesis
      using that [of us vs] by (simp add: filter_empty_conv)
  qed
  define acc where "acc = foldl (add_query_doc canon want_all pp) ([], None) us"
  define acc' where "acc' = (fst acc @ [make_query_doc w True], Some (length (fst acc)))"
  have "add_query_doc canon want_all pp acc w = acc'"
    using w by (simp add: add_query_doc_def acc'_def)
  then have res: "res = foldl (add_query_doc canon want_all pp) acc' vs"
    using assms(2) ws by (simp add: acc_def)
  have "snd res = Some (length (fst acc))"
    unfolding res no_primary [OF vs] by (simp add: acc'_def)
  moreover obtain more where "fst res = fst acc' @ more"
    unfolding res add_query_docs by blast
  ultimately show ?thesis
    by (simp add: acc'_def nth_append)
qed

lemma find_filter: "filter P xs = [x] \<Longrightarrow> List.find P xs = Some x"
  by (induction xs) (auto split: if_splits)

lemma filter_single: "i \<in> set xs \<Longrightarrow> distinct xs \<Longrightarrow> filter (\<lambda>j. j = i) xs = [i]"
  by (induction xs) (auto simp: filter_empty_conv)

lemma slot_entry_primary:
  assumes inv: "coord_inv norm parse st" and i: "doc_find norm (docs st) u = Some i"
  shows "filter (is_doc (Some (uri (docs st ! i)))) (map (entry norm (docs st)) (parsed_slots (docs st))) =
    [entry norm (docs st) i]"
proof -
  let ?ds = "docs st"
  have st: "uris_ok norm ?ds" "others_current parse {} ?ds"
    using inv by (simp_all add: coord_inv_def store_inv_def)
  have il: "i < length ?ds" "in_use (?ds ! i)"
    using doc_find_Some [OF i] by auto
  have cur: "\<exists>t v. snap (?ds ! j) = Some (docsnap_new (uri (?ds ! j)) t (parse t) v)"
    if "j < length ?ds" "in_use (?ds ! j)" for j
    using st(2) that unfolding others_current_def current_def by blast
  have "is_doc (Some (uri (?ds ! i))) (entry norm ?ds j) = (j = i)" if "j \<in> set (parsed_slots ?ds)" for j
  proof -
    have j: "j < length ?ds" "in_use (?ds ! j)"
      using that by (auto simp: parsed_slots_def parsed_def)
    then have "snap_uri (wd_snap (entry norm ?ds j)) = uri (?ds ! j)"
      using cur [OF j] by (auto simp: entry_def populate_ws_doc_def docsnap_new_def)
    then show ?thesis
      using st(1) j il unfolding is_doc_def uris_ok_def by auto
  qed
  then have "filter (\<lambda>j. is_doc (Some (uri (?ds ! i))) (entry norm ?ds j)) (parsed_slots ?ds) =
      filter (\<lambda>j. j = i) (parsed_slots ?ds)"
    by (rule filter_cong [OF refl])
  moreover have "filter (\<lambda>j. j = i) (parsed_slots ?ds) = [i]"
  proof -
    have "i \<in> set (parsed_slots ?ds)"
      using il cur [OF il] by (auto simp: parsed_slots_def parsed_def)
    moreover have "distinct (parsed_slots ?ds)"
      by (simp add: parsed_slots_def)
    ultimately show ?thesis
      by (rule filter_single)
  qed
  ultimately show ?thesis
    by (simp add: filter_map o_def)
qed

lemma query_context_of:
  assumes inv: "coord_inv norm parse st" and i: "doc_find norm (docs st) u = Some i"
    and qc: "qc = build_query_context_locked norm st (Some u) False"
  shows "(\<exists>d. query_context_primary qc = Some d \<and> Some (qd_snap d) = snap (docs st ! i) \<and>
       qd_prefixes d = prefixes (docs st ! i) \<and> is_primary d) \<and>
     map qd_snap (qc_docs qc) =
       map (\<lambda>j. the (snap (docs st ! j))) (project_docs norm (docs st) (home_project norm (docs st) i)) \<and>
     qc_prev_snap qc = prev_snap (docs st ! i) \<and>
     (\<exists>ws. g_ws st = Some ws \<and>
        qc_project_root qc = Some (proj_root (ws_projects ws ! home_project norm (docs st) i)))"
proof -
  let ?ds = "docs st" and ?h = "home_project norm (docs st) i"
  let ?canon = "Some (uri (?ds ! i))"
  have il: "i < length ?ds" "in_use (?ds ! i)"
    using doc_find_Some [OF i] by auto
  obtain ws where ws: "g_ws st = Some ws"
    using inv il by (auto simp: coord_inv_def published_def split: option.splits)
  then obtain cc where cc: "ws = build_workspace_snapshot norm cc ?ds"
    using inv by (auto simp: coord_inv_def published_def)
  have entries: "ws_docs ws = map (entry norm ?ds) (parsed_slots ?ds)"
    unfolding cc by (rule snapshot_entries)
  have one: "filter (is_doc ?canon) (ws_docs ws) = [entry norm ?ds i]"
    unfolding entries by (rule slot_entry_primary [OF inv i])
  have all: "{w \<in> set (ws_docs ws). is_doc ?canon w} = {entry norm ?ds i}"
    using arg_cong [OF one, of set] by (simp only: set_filter list.set)
  have only: "is_doc ?canon w \<Longrightarrow> w \<in> set (ws_docs ws) \<Longrightarrow> w = entry norm ?ds i" for w
    using all by blast
  have pp: "List.find (is_doc ?canon) (ws_docs ws) = Some (entry norm ?ds i)"
    by (rule find_filter [OF one])
  have h: "?h < length (ws_projects ws)"
  proof -
    obtain s where "snap (?ds ! i) = Some s"
      using inv il unfolding coord_inv_def store_inv_def others_current_def current_def by blast
    then have "i \<in> set (parsed_slots ?ds)"
      using il by (simp add: parsed_slots_def parsed_def)
    then show ?thesis
      using home_project_less [of i ?ds norm] snapshot_shape [of norm cc ?ds] by (simp add: cc)
  qed
  define res where "res = foldl (add_query_doc ?canon False (Some ?h)) ([], None) (ws_docs ws)"
  have qc': "qc_docs qc = fst res" "primary_idx qc = snd res" "qc_prev_snap qc = prev_snap (?ds ! i)"
      "qc_project_root qc = Some (proj_root (ws_projects ws ! ?h))"
    using h by (simp_all add: qc build_query_context_locked_def i ws pp entry_def res_def Let_def split_def)
  obtain k where k: "snd res = Some k" "k < length (fst res)" "fst res ! k = make_query_doc (entry norm ?ds i) True"
    using one_primary [OF one res_def] by blast
  have cur: "snap (?ds ! i) = Some (the (snap (?ds ! i)))"
    using inv il by (auto simp: coord_inv_def store_inv_def others_current_def current_def)
  have "is_doc ?canon (entry norm ?ds j) \<or> project_index (entry norm ?ds j) = Some ?h \<longleftrightarrow>
      home_project norm ?ds j = ?h" if "j \<in> set (parsed_slots ?ds)" for j
  proof -
    have idx: "project_index (entry norm ?ds k) = Some (home_project norm ?ds k)" for k
      by (simp add: entry_def)
    show ?thesis
      using only [of "entry norm ?ds j"] that idx [of j] idx [of i] by (auto simp: entries)
  qed
  then have "filter (\<lambda>j. is_doc ?canon (entry norm ?ds j) \<or> project_index (entry norm ?ds j) = Some ?h) (parsed_slots ?ds) =
      project_docs norm ?ds ?h"
    unfolding project_docs_def by (intro filter_cong) auto
  then have "map qd_snap (qc_docs qc) = map (\<lambda>j. the (snap (?ds ! j))) (project_docs norm ?ds ?h)"
    unfolding qc' res_def add_query_docs entries
    by (simp add: filter_map o_def make_query_doc_def entry_def populate_ws_doc_def)
  moreover have "query_context_primary qc = Some (make_query_doc (entry norm ?ds i) True)"
    using k by (simp add: query_context_primary_def qc')
  ultimately show ?thesis
    using qc' ws cur
    by (simp add: make_query_doc_def entry_def populate_ws_doc_def)
qed

subsection \<open>Properties\<close>


definition one_open :: coordinator where
  "one_open = notify ex_world cyc_parse (DidOpen (Some ''file:///w/c'') (Some ''C'')) coordinator_init"


end
