(* ===== verification/Server.thy ===== *)
theory Server
  imports Query_Context
begin

text \<open>
  Dispatch (\<open>src/src/server.c\<close>): the method table, notifications, requests answered inline, query
  coordination and the reply of a query worker.  A message is what the JSON lookups of the code
  yield: the id, the method and the parameters the handlers read.  The feature handlers of the
  method table are an argument; every one of them returns a response.
\<close>

datatype json_id = Int_Id int | Other_Id string

record message =
  msg_id :: "json_id option"
  msg_method :: "string option"
  p_root_uri :: "string option"
  p_td_uri :: "string option"
  p_tdp_uri :: "string option"
  p_td_text :: "string option"
  p_content_changes :: "content_change list"
  p_watched_changes :: "(string option \<times> int option) list"
  p_renamed_files :: "(string option \<times> string option) list"
  p_cancel_id :: "int option"

subsection \<open>The method table\<close>

datatype method_kind = METHOD_NOTIFICATION | METHOD_INLINE | METHOD_QUERY

record method_entry =
  me_method :: string
  me_kind :: method_kind
  want_all_docs :: bool

definition methods :: "method_entry list" where
  "methods =
     map (\<lambda>m. \<lparr> me_method = m, me_kind = METHOD_NOTIFICATION, want_all_docs = False \<rparr>)
       [''initialized'', ''textDocument/didOpen'', ''textDocument/didChange'', ''textDocument/didClose'',
        ''workspace/didChangeWatchedFiles'', ''workspace/didRenameFiles''] @
     map (\<lambda>m. \<lparr> me_method = m, me_kind = METHOD_INLINE, want_all_docs = False \<rparr>)
       [''initialize'', ''shutdown''] @
     map (\<lambda>m. \<lparr> me_method = m, me_kind = METHOD_QUERY, want_all_docs = False \<rparr>)
       [''textDocument/documentSymbol'', ''textDocument/foldingRange'', ''textDocument/codeLens'',
        ''textDocument/hover'', ''textDocument/signatureHelp'', ''textDocument/references'',
        ''textDocument/documentHighlight'', ''textDocument/definition'', ''textDocument/completion'',
        ''textDocument/semanticTokens/full'', ''textDocument/semanticTokens/full/delta''] @
     [\<lparr> me_method = ''workspace/symbol'', me_kind = METHOD_QUERY, want_all_docs = True \<rparr>]"

definition method_lookup :: "string \<Rightarrow> method_entry option" where
  "method_lookup m = List.find (\<lambda>e. me_method e = m) methods"

definition method_of :: "message \<Rightarrow> string" where
  "method_of m = (case msg_method m of Some s \<Rightarrow> s | None \<Rightarrow> [])"

definition entry_of :: "message \<Rightarrow> method_entry option" where
  "entry_of m = method_lookup (method_of m)"

subsection \<open>Notifications\<close>

definition notification_of :: "message \<Rightarrow> notification option" where
  "notification_of m =
     (if method_of m = ''initialized'' then Some Initialized
      else if method_of m = ''textDocument/didOpen'' then Some (DidOpen (p_td_uri m) (p_td_text m))
      else if method_of m = ''textDocument/didChange'' then Some (DidChange (p_td_uri m) (p_content_changes m))
      else if method_of m = ''textDocument/didClose'' then Some (DidClose (p_td_uri m))
      else if method_of m = ''workspace/didChangeWatchedFiles'' then Some (DidChangeWatchedFiles (p_watched_changes m))
      else if method_of m = ''workspace/didRenameFiles'' then Some (DidRenameFiles (p_renamed_files m))
      else None)"

definition server_dispatch_notification ::
  "world \<Rightarrow> (string \<Rightarrow> ParseOutput) \<Rightarrow> message \<Rightarrow> coordinator \<Rightarrow> coordinator" where
  "server_dispatch_notification w parse m st =
     (case entry_of m of
        Some e \<Rightarrow>
          if me_kind e = METHOD_NOTIFICATION
          then (case notification_of m of Some n \<Rightarrow> notify w parse n st | None \<Rightarrow> st)
          else st
      | None \<Rightarrow> st)"

subsection \<open>Queries\<close>

datatype 'r reply = Result "json_id option" 'r | Null_Result "json_id option" | Server_Info "json_id option"
  | Request_Cancelled json_id

definition server_dispatch_cancelled :: "message \<Rightarrow> 'r reply list" where
  "server_dispatch_cancelled m = (case msg_id m of None \<Rightarrow> [] | Some i \<Rightarrow> [Request_Cancelled i])"

definition request_primary_uri :: "message \<Rightarrow> string option" where
  "request_primary_uri m = (case p_td_uri m of Some u \<Rightarrow> Some u | None \<Rightarrow> p_tdp_uri m)"

text \<open>Inline requests: \<open>initialize\<close> sets the workspace root, \<open>shutdown\<close> answers null.  Any other
  request gets its context pinned.\<close>

definition inline_request :: "message \<Rightarrow> coordinator \<Rightarrow> 'r reply \<times> coordinator" where
  "inline_request m st =
     (if method_of m = ''initialize''
      then (Server_Info (msg_id m), workspace_set_root_from_uri (p_root_uri m) st)
      else (Null_Result (msg_id m), st))"

definition server_coordinate_query ::
  "world \<Rightarrow> message \<Rightarrow> coordinator \<Rightarrow> ('r reply \<times> coordinator) + query_context" where
  "server_coordinate_query w m st =
     (case entry_of m of
        Some e \<Rightarrow>
          if me_kind e = METHOD_INLINE then Inl (inline_request m st)
          else Inr (build_query_context_locked (w_norm w) st (request_primary_uri m) (want_all_docs e))
      | None \<Rightarrow> Inr (build_query_context_locked (w_norm w) st (request_primary_uri m) False))"

definition server_run_query ::
  "(message \<Rightarrow> query_context \<Rightarrow> query_doc option \<Rightarrow> 'r) \<Rightarrow> message \<Rightarrow> query_context \<Rightarrow> 'r reply list" where
  "server_run_query handler m qc =
     (case entry_of m of
        Some e \<Rightarrow>
          if me_kind e = METHOD_QUERY then [Result (msg_id m) (handler m qc (query_context_primary qc))]
          else if msg_id m \<noteq> None then [Null_Result (msg_id m)] else []
      | None \<Rightarrow> if msg_id m \<noteq> None then [Null_Result (msg_id m)] else [])"

subsection \<open>Inbound messages\<close>

record Job =
  job_no :: nat
  request :: message
  is_notification :: bool
  is_cancelled :: bool
  has_id :: bool
  job_id :: int
  pinned :: "query_context option"

datatype inbound = Exit | Cancel "int option" | Enqueue Job

definition new_job :: "nat \<Rightarrow> message \<Rightarrow> Job" where
  "new_job n m =
     \<lparr> job_no = n, request = m,
       is_notification = (case entry_of m of Some e \<Rightarrow> me_kind e = METHOD_NOTIFICATION | None \<Rightarrow> False),
       is_cancelled = False,
       has_id = (case msg_id m of Some (Int_Id i) \<Rightarrow> True | _ \<Rightarrow> False),
       job_id = (case msg_id m of Some (Int_Id i) \<Rightarrow> i | _ \<Rightarrow> 0),
       pinned = None \<rparr>"

definition server_process :: "nat \<Rightarrow> message \<Rightarrow> inbound" where
  "server_process n m =
     (if method_of m = ''exit'' then Exit
      else if method_of m = ''$/cancelRequest'' then Cancel (p_cancel_id m)
      else Enqueue (new_job n m))"

subsection \<open>Facts about dispatch\<close>

lemma entry_of_cases:
  "entry_of m = Some e \<Longrightarrow> me_kind e = METHOD_INLINE \<Longrightarrow> method_of m = ''initialize'' \<or> method_of m = ''shutdown''"
  by (auto simp: entry_of_def method_lookup_def methods_def split: if_splits)

text \<open>Every message of the method table that carries an id is answered exactly once by whichever path
  takes it.\<close>

lemma run_query_answers: "msg_id m \<noteq> None \<Longrightarrow> length (server_run_query handler m qc) = 1"
  by (auto simp: server_run_query_def split: option.split)

lemma cancelled_answers: "msg_id m \<noteq> None \<Longrightarrow> length (server_dispatch_cancelled m) = 1"
  by (auto simp: server_dispatch_cancelled_def)

end
