(* ===== verification/Threadpool.thy ===== *)
theory Threadpool
  imports Server "HOL-Library.Multiset"
begin

text \<open>
  The threads of the server (\<open>src/src/threadpool.c\<close>, the reader's side of \<open>server.c\<close>): the reader
  enqueues and cancels, one coordinator takes messages in order, a pool of workers answers queries
  against pinned contexts.  A step is one critical section or one message handled; the queues are
  the lists \<open>job_queue.c\<close> implements.  \<open>arrived\<close>, \<open>seen\<close> and \<open>cancels\<close> only record history: the messages
  enqueued, those the coordinator took, with the cancellation flag and the files it saw, and the ids
  of the cancellations received.
\<close>

definition NUM_QUERY_WORKERS :: nat where "NUM_QUERY_WORKERS = 4"

datatype reader_pc = RReady | RCancelling int | RStopped
datatype coord_pc = CIdle | CHolds Job | CExited
datatype worker_pc = WIdle | WHolds Job | WExited

record 'r pool =
  arrived :: "message list"
  cancels :: "int list"
  reader_at :: reader_pc
  work_queue :: "Job list"
  work_closed :: bool
  coord_at :: coord_pc
  seen :: "(message \<times> bool \<times> world) list"
  server :: coordinator
  request_queue :: "Job list"
  request_closed :: bool
  workers :: "worker_pc list"
  replies :: "(nat \<times> 'r reply list) list"

definition threadpool_start :: "'r pool" where
  "threadpool_start = \<lparr> arrived = [], cancels = [], reader_at = RReady, work_queue = [], work_closed = False,
     coord_at = CIdle, seen = [], server = coordinator_init, request_queue = [], request_closed = False,
     workers = replicate NUM_QUERY_WORKERS WIdle, replies = [] \<rparr>"

text \<open>\<open>job_queue_mark_cancelled_by_id\<close> on one job.\<close>

definition mark_cancelled :: "int \<Rightarrow> Job \<Rightarrow> Job" where
  "mark_cancelled i j = (if \<not> is_notification j \<and> has_id j \<and> job_id j = i then j \<lparr> is_cancelled := True \<rparr> else j)"

definition log_seen :: "Job \<Rightarrow> world \<Rightarrow> 'r pool \<Rightarrow> 'r pool" where
  "log_seen j w p = p \<lparr> seen := seen p @ [(request j, is_cancelled j, w)], coord_at := CIdle \<rparr>"

inductive pool_step ::
  "(string \<Rightarrow> string option) \<Rightarrow> (string \<Rightarrow> ParseOutput) \<Rightarrow> (message \<Rightarrow> query_context \<Rightarrow> query_doc option \<Rightarrow> 'r) \<Rightarrow>
   'r pool \<Rightarrow> 'r pool \<Rightarrow> bool"
  for rp :: "string \<Rightarrow> string option" and parse :: "string \<Rightarrow> ParseOutput"
    and handler :: "message \<Rightarrow> query_context \<Rightarrow> query_doc option \<Rightarrow> 'r" where
  enqueue: "reader_at p = RReady \<Longrightarrow> server_process (length (arrived p)) m = Enqueue j \<Longrightarrow>
    pool_step rp parse handler p (p \<lparr> arrived := arrived p @ [m], work_queue := work_queue p @ [j] \<rparr>)"
| cancel_work: "reader_at p = RReady \<Longrightarrow> server_process (length (arrived p)) m = Cancel (Some i) \<Longrightarrow>
    pool_step rp parse handler p
      (p \<lparr> cancels := cancels p @ [i], work_queue := map (mark_cancelled i) (work_queue p),
           reader_at := RCancelling i \<rparr>)"
| cancel_request: "reader_at p = RCancelling i \<Longrightarrow>
    pool_step rp parse handler p
      (p \<lparr> request_queue := map (mark_cancelled i) (request_queue p), reader_at := RReady \<rparr>)"
| stop: "reader_at p = RReady \<Longrightarrow>
    pool_step rp parse handler p (p \<lparr> reader_at := RStopped, work_closed := True \<rparr>)"
| coord_pop: "coord_at p = CIdle \<Longrightarrow> work_queue p = j # js \<Longrightarrow>
    pool_step rp parse handler p (p \<lparr> work_queue := js, coord_at := CHolds j \<rparr>)"
| coord_exit: "coord_at p = CIdle \<Longrightarrow> work_queue p = [] \<Longrightarrow> work_closed p \<Longrightarrow>
    pool_step rp parse handler p (p \<lparr> coord_at := CExited, request_closed := True \<rparr>)"
| coord_notify: "coord_at p = CHolds j \<Longrightarrow> is_notification j \<Longrightarrow> fs_realpath (w_files w) = rp \<Longrightarrow>
    pool_step rp parse handler p
      (log_seen j w (p \<lparr> server := server_dispatch_notification w parse (request j) (server p) \<rparr>))"
| coord_cancelled: "coord_at p = CHolds j \<Longrightarrow> \<not> is_notification j \<Longrightarrow> is_cancelled j \<Longrightarrow> fs_realpath (w_files w) = rp \<Longrightarrow>
    pool_step rp parse handler p
      (log_seen j w (p \<lparr> replies := replies p @ [(job_no j, server_dispatch_cancelled (request j))] \<rparr>))"
| coord_inline: "coord_at p = CHolds j \<Longrightarrow> \<not> is_notification j \<Longrightarrow> \<not> is_cancelled j \<Longrightarrow> fs_realpath (w_files w) = rp \<Longrightarrow>
    server_coordinate_query w (request j) (server p) = Inl (r, st') \<Longrightarrow>
    pool_step rp parse handler p
      (log_seen j w (p \<lparr> server := st', replies := replies p @ [(job_no j, [r])] \<rparr>))"
| coord_handoff: "coord_at p = CHolds j \<Longrightarrow> \<not> is_notification j \<Longrightarrow> \<not> is_cancelled j \<Longrightarrow> fs_realpath (w_files w) = rp \<Longrightarrow>
    (server_coordinate_query w (request j) (server p) :: ('r reply \<times> coordinator) + query_context) = Inr qc \<Longrightarrow>
    pool_step rp parse handler p
      (log_seen j w (p \<lparr> request_queue := request_queue p @ [j \<lparr> pinned := Some qc \<rparr>] \<rparr>))"
| worker_pop: "k < length (workers p) \<Longrightarrow> workers p ! k = WIdle \<Longrightarrow> request_queue p = j # js \<Longrightarrow>
    pool_step rp parse handler p (p \<lparr> request_queue := js, workers := (workers p)[k := WHolds j] \<rparr>)"
| worker_reply: "k < length (workers p) \<Longrightarrow> workers p ! k = WHolds j \<Longrightarrow>
    pool_step rp parse handler p
      (p \<lparr> workers := (workers p)[k := WIdle],
           replies := replies p @ [(job_no j, if is_cancelled j then server_dispatch_cancelled (request j)
                                              else server_run_query handler (request j) (the (pinned j)))] \<rparr>)"
| worker_exit: "k < length (workers p) \<Longrightarrow> workers p ! k = WIdle \<Longrightarrow> request_queue p = [] \<Longrightarrow> request_closed p \<Longrightarrow>
    pool_step rp parse handler p (p \<lparr> workers := (workers p)[k := WExited] \<rparr>)"

inductive_cases pool_stepE: "pool_step rp parse handler p p'"

inductive pool_reachable ::
  "(string \<Rightarrow> string option) \<Rightarrow> (string \<Rightarrow> ParseOutput) \<Rightarrow> (message \<Rightarrow> query_context \<Rightarrow> query_doc option \<Rightarrow> 'r) \<Rightarrow>
   'r pool \<Rightarrow> bool"
  for rp :: "string \<Rightarrow> string option" and parse :: "string \<Rightarrow> ParseOutput"
    and handler :: "message \<Rightarrow> query_context \<Rightarrow> query_doc option \<Rightarrow> 'r" where
  pool_start: "pool_reachable rp parse handler threadpool_start"
| pool_more: "pool_reachable rp parse handler p \<Longrightarrow> pool_step rp parse handler p p' \<Longrightarrow>
    pool_reachable rp parse handler p'"

subsection \<open>The sequential server\<close>

definition is_notification_msg :: "message \<Rightarrow> bool" where
  "is_notification_msg m = is_notification (new_job 0 m)"

text \<open>One message after another on one thread: what the coordinator's state ought to be.\<close>

definition serve :: "(string \<Rightarrow> ParseOutput) \<Rightarrow> message \<times> bool \<times> world \<Rightarrow> coordinator \<Rightarrow> coordinator" where
  "serve parse e st =
     (case e of (m, cancelled, w) \<Rightarrow>
        if is_notification_msg m then server_dispatch_notification w parse m st
        else if cancelled then st
        else (case (server_coordinate_query w m st :: (unit reply \<times> coordinator) + query_context) of
                Inl (r, st') \<Rightarrow> st' | Inr _ \<Rightarrow> st))"

definition serial :: "(string \<Rightarrow> ParseOutput) \<Rightarrow> (message \<times> bool \<times> world) list \<Rightarrow> coordinator" where
  "serial parse es = fold (serve parse) es coordinator_init"

definition want_all_of :: "message \<Rightarrow> bool" where
  "want_all_of m = (case entry_of m of Some e \<Rightarrow> want_all_docs e | None \<Rightarrow> False)"

text \<open>The context a query of the i-th message gets in the sequential server.\<close>

definition serial_context :: "(string \<Rightarrow> string) \<Rightarrow> (string \<Rightarrow> ParseOutput) \<Rightarrow> (message \<times> bool \<times> world) list \<Rightarrow> nat \<Rightarrow> message \<Rightarrow> query_context" where
  "serial_context norm parse es i m =
     build_query_context_locked norm (serial parse (take i es)) (request_primary_uri m) (want_all_of m)"

fun held_by :: "worker_pc \<Rightarrow> Job list" where
  "held_by (WHolds j) = [j]"
| "held_by _ = []"

fun coord_held :: "coord_pc \<Rightarrow> Job list" where
  "coord_held (CHolds j) = [j]"
| "coord_held _ = []"

definition hands :: "worker_pc list \<Rightarrow> Job list" where
  "hands ws = concat (map held_by ws)"

subsection \<open>The invariant\<close>

definition was_cancelled :: "int list \<Rightarrow> message \<Rightarrow> bool" where
  "was_cancelled cs m = (\<exists>i \<in> set cs. msg_id m = Some (Int_Id i))"

definition job_ok :: "int list \<Rightarrow> Job \<Rightarrow> bool" where
  "job_ok cs j = (is_notification j = is_notification_msg (request j) \<and>
     (has_id j \<longrightarrow> msg_id (request j) = Some (Int_Id (job_id j))) \<and>
     (is_cancelled j \<longrightarrow> was_cancelled cs (request j)))"

text \<open>The messages the coordinator has not finished, in arrival order.\<close>

definition line_ok :: "int list \<Rightarrow> message list \<Rightarrow> (message \<times> bool \<times> world) list \<Rightarrow> Job list \<Rightarrow> bool" where
  "line_ok cs ms es js =
     (length es \<le> length ms \<and> map fst es = take (length es) ms \<and> list_all (job_ok cs) js \<and>
      map job_no js = [length es..<length ms] \<and> map request js = drop (length es) ms)"

definition query_ok ::
  "(string \<Rightarrow> string) \<Rightarrow> (string \<Rightarrow> ParseOutput) \<Rightarrow> int list \<Rightarrow> message list \<Rightarrow>
   (message \<times> bool \<times> world) list \<Rightarrow> Job \<Rightarrow> bool" where
  "query_ok norm parse cs ms es j =
     (job_no j < length es \<and> request j = ms ! job_no j \<and> job_ok cs j \<and>
      pinned j = Some (serial_context norm parse es (job_no j) (request j)))"

definition reply_ok ::
  "(string \<Rightarrow> string) \<Rightarrow> (string \<Rightarrow> ParseOutput) \<Rightarrow> (message \<Rightarrow> query_context \<Rightarrow> query_doc option \<Rightarrow> 'r) \<Rightarrow>
   int list \<Rightarrow> message list \<Rightarrow> (message \<times> bool \<times> world) list \<Rightarrow> nat \<times> 'r reply list \<Rightarrow> bool" where
  "reply_ok norm parse handler cs ms es r =
     (let m = ms ! fst r in
      fst r < length es \<and>
      (was_cancelled cs m \<and> snd r = server_dispatch_cancelled m \<or>
       (\<exists>e. entry_of m = Some e \<and> me_kind e = METHOD_INLINE) \<and> snd r = [fst (inline_request m coordinator_init)] \<or>
       snd r = server_run_query handler m (serial_context norm parse es (fst r) m)))"

definition requests_upto :: "message list \<Rightarrow> nat \<Rightarrow> nat list" where
  "requests_upto ms k = filter (\<lambda>i. \<not> is_notification_msg (ms ! i)) [0..<k]"

definition pool_inv ::
  "(string \<Rightarrow> string option) \<Rightarrow> (string \<Rightarrow> ParseOutput) \<Rightarrow> (message \<Rightarrow> query_context \<Rightarrow> query_doc option \<Rightarrow> 'r) \<Rightarrow>
   'r pool \<Rightarrow> bool" where
  "pool_inv rp parse handler p =
     ((\<forall>i. reader_at p = RCancelling i \<longrightarrow> i \<in> set (cancels p)) \<and>
      line_ok (cancels p) (arrived p) (seen p) (coord_held (coord_at p) @ work_queue p) \<and>
      server p = serial parse (seen p) \<and> (\<forall>e \<in> set (seen p). fs_realpath (w_files (snd (snd e))) = rp) \<and>
      (\<forall>j \<in> set (request_queue p) \<union> set (hands (workers p)). query_ok (normalize_uri rp) parse (cancels p) (arrived p) (seen p) j) \<and>
      mset (map job_no (request_queue p)) + mset (map job_no (hands (workers p))) + mset (map fst (replies p)) =
        mset (requests_upto (arrived p) (length (seen p))) \<and>
      (\<forall>r \<in> set (replies p). reply_ok (normalize_uri rp) parse handler (cancels p) (arrived p) (seen p) r))"

lemma mark_fields [simp]: "job_no (mark_cancelled i j) = job_no j" "request (mark_cancelled i j) = request j"
  "pinned (mark_cancelled i j) = pinned j"
  by (auto simp: mark_cancelled_def)

lemma mark_ok: "job_ok cs j \<Longrightarrow> i \<in> set cs \<Longrightarrow> job_ok cs (mark_cancelled i j)"
  by (auto simp: mark_cancelled_def job_ok_def was_cancelled_def)

lemma was_cancelled_more: "was_cancelled cs m \<Longrightarrow> was_cancelled (cs @ [i]) m"
  by (auto simp: was_cancelled_def)

lemma job_ok_more: "job_ok cs j \<Longrightarrow> job_ok (cs @ [i]) j"
  by (auto simp: job_ok_def was_cancelled_more)

lemma map_mark [simp]: "map job_no (map (mark_cancelled i) js) = map job_no js"
  "map request (map (mark_cancelled i) js) = map request js"
  by (simp_all add: o_def)

lemma line_more: "line_ok cs ms es js \<Longrightarrow> line_ok (cs @ [i]) ms es js"
  by (auto simp: line_ok_def list_all_iff job_ok_more)

lemma line_mark: "line_ok cs ms es (hs @ js) \<Longrightarrow> i \<in> set cs \<Longrightarrow> line_ok cs ms es (hs @ map (mark_cancelled i) js)"
  by (auto simp: line_ok_def list_all_iff o_def mark_ok)

lemma new_job_ok: "server_process n m = Enqueue j \<Longrightarrow> job_ok cs j \<and> job_no j = n \<and> request j = m"
  by (auto simp: server_process_def new_job_def job_ok_def is_notification_msg_def split: if_splits option.splits json_id.splits)

lemma line_enqueue:
  assumes "line_ok cs ms es js" and "server_process (length ms) m = Enqueue j"
  shows "line_ok cs (ms @ [m]) es (js @ [j])"
  using assms(1) new_job_ok [OF assms(2), of cs] by (auto simp: line_ok_def)

lemma line_log:
  assumes "line_ok cs ms es (j # js)"
  shows "line_ok cs ms (es @ [(request j, c, w)]) js" and "job_no j = length es" and "length es < length ms"
    and "request j = ms ! length es" and "job_ok cs j"
proof -
  have no: "job_no j # map job_no js = [length es..<length ms]" and rq: "request j # map request js = drop (length es) ms"
    and le: "length es \<le> length ms" and ok: "job_ok cs j" "list_all (job_ok cs) js"
    and take: "map fst es = take (length es) ms"
    using assms by (auto simp: line_ok_def)
  show lt: "length es < length ms"
    using arg_cong [OF no, of length] le by simp
  have cons: "[length es..<length ms] = length es # [Suc (length es)..<length ms]"
    using lt by (rule upt_conv_Cons)
  have dr: "drop (length es) ms = ms ! length es # drop (Suc (length es)) ms"
    using Cons_nth_drop_Suc [OF lt] by simp
  show "job_no j = length es" "request j = ms ! length es" "job_ok cs j"
    using no rq cons dr ok by simp_all
  then show "line_ok cs ms (es @ [(request j, c, w)]) js"
    using no rq cons dr ok take lt by (simp add: line_ok_def take_Suc_conv_app_nth)
qed

lemma query_ok_arrived: "query_ok norm parse cs ms es j \<Longrightarrow> length es \<le> length ms \<Longrightarrow> query_ok norm parse cs (ms @ [m]) es j"
  by (simp add: query_ok_def nth_append)

lemma serial_context_more: "i < length es \<Longrightarrow> serial_context norm parse (es @ es') i m = serial_context norm parse es i m"
  by (simp add: serial_context_def)

lemma query_ok_seen: "query_ok norm parse cs ms es j \<Longrightarrow> query_ok norm parse cs ms (es @ [e]) j"
  by (auto simp: query_ok_def serial_context_more)

lemma query_ok_mark: "query_ok norm parse cs ms es j \<Longrightarrow> i \<in> set cs \<Longrightarrow> query_ok norm parse cs ms es (mark_cancelled i j)"
  by (simp add: query_ok_def mark_ok)

lemma query_ok_more: "query_ok norm parse cs ms es j \<Longrightarrow> query_ok norm parse (cs @ [i]) ms es j"
  by (simp add: query_ok_def job_ok_more)

lemma reply_ok_arrived:
  "reply_ok norm parse handler cs ms es r \<Longrightarrow> length es \<le> length ms \<Longrightarrow> reply_ok norm parse handler cs (ms @ [m]) es r"
  by (auto simp: reply_ok_def nth_append Let_def)

lemma reply_ok_seen: "reply_ok norm parse handler cs ms es r \<Longrightarrow> reply_ok norm parse handler cs ms (es @ [e]) r"
  by (auto simp: reply_ok_def serial_context_more Let_def)

lemma reply_ok_more: "reply_ok norm parse handler cs ms es r \<Longrightarrow> reply_ok norm parse handler (cs @ [i]) ms es r"
  by (auto simp: reply_ok_def Let_def was_cancelled_more)

lemma requests_upto_arrived: "k \<le> length ms \<Longrightarrow> requests_upto (ms @ [m]) k = requests_upto ms k"
  by (auto simp: requests_upto_def nth_append intro: filter_cong)

lemma requests_upto_Suc:
  "requests_upto ms (Suc k) = requests_upto ms k @ (if is_notification_msg (ms ! k) then [] else [k])"
  by (simp add: requests_upto_def)

lemma hands_update:
  assumes "k < length ws"
  shows "mset (hands (ws[k := x])) + mset (held_by (ws ! k)) = mset (hands ws) + mset (held_by x)"
proof -
  have "ws = take k ws @ ws ! k # drop (Suc k) ws"
    using assms by (rule id_take_nth_drop)
  then have "hands ws = hands (take k ws) @ held_by (ws ! k) @ hands (drop (Suc k) ws)"
    unfolding hands_def by (metis concat.simps(2) concat_append list.simps(9) map_append)
  moreover have "hands (ws[k := x]) = hands (take k ws) @ held_by x @ hands (drop (Suc k) ws)"
    using assms by (simp add: upd_conv_take_nth_drop hands_def)
  ultimately show ?thesis by simp
qed

lemma hands_take:
  assumes "k < length ws" and "held_by (ws ! k) = []"
  shows "mset (map job_no (hands (ws[k := x]))) = mset (map job_no (hands ws)) + mset (map job_no (held_by x))"
    and "set (hands (ws[k := x])) = set (hands ws) \<union> set (held_by x)"
proof -
  have m: "mset (hands (ws[k := x])) = mset (hands ws) + mset (held_by x)"
    using hands_update [OF assms(1)] assms(2) by simp
  show "mset (map job_no (hands (ws[k := x]))) = mset (map job_no (hands ws)) + mset (map job_no (held_by x))"
    unfolding mset_map m by simp
  show "set (hands (ws[k := x])) = set (hands ws) \<union> set (held_by x)"
    using arg_cong [OF m, of set_mset] by simp
qed

lemma hands_drop:
  assumes "k < length ws" and "ws ! k = WHolds j"
  shows "mset (map job_no (hands ws)) = mset (map job_no (hands (ws[k := WIdle]))) + {#job_no j#}"
    and "set (hands ws) = insert j (set (hands (ws[k := WIdle])))"
proof -
  have m: "mset (hands ws) = mset (hands (ws[k := WIdle])) + {#j#}"
    using hands_update [OF assms(1), of WIdle] assms(2) by simp
  show "mset (map job_no (hands ws)) = mset (map job_no (hands (ws[k := WIdle]))) + {#job_no j#}"
    unfolding mset_map m by simp
  show "set (hands ws) = insert j (set (hands (ws[k := WIdle])))"
    using arg_cong [OF m, of set_mset] by simp
qed

lemma serial_snoc: "serial parse (es @ [e]) = serve parse e (serial parse es)"
  by (simp add: serial_def)

lemma server_coordinate_cases:
  "(\<exists>e. entry_of m = Some e \<and> me_kind e = METHOD_INLINE \<and> server_coordinate_query w m st = Inl (inline_request m st)) \<or>
   server_coordinate_query w m st = Inr (build_query_context_locked (w_norm w) st (request_primary_uri m) (want_all_of m))"
  by (auto simp: server_coordinate_query_def want_all_of_def split: option.split)

lemma serve_coordinated:
  assumes "\<not> is_notification_msg m"
  shows "(server_coordinate_query w m st :: ('r reply \<times> coordinator) + query_context) = Inl (r, st') \<Longrightarrow>
      serve parse (m, False, w) st = st' \<and> (\<exists>e. entry_of m = Some e \<and> me_kind e = METHOD_INLINE) \<and>
      r = fst (inline_request m coordinator_init)"
    and "(server_coordinate_query w m st :: ('r reply \<times> coordinator) + query_context) = Inr qc \<Longrightarrow>
      serve parse (m, False, w) st = st \<and>
      qc = build_query_context_locked (w_norm w) st (request_primary_uri m) (want_all_of m)"
  using assms
  by (auto simp: serve_def server_coordinate_query_def inline_request_def want_all_of_def
      split: option.splits if_splits)

text \<open>A message the coordinator finishes: the parts of the invariant that talk about history move on.\<close>

lemma inv_log:
  assumes inv: "pool_inv rp parse handler p" and at: "coord_at p = CHolds j" and w: "fs_realpath (w_files w) = rp"
    and es': "es' = seen p @ [(request j, is_cancelled j, w)]"
  shows "line_ok (cancels p) (arrived p) es' (work_queue p)"
    and "\<forall>e \<in> set es'. fs_realpath (w_files (snd (snd e))) = rp"
    and "\<forall>q \<in> set (request_queue p) \<union> set (hands (workers p)). query_ok (normalize_uri rp) parse (cancels p) (arrived p) es' q"
    and "\<forall>r \<in> set (replies p). reply_ok (normalize_uri rp) parse handler (cancels p) (arrived p) es' r"
    and "mset (map job_no (request_queue p)) + mset (map job_no (hands (workers p))) + mset (map fst (replies p)) +
      mset (if is_notification j then [] else [job_no j]) = mset (requests_upto (arrived p) (length es'))"
    and "serial parse es' = serve parse (request j, is_cancelled j, w) (server p)"
    and "job_no j = length (seen p)" and "request j = arrived p ! length (seen p)" and "job_ok (cancels p) j"
    and "\<forall>i. reader_at p = RCancelling i \<longrightarrow> i \<in> set (cancels p)"
proof -
  have line: "line_ok (cancels p) (arrived p) (seen p) (j # work_queue p)"
    using inv at by (simp add: pool_inv_def)
  note l = line_log [OF line]
  show "line_ok (cancels p) (arrived p) es' (work_queue p)" "job_no j = length (seen p)"
      "request j = arrived p ! length (seen p)" "job_ok (cancels p) j"
    using l by (simp_all add: es')
  have "is_notification j = is_notification_msg (arrived p ! length (seen p))"
    using l(4,5) by (simp add: job_ok_def)
  then show "mset (map job_no (request_queue p)) + mset (map job_no (hands (workers p))) + mset (map fst (replies p)) +
      mset (if is_notification j then [] else [job_no j]) = mset (requests_upto (arrived p) (length es'))"
    using inv l(2) by (simp add: pool_inv_def es' requests_upto_Suc)
qed (use inv w in \<open>auto simp: pool_inv_def es' query_ok_seen reply_ok_seen serial_snoc\<close>)

lemma log_seen_fields [simp]:
  "arrived (log_seen j w p) = arrived p" "work_queue (log_seen j w p) = work_queue p"
  "coord_at (log_seen j w p) = CIdle" "seen (log_seen j w p) = seen p @ [(request j, is_cancelled j, w)]"
  "server (log_seen j w p) = server p" "request_queue (log_seen j w p) = request_queue p"
  "hands (workers (log_seen j w p)) = hands (workers p)" "replies (log_seen j w p) = replies p"
  "workers (log_seen j w p) = workers p" "reader_at (log_seen j w p) = reader_at p"
  "cancels (log_seen j w p) = cancels p" "work_closed (log_seen j w p) = work_closed p" "request_closed (log_seen j w p) = request_closed p"
  by (simp_all add: log_seen_def)

lemma step_enqueue:
  assumes "pool_inv rp parse handler p" and "server_process (length (arrived p)) m = Enqueue j"
  shows "pool_inv rp parse handler (p \<lparr> arrived := arrived p @ [m], work_queue := work_queue p @ [j] \<rparr>)"
proof -
  have le: "length (seen p) \<le> length (arrived p)"
    using assms(1) by (simp add: pool_inv_def line_ok_def)
  have "line_ok (cancels p) (arrived p @ [m]) (seen p) ((coord_held (coord_at p) @ work_queue p) @ [j])"
    using assms by (intro line_enqueue) (simp_all add: pool_inv_def)
  moreover have "\<forall>j \<in> set (request_queue p) \<union> set (hands (workers p)).
      query_ok (normalize_uri rp) parse (cancels p) (arrived p @ [m]) (seen p) j"
    using assms(1) query_ok_arrived [OF _ le] unfolding pool_inv_def by blast
  moreover have "\<forall>r \<in> set (replies p). reply_ok (normalize_uri rp) parse handler (cancels p) (arrived p @ [m]) (seen p) r"
    using assms(1) reply_ok_arrived [OF _ le] unfolding pool_inv_def by blast
  ultimately show ?thesis
    using assms(1) requests_upto_arrived [OF le] unfolding pool_inv_def by simp
qed

lemma step_cancel_work:
  assumes "pool_inv rp parse handler p"
  shows "pool_inv rp parse handler (p \<lparr> cancels := cancels p @ [i], work_queue := map (mark_cancelled i) (work_queue p),
           reader_at := RCancelling i \<rparr>)"
proof -
  let ?cs = "cancels p @ [i]"
  have "line_ok ?cs (arrived p) (seen p) (coord_held (coord_at p) @ work_queue p)"
    using assms by (simp add: pool_inv_def line_more)
  then have "line_ok ?cs (arrived p) (seen p) (coord_held (coord_at p) @ map (mark_cancelled i) (work_queue p))"
    by (rule line_mark) simp
  moreover have "\<forall>j \<in> set (request_queue p) \<union> set (hands (workers p)).
      query_ok (normalize_uri rp) parse ?cs (arrived p) (seen p) j"
    using assms query_ok_more unfolding pool_inv_def by blast
  moreover have "\<forall>r \<in> set (replies p). reply_ok (normalize_uri rp) parse handler ?cs (arrived p) (seen p) r"
    using assms reply_ok_more unfolding pool_inv_def by blast
  ultimately show ?thesis
    using assms unfolding pool_inv_def by simp
qed

lemma step_cancel_request:
  assumes "pool_inv rp parse handler p" and "reader_at p = RCancelling i"
  shows "pool_inv rp parse handler (p \<lparr> request_queue := map (mark_cancelled i) (request_queue p), reader_at := RReady \<rparr>)"
proof -
  have "i \<in> set (cancels p)"
    using assms by (simp add: pool_inv_def)
  then have "\<forall>j \<in> set (map (mark_cancelled i) (request_queue p)) \<union> set (hands (workers p)).
      query_ok (normalize_uri rp) parse (cancels p) (arrived p) (seen p) j"
    using assms(1) query_ok_mark unfolding pool_inv_def by fastforce
  then show ?thesis
    using assms(1) unfolding pool_inv_def by (simp add: o_def)
qed

lemma step_notify:
  assumes inv: "pool_inv rp parse handler p" and j: "coord_at p = CHolds j" "is_notification j"
    and w: "fs_realpath (w_files w) = rp"
  shows "pool_inv rp parse handler
    (log_seen j w (p \<lparr> server := server_dispatch_notification w parse (request j) (server p) \<rparr>))"
proof -
  note l = inv_log [OF inv j(1) w refl]
  have "serve parse (request j, is_cancelled j, w) (server p) = server_dispatch_notification w parse (request j) (server p)"
    using j(2) l(9) by (simp add: serve_def job_ok_def)
  then show ?thesis
    using l(1-6,10) j(2) unfolding pool_inv_def by simp
qed

lemma step_reply_coord:
  assumes inv: "pool_inv rp parse handler p" and j: "coord_at p = CHolds j" "\<not> is_notification j"
    and w: "fs_realpath (w_files w) = rp"
    and st: "serve parse (request j, is_cancelled j, w) (server p) = st'"
    and rs: "was_cancelled (cancels p) (request j) \<and> rs = server_dispatch_cancelled (request j) \<or>
       (\<exists>e. entry_of (request j) = Some e \<and> me_kind e = METHOD_INLINE) \<and> rs = [fst (inline_request (request j) coordinator_init)]"
  shows "pool_inv rp parse handler (log_seen j w (p \<lparr> server := st', replies := replies p @ [(job_no j, rs)] \<rparr>))"
proof -
  note l = inv_log [OF inv j(1) w refl]
  have "reply_ok (normalize_uri rp) parse handler (cancels p) (arrived p) (seen p @ [(request j, is_cancelled j, w)]) (job_no j, rs)"
    using rs l(7,8) by (auto simp: reply_ok_def Let_def)
  then show ?thesis
    using l(1-6,10) j(2) st unfolding pool_inv_def by simp
qed

lemma step_handoff:
  assumes inv: "pool_inv rp parse handler p" and j: "coord_at p = CHolds j" "\<not> is_notification j" "\<not> is_cancelled j"
    and w: "fs_realpath (w_files w) = rp"
    and qc: "(server_coordinate_query w (request j) (server p) :: ('r reply \<times> coordinator) + query_context) = Inr qc"
  shows "pool_inv rp parse (handler :: message \<Rightarrow> query_context \<Rightarrow> query_doc option \<Rightarrow> 'r)
    (log_seen j w (p \<lparr> request_queue := request_queue p @ [j \<lparr> pinned := Some qc \<rparr>] \<rparr>))"
proof -
  note l = inv_log [OF inv j(1) w refl]
  have nm: "\<not> is_notification_msg (request j)"
    using l(9) j(2) by (simp add: job_ok_def)
  note sv = serve_coordinated(2) [OF nm qc, of parse]
  have srv: "server p = serial parse (seen p)"
    using inv by (simp add: pool_inv_def)
  have "w_norm w = normalize_uri rp"
    by (rule w_norm_rp [OF w])
  then have "qc = serial_context (normalize_uri rp) parse (seen p @ [(request j, is_cancelled j, w)]) (job_no j) (request j)"
    using sv l(7) srv by (simp add: serial_context_def)
  then have "query_ok (normalize_uri rp) parse (cancels p) (arrived p) (seen p @ [(request j, is_cancelled j, w)]) (j \<lparr> pinned := Some qc \<rparr>)"
    using l(7-9) by (simp add: query_ok_def job_ok_def)
  moreover have "serve parse (request j, is_cancelled j, w) (server p) = server p"
    using sv j(3) by simp
  ultimately show ?thesis
    using l(1-6,10) j(2) unfolding pool_inv_def by simp
qed

lemma step_worker_pop:
  assumes inv: "pool_inv rp parse handler p" and k: "k < length (workers p)" "workers p ! k = WIdle"
    and q: "request_queue p = j # js"
  shows "pool_inv rp parse handler (p \<lparr> request_queue := js, workers := (workers p)[k := WHolds j] \<rparr>)"
  using inv q hands_take [OF k(1), of "WHolds j"] k(2) unfolding pool_inv_def by simp

lemma step_worker_reply:
  assumes inv: "pool_inv rp parse handler p" and k: "k < length (workers p)" "workers p ! k = WHolds j"
  shows "pool_inv rp parse handler (p \<lparr> workers := (workers p)[k := WIdle],
           replies := replies p @ [(job_no j, if is_cancelled j then server_dispatch_cancelled (request j)
                                              else server_run_query handler (request j) (the (pinned j)))] \<rparr>)"
proof -
  note h = hands_drop [OF k]
  have "query_ok (normalize_uri rp) parse (cancels p) (arrived p) (seen p) j"
    using inv h(2) by (simp add: pool_inv_def)
  then have "reply_ok (normalize_uri rp) parse handler (cancels p) (arrived p) (seen p)
      (job_no j, if is_cancelled j then server_dispatch_cancelled (request j)
                 else server_run_query handler (request j) (the (pinned j)))"
    by (auto simp: reply_ok_def query_ok_def job_ok_def Let_def)
  then show ?thesis
    using inv h unfolding pool_inv_def by simp
qed

lemma step_worker_exit:
  assumes inv: "pool_inv rp parse handler p" and k: "k < length (workers p)" "workers p ! k = WIdle"
  shows "pool_inv rp parse handler (p \<lparr> workers := (workers p)[k := WExited] \<rparr>)"
  using inv hands_take [OF k(1), of WExited] k(2) unfolding pool_inv_def by simp

lemma step_frame:
  "reader_at p = RReady \<Longrightarrow>
    pool_inv rp parse handler (p \<lparr> reader_at := RStopped, work_closed := b \<rparr>) = pool_inv rp parse handler p"
  "coord_at p = CIdle \<Longrightarrow>
    pool_inv rp parse handler (p \<lparr> coord_at := CExited, request_closed := b \<rparr>) = pool_inv rp parse handler p"
  "coord_at p = CIdle \<Longrightarrow> work_queue p = j # js \<Longrightarrow>
    pool_inv rp parse handler (p \<lparr> work_queue := js, coord_at := CHolds j \<rparr>) = pool_inv rp parse handler p"
  by (simp_all add: pool_inv_def)

lemma step_cancelled:
  assumes inv: "pool_inv rp parse handler p" and j: "coord_at p = CHolds j" "\<not> is_notification j" "is_cancelled j"
    and w: "fs_realpath (w_files w) = rp"
  shows "pool_inv rp parse handler
    (log_seen j w (p \<lparr> replies := replies p @ [(job_no j, server_dispatch_cancelled (request j))] \<rparr>))"
proof -
  have ok: "job_ok (cancels p) j" by (rule inv_log(9) [OF inv j(1) w refl])
  then have "serve parse (request j, is_cancelled j, w) (server p) = server p"
    using j(2,3) by (simp add: serve_def job_ok_def)
  then have "pool_inv rp parse handler
    (log_seen j w (p \<lparr> server := server p, replies := replies p @ [(job_no j, server_dispatch_cancelled (request j))] \<rparr>))"
    by (rule step_reply_coord [OF inv j(1,2) w]) (use ok j(3) in \<open>simp add: job_ok_def\<close>)
  then show ?thesis by simp
qed

lemma step_inline:
  assumes inv: "pool_inv rp parse handler p" and j: "coord_at p = CHolds j" "\<not> is_notification j" "\<not> is_cancelled j"
    and w: "fs_realpath (w_files w) = rp"
    and r: "server_coordinate_query w (request j) (server p) = Inl (r, st')"
  shows "pool_inv rp parse handler (log_seen j w (p \<lparr> server := st', replies := replies p @ [(job_no j, [r])] \<rparr>))"
proof -
  have "\<not> is_notification_msg (request j)"
    using inv_log(9) [OF inv j(1) w refl] j(2) by (simp add: job_ok_def)
  note sv = serve_coordinated(1) [OF this r, of parse]
  show ?thesis
    by (rule step_reply_coord [OF inv j(1,2) w]) (use sv j(3) in auto)
qed

lemma pool_step_inv: "pool_step rp parse handler p p' \<Longrightarrow> pool_inv rp parse handler p \<Longrightarrow> pool_inv rp parse handler p'"
  by (induction rule: pool_step.induct)
     (simp_all add: step_enqueue step_cancel_work step_cancel_request step_frame step_notify step_cancelled step_inline step_handoff
       step_worker_pop step_worker_reply step_worker_exit)

lemma pool_reachable_inv: "pool_reachable rp parse handler p \<Longrightarrow> pool_inv rp parse handler p"
proof (induction rule: pool_reachable.induct)
  case pool_start
  show ?case
    by (simp add: pool_inv_def threadpool_start_def line_ok_def hands_def serial_def requests_upto_def NUM_QUERY_WORKERS_def)
qed (rule pool_step_inv)

text \<open>The sequential server only ever receives notifications and sets its root.\<close>

lemma notification_of_kind: "server_dispatch_notification w parse m st = st \<or>
    (\<exists>n. server_dispatch_notification w parse m st = notify w parse n st)"
  by (auto simp: server_dispatch_notification_def split: option.split)

lemma serve_reachable:
  assumes "reachable rp parse st" and "fs_realpath (w_files w) = rp"
  shows "reachable rp parse (serve parse (m, c, w) st)"
proof -
  have "reachable rp parse (server_dispatch_notification w parse m st)"
    using notification_of_kind [of w parse m st] assms by (metis reachable.step)
  moreover have "reachable rp parse (workspace_set_root_from_uri u st)" for u
    using reachable.step [OF assms, of "Initialize u"] by simp
  ultimately show ?thesis
    using assms(1)
    by (auto simp: serve_def server_coordinate_query_def inline_request_def split: option.split)
qed

lemma serial_reachable:
  "\<forall>e \<in> set es. fs_realpath (w_files (snd (snd e))) = rp \<Longrightarrow> reachable rp parse (serial parse es)"
proof (induction es rule: rev_induct)
  case (snoc e es)
  then show ?case
    using serve_reachable by (cases e) (simp add: serial_snoc)
qed (simp add: serial_def reachable.start)

subsection \<open>Draining\<close>

text \<open>Work left once the reader has stopped.\<close>

definition worker_work :: "worker_pc \<Rightarrow> nat" where
  "worker_work w = (case w of WIdle \<Rightarrow> 1 | WHolds _ \<Rightarrow> 2 | WExited \<Rightarrow> 0)"

definition work_left :: "'r pool \<Rightarrow> nat" where
  "work_left p = 4 * length (work_queue p) + (case coord_at p of CIdle \<Rightarrow> 1 | CHolds _ \<Rightarrow> 4 | CExited \<Rightarrow> 0) +
     2 * length (request_queue p) + sum_list (map worker_work (workers p))"

lemma sum_list_update_work:
  "k < length ws \<Longrightarrow> sum_list (map worker_work (ws[k := x])) + worker_work (ws ! k) =
   sum_list (map worker_work ws) + worker_work x"
  by (induction ws arbitrary: k) (auto split: nat.split simp: nth_Cons)

lemma pool_step_decreases:
  "pool_step rp parse handler p p' \<Longrightarrow> reader_at p = RStopped \<Longrightarrow>
   work_left p' < work_left p \<and> reader_at p' = RStopped"
proof (induction rule: pool_step.induct)
  case (worker_pop k p j js)
  then show ?case
    using sum_list_update_work [of k "workers p" "WHolds j"] by (simp add: work_left_def worker_work_def)
next
  case (worker_reply k p j)
  then show ?case
    using sum_list_update_work [of k "workers p" WIdle] by (simp add: work_left_def worker_work_def)
next
  case (worker_exit k p)
  then show ?case
    using sum_list_update_work [of k "workers p" WExited] by (simp add: work_left_def worker_work_def)
qed (simp_all add: work_left_def log_seen_def)

definition closing :: "'r pool \<Rightarrow> bool" where
  "closing p = ((reader_at p = RStopped \<longrightarrow> work_closed p) \<and>
     (coord_at p = CExited \<longrightarrow> request_closed p \<and> work_queue p = [] \<and> work_closed p) \<and>
     (reader_at p = RReady \<or> (\<exists>i. reader_at p = RCancelling i) \<longrightarrow> \<not> work_closed p) \<and>
     (WExited \<in> set (workers p) \<longrightarrow> request_queue p = [] \<and> coord_at p = CExited \<and> request_closed p) \<and>
     (request_closed p \<longrightarrow> coord_at p = CExited))"

lemma pool_step_closing: "pool_step rp parse handler p p' \<Longrightarrow> closing p \<Longrightarrow> closing p'"
proof (induction rule: pool_step.induct)
  case (worker_pop k p j js)
  then show ?case
    using set_update_subset_insert [of "workers p" k "WHolds j"] by (auto simp: closing_def)
next
  case (worker_reply k p j)
  then show ?case
    using set_update_subset_insert [of "workers p" k WIdle] by (auto simp: closing_def)
next
  case (worker_exit k p)
  then show ?case
    by (auto simp: closing_def)
qed (auto simp: closing_def log_seen_def)

lemma pool_reachable_closing: "pool_reachable rp parse handler p \<Longrightarrow> closing p"
  by (induction rule: pool_reachable.induct)
     (simp add: closing_def threadpool_start_def NUM_QUERY_WORKERS_def, rule pool_step_closing)

definition all_exited :: "'r pool \<Rightarrow> bool" where
  "all_exited p = (coord_at p = CExited \<and> (\<forall>w \<in> set (workers p). w = WExited))"

text \<open>Some file state in which a held message can be handled.\<close>

definition a_world :: "(string \<Rightarrow> string option) \<Rightarrow> world" where
  "a_world rp = \<lparr> w_files = \<lparr> fs_read = (\<lambda>_. None), fs_realpath = rp \<rparr>, w_stat = (\<lambda>_. None), w_json = (\<lambda>_. Unreadable) \<rparr>"

lemma coord_moves:
  assumes "coord_at p = CHolds j"
  shows "\<exists>p'. pool_step rp parse handler p p'"
proof (cases "is_notification j")
  case True
  then show ?thesis
    using pool_step.coord_notify [OF assms, of "a_world rp" rp parse handler] by (auto simp: a_world_def)
next
  case False
  have w: "fs_realpath (w_files (a_world rp)) = rp" by (simp add: a_world_def)
  show ?thesis
  proof (cases "is_cancelled j")
    case True
    then show ?thesis
      using pool_step.coord_cancelled [OF assms False _ w] by blast
  next
    case nc: False
    consider (inl) r where "(server_coordinate_query (a_world rp) (request j) (server p) :: ('a reply \<times> coordinator) + query_context) = Inl r"
      | (inr) qc where "(server_coordinate_query (a_world rp) (request j) (server p) :: ('a reply \<times> coordinator) + query_context) = Inr qc"
      by (cases "server_coordinate_query (a_world rp) (request j) (server p) :: ('a reply \<times> coordinator) + query_context") auto
    then show ?thesis
      using pool_step.coord_inline [OF assms False nc w] pool_step.coord_handoff [OF assms False nc w]
      by cases (metis prod.collapse, blast)
  qed
qed

lemma stopped_progress:
  assumes cl: "closing p" and stopped: "reader_at p = RStopped" and busy: "\<not> all_exited p"
    and ws: "workers p \<noteq> []"
  shows "\<exists>p'. pool_step rp parse handler p p'"
proof (cases "coord_at p")
  case (CHolds j)
  then show ?thesis by (rule coord_moves)
next
  case CIdle
  show ?thesis
  proof (cases "work_queue p")
    case Nil
    then show ?thesis
      using pool_step.coord_exit [OF CIdle Nil] cl stopped unfolding closing_def by blast
  next
    case (Cons j js)
    then show ?thesis using pool_step.coord_pop [OF CIdle Cons] by blast
  qed
next
  case CExited
  then obtain k where k: "k < length (workers p)" "workers p ! k \<noteq> WExited"
    using busy by (auto simp: all_exited_def in_set_conv_nth)
  show ?thesis
  proof (cases "workers p ! k")
    case (WHolds j)
    then show ?thesis using pool_step.worker_reply [OF k(1)] by blast
  next
    case WIdle
    show ?thesis
    proof (cases "request_queue p")
      case Nil
      then show ?thesis
        using pool_step.worker_exit [OF k(1) WIdle Nil] CExited cl unfolding closing_def by blast
    next
      case (Cons j js)
      then show ?thesis using pool_step.worker_pop [OF k(1) WIdle Cons] by blast
    qed
  qed (use k in simp)
qed

lemma drained:
  assumes inv: "pool_inv rp parse handler p" and cl: "closing p" and ex: "all_exited p" and ws: "workers p \<noteq> []"
  shows "work_queue p = [] \<and> request_queue p = [] \<and> length (seen p) = length (arrived p) \<and>
    mset (map fst (replies p)) = mset (requests_upto (arrived p) (length (arrived p)))"
proof -
  have q: "work_queue p = []" "coord_at p = CExited"
    using cl ex by (auto simp: closing_def all_exited_def)
  have "hd (workers p) = WExited" "hd (workers p) \<in> set (workers p)"
    using ex ws by (auto simp: all_exited_def)
  then have r: "request_queue p = []"
    using cl by (auto simp: closing_def)
  have h: "hands (workers p) = []"
    using ex by (auto simp: all_exited_def hands_def)
  have "length (seen p) = length (arrived p)"
    using inv q by (simp add: pool_inv_def line_ok_def)
  then show ?thesis
    using inv q(1) r h by (simp add: pool_inv_def)
qed

lemma workers_kept: "pool_reachable rp parse handler p \<Longrightarrow> length (workers p) = NUM_QUERY_WORKERS"
proof (induction rule: pool_reachable.induct)
  case (pool_more p p')
  have "length (workers p') = length (workers p)"
    using pool_more(2) by (induction rule: pool_step.induct) (simp_all add: log_seen_def)
  then show ?case using pool_more by simp
qed (simp add: threadpool_start_def)

subsection \<open>Properties\<close>

text \<open>C23: Concurrency is invisible: whatever the interleaving of reader, coordinator and workers, the
  coordinator's state is that of a server handling the messages one by one in arrival order, every
  request is answered at most once and no notification is, and the answer to a query is the
  handler's on the context the sequential server would give it at that point, or the cancellation
  error if a cancellation of its id was received.\<close>

theorem threads_serialise:
  assumes "pool_reachable rp parse handler p"
  shows "map fst (seen p) = take (length (seen p)) (arrived p) \<and> server p = serial parse (seen p) \<and>
    distinct (map fst (replies p)) \<and>
    list_all (\<lambda>r. fst r < length (seen p) \<and> \<not> is_notification_msg (arrived p ! fst r) \<and>
        reply_ok (normalize_uri rp) parse handler (cancels p) (arrived p) (seen p) r) (replies p)"
proof -
  note inv = pool_reachable_inv [OF assms]
  obtain ns where "mset (ns @ map fst (replies p)) = mset (requests_upto (arrived p) (length (seen p)))"
    using inv unfolding pool_inv_def mset_append [symmetric] by blast
  note ns = this
  have "distinct (ns @ map fst (replies p))"
    using mset_eq_imp_distinct_iff [OF ns] by (simp add: requests_upto_def)
  moreover have "set (ns @ map fst (replies p)) = set (requests_upto (arrived p) (length (seen p)))"
    using ns by (rule mset_eq_setD)
  ultimately show ?thesis
    using inv by (auto simp: pool_inv_def line_ok_def list_all_iff requests_upto_def)
qed

definition ask_symbols :: message where
  "ask_symbols = \<lparr> msg_id = Some (Int_Id 7), msg_method = Some ''workspace/symbol'', p_root_uri = None,
     p_td_uri = None, p_tdp_uri = None, p_td_text = None, p_content_changes = [], p_watched_changes = [],
     p_renamed_files = [], p_cancel_id = None \<rparr>"

text \<open>One query, taken by the coordinator, handed to the first worker and answered.\<close>

definition asked :: "unit pool" where
  "asked = threadpool_start \<lparr> arrived := [ask_symbols], work_queue := [new_job 0 ask_symbols] \<rparr>"

lemma ask_symbols_entry: "entry_of ask_symbols = Some \<lparr> me_method = ''workspace/symbol'', me_kind = METHOD_QUERY, want_all_docs = True \<rparr>"
  by (simp add: entry_of_def method_lookup_def methods_def method_of_def ask_symbols_def)

lemma ask_symbols_uri: "request_primary_uri ask_symbols = None"
  by (simp add: request_primary_uri_def ask_symbols_def)

lemma asked_reachable: "pool_reachable (\<lambda>_. None) cyc_parse handler asked"
proof -
  have "server_process (length (arrived (threadpool_start :: unit pool))) ask_symbols = Enqueue (new_job 0 ask_symbols)"
    by (simp add: server_process_def method_of_def ask_symbols_def threadpool_start_def)
  from pool_step.enqueue [OF _ this, of "\<lambda>_. None" cyc_parse handler]
  have "pool_step (\<lambda>_. None) cyc_parse handler threadpool_start asked"
    by (simp add: asked_def threadpool_start_def)
  then show ?thesis
    by (rule pool_more [OF pool_start])
qed

definition answered :: "unit pool" where
  "answered = (let j = new_job 0 ask_symbols; w = ex_world;
                   qc = build_query_context_locked (w_norm w) coordinator_init None True;
                   p = log_seen j w (asked \<lparr> work_queue := [], coord_at := CHolds j,
                         request_queue := [j \<lparr> pinned := Some qc \<rparr>] \<rparr>) in
     p \<lparr> request_queue := [], workers := (workers p)[0 := WIdle],
         replies := [(0, [Result (Some (Int_Id 7)) ()])] \<rparr>)"

lemma answered_reachable: "pool_reachable (\<lambda>_. None) cyc_parse (\<lambda>_ _ _. ()) answered"
proof -
  let ?rp = "\<lambda>_. None :: string option" and ?h = "\<lambda>(_ :: message) (_ :: query_context) (_ :: query_doc option). ()"
  let ?j = "new_job 0 ask_symbols"
  let ?qc = "build_query_context_locked (w_norm ex_world) coordinator_init None True"
  let ?p1 = "asked \<lparr> work_queue := [], coord_at := CHolds ?j \<rparr>"
  let ?p2 = "log_seen ?j ex_world (?p1 \<lparr> request_queue := [?j \<lparr> pinned := Some ?qc \<rparr>] \<rparr>)"
  let ?p3 = "?p2 \<lparr> request_queue := [], workers := (workers ?p2)[0 := WHolds (?j \<lparr> pinned := Some ?qc \<rparr>)] \<rparr>"
  have j: "\<not> is_notification ?j" "\<not> is_cancelled ?j" "request ?j = ask_symbols" "job_no ?j = 0"
    by (simp_all add: new_job_def ask_symbols_entry)
  have "pool_step ?rp cyc_parse ?h asked ?p1"
    by (rule pool_step.coord_pop) (simp_all add: asked_def threadpool_start_def)
  then have 1: "pool_reachable ?rp cyc_parse ?h ?p1"
    by (rule pool_more [OF asked_reachable])
  have "(server_coordinate_query ex_world (request ?j) (server ?p1) :: (unit reply \<times> coordinator) + query_context) = Inr ?qc"
    by (simp add: j server_coordinate_query_def ask_symbols_entry ask_symbols_uri asked_def threadpool_start_def)
  from pool_step.coord_handoff [OF _ j(1,2) _ this, of ?rp cyc_parse ?h]
  have "pool_step ?rp cyc_parse ?h ?p1 ?p2"
    by (simp add: ex_world_def cyc_fs_def asked_def threadpool_start_def)
  then have 2: "pool_reachable ?rp cyc_parse ?h ?p2"
    by (rule pool_more [OF 1])
  have "pool_step ?rp cyc_parse ?h ?p2 ?p3"
    by (rule pool_step.worker_pop) (simp_all add: asked_def threadpool_start_def NUM_QUERY_WORKERS_def nth_Cons')
  then have 3: "pool_reachable ?rp cyc_parse ?h ?p3"
    by (rule pool_more [OF 2])
  have k: "0 < length (workers ?p3)" "workers ?p3 ! 0 = WHolds (?j \<lparr> pinned := Some ?qc \<rparr>)"
    by (simp_all add: asked_def threadpool_start_def NUM_QUERY_WORKERS_def)
  have "server_run_query ?h (request (?j \<lparr> pinned := Some ?qc \<rparr>)) qc = [Result (Some (Int_Id 7)) ()]" for qc
    by (simp add: j server_run_query_def ask_symbols_entry) (simp add: ask_symbols_def)
  then have "pool_step ?rp cyc_parse ?h ?p3 answered"
    using pool_step.worker_reply [OF k, of ?rp cyc_parse ?h] j
    by (simp add: answered_def Let_def asked_def threadpool_start_def)
  then show ?thesis
    by (rule pool_more [OF 3])
qed

theorem threads_serialise_witness:
  "replies answered = [(0, [Result (Some (Int_Id 7)) ()])] \<and> distinct (map fst (replies answered)) \<and>
   server answered = serial cyc_parse (seen answered)"
  using threads_serialise [OF answered_reachable] by (simp add: answered_def Let_def)

text \<open>C24: Once the reader has stopped, every step of the coordinator or a worker leaves less work, so
  joining them ends; nothing is stuck before all of them have exited; and then both queues are empty
  and every request that arrived has been answered, exactly once.\<close>

theorem shutdown_drains:
  assumes "pool_reachable rp parse handler p" and "reader_at p = RStopped"
  shows "(\<forall>p'. pool_step rp parse handler p p' \<longrightarrow> work_left p' < work_left p \<and> reader_at p' = RStopped) \<and>
    ((\<exists>p'. pool_step rp parse handler p p') \<or>
     all_exited p \<and> work_queue p = [] \<and> request_queue p = [] \<and>
     mset (map fst (replies p)) = mset (requests_upto (arrived p) (length (arrived p))))"
proof
  show "\<forall>p'. pool_step rp parse handler p p' \<longrightarrow> work_left p' < work_left p \<and> reader_at p' = RStopped"
    using pool_step_decreases assms(2) by blast
  have cl: "closing p" and inv: "pool_inv rp parse handler p" and ws: "workers p \<noteq> []"
    using pool_reachable_closing [OF assms(1)] pool_reachable_inv [OF assms(1)] workers_kept [OF assms(1)]
    by (auto simp: NUM_QUERY_WORKERS_def)
  show "(\<exists>p'. pool_step rp parse handler p p') \<or>
     all_exited p \<and> work_queue p = [] \<and> request_queue p = [] \<and>
     mset (map fst (replies p)) = mset (requests_upto (arrived p) (length (arrived p)))"
    using stopped_progress [OF cl assms(2) _ ws] drained [OF inv cl _ ws] by blast
qed

theorem shutdown_drains_witness:
  "(\<exists>p'. pool_step (\<lambda>_. None) cyc_parse (\<lambda>_ _ _. ()) (answered \<lparr> reader_at := RStopped, work_closed := True \<rparr>) p') \<or>
   all_exited answered"
proof -
  let ?p = "answered \<lparr> reader_at := RStopped, work_closed := True \<rparr>"
  have "pool_step (\<lambda>_. None) cyc_parse (\<lambda>_ _ _. ()) answered ?p"
    by (rule pool_step.stop) (simp add: answered_def Let_def asked_def threadpool_start_def)
  then have "pool_reachable (\<lambda>_. None) cyc_parse (\<lambda>_ _ _. ()) ?p"
    by (rule pool_more [OF answered_reachable])
  from shutdown_drains [OF this] show ?thesis
    by (auto simp: all_exited_def)
qed

end
