(* ===== verification/Diagnostics.thy ===== *)
theory Diagnostics
  imports Workspace
begin

text \<open>
  Diagnostics per document (\<open>src/src/diagnostics.c\<close>): an ordered map of buckets, the difference
  published against what was published before, and the warnings about a missing or malformed
  \<open>compile_commands.json\<close>.  A published message is its URI and diagnostics.
\<close>

definition DIAG_ERROR :: int where "DIAG_ERROR = 1"
definition DIAG_WARNING :: int where "DIAG_WARNING = 2"

record Diagnostic =
  d_range :: LspRange
  severity :: int
  d_source :: "string option"
  d_message :: string

type_synonym diag_set = "(string \<times> Diagnostic list) list"
type_synonym publication = "string \<times> Diagnostic list"

definition diag_set_new :: diag_set where
  "diag_set_new = []"

text \<open>The bucket of a URI is found, or appended, and the diagnostic put behind its others.\<close>

fun diag_set_add :: "diag_set \<Rightarrow> string \<Rightarrow> Diagnostic \<Rightarrow> diag_set" where
  "diag_set_add [] u d = [(u, [d])]"
| "diag_set_add ((v, ds) # s) u d = (if v = u then (v, ds @ [d]) # s else (v, ds) # diag_set_add s u d)"

definition diag_set_has :: "diag_set option \<Rightarrow> string \<Rightarrow> bool" where
  "diag_set_has s u = (case s of None \<Rightarrow> False | Some fs \<Rightarrow> list_ex (\<lambda>f. fst f = u) fs)"

definition diag_set_publish :: "diag_set option \<Rightarrow> diag_set option \<Rightarrow> publication list" where
  "diag_set_publish cur prev =
     (case cur of None \<Rightarrow> [] | Some fs \<Rightarrow> fs) @
     (case prev of None \<Rightarrow> []
      | Some fs \<Rightarrow> map (\<lambda>f. (fst f, [])) (filter (\<lambda>f. \<not> diag_set_has cur (fst f)) fs))"

subsection \<open>Warnings about compile_commands.json\<close>

definition add_warning :: "diag_set \<Rightarrow> string \<Rightarrow> LspRange \<Rightarrow> string \<Rightarrow> diag_set" where
  "add_warning out u r message =
     diag_set_add out u \<lparr> d_range = r, severity = DIAG_WARNING, d_source = Some ''taskjuggler-lsp'',
       d_message = message \<rparr>"

definition INT_MAX :: nat where "INT_MAX = 2147483647"

definition is_tji :: "string \<Rightarrow> bool" where
  "is_tji u = (4 \<le> length u \<and> drop (length u - 4) u = ''.tji'')"

definition standalone_message :: "cc_status \<Rightarrow> string" where
  "standalone_message status =
     (if status = CC_STATUS_MALFORMED
      then ''Malformed compile_commands.json, this file will be parsed stand-alone, not as part of any other loaded .tjp file that includes it.''
      else ''Missing compile_commands.json, this file will be parsed stand-alone, not as part of any other loaded .tjp file that includes it.'')"

definition include_message :: "cc_status \<Rightarrow> string" where
  "include_message status =
     (if status = CC_STATUS_MALFORMED
      then ''Malformed compile_commands.json, cross-file LSP features are disabled.''
      else ''Missing compile_commands.json, cross-file LSP features are disabled.'')"

definition collect_doc_cc_warnings :: "doc_snapshot \<Rightarrow> cc_status \<Rightarrow> diag_set \<Rightarrow> diag_set" where
  "collect_doc_cc_warnings s status out =
     (if is_tji (snap_uri s)
      then add_warning out (snap_uri s)
             \<lparr> range_start = LspPos 0 0, range_end = LspPos 0 (of_nat INT_MAX) \<rparr> (standalone_message status)
      else foldl (\<lambda>acc t. if token_kind t \<noteq> KW_INCLUDE then acc
                          else add_warning acc (snap_uri s)
                                 \<lparr> range_start = tok_start t, range_end = tok_end t \<rparr> (include_message status))
             out (snap_tok_spans s))"

definition diag_collect_cc_missing :: "workspace_snapshot \<Rightarrow> nat \<Rightarrow> diag_set \<Rightarrow> diag_set" where
  "diag_collect_cc_missing ws pindex out =
     (if ws_cc_status ws = CC_STATUS_OK \<or> length (ws_projects ws) \<le> pindex then out
      else foldl (\<lambda>acc w. if project_index w \<noteq> Some pindex \<or> wd_disk_only w then acc
                          else collect_doc_cc_warnings (wd_snap w) (ws_cc_status ws) acc)
             out (ws_docs ws))"

subsection \<open>Sets as maps\<close>

definition diags_of :: "diag_set \<Rightarrow> string \<Rightarrow> Diagnostic list" where
  "diags_of s u = (case map_of s u of Some ds \<Rightarrow> ds | None \<Rightarrow> [])"

definition buckets_ok :: "diag_set \<Rightarrow> bool" where
  "buckets_ok s = distinct (map fst s)"

lemma diag_set_add_keys: "fst ` set (diag_set_add s u d) = insert u (fst ` set s)"
  by (induction s u d rule: diag_set_add.induct) auto

lemma diag_set_add_ok [intro]: "buckets_ok s \<Longrightarrow> buckets_ok (diag_set_add s u d)"
proof (induction s u d rule: diag_set_add.induct)
  case (2 v ds s u d)
  then show ?case
    using diag_set_add_keys [of s u d] by (auto simp: buckets_ok_def)
qed (simp add: buckets_ok_def)

lemma diags_of_add: "diags_of (diag_set_add s u d) v = diags_of s v @ (if v = u then [d] else [])"
  by (induction s u d rule: diag_set_add.induct) (auto simp: diags_of_def)

text \<open>What a client shows: the last publication for each document.\<close>

definition client_shows :: "publication list \<Rightarrow> (string \<Rightarrow> Diagnostic list) \<Rightarrow> string \<Rightarrow> Diagnostic list" where
  "client_shows ps view = fold (\<lambda>p v. v(fst p := snd p)) ps view"

lemma client_shows_distinct:
  "distinct (map fst ps) \<Longrightarrow> client_shows ps view u = (case map_of ps u of Some ds \<Rightarrow> ds | None \<Rightarrow> view u)"
  unfolding client_shows_def
proof (induction ps arbitrary: view)
  case (Cons p ps)
  have "u = fst p \<Longrightarrow> map_of ps u = None"
    using Cons.prems by (auto simp: map_of_eq_None_iff)
  then show ?case
    using Cons.IH [of "view(fst p := snd p)"] Cons.prems by (auto split: option.split)
qed simp

lemma publish_client:
  assumes "buckets_ok cur" and "buckets_ok prev"
  shows "client_shows (diag_set_publish (Some cur) (Some prev)) view u =
    (if u \<in> fst ` set cur \<union> fst ` set prev then diags_of cur u else view u)"
proof -
  let ?gone = "filter (\<lambda>f. \<not> diag_set_has (Some cur) (fst f)) prev"
  have has: "diag_set_has (Some cur) v = (v \<in> fst ` set cur)" for v
    by (auto simp: diag_set_has_def list_ex_iff)
  have keys: "map fst (map (\<lambda>f. (fst f, [] :: Diagnostic list)) ?gone) = map fst ?gone"
    by simp
  have "distinct (map fst (diag_set_publish (Some cur) (Some prev)))"
    using assms by (auto simp: diag_set_publish_def buckets_ok_def has o_def distinct_map_filter image_iff)
  from client_shows_distinct [OF this]
  have "client_shows (diag_set_publish (Some cur) (Some prev)) view u =
      (case map_of (diag_set_publish (Some cur) (Some prev)) u of Some ds \<Rightarrow> ds | None \<Rightarrow> view u)" .
  also have "map_of (diag_set_publish (Some cur) (Some prev)) u =
      (if u \<in> fst ` set cur then map_of cur u
       else if u \<in> fst ` set prev then Some [] else None)"
  proof (cases "u \<in> fst ` set cur")
    case True
    then obtain ds where "map_of cur u = Some ds"
      by (metis map_of_eq_None_iff not_None_eq)
    then show ?thesis
      using True by (simp add: diag_set_publish_def map_add_def)
  next
    case False
    then have none: "map_of cur u = None"
      by (simp add: map_of_eq_None_iff)
    have "map_of (map (\<lambda>f. (fst f, [] :: Diagnostic list)) ?gone) u = (if u \<in> fst ` set prev then Some [] else None)"
      using False by (induction prev) (auto simp: has)
    then show ?thesis
      using False none by (simp add: diag_set_publish_def map_add_def)
  qed
  also have "(case (if u \<in> fst ` set cur then map_of cur u
       else if u \<in> fst ` set prev then Some [] else None) of Some ds \<Rightarrow> ds | None \<Rightarrow> view u) =
     (if u \<in> fst ` set cur \<union> fst ` set prev then diags_of cur u else view u)"
  proof (cases "u \<in> fst ` set cur")
    case True
    then obtain ds where "map_of cur u = Some ds"
      by (metis map_of_eq_None_iff not_None_eq)
    then show ?thesis
      using True by (simp add: diags_of_def)
  next
    case False
    then have "map_of cur u = None"
      by (simp add: map_of_eq_None_iff)
    then show ?thesis
      using False by (simp add: diags_of_def)
  qed
  finally show ?thesis .
qed

subsection \<open>The warnings of a project\<close>

definition cc_warning :: "LspRange \<Rightarrow> string \<Rightarrow> Diagnostic" where
  "cc_warning r m = \<lparr> d_range = r, severity = DIAG_WARNING, d_source = Some ''taskjuggler-lsp'', d_message = m \<rparr>"

definition doc_warnings :: "doc_snapshot \<Rightarrow> cc_status \<Rightarrow> Diagnostic list" where
  "doc_warnings s status =
     (if is_tji (snap_uri s)
      then [cc_warning \<lparr> range_start = LspPos 0 0, range_end = LspPos 0 (of_nat INT_MAX) \<rparr> (standalone_message status)]
      else map (\<lambda>t. cc_warning \<lparr> range_start = tok_start t, range_end = tok_end t \<rparr> (include_message status))
             (filter (\<lambda>t. token_kind t = KW_INCLUDE) (snap_tok_spans s)))"

lemma add_warning_diags: "diags_of (add_warning out u r m) v = diags_of out v @ (if v = u then [cc_warning r m] else [])"
  by (simp add: add_warning_def diags_of_add cc_warning_def)

lemma add_warning_ok: "buckets_ok out \<Longrightarrow> buckets_ok (add_warning out u r m)"
  unfolding add_warning_def by (rule diag_set_add_ok)

lemma include_warnings_diags:
  "diags_of (foldl (\<lambda>acc t. if token_kind t \<noteq> KW_INCLUDE then acc
      else add_warning acc u \<lparr> range_start = tok_start t, range_end = tok_end t \<rparr> m) out ts) v =
   diags_of out v @ (if v = u
     then map (\<lambda>t. cc_warning \<lparr> range_start = tok_start t, range_end = tok_end t \<rparr> m)
            (filter (\<lambda>t. token_kind t = KW_INCLUDE) ts) else [])"
  by (induction ts arbitrary: out) (simp_all add: add_warning_diags)

lemma include_warnings_ok:
  "buckets_ok out \<Longrightarrow> buckets_ok (foldl (\<lambda>acc t. if token_kind t \<noteq> KW_INCLUDE then acc
      else add_warning acc u \<lparr> range_start = tok_start t, range_end = tok_end t \<rparr> m) out ts)"
  by (induction ts arbitrary: out) (simp_all add: add_warning_ok)

lemma collect_doc_diags:
  "diags_of (collect_doc_cc_warnings s status out) v =
     diags_of out v @ (if v = snap_uri s then doc_warnings s status else [])"
  using include_warnings_diags [of "snap_uri s" "include_message status" out "snap_tok_spans s" v]
  unfolding collect_doc_cc_warnings_def doc_warnings_def
  by (cases "is_tji (snap_uri s)") (simp_all only: add_warning_diags if_True if_False)

lemma collect_doc_ok: "buckets_ok out \<Longrightarrow> buckets_ok (collect_doc_cc_warnings s status out)"
  unfolding collect_doc_cc_warnings_def
  by (cases "is_tji (snap_uri s)") (simp_all only: add_warning_ok include_warnings_ok if_True if_False)

lemma cc_docs_diags:
  "diags_of (foldl (\<lambda>acc w. if project_index w \<noteq> Some pindex \<or> wd_disk_only w then acc
      else collect_doc_cc_warnings (wd_snap w) st acc) out wds) v = diags_of out v @
   concat (map (\<lambda>w. doc_warnings (wd_snap w) st)
     (filter (\<lambda>w. project_index w = Some pindex \<and> \<not> wd_disk_only w \<and> snap_uri (wd_snap w) = v) wds))"
  by (induction wds arbitrary: out) (auto simp: collect_doc_diags)

lemma cc_docs_ok:
  "buckets_ok out \<Longrightarrow> buckets_ok (foldl (\<lambda>acc w. if project_index w \<noteq> Some pindex \<or> wd_disk_only w then acc
      else collect_doc_cc_warnings (wd_snap w) st acc) out wds)"
  by (induction wds arbitrary: out) (simp_all add: collect_doc_ok)

lemma collect_missing_diags:
  assumes "ws_cc_status ws \<noteq> CC_STATUS_OK" and "pindex < length (ws_projects ws)"
  shows "diags_of (diag_collect_cc_missing ws pindex out) v = diags_of out v @
    concat (map (\<lambda>w. doc_warnings (wd_snap w) (ws_cc_status ws))
      (filter (\<lambda>w. project_index w = Some pindex \<and> \<not> wd_disk_only w \<and> snap_uri (wd_snap w) = v) (ws_docs ws)))"
proof -
  have "diag_collect_cc_missing ws pindex out =
      foldl (\<lambda>acc w. if project_index w \<noteq> Some pindex \<or> wd_disk_only w then acc
          else collect_doc_cc_warnings (wd_snap w) (ws_cc_status ws) acc) out (ws_docs ws)"
    unfolding diag_collect_cc_missing_def
    by (rule if_not_P) (use assms in simp)
  then show ?thesis
    by (simp only: cc_docs_diags)
qed

lemma collect_missing_ok: "buckets_ok out \<Longrightarrow> buckets_ok (diag_collect_cc_missing ws pindex out)"
  unfolding diag_collect_cc_missing_def by (simp only: cc_docs_ok split: if_split) blast

end
