(* ===== verification/Tj3.thy ===== *)
theory Tj3
  imports Diagnostics
begin

text \<open>
  Running \<open>tj3\<close> over one project (\<open>src/src/tj3.c\<close>): the members are written to a temporary
  directory by their paths below a common directory, the child runs there, and the lines of its
  standard error become diagnostics of the members.  What the process asks of its surroundings
  (the environment, \<open>mkdtemp\<close>, \<open>realpath\<close>, the kernel's sandbox, the child) is the record
  \<open>tj3_env\<close>, an argument; strings hold no NUL byte and allocation succeeds.
\<close>

subsection \<open>Library functions\<close>

fun strstr :: "string \<Rightarrow> string \<Rightarrow> nat option" where
  "strstr [] needle = (if needle = [] then Some 0 else None)"
| "strstr (c # s) needle =
     (if take (length needle) (c # s) = needle then Some 0 else map_option Suc (strstr s needle))"

definition strrchr :: "string \<Rightarrow> char \<Rightarrow> nat option" where
  "strrchr s c = (if c \<in> set s then Some (length s - 1 - length (takeWhile (\<lambda>d. d \<noteq> c) (rev s))) else None)"

subsection \<open>Members and their staging\<close>

datatype tj3_mode = TJ3_FULL | TJ3_SYNTAX_ONLY

record member =
  m_path :: string
  relpath :: string
  m_uri :: string
  m_text :: string

definition tmp_path_join :: "string \<Rightarrow> string \<Rightarrow> string" where
  "tmp_path_join a b = a @ ''/'' @ b"

fun match_len :: "string \<Rightarrow> string \<Rightarrow> nat" where
  "match_len (a # as) (b # bs) = (if a = b then Suc (match_len as bs) else 0)"
| "match_len _ _ = 0"

fun back_to_slash :: "string \<Rightarrow> nat \<Rightarrow> nat" where
  "back_to_slash p 0 = 0"
| "back_to_slash p (Suc n) = (if p ! n \<noteq> CHR ''/'' then back_to_slash p n else Suc n)"

definition common_dir_len :: "string list \<Rightarrow> nat" where
  "common_dir_len paths =
     (case paths of [] \<Rightarrow> 0
      | p # ps \<Rightarrow> back_to_slash p (foldl (\<lambda>len q. match_len (take len p) q) (length p) ps))"

definition collect_project_members :: "workspace_snapshot \<Rightarrow> nat \<Rightarrow> member list" where
  "collect_project_members ws pindex =
     List.map_filter (\<lambda>w. if project_index w \<noteq> Some pindex then None
        else map_option (\<lambda>path. \<lparr> m_path = path, relpath = [], m_uri = snap_uri (wd_snap w),
                                  m_text = snap_text (wd_snap w) \<rparr>)
               (uri_to_path (snap_uri (wd_snap w)))) (ws_docs ws)"

definition member_relpath :: "nat \<Rightarrow> string \<Rightarrow> string" where
  "member_relpath common_len path =
     (let rel = drop common_len path in
      if rel = [] then (case strrchr path (CHR ''/'') of Some k \<Rightarrow> drop (Suc k) path | None \<Rightarrow> path)
      else rel)"

definition assign_member_relpaths :: "member list \<Rightarrow> member list" where
  "assign_member_relpaths members =
     (let common_len = common_dir_len (map m_path members) in
      map (\<lambda>m. m \<lparr> relpath := member_relpath common_len (m_path m) \<rparr>) members)"

text \<open>Staging as the sequence of file-system calls it makes.\<close>

datatype fs_op = Mkdir string | Write_File string string

definition make_dirs :: "string \<Rightarrow> fs_op list" where
  "make_dirs dir =
     map (\<lambda>i. Mkdir (take i dir)) (filter (\<lambda>i. dir ! i = CHR ''/'') [1..<length dir]) @ [Mkdir dir]"

definition write_text_file :: "string \<Rightarrow> string \<Rightarrow> fs_op" where
  "write_text_file path content = Write_File path content"

definition stage_member :: "string \<Rightarrow> member \<Rightarrow> fs_op list" where
  "stage_member tmpdir m =
     (let dest = tmp_path_join tmpdir (relpath m) in
      (case strrchr dest (CHR ''/'') of Some k \<Rightarrow> make_dirs (take k dest) | None \<Rightarrow> []) @
      [write_text_file dest (m_text m)])"

definition stage_members_to_tmpdir :: "string \<Rightarrow> member list \<Rightarrow> fs_op list" where
  "stage_members_to_tmpdir tmpdir members = concat (map (stage_member tmpdir) members)"

subsection \<open>Reading the report\<close>

fun skip_dot_slash :: "string \<Rightarrow> string" where
  "skip_dot_slash (a # b # r) = (if a = CHR ''.'' \<and> b = CHR ''/'' then skip_dot_slash r else a # b # r)"
| "skip_dot_slash p = p"

definition below :: "string \<Rightarrow> string \<Rightarrow> bool" where
  "below dir p = (take (length dir) p = dir \<and> length dir < length p \<and> p ! length dir = CHR ''/'')"

definition map_reported_path :: "string \<Rightarrow> string \<Rightarrow> string option \<Rightarrow> member list \<Rightarrow> string option" where
  "map_reported_path path tmpdir real_tmp members =
     (let p = skip_dot_slash path;
          p' = (if p \<noteq> [] \<and> hd p = CHR ''/'' then
                  (if below tmpdir p then drop (Suc (length tmpdir)) p
                   else (case real_tmp of
                           Some r \<Rightarrow> if below r p then drop (Suc (length r)) p else p
                         | None \<Rightarrow> p))
                else p);
          p'' = skip_dot_slash p' in
      map_option m_uri (List.find (\<lambda>m. relpath m = p'') members))"

text \<open>The digits of a line number; \<open>int\<close> is 32 bits and wraps.\<close>

fun read_lineno :: "u32 \<Rightarrow> string \<Rightarrow> u32 option" where
  "read_lineno n [] = Some n"
| "read_lineno n (c # cs) =
     (if (of_char c :: nat) < 48 \<or> 57 < (of_char c :: nat) then None
      else read_lineno (n * 10 + (of_nat (of_char c) - 48)) cs)"

definition tj3_diagnostic :: "u32 \<Rightarrow> int \<Rightarrow> string \<Rightarrow> Diagnostic" where
  "tj3_diagnostic lineno sev message =
     (let l = (if 0 <s lineno then lineno - 1 else 0) in
      \<lparr> d_range = \<lparr> range_start = LspPos l 0, range_end = LspPos l (of_nat INT_MAX) \<rparr>,
        severity = sev, d_source = Some ''tj3'', d_message = message \<rparr>)"

definition parse_diagnostic_line ::
  "string \<Rightarrow> string option \<Rightarrow> member list \<Rightarrow> diag_set \<Rightarrow> string \<Rightarrow> diag_set" where
  "parse_diagnostic_line tmpdir real_tmp members out buf =
     (case (case strstr buf '': Error: '' of
              Some k \<Rightarrow> Some (DIAG_ERROR, k, length '': Error: '')
            | None \<Rightarrow> (case strstr buf '': Warning: '' of
                         Some k \<Rightarrow> Some (DIAG_WARNING, k, length '': Warning: '')
                       | None \<Rightarrow> None)) of
        None \<Rightarrow> out
      | Some (sev, marker, marker_len) \<Rightarrow>
          (case strrchr (take marker buf) (CHR '':'') of
             None \<Rightarrow> out
           | Some colon \<Rightarrow>
               (let digits = drop (Suc colon) (take marker buf) in
                case (if digits = [] then None else read_lineno 0 digits) of
                  None \<Rightarrow> out
                | Some lineno \<Rightarrow>
                    (case map_reported_path (take colon buf) tmpdir real_tmp members of
                       None \<Rightarrow> out
                     | Some u \<Rightarrow>
                         diag_set_add out u (tj3_diagnostic lineno sev (drop (marker + marker_len) buf))))))"

definition parse_diagnostics ::
  "string option \<Rightarrow> string \<Rightarrow> string option \<Rightarrow> member list \<Rightarrow> diag_set \<Rightarrow> diag_set" where
  "parse_diagnostics stderr_buf tmpdir real_tmp members out =
     (case stderr_buf of
        None \<Rightarrow> out
      | Some buf \<Rightarrow> foldl (parse_diagnostic_line tmpdir real_tmp members) out (strtok_all (CHR 0x0A) buf))"

subsection \<open>Running the compiler\<close>

record tj3_env =
  tj3_cached :: "bool option"
  tj3_disabled :: bool
  env_path :: "string option"
  access_x :: "string \<Rightarrow> bool"
  mkdtemp :: "string option"
  real_path :: "string \<Rightarrow> string option"
  sandbox_available :: bool
  child :: "fs_op list \<Rightarrow> string \<Rightarrow> string list \<Rightarrow> bool \<Rightarrow> string list option"

definition tj3_available :: "tj3_env \<Rightarrow> bool" where
  "tj3_available env =
     (case tj3_cached env of
        Some found \<Rightarrow> found
      | None \<Rightarrow>
          \<not> tj3_disabled env \<and>
          (case env_path env of
             None \<Rightarrow> False
           | Some p \<Rightarrow> list_ex (\<lambda>dir. access_x env (tmp_path_join dir ''tj3'')) (strtok_all (CHR '':'') p)))"

text \<open>The buffer and its capacity; a read of \<open>n\<close> bytes leaves room for the final NUL.\<close>

fun read_loop :: "string option \<Rightarrow> nat \<Rightarrow> string list \<Rightarrow> string option \<times> nat" where
  "read_loop buf cap [] = (buf, cap)"
| "read_loop buf cap (chunk # chunks) =
     (if chunk = [] then (buf, cap)
      else let have_len = (case buf of None \<Rightarrow> 0 | Some b \<Rightarrow> length b);
               need = have_len + length chunk + 1;
               cap' = (if cap < need then need * 2 else cap) in
        read_loop (Some ((case buf of None \<Rightarrow> [] | Some b \<Rightarrow> b) @ chunk)) cap' chunks)"

definition read_fd_to_string :: "string list \<Rightarrow> string option" where
  "read_fd_to_string chunks = map_option c_str (fst (read_loop None 0 chunks))"

text \<open>The child returns the chunks read from its standard error, or None where no child ran.\<close>

definition run_tj3 :: "tj3_env \<Rightarrow> fs_op list \<Rightarrow> string \<Rightarrow> string list \<Rightarrow> bool \<Rightarrow> string option" where
  "run_tj3 env staged tmpdir argv confine =
     (case child env staged tmpdir argv confine of None \<Rightarrow> None | Some chunks \<Rightarrow> read_fd_to_string chunks)"

definition tj3_arguments :: "tj3_env \<Rightarrow> tj3_mode \<Rightarrow> string \<Rightarrow> string list \<times> bool" where
  "tj3_arguments env mode root_rel =
     (case mode of
        TJ3_SYNTAX_ONLY \<Rightarrow> ([''tj3'', ''--check-syntax'', root_rel], False)
      | TJ3_FULL \<Rightarrow> (if sandbox_available env then ([''tj3'', root_rel], True)
                     else ([''tj3'', ''--no-reports'', root_rel], False)))"

definition tj3_collect_project ::
  "tj3_env \<Rightarrow> workspace_snapshot \<Rightarrow> nat \<Rightarrow> tj3_mode \<Rightarrow> diag_set \<Rightarrow> diag_set" where
  "tj3_collect_project env ws pindex mode out =
     (if \<not> tj3_available env \<or> length (ws_projects ws) \<le> pindex then out
      else let members = collect_project_members ws pindex in
        if members = [] then out
        else let members = assign_member_relpaths members in
          (case List.find (\<lambda>m. m_uri m = proj_id (ws_projects ws ! pindex)) members of
             None \<Rightarrow> out
           | Some root \<Rightarrow>
               (case mkdtemp env of
                  None \<Rightarrow> out
                | Some tmpdir \<Rightarrow>
                    (let (argv, confine) = tj3_arguments env mode (relpath root) in
                     parse_diagnostics
                       (run_tj3 env (stage_members_to_tmpdir tmpdir members) tmpdir argv confine)
                       tmpdir (real_path env tmpdir) members out))))"

subsection \<open>Searching strings\<close>

lemma takeWhile_until: "c \<notin> set t \<Longrightarrow> takeWhile (\<lambda>d. d \<noteq> c) (t @ c # s) = t"
  by (induction t) auto

lemma strrchr_last: "c \<notin> set t \<Longrightarrow> strrchr (s @ c # t) c = Some (length s)"
  using takeWhile_until [of c "rev t" "rev s"] by (simp add: strrchr_def)

lemma strstr_skip:
  "c \<notin> set s \<Longrightarrow> strstr (s @ t) (c # n) = map_option (\<lambda>k. length s + k) (strstr t (c # n))"
proof (induction s)
  case Nil
  show ?case by (cases "strstr t (c # n)") simp_all
qed (auto simp: option.map_comp comp_def intro: option.map_cong)

lemma strstr_here: "strstr (n @ t) n = Some 0"
proof (cases "n @ t")
  case (Cons a s)
  have "take (length n) (a # s) = n"
    unfolding Cons [symmetric] by simp
  then show ?thesis by (simp add: Cons)
qed simp

subsection \<open>Line numbers\<close>

lemma read_lineno_digits:
  "list_all is_digit ds \<Longrightarrow> read_lineno (of_nat m) ds =
     Some (of_nat (foldl (\<lambda>n c. 10 * n + (of_char c - 48)) m ds))"
proof (induction ds arbitrary: m)
  case (Cons c ds)
  then have dig: "48 \<le> (of_char c :: nat)" "(of_char c :: nat) \<le> 57"
    by (simp_all add: is_digit_def)
  have step: "(of_nat m :: u32) * 10 + (of_nat (of_char c) - 48) = of_nat (10 * m + (of_char c - 48))"
    using dig(1) by (simp add: of_nat_diff)
  have "list_all is_digit ds"
    using Cons.prems by simp
  from Cons.IH [OF this, of "10 * m + (of_char c - 48)"] show ?case
    using dig unfolding step [symmetric] by (simp only: read_lineno.simps foldl_Cons) simp
qed simp

lemma read_lineno_write: "read_lineno 0 (write_uint32 v) = Some v"
  using read_lineno_digits [OF write_uint32_digits, of 0 v] write_uint32_value [of v]
  by (simp add: dec_value_def)

lemma digits_no_colon: "list_all is_digit ds \<Longrightarrow> CHR '':'' \<notin> set ds"
  by (induction ds) (auto simp: is_digit_def)

subsection \<open>A report line\<close>

definition marker :: "int \<Rightarrow> string" where
  "marker sev = (if sev = DIAG_ERROR then '': Error: '' else '': Warning: '')"

definition report_line :: "string \<Rightarrow> u32 \<Rightarrow> int \<Rightarrow> string \<Rightarrow> string" where
  "report_line p n sev message = p @ '':'' @ write_uint32 n @ marker sev @ message"

definition tj3_severity :: "int \<Rightarrow> bool" where
  "tj3_severity sev = (sev = DIAG_ERROR \<or> sev = DIAG_WARNING)"

lemma strstr_report:
  assumes "CHR '':'' \<notin> set p"
  shows "strstr (report_line p n sev message) (CHR '':'' # CHR '' '' # r) =
    map_option (\<lambda>k. length p + (Suc (length (write_uint32 n) + k)))
      (strstr (marker sev @ message) (CHR '':'' # CHR '' '' # r))"
proof -
  have ds: "CHR '':'' \<notin> set (write_uint32 n)"
    by (rule digits_no_colon [OF write_uint32_digits])
  obtain d ds' where d: "write_uint32 n = d # ds'"
    using write_uint32_seg [of n] by (cases "write_uint32 n") auto
  have "d \<noteq> CHR '' ''"
    using write_uint32_digits [of n] by (auto simp: d is_digit_def)
  then have "strstr (CHR '':'' # write_uint32 n @ marker sev @ message) (CHR '':'' # CHR '' '' # r) =
      map_option Suc (strstr (write_uint32 n @ marker sev @ message) (CHR '':'' # CHR '' '' # r))"
    by (simp add: d)
  then show ?thesis
    using strstr_skip [OF assms, of "CHR '':'' # write_uint32 n @ marker sev @ message" "CHR '' '' # r"]
      strstr_skip [OF ds, of "marker sev @ message" "CHR '' '' # r"]
    by (simp add: report_line_def option.map_comp comp_def)
qed

lemma parse_report:
  assumes colon: "CHR '':'' \<notin> set p" and sev: "tj3_severity sev"
    and clear: "sev = DIAG_ERROR \<or> strstr ('': '' @ message) '': Error: '' = None"
  shows "parse_diagnostic_line tmpdir real_tmp ms out (report_line p n sev message) =
    (case map_reported_path p tmpdir real_tmp ms of
       None \<Rightarrow> out | Some u \<Rightarrow> diag_set_add out u (tj3_diagnostic n sev message))"
proof -
  let ?line = "report_line p n sev message"
  let ?m = "Suc (length p + length (write_uint32 n))"
  have found: "(case strstr ?line '': Error: '' of
        Some k \<Rightarrow> Some (DIAG_ERROR, k, length '': Error: '')
      | None \<Rightarrow> (case strstr ?line '': Warning: '' of
          Some k \<Rightarrow> Some (DIAG_WARNING, k, length '': Warning: '')
        | None \<Rightarrow> None)) = Some (sev, ?m, length (marker sev))"
  proof (cases "sev = DIAG_ERROR")
    case True
    then show ?thesis
      using strstr_here [of "'': Error: ''" message] by (simp add: strstr_report [OF colon] marker_def)
  next
    case False
    then have w: "sev = DIAG_WARNING" and none: "strstr ('': '' @ message) '': Error: '' = None"
      using sev clear by (auto simp: tj3_severity_def)
    have "strstr (marker sev @ message) '': Error: '' = None"
      using False none by (simp add: marker_def)
    then show ?thesis
      using False w strstr_here [of "'': Warning: ''" message]
      by (simp add: strstr_report [OF colon] marker_def)
  qed
  have cut: "take ?m ?line = p @ CHR '':'' # write_uint32 n"
    by (simp add: report_line_def)
  have last: "strrchr (take ?m ?line) (CHR '':'') = Some (length p)"
    unfolding cut by (rule strrchr_last) (rule digits_no_colon [OF write_uint32_digits])
  have rest: "drop (?m + length (marker sev)) ?line = message" "take (length p) ?line = p"
    by (simp_all add: report_line_def)
  show ?thesis
    unfolding parse_diagnostic_line_def found
    by (simp only: option.case prod.case last rest)
      (simp add: cut read_lineno_write write_uint32_seg Let_def)
qed

subsection \<open>Paths in reports\<close>

text \<open>The forms in which a member is named: bare, below the working directory, below the
  directory's name or below its real path.\<close>

definition reported_as :: "string \<Rightarrow> string option \<Rightarrow> string \<Rightarrow> string \<Rightarrow> bool" where
  "reported_as tmpdir real_tmp rel p =
     (p = rel \<or> p = ''./'' @ rel \<or> p = tmpdir @ ''/'' @ rel \<or>
      (case real_tmp of None \<Rightarrow> False
       | Some r \<Rightarrow> p = r @ ''/'' @ rel \<and> r \<noteq> [] \<and> hd r = CHR ''/'' \<and> \<not> below tmpdir p))"

definition plain_rel :: "string \<Rightarrow> bool" where
  "plain_rel rel = (rel \<noteq> [] \<and> hd rel \<noteq> CHR ''/'' \<and> take 2 rel \<noteq> ''./'')"

lemma plain_rel_skip: "plain_rel rel \<Longrightarrow> skip_dot_slash rel = rel"
  by (cases rel rule: skip_dot_slash.cases) (auto simp: plain_rel_def)

lemma skip_absolute: "hd p = CHR ''/'' \<Longrightarrow> skip_dot_slash p = p"
  by (cases p rule: skip_dot_slash.cases) auto

lemma below_own: "below d (d @ ''/'' @ r)"
  by (simp add: below_def nth_append)

lemma mapped_path:
  assumes "reported_as tmpdir real_tmp rel p" and "plain_rel rel" and "tmpdir \<noteq> []" and "hd tmpdir = CHR ''/''"
  shows "map_reported_path p tmpdir real_tmp ms = map_option m_uri (List.find (\<lambda>m. relpath m = rel) ms)"
proof -
  have rel: "skip_dot_slash rel = rel" "rel \<noteq> []" "hd rel \<noteq> CHR ''/''"
    using assms(2) plain_rel_skip by (auto simp: plain_rel_def)
  consider (bare) "p = rel" | (dot) "p = ''./'' @ rel" | (tmp) "p = tmpdir @ ''/'' @ rel"
    | (real) r where "real_tmp = Some r" "p = r @ ''/'' @ rel" "r \<noteq> []" "hd r = CHR ''/''" "\<not> below tmpdir p"
    using assms(1) by (auto simp: reported_as_def split: option.splits)
  then show ?thesis
  proof cases
    case bare
    then show ?thesis using rel by (simp add: map_reported_path_def)
  next
    case dot
    then show ?thesis using rel by (simp add: map_reported_path_def)
  next
    case tmp
    then have "skip_dot_slash p = p" and "below tmpdir p" and "hd p = CHR ''/''" and "p \<noteq> []"
      using skip_absolute assms(3,4) below_own by auto
    then show ?thesis using rel tmp by (simp add: map_reported_path_def)
  next
    case (real r)
    then have "skip_dot_slash p = p" and "below r p" and "hd p = CHR ''/''" and "p \<noteq> []"
      using skip_absolute below_own by auto
    then show ?thesis using rel real by (simp add: map_reported_path_def)
  qed
qed

subsection \<open>Relative paths\<close>

definition clean_path :: "string \<Rightarrow> bool" where
  "clean_path p = (p \<noteq> [] \<and> hd p = CHR ''/'' \<and> last p \<noteq> CHR ''/'' \<and>
     (\<forall>i < length p. p ! i = CHR ''/'' \<longrightarrow> plain_rel (drop (Suc i) p)))"

lemma match_len_prefix: "take (match_len a b) a = take (match_len a b) b \<and> match_len a b \<le> length a \<and> match_len a b \<le> length b"
  by (induction a b rule: match_len.induct) auto

lemma match_len_hd: "a \<noteq> [] \<Longrightarrow> b \<noteq> [] \<Longrightarrow> hd a = hd b \<Longrightarrow> 0 < match_len a b"
  by (cases a; cases b) auto

lemma back_to_slash_le: "back_to_slash p n \<le> n"
  by (induction p n rule: back_to_slash.induct) (auto intro: le_SucI)

lemma back_to_slash_at: "0 < back_to_slash p n \<Longrightarrow> p ! (back_to_slash p n - 1) = CHR ''/''"
  by (induction p n rule: back_to_slash.induct) (auto split: if_splits)

lemma back_to_slash_pos: "0 < n \<Longrightarrow> p ! 0 = CHR ''/'' \<Longrightarrow> 0 < back_to_slash p n"
proof (induction n)
  case (Suc n)
  then show ?case by (cases n) auto
qed simp

lemma common_fold:
  assumes "len \<le> length p"
  shows "foldl (\<lambda>len q. match_len (take len p) q) len ps \<le> len"
    and "q \<in> set ps \<Longrightarrow> take (foldl (\<lambda>len q. match_len (take len p) q) len ps) q =
        take (foldl (\<lambda>len q. match_len (take len p) q) len ps) p \<and>
        foldl (\<lambda>len q. match_len (take len p) q) len ps \<le> length q"
proof -
  have "foldl (\<lambda>len q. match_len (take len p) q) len ps \<le> len \<and>
      (\<forall>q \<in> set ps. take (foldl (\<lambda>len q. match_len (take len p) q) len ps) q =
        take (foldl (\<lambda>len q. match_len (take len p) q) len ps) p \<and>
        foldl (\<lambda>len q. match_len (take len p) q) len ps \<le> length q)"
    using assms
  proof (induction ps arbitrary: len)
    case (Cons q ps)
    define l1 where "l1 = match_len (take len p) q"
    define l where "l = foldl (\<lambda>len q. match_len (take len p) q) l1 ps"
    have l1: "take l1 (take len p) = take l1 q" "l1 \<le> len" "l1 \<le> length q"
      using match_len_prefix [of "take len p" q] Cons.prems by (auto simp: l1_def)
    have l: "l \<le> l1" "\<forall>q \<in> set ps. take l q = take l p \<and> l \<le> length q"
      using Cons.IH [of l1] l1 Cons.prems by (simp_all add: l_def)
    have "take l q = take l (take l1 q)"
      using l(1) by (simp add: min_absorb1)
    also have "\<dots> = take l (take l1 (take len p))"
      by (simp only: l1(1))
    also have "\<dots> = take l p"
      using l(1) l1(2) by (simp add: min_absorb1)
    finally have "take l q = take l p" .
    moreover have "l \<le> len" and "l \<le> length q"
      using l(1) l1(2,3) by linarith+
    moreover have "foldl (\<lambda>len q. match_len (take len p) q) len (q # ps) = l"
      by (simp only: foldl_Cons l_def l1_def)
    ultimately show ?case
      using l(2) by simp
  qed simp
  then show "foldl (\<lambda>len q. match_len (take len p) q) len ps \<le> len"
    and "q \<in> set ps \<Longrightarrow> take (foldl (\<lambda>len q. match_len (take len p) q) len ps) q =
        take (foldl (\<lambda>len q. match_len (take len p) q) len ps) p \<and>
        foldl (\<lambda>len q. match_len (take len p) q) len ps \<le> length q"
    by blast+
qed

lemma common_fold_pos:
  "0 < len \<Longrightarrow> p \<noteq> [] \<Longrightarrow> \<forall>q \<in> set ps. q \<noteq> [] \<and> hd q = hd p \<Longrightarrow>
    0 < foldl (\<lambda>len q. match_len (take len p) q) len ps"
proof (induction ps arbitrary: len)
  case (Cons q ps)
  then have "0 < match_len (take len p) q"
    by (intro match_len_hd) (auto simp: hd_take)
  then show ?case
    using Cons by simp
qed simp

lemma common_dir_spec:
  assumes "\<forall>p \<in> set paths. clean_path p" and "p \<in> set paths"
  shows "take (common_dir_len paths) p = take (common_dir_len paths) (hd paths)"
    and "0 < common_dir_len paths" and "common_dir_len paths \<le> length p"
    and "p ! (common_dir_len paths - 1) = CHR ''/''"
proof -
  obtain p0 ps where paths: "paths = p0 # ps"
    using assms(2) by (cases paths) auto
  let ?n = "foldl (\<lambda>len q. match_len (take len p0) q) (length p0) ps"
  let ?L = "common_dir_len paths"
  have p0: "p0 \<noteq> []" "hd p0 = CHR ''/''"
    using assms(1) paths by (auto simp: clean_path_def)
  have n: "?n \<le> length p0" "\<forall>q \<in> set ps. take ?n q = take ?n p0 \<and> ?n \<le> length q"
    by (rule common_fold(1) [OF le_refl]) (blast dest: common_fold(2) [OF le_refl])
  have "0 < ?n"
    using assms(1) paths p0 by (intro common_fold_pos) (auto simp: clean_path_def)
  moreover have Ldef: "?L = back_to_slash p0 ?n"
    by (simp only: common_dir_len_def paths list.case)
  moreover have "p0 ! 0 = CHR ''/''"
    using p0 by (metis hd_conv_nth)
  ultimately show pos: "0 < ?L"
    by (simp only: Ldef back_to_slash_pos)
  have L: "?L \<le> ?n" "p0 ! (?L - 1) = CHR ''/''"
    using back_to_slash_le [of p0 ?n] back_to_slash_at [of p0 ?n] pos by (simp_all only: Ldef)
  have eq: "take ?n p = take ?n p0" "?n \<le> length p"
    using assms(2) paths n by auto
  show "take ?L p = take ?L (hd paths)"
  proof -
    have "take ?L p = take ?L (take ?n p)"
      using L by (simp add: min_absorb1)
    also have "\<dots> = take ?L p0"
      using L by (simp add: eq(1) min_absorb1)
    finally show ?thesis
      by (simp add: paths)
  qed
  show "?L \<le> length p"
    using eq(2) L(1) by linarith
  have "?L - 1 < ?n"
    using L(1) pos by linarith
  then have "p ! (?L - 1) = take ?n p ! (?L - 1)" "p0 ! (?L - 1) = take ?n p0 ! (?L - 1)"
    by simp_all
  then show "p ! (?L - 1) = CHR ''/''"
    by (simp only: eq(1) L(2))
qed

text \<open>The path of a member is the common directory followed by its relative path.\<close>

lemma member_relpath_spec:
  assumes "\<forall>p \<in> set paths. clean_path p" and "p \<in> set paths"
  shows "p = take (common_dir_len paths) (hd paths) @ member_relpath (common_dir_len paths) p"
    and "plain_rel (member_relpath (common_dir_len paths) p)"
proof -
  let ?L = "common_dir_len paths"
  note spec = common_dir_spec [OF assms]
  have clean: "clean_path p"
    using assms by blast
  have "?L < length p"
  proof (rule ccontr)
    assume "\<not> ?L < length p"
    then have "last p = p ! (?L - 1)"
      using spec(2,3) by (simp add: last_conv_nth clean [unfolded clean_path_def])
    then show False
      using spec(4) clean by (simp add: clean_path_def)
  qed
  then have rel: "member_relpath ?L p = drop ?L p"
    by (simp add: member_relpath_def Let_def)
  show "p = take ?L (hd paths) @ member_relpath ?L p"
    unfolding rel spec(1) [symmetric] by simp
  have "\<forall>i < length p. p ! i = CHR ''/'' \<longrightarrow> plain_rel (drop (Suc i) p)"
    using clean by (simp add: clean_path_def)
  moreover have "?L - 1 < length p"
    using spec(2,3) by linarith
  ultimately have "plain_rel (drop (Suc (?L - 1)) p)"
    using spec(4) by blast
  then show "plain_rel (member_relpath ?L p)"
    using spec(2) by (simp add: rel)
qed

lemma relpaths_distinct:
  assumes "\<forall>m \<in> set ms. clean_path (m_path m)" and "distinct (map m_path ms)"
  shows "distinct (map relpath (assign_member_relpaths ms))"
proof -
  let ?L = "common_dir_len (map m_path ms)"
  have "map relpath (assign_member_relpaths ms) = map (member_relpath ?L) (map m_path ms)"
    by (simp add: assign_member_relpaths_def Let_def)
  moreover have "inj_on (member_relpath ?L) (set (map m_path ms))"
  proof (rule inj_onI)
    fix p q
    assume *: "p \<in> set (map m_path ms)" "q \<in> set (map m_path ms)" "member_relpath ?L p = member_relpath ?L q"
    have all: "\<forall>p \<in> set (map m_path ms). clean_path p"
      using assms(1) by simp
    show "p = q"
      using member_relpath_spec(1) [OF all *(1)] member_relpath_spec(1) [OF all *(2)] *(3) by simp
  qed
  ultimately show ?thesis
    using assms(2) by (simp only: distinct_map [of "member_relpath ?L"])
qed

lemma find_relpath:
  assumes "distinct (map relpath ms)" and "m \<in> set ms"
  shows "List.find (\<lambda>x. relpath x = relpath m) ms = Some m"
  using assms by (induction ms) (auto simp: image_iff)

lemma assign_member_paths: "map m_path (assign_member_relpaths ms) = map m_path ms"
  by (simp add: assign_member_relpaths_def Let_def)

lemma assigned_relpath:
  assumes "\<forall>m \<in> set ms. clean_path (m_path m)" and "m \<in> set (assign_member_relpaths ms)"
  shows "m_path m = take (common_dir_len (map m_path ms)) (hd (map m_path ms)) @ relpath m"
    and "plain_rel (relpath m)"
proof -
  let ?L = "common_dir_len (map m_path ms)"
  obtain x where x: "x \<in> set ms" "m = x \<lparr> relpath := member_relpath ?L (m_path x) \<rparr>"
    using assms(2) by (auto simp: assign_member_relpaths_def Let_def)
  have "\<forall>p \<in> set (map m_path ms). clean_path p" and "m_path x \<in> set (map m_path ms)"
    using assms(1) x(1) by auto
  note spec = member_relpath_spec [OF this]
  have m: "m_path m = m_path x" "relpath m = member_relpath ?L (m_path x)"
    by (simp_all add: x(2))
  show "m_path m = take ?L (hd (map m_path ms)) @ relpath m" and "plain_rel (relpath m)"
    unfolding m by (rule spec)+
qed

subsection \<open>A whole report\<close>

datatype tj3_line =
    Report member string u32 int string
  | Chatter string

abbreviation newline :: char where
  "newline \<equiv> CHR 0x0A"

fun line_text :: "tj3_line \<Rightarrow> string" where
  "line_text (Report m p n sev message) = report_line p n sev message"
| "line_text (Chatter s) = s"

fun line_fine :: "string \<Rightarrow> string option \<Rightarrow> member list \<Rightarrow> tj3_line \<Rightarrow> bool" where
  "line_fine tmpdir real_tmp ms (Report m p n sev message) =
     (m \<in> set ms \<and> reported_as tmpdir real_tmp (relpath m) p \<and> CHR '':'' \<notin> set p \<and>
      newline \<notin> set p \<union> set message \<and> 0 <s n \<and> tj3_severity sev \<and>
      (sev = DIAG_ERROR \<or> strstr ('': '' @ message) '': Error: '' = None))"
| "line_fine tmpdir real_tmp ms (Chatter s) =
     (s \<noteq> [] \<and> newline \<notin> set s \<and> strstr s '': Error: '' = None \<and> strstr s '': Warning: '' = None)"

fun line_diags :: "string \<Rightarrow> tj3_line \<Rightarrow> Diagnostic list" where
  "line_diags u (Report m p n sev message) =
     (if m_uri m = u
      then [\<lparr> d_range = \<lparr> range_start = LspPos (n - 1) 0, range_end = LspPos (n - 1) (of_nat INT_MAX) \<rparr>,
              severity = sev, d_source = Some ''tj3'', d_message = message \<rparr>]
      else [])"
| "line_diags u (Chatter s) = []"

lemma digits_no_newline: "list_all is_digit ds \<Longrightarrow> newline \<notin> set ds"
  by (induction ds) (auto simp: is_digit_def)

lemma line_text_seg: "line_fine tmpdir real_tmp ms l \<Longrightarrow> line_text l \<noteq> [] \<and> newline \<notin> set (line_text l)"
  using digits_no_newline [OF write_uint32_digits]
  by (cases l) (auto simp: report_line_def marker_def)

lemma parse_line_diags:
  assumes "line_fine tmpdir real_tmp ms l" and "distinct (map relpath ms)" and "\<forall>m \<in> set ms. plain_rel (relpath m)"
    and "tmpdir \<noteq> []" and "hd tmpdir = CHR ''/''"
  shows "diags_of (parse_diagnostic_line tmpdir real_tmp ms out (line_text l)) u = diags_of out u @ line_diags u l"
proof (cases l)
  case (Report m p n sev message)
  then have *: "CHR '':'' \<notin> set p" "tj3_severity sev" "0 <s n" "m \<in> set ms"
    "reported_as tmpdir real_tmp (relpath m) p"
    "sev = DIAG_ERROR \<or> strstr ('': '' @ message) '': Error: '' = None"
    using assms(1) by auto
  have "map_reported_path p tmpdir real_tmp ms = Some (m_uri m)"
    using mapped_path [OF *(5)] assms(3-5) *(4) find_relpath [OF assms(2) *(4)] by simp
  then show ?thesis
    using parse_report [OF *(1,2,6)] *(3) by (simp add: Report diags_of_add tj3_diagnostic_def Let_def)
next
  case (Chatter s)
  then show ?thesis
    using assms(1) by (simp add: parse_diagnostic_line_def)
qed

lemma parse_diagnostics_diags:
  assumes "\<forall>l \<in> set ls. line_fine tmpdir real_tmp ms l" and "distinct (map relpath ms)"
    and "\<forall>m \<in> set ms. plain_rel (relpath m)" and "tmpdir \<noteq> []" and "hd tmpdir = CHR ''/''"
  shows "diags_of (parse_diagnostics (Some (join_with newline (map line_text ls))) tmpdir real_tmp ms out) u =
    diags_of out u @ concat (map (line_diags u) ls)"
proof -
  have "diags_of (foldl (parse_diagnostic_line tmpdir real_tmp ms) out (map line_text ls)) u =
      diags_of out u @ concat (map (line_diags u) ls)"
    using assms(1)
  proof (induction ls arbitrary: out)
    case (Cons l ls)
    then show ?case
      using parse_line_diags [OF _ assms(2-5), of real_tmp l out u] by simp
  qed simp
  moreover have "strtok_all newline (join_with newline (map line_text ls)) = map line_text ls"
    using assms(1) line_text_seg by (intro strtok_all_join_with) auto
  ultimately show ?thesis
    by (simp add: parse_diagnostics_def)
qed

subsection \<open>Includes of the staged copy\<close>

lemma resolve_at_slash:
  assumes "CHR ''/'' \<notin> set t" and "\<not> (f \<noteq> [] \<and> hd f = CHR ''/'')"
  shows "resolve_include_path (d @ CHR ''/'' # t) f = d @ CHR ''/'' # f"
proof -
  have "dropWhile (\<lambda>c. c \<noteq> CHR ''/'') (rev t @ CHR ''/'' # rev d) = CHR ''/'' # rev d"
    using assms(1) takeWhile_append_hit(2) [of "CHR ''/''" "rev t" "rev d"] by simp
  then show ?thesis
    using assms(2) by (auto simp: resolve_include_path_def Let_def)
qed

lemma resolve_below:
  assumes "\<not> (f \<noteq> [] \<and> hd f = CHR ''/'')"
  shows "resolve_include_path (d @ CHR ''/'' # r) f = d @ CHR ''/'' # (drop 1 (resolve_include_path (CHR ''/'' # r) f))"
proof (cases "CHR ''/'' \<in> set r")
  case True
  then obtain r1 t where r: "r = r1 @ CHR ''/'' # t" "CHR ''/'' \<notin> set t"
    by (meson split_list_last)
  show ?thesis
    using resolve_at_slash [OF r(2) assms, of "d @ CHR ''/'' # r1"]
      resolve_at_slash [OF r(2) assms, of "CHR ''/'' # r1"] by (simp add: r(1))
next
  case False
  then show ?thesis
    using resolve_at_slash [OF False assms, of d] resolve_at_slash [OF False assms, of "[]"] by simp
qed

lemma staged_include:
  assumes "\<forall>m \<in> set ms. clean_path (m_path m)"
    and "a \<in> set (assign_member_relpaths ms)" and "b \<in> set (assign_member_relpaths ms)"
    and "\<not> (f \<noteq> [] \<and> hd f = CHR ''/'')"
    and "resolve_include_path (m_path a) f = m_path b"
  shows "resolve_include_path (tmp_path_join tmpdir (relpath a)) f = tmp_path_join tmpdir (relpath b)"
proof -
  let ?ps = "map m_path ms"
  let ?C = "take (common_dir_len ?ps) (hd ?ps)"
  have in_ps: "m_path a \<in> set ?ps"
    using assms(2) assign_member_paths by (metis (no_types) image_eqI list.set_map)
  have clean: "\<forall>p \<in> set ?ps. clean_path p"
    using assms(1) by simp
  note spec = common_dir_spec [OF clean in_ps]
  obtain C where C: "?C = C @ ''/''"
  proof -
    have "?C = take (common_dir_len ?ps - 1) (m_path a) @ [m_path a ! (common_dir_len ?ps - 1)]"
      using take_Suc_conv_app_nth [of "common_dir_len ?ps - 1" "m_path a"] spec(2,3)
      unfolding spec(1) [symmetric] by simp
    then show ?thesis
      using that spec(4) by simp
  qed
  have a: "m_path a = C @ CHR ''/'' # relpath a" and b: "m_path b = C @ CHR ''/'' # relpath b"
    using assigned_relpath(1) [OF assms(1,2)] assigned_relpath(1) [OF assms(1,3)] C by simp_all
  have "drop 1 (resolve_include_path (CHR ''/'' # relpath a) f) = relpath b"
    using assms(5) resolve_below [OF assms(4), of C "relpath a"] by (simp add: a b)
  then show ?thesis
    using resolve_below [OF assms(4), of tmpdir "relpath a"] by (simp add: tmp_path_join_def)
qed

subsection \<open>What staging leaves on disk\<close>

text \<open>Directories and files by name.  A directory is made below an existing one, \<open>EEXIST\<close> and
  \<open>ENOENT\<close> change nothing, and a file is written where its directory exists.\<close>

type_synonym disk = "string set \<times> (string \<Rightarrow> string option)"

definition parent_dir :: "string \<Rightarrow> string" where
  "parent_dir p = (case strrchr p (CHR ''/'') of Some k \<Rightarrow> take k p | None \<Rightarrow> [])"

fun disk_step :: "disk \<Rightarrow> fs_op \<Rightarrow> disk" where
  "disk_step (D, F) (Mkdir p) = (if F p \<noteq> None \<or> parent_dir p \<notin> D then (D, F) else (insert p D, F))"
| "disk_step (D, F) (Write_File p content) =
     (if p \<in> D \<or> parent_dir p \<notin> D then (D, F) else (D, F(p \<mapsto> content)))"

abbreviation run_ops :: "disk \<Rightarrow> fs_op list \<Rightarrow> disk" where
  "run_ops \<equiv> foldl disk_step"

definition cut_at :: "string \<Rightarrow> nat \<Rightarrow> bool" where
  "cut_at p k = (k = length p \<or> (k < length p \<and> p ! k = CHR ''/''))"

lemma strrchr_split:
  assumes "c \<in> set s"
  obtains a b where "s = a @ c # b" and "c \<notin> set b" and "strrchr s c = Some (length a)"
  using split_list_last [OF assms] strrchr_last by metis

text \<open>The directory of a cut is the cut at the slash before it.\<close>

lemma parent_of_cut:
  assumes "n0 < k" and "k \<le> length p" and "p ! n0 = CHR ''/''"
  obtains i where "n0 \<le> i" and "i < k" and "p ! i = CHR ''/''" and "parent_dir (take k p) = take i p"
proof -
  have "take k p ! n0 = CHR ''/''" and "n0 < length (take k p)"
    using assms by simp_all
  then have "CHR ''/'' \<in> set (take k p)"
    by (metis nth_mem)
  then obtain a b where ab: "take k p = a @ CHR ''/'' # b" "CHR ''/'' \<notin> set b"
    "strrchr (take k p) (CHR ''/'') = Some (length a)"
    by (rule strrchr_split)
  have len: "length a < k"
    using ab(1) assms(2) by (metis add_Suc_right le_add1 length_append length_Cons length_take less_Suc_eq_le min_absorb2)
  have "p ! length a = take k p ! length a"
    using len by simp
  then have slash: "p ! length a = CHR ''/''"
    by (simp add: ab(1))
  have "n0 \<le> length a"
  proof (rule ccontr)
    assume "\<not> n0 \<le> length a"
    then have "take k p ! n0 = b ! (n0 - Suc (length a))" and "n0 - Suc (length a) < length b"
      using \<open>n0 < length (take k p)\<close> unfolding ab(1) by (simp_all add: nth_append nth_Cons')
    then show False
      using ab(2) \<open>take k p ! n0 = CHR ''/''\<close> by (metis nth_mem)
  qed
  moreover have "parent_dir (take k p) = take (length a) (take k p)"
    by (simp add: parent_dir_def ab(3))
  then have "parent_dir (take k p) = take (length a) p"
    using len by (simp add: min_absorb1)
  ultimately show ?thesis
    using that len slash by blast
qed

text \<open>Making the directories of a path below an existing one makes them all, and nothing else.\<close>

definition made :: "nat \<Rightarrow> string \<Rightarrow> nat \<Rightarrow> disk \<Rightarrow> disk \<Rightarrow> bool" where
  "made n0 dir j s s' = (snd s' = snd s \<and> fst s \<subseteq> fst s' \<and>
     fst s' \<subseteq> fst s \<union> {take k dir | k. k \<le> length dir \<and> cut_at dir k} \<and>
     (\<forall>k. n0 \<le> k \<and> k < j \<and> cut_at dir k \<longrightarrow> take k dir \<in> fst s'))"

lemma made_step:
  assumes "made n0 dir j s s'" and "cut_at dir j" and "j \<le> length dir" and "n0 \<le> j"
    and "take n0 dir \<in> fst s" and "n0 < length dir \<Longrightarrow> dir ! n0 = CHR ''/''"
    and "\<And>k. n0 < k \<Longrightarrow> k \<le> length dir \<Longrightarrow> cut_at dir k \<Longrightarrow> snd s (take k dir) = None"
  shows "made n0 dir (Suc j) s (disk_step s' (Mkdir (take j dir)))"
proof -
  obtain D F where s': "s' = (D, F)" by (cases s')
  have m: "F = snd s" "fst s \<subseteq> D" "D \<subseteq> fst s \<union> {take k dir | k. k \<le> length dir \<and> cut_at dir k}"
    "\<And>k. n0 \<le> k \<Longrightarrow> k < j \<Longrightarrow> cut_at dir k \<Longrightarrow> take k dir \<in> D"
    using assms(1) by (auto simp: made_def s')
  define s2 where "s2 = disk_step s' (Mkdir (take j dir))"
  have s2: "snd s2 = snd s" "D \<subseteq> fst s2" "fst s2 \<subseteq> insert (take j dir) D"
    by (auto simp: s2_def s' m(1))
  have "take j dir \<in> fst s2"
  proof (cases "j = n0")
    case True
    then show ?thesis using assms(5) m(2) s2(2) by blast
  next
    case False
    then have lt: "n0 < j" using assms(4) by simp
    obtain i where i: "n0 \<le> i" "i < j" "dir ! i = CHR ''/''" "parent_dir (take j dir) = take i dir"
      using parent_of_cut [OF lt assms(3)] assms(6) lt assms(3) by (metis less_le_trans)
    have "cut_at dir i"
      using i assms(3) by (simp add: cut_at_def)
    then have "parent_dir (take j dir) \<in> D"
      unfolding i(4) using m(4) i by blast
    moreover have "F (take j dir) = None"
      using assms(7) [OF lt assms(3,2)] m(1) by simp
    ultimately show ?thesis
      by (simp add: s2_def s')
  qed
  then have all: "\<forall>k. n0 \<le> k \<and> k < Suc j \<and> cut_at dir k \<longrightarrow> take k dir \<in> fst s2"
    using m(4) s2(2) by (metis less_antisym subsetD)
  have "fst s2 \<subseteq> fst s \<union> {take k dir | k. k \<le> length dir \<and> cut_at dir k}"
    using s2(3) m(3) assms(2,3) by blast
  then show ?thesis
    unfolding made_def s2_def [symmetric] using s2(1,2) m(2) all by blast
qed

lemma made_other:
  assumes "made n0 dir j s s'" and "cut_at dir j" and "j \<le> length dir" and "j < n0"
  shows "made n0 dir (Suc j) s (disk_step s' (Mkdir (take j dir)))"
proof -
  obtain D F where s': "s' = (D, F)" by (cases s')
  show ?thesis
    using assms by (auto simp: made_def s')
qed

lemma made_dirs:
  assumes "0 < n0" and "n0 \<le> length dir" and "take n0 dir \<in> fst s" and "n0 < length dir \<Longrightarrow> dir ! n0 = CHR ''/''"
    and "\<And>k. n0 < k \<Longrightarrow> k \<le> length dir \<Longrightarrow> cut_at dir k \<Longrightarrow> snd s (take k dir) = None"
  shows "made n0 dir (Suc (length dir)) s (run_ops s (make_dirs dir))"
proof -
  let ?ops = "\<lambda>j. map (\<lambda>i. Mkdir (take i dir)) (filter (\<lambda>i. dir ! i = CHR ''/'') [1..<j])"
  have run: "made n0 dir j s (run_ops s (?ops j))" if "0 < j" "j \<le> length dir" for j
    using that
  proof (induction j)
    case (Suc j)
    show ?case
    proof (cases "j = 0")
      case True
      then show ?thesis using assms(1) by (simp add: made_def)
    next
      case nz: False
      then have IH: "made n0 dir j s (run_ops s (?ops j))" and upt: "[1..<Suc j] = [1..<j] @ [j]"
        using Suc by simp_all
      show ?thesis
      proof (cases "dir ! j = CHR ''/''")
        case True
        then have "cut_at dir j" using Suc.prems by (simp add: cut_at_def)
        then show ?thesis
          using made_step [OF IH _ _ _ assms(3-5)] made_other [OF IH] Suc.prems True nz
          by (cases "n0 \<le> j") (simp_all add: upt)
      next
        case False
        then have "\<not> cut_at dir j" using Suc.prems by (simp add: cut_at_def)
        then have "made n0 dir (Suc j) s (run_ops s (?ops j))"
          using IH by (auto simp: made_def less_Suc_eq)
        then show ?thesis using False nz by (simp add: upt)
      qed
    qed
  qed simp
  have "made n0 dir (length dir) s (run_ops s (?ops (length dir)))"
    by (rule run) (use assms(1,2) in linarith)+
  from made_step [OF this _ _ assms(2-5)] show ?thesis
    by (simp add: make_dirs_def cut_at_def)
qed

text \<open>After some members were staged below \<open>tmpdir\<close>: their files are there, and what is below
  \<open>tmpdir\<close> are those files and their directories.\<close>

definition staged :: "string \<Rightarrow> member list \<Rightarrow> disk \<Rightarrow> bool" where
  "staged tmpdir ms s =
     (tmpdir \<in> fst s \<and>
      (\<forall>q. snd s (tmp_path_join tmpdir q) \<noteq> None \<longrightarrow> q \<in> relpath ` set ms) \<and>
      (\<forall>q. tmp_path_join tmpdir q \<in> fst s \<longrightarrow> (\<exists>m \<in> set ms. \<exists>x. relpath m = q @ ''/'' @ x)) \<and>
      (\<forall>m \<in> set ms. snd s (tmp_path_join tmpdir (relpath m)) = Some (m_text m)))"

definition no_nesting :: "string list \<Rightarrow> bool" where
  "no_nesting ps = (\<forall>p \<in> set ps. \<forall>q \<in> set ps. take (Suc (length p)) q \<noteq> p @ ''/'')"

lemma no_nestingD: "no_nesting ps \<Longrightarrow> p \<in> set ps \<Longrightarrow> p @ ''/'' @ x \<notin> set ps"
  by (force simp: no_nesting_def)

lemma tmp_path_join_inj [simp]: "tmp_path_join d q = tmp_path_join d q' \<longleftrightarrow> q = q'"
  by (simp add: tmp_path_join_def)

lemma tmp_path_join_nth: "tmp_path_join d q ! length d = CHR ''/''" "length d < length (tmp_path_join d q)"
  by (simp_all add: tmp_path_join_def)

lemma last_slash:
  obtains k where "length d \<le> k" and "k < length (tmp_path_join d q)" and "tmp_path_join d q ! k = CHR ''/''"
    and "parent_dir (tmp_path_join d q) = take k (tmp_path_join d q)"
    and "strrchr (tmp_path_join d q) (CHR ''/'') = Some k"
proof -
  let ?p = "tmp_path_join d q"
  have "CHR ''/'' \<in> set ?p"
    by (simp add: tmp_path_join_def)
  then obtain a b where ab: "?p = a @ CHR ''/'' # b" "CHR ''/'' \<notin> set b"
    "strrchr ?p (CHR ''/'') = Some (length a)"
    by (rule strrchr_split)
  have "length d \<le> length a"
  proof (rule ccontr)
    assume *: "\<not> length d \<le> length a"
    then have "?p ! length d = b ! (length d - Suc (length a))"
      unfolding ab(1) by (simp add: nth_append)
    moreover have "length d - Suc (length a) < length b"
      using * tmp_path_join_nth(2) [of d q] unfolding ab(1) by simp
    ultimately show False
      using ab(2) tmp_path_join_nth(1) [of d q] by (metis nth_mem)
  qed
  moreover have "length a < length ?p" and "?p ! length a = CHR ''/''"
    by (simp_all add: ab(1))
  moreover have "parent_dir ?p = take (length a) ?p"
    by (simp add: parent_dir_def ab(3))
  ultimately show ?thesis
    using that ab(3) by blast
qed

text \<open>A cut of a path below \<open>d\<close> is again a path below \<open>d\<close>.\<close>

lemma cut_below:
  assumes "length d < i" and "i < length (tmp_path_join d r)" and "tmp_path_join d r ! i = CHR ''/''"
  obtains q x where "take i (tmp_path_join d r) = tmp_path_join d q" and "r = q @ ''/'' @ x"
proof -
  obtain j where i: "i = Suc (length d) + j"
    using assms(1) less_iff_Suc_add by auto
  have "j < length r" and "r ! j = CHR ''/''"
    using assms(2,3) by (simp_all add: i tmp_path_join_def nth_append)
  then have "r = take j r @ ''/'' @ drop (Suc j) r"
    using id_take_nth_drop [of j r] by simp
  moreover have "take i (tmp_path_join d r) = tmp_path_join d (take j r)"
    by (simp add: i tmp_path_join_def)
  ultimately show ?thesis
    using that by blast
qed

lemma stage_one:
  assumes "staged tmpdir ms s" and "tmpdir \<noteq> []" and "no_nesting (map relpath (ms @ [m]))"
    and "relpath m \<notin> relpath ` set ms"
  shows "staged tmpdir (ms @ [m]) (run_ops s (stage_member tmpdir m))"
proof -
  let ?n0 = "length tmpdir"
  let ?dest = "tmp_path_join tmpdir (relpath m)"
  note dest = tmp_path_join_nth [of tmpdir "relpath m"]
  obtain k where k: "?n0 \<le> k" "k < length ?dest" "?dest ! k = CHR ''/''"
    "parent_dir ?dest = take k ?dest" "strrchr ?dest (CHR ''/'') = Some k"
    by (rule last_slash)
  let ?dir = "take k ?dest"
  have dir: "take ?n0 ?dir = tmpdir" "?n0 \<le> length ?dir" "length ?dir = k"
    using k(1,2) by (simp_all add: tmp_path_join_def min_absorb1)
  have nth: "?dir ! i = ?dest ! i" if "i < k" for i
    using that by simp
  have below: "\<exists>q x. take i ?dir = tmp_path_join tmpdir q \<and> relpath m = q @ ''/'' @ x"
    if "?n0 < i" "i \<le> k" "cut_at ?dir i" for i
  proof -
    have slash: "?dest ! i = CHR ''/''"
      using that(2,3) k(3) nth [of i] dir(3) by (auto simp: cut_at_def)
    have "i < length ?dest"
      using that(2) k(2) by linarith
    from cut_below [OF that(1) this slash] obtain q x
      where "take i ?dest = tmp_path_join tmpdir q" "relpath m = q @ ''/'' @ x" .
    moreover have "take i ?dir = take i ?dest"
      using that(2) by (simp add: min_absorb1)
    ultimately show ?thesis
      by auto
  qed
  have fresh: "snd s (take i ?dir) = None" if "?n0 < i" "i \<le> length ?dir" "cut_at ?dir i" for i
  proof (rule ccontr)
    assume *: "snd s (take i ?dir) \<noteq> None"
    have "i \<le> k"
      using that(2) dir(3) by linarith
    from below [OF that(1) this that(3)]
    obtain q x where q: "take i ?dir = tmp_path_join tmpdir q" "relpath m = q @ ''/'' @ x"
      by blast
    then have "q \<in> relpath ` set ms"
      using assms(1) * by (simp add: staged_def)
    then show False
      using no_nestingD [OF assms(3), of q x] q(2) by auto
  qed
  have s: "take ?n0 ?dir \<in> fst s"
    using assms(1) by (simp only: dir(1) staged_def)
  have made: "made ?n0 ?dir (Suc (length ?dir)) s (run_ops s (make_dirs ?dir))"
    using assms(2) dir(2) s fresh dest(1) nth dir(3) by (intro made_dirs) auto
  obtain D F where s': "run_ops s (make_dirs ?dir) = (D, F)"
    by (cases "run_ops s (make_dirs ?dir)")
  have D: "F = snd s" "fst s \<subseteq> D" "D \<subseteq> fst s \<union> {take i ?dir | i. i \<le> k \<and> cut_at ?dir i}" "?dir \<in> D"
    using made dir by (auto simp: made_def s' cut_at_def)
  have new: "\<exists>m' \<in> set (ms @ [m]). \<exists>x. relpath m' = q @ ''/'' @ x" if "tmp_path_join tmpdir q \<in> D" for q
  proof (cases "tmp_path_join tmpdir q \<in> fst s")
    case True
    then show ?thesis
      using assms(1) by (auto simp: staged_def)
  next
    case False
    then obtain i where i: "i \<le> k" "cut_at ?dir i" "tmp_path_join tmpdir q = take i ?dir"
      using D(3) \<open>tmp_path_join tmpdir q \<in> D\<close> by auto
    then have "?n0 < length (take i ?dir)"
      by (metis length_append length_Cons less_add_Suc1 add_Suc_right tmp_path_join_def append_Cons)
    then have "?n0 < i"
      by simp
    from below [OF this i(1,2)] show ?thesis
      using i(3) by auto
  qed
  have "?dest \<notin> D"
  proof
    assume "?dest \<in> D"
    from new [OF this] obtain m' x where "m' \<in> set (ms @ [m])" "relpath m' = relpath m @ ''/'' @ x"
      by blast
    then have "relpath m @ ''/'' @ x \<in> set (map relpath (ms @ [m]))"
      by (metis image_eqI list.set_map)
    then show False
      using no_nestingD [OF assms(3), of "relpath m" x] by simp
  qed
  then have run: "run_ops s (stage_member tmpdir m) = (D, F(?dest \<mapsto> m_text m))"
    using s' k(4,5) D(4) by (simp add: stage_member_def write_text_file_def Let_def)
  have "tmpdir \<in> D"
    using s D(2) dir(1) by auto
  moreover have "(F(?dest \<mapsto> m_text m)) (tmp_path_join tmpdir q) \<noteq> None \<longrightarrow> q \<in> relpath ` set (ms @ [m])" for q
    using assms(1) by (auto simp: D(1) staged_def)
  moreover have "(F(?dest \<mapsto> m_text m)) (tmp_path_join tmpdir (relpath m')) = Some (m_text m')"
    if "m' \<in> set (ms @ [m])" for m'
    using that assms(1,4) by (auto simp: D(1) staged_def image_iff)
  ultimately show ?thesis
    unfolding run staged_def using new by simp
qed

lemma stage_all:
  assumes "tmpdir \<noteq> []" and "no_nesting (map relpath ms)" and "distinct (map relpath ms)"
    and "staged tmpdir [] s"
  shows "staged tmpdir ms (run_ops s (stage_members_to_tmpdir tmpdir ms))"
  using assms(2,3)
proof (induction ms rule: rev_induct)
  case Nil
  then show ?case using assms(4) by (simp add: stage_members_to_tmpdir_def)
next
  case (snoc m ms)
  then have "staged tmpdir ms (run_ops s (stage_members_to_tmpdir tmpdir ms))"
    by (simp add: no_nesting_def)
  from stage_one [OF this assms(1) snoc.prems(1)] show ?case
    using snoc.prems(2) by (simp add: stage_members_to_tmpdir_def)
qed

lemma take_below: "take (Suc (length (c @ p))) (c @ q) = c @ take (Suc (length p)) q"
  by simp

lemma no_nesting_relpaths:
  assumes "\<forall>m \<in> set ms. clean_path (m_path m)" and "no_nesting (map m_path ms)"
  shows "no_nesting (map relpath (assign_member_relpaths ms))"
proof -
  let ?C = "take (common_dir_len (map m_path ms)) (hd (map m_path ms))"
  have "take (Suc (length (relpath a))) (relpath b) \<noteq> relpath a @ ''/''"
    if "a \<in> set (assign_member_relpaths ms)" "b \<in> set (assign_member_relpaths ms)" for a b
  proof -
    have "m_path a \<in> set (map m_path ms)" and "m_path b \<in> set (map m_path ms)"
      using that assign_member_paths by (metis (no_types) image_eqI list.set_map)+
    then have "take (Suc (length (m_path a))) (m_path b) \<noteq> m_path a @ ''/''"
      using assms(2) by (auto simp: no_nesting_def)
    then have "take (Suc (length (?C @ relpath a))) (?C @ relpath b) \<noteq> (?C @ relpath a) @ ''/''"
      using assigned_relpath(1) [OF assms(1) that(1)] assigned_relpath(1) [OF assms(1) that(2)] by metis
    then show ?thesis
      unfolding take_below by simp
  qed
  then show ?thesis
    by (simp add: no_nesting_def)
qed

subsection \<open>The buffer of the report\<close>

lemma read_loop_bounds:
  assumes "case buf of None \<Rightarrow> True | Some b \<Rightarrow> length b < cap"
  shows "case read_loop buf cap chunks of (buf', cap') \<Rightarrow>
    (case buf' of None \<Rightarrow> buf = None | Some b \<Rightarrow> length b < cap' \<and>
       b = (case buf of None \<Rightarrow> [] | Some b0 \<Rightarrow> b0) @ concat (takeWhile (\<lambda>c. c \<noteq> []) chunks))"
  using assms
proof (induction buf cap chunks rule: read_loop.induct)
  case (2 buf cap chunk chunks)
  show ?case
  proof (cases "chunk = []")
    case False
    let ?b = "(case buf of None \<Rightarrow> [] | Some b \<Rightarrow> b) @ chunk"
    let ?need = "(case buf of None \<Rightarrow> 0 | Some b \<Rightarrow> length b) + length chunk + 1"
    let ?cap = "if cap < ?need then ?need * 2 else cap"
    have run: "read_loop buf cap (chunk # chunks) = read_loop (Some ?b) ?cap chunks"
      using False by (simp only: read_loop.simps Let_def if_False)
    have "length ?b < ?cap"
      by (cases buf) auto
    then have "case read_loop (Some ?b) ?cap chunks of (buf', cap') \<Rightarrow>
      (case buf' of None \<Rightarrow> Some ?b = None | Some b \<Rightarrow> length b < cap' \<and>
         b = ?b @ concat (takeWhile (\<lambda>c. c \<noteq> []) chunks))"
      using "2.IH" [OF False refl refl refl] by (simp only: option.case)
    then show ?thesis
      unfolding run using False by (auto split: option.splits)
  qed (use 2 in \<open>auto split: option.splits\<close>)
qed (auto split: option.splits)

text \<open>A warning whose message holds \<open>: Error: \<close> is taken for an error whose line number is
  missing, and is dropped.\<close>

lemma warning_with_error_text_dropped:
  "parse_diagnostic_line ''/tmp/x'' None
     [\<lparr> m_path = ''/p/main.tjp'', relpath = ''main.tjp'', m_uri = ''file:///p/main.tjp'', m_text = [] \<rparr>] []
     ''main.tjp:3: Warning: see: Error: x'' = []"
  by code_simp

subsection \<open>Properties\<close>

definition ex_members :: "member list" where
  "ex_members = [\<lparr> m_path = ''/p/main.tjp'', relpath = [], m_uri = ''file:///p/main.tjp'', m_text = ''project x'' \<rparr>,
     \<lparr> m_path = ''/p/inc/a.tji'', relpath = [], m_uri = ''file:///p/inc/a.tji'', m_text = ''task a'' \<rparr>]"

definition ex_report :: "tj3_line list" where
  "ex_report = [Report (\<lparr> m_path = ''/p/inc/a.tji'', relpath = ''inc/a.tji'', m_uri = ''file:///p/inc/a.tji'',
       m_text = ''task a'' \<rparr>) ''./inc/a.tji'' 12 DIAG_ERROR ''no end'', Chatter ''Scheduling'']"


lemma ex_members_assigned: "assign_member_relpaths ex_members =
   [\<lparr> m_path = ''/p/main.tjp'', relpath = ''main.tjp'', m_uri = ''file:///p/main.tjp'', m_text = ''project x'' \<rparr>,
    \<lparr> m_path = ''/p/inc/a.tji'', relpath = ''inc/a.tji'', m_uri = ''file:///p/inc/a.tji'', m_text = ''task a'' \<rparr>]"
  by code_simp

lemma ex_members_clean: "\<forall>m \<in> set ex_members. clean_path (m_path m)"
  by code_simp

lemma ex_members_distinct: "distinct (map m_path ex_members)"
  by code_simp

lemma ex_report_fine: "\<forall>l \<in> set ex_report. line_fine ''/tmp/x'' None (assign_member_relpaths ex_members) l"
  by code_simp



lemma ex_members_nesting: "no_nesting (map m_path ex_members)"
  by code_simp


end
