(* ===== verification/Diag_Worker.thy ===== *)
theory Diag_Worker
  imports Tj3 "HOL-Library.Multiset"
begin

text \<open>
  The diagnostics workers (\<open>src/src/diag_worker.c\<close>): the coordinator's registry holds one worker
  thread per project, each with one slot for its newest unstarted request.  A worker's loop is
  two steps, taking the request and finishing the run; retiring a worker joins its thread, so
  whatever run it had begun is finished there.  Creating a thread is assumed to succeed.
  Messages on the wire carry the project id of the worker that sent them, a ghost.
\<close>

subsection \<open>One worker\<close>

datatype diag_pc = Waiting | Running workspace_snapshot

record diag_worker =
  project_id :: string
  mode :: tj3_mode
  pending :: "workspace_snapshot option"
  last_published :: "diag_set option"
  seen :: bool
  dw_pc :: diag_pc

definition find_proj :: "workspace_snapshot \<Rightarrow> string \<Rightarrow> nat option" where
  "find_proj ws pid = List.find (\<lambda>i. proj_id (ws_projects ws ! i) = pid) [0..<length (ws_projects ws)]"

definition check_project :: "tj3_env \<Rightarrow> string \<Rightarrow> tj3_mode \<Rightarrow> workspace_snapshot \<Rightarrow> diag_set" where
  "check_project env pid m ws =
     (case find_proj ws pid of
        None \<Rightarrow> diag_set_new
      | Some p \<Rightarrow> tj3_collect_project env ws p m (diag_collect_cc_missing ws p diag_set_new))"

definition run_once :: "tj3_env \<Rightarrow> diag_worker \<Rightarrow> workspace_snapshot \<Rightarrow> publication list \<times> diag_worker" where
  "run_once env w ws =
     (let cur = check_project env (project_id w) (mode w) ws in
      (diag_set_publish (Some cur) (last_published w), w \<lparr> last_published := Some cur, dw_pc := Waiting \<rparr>))"

definition clear_published :: "diag_set option \<Rightarrow> publication list" where
  "clear_published prev = (if prev = None then [] else diag_set_publish (Some diag_set_new) prev)"

definition diag_worker_spawn :: "string \<Rightarrow> tj3_mode \<Rightarrow> diag_worker" where
  "diag_worker_spawn pid m =
     \<lparr> project_id = pid, mode = m, pending = None, last_published = None, seen = False, dw_pc = Waiting \<rparr>"

definition diag_worker_request :: "diag_worker \<Rightarrow> workspace_snapshot \<Rightarrow> diag_worker" where
  "diag_worker_request w ws = w \<lparr> pending := Some ws \<rparr>"

text \<open>The thread finishes the run it is in, drops the pending request and exits.\<close>

definition diag_worker_retire :: "tj3_env \<Rightarrow> diag_worker \<Rightarrow> bool \<Rightarrow> publication list" where
  "diag_worker_retire env w clear_on_stop =
     (let (out, w') = (case dw_pc w of Waiting \<Rightarrow> ([], w) | Running ws \<Rightarrow> run_once env w ws) in
      out @ (if clear_on_stop then clear_published (last_published w') else []))"

subsection \<open>The registry\<close>

type_synonym wire = "(string \<times> publication) list"

definition tagged :: "string \<Rightarrow> publication list \<Rightarrow> wire" where
  "tagged pid ps = map (Pair pid) ps"

fun registry_find :: "diag_worker list \<Rightarrow> string \<Rightarrow> nat option" where
  "registry_find [] pid = None"
| "registry_find (w # ws) pid = (if project_id w = pid then Some 0 else map_option Suc (registry_find ws pid))"

definition registry_remove_at :: "diag_worker list \<Rightarrow> nat \<Rightarrow> diag_worker list" where
  "registry_remove_at ws idx = butlast (ws[idx := last ws])"

text \<open>The index of the worker, the registry, and what a retired worker sent.\<close>

definition acquire_project_worker ::
  "tj3_env \<Rightarrow> diag_worker list \<Rightarrow> string \<Rightarrow> tj3_mode \<Rightarrow> nat \<times> diag_worker list \<times> wire" where
  "acquire_project_worker env ws pid m =
     (case registry_find ws pid of
        None \<Rightarrow> (length ws, ws @ [diag_worker_spawn pid m], [])
      | Some i \<Rightarrow>
          if mode (ws ! i) = m then (i, ws, [])
          else (let rest = registry_remove_at ws i in
                (length rest, rest @ [diag_worker_spawn pid m],
                 tagged (project_id (ws ! i)) (diag_worker_retire env (ws ! i) True))))"

definition mode_of :: "ws_project \<Rightarrow> tj3_mode" where
  "mode_of proj = (if from_compile_commands proj then TJ3_FULL else TJ3_SYNTAX_ONLY)"

definition hand_over ::
  "tj3_env \<Rightarrow> workspace_snapshot \<Rightarrow> diag_worker list \<times> wire \<Rightarrow> ws_project \<Rightarrow> diag_worker list \<times> wire" where
  "hand_over env snapshot st proj =
     (case st of (ws, out) \<Rightarrow>
        (case acquire_project_worker env ws (proj_id proj) (mode_of proj) of (i, ws', sent) \<Rightarrow>
           (ws'[i := diag_worker_request ((ws' ! i) \<lparr> seen := True \<rparr>) snapshot], out @ sent)))"

text \<open>The sweep over the registry: the last worker takes the place of a retired one, and is looked
  at next.\<close>

function sweep :: "tj3_env \<Rightarrow> nat \<Rightarrow> diag_worker list \<times> wire \<Rightarrow> diag_worker list \<times> wire" where
  "sweep env i (ws, out) =
     (if length ws \<le> i then (ws, out)
      else if seen (ws ! i) then sweep env (Suc i) (ws, out)
      else sweep env i (registry_remove_at ws i,
             out @ tagged (project_id (ws ! i)) (diag_worker_retire env (ws ! i) True)))"
  by pat_completeness auto
termination
  by (relation "measure (\<lambda>(env, i, ws, out). length ws - i)") (auto simp: registry_remove_at_def)

declare sweep.simps [simp del]

definition diag_registry_update ::
  "tj3_env \<Rightarrow> workspace_snapshot \<Rightarrow> diag_worker list \<Rightarrow> diag_worker list \<times> wire" where
  "diag_registry_update env snapshot ws =
     sweep env 0 (foldl (hand_over env snapshot) (map (\<lambda>w. w \<lparr> seen := False \<rparr>) ws, []) (ws_projects snapshot))"

definition diag_registry_shutdown :: "tj3_env \<Rightarrow> diag_worker list \<Rightarrow> diag_worker list \<times> wire" where
  "diag_registry_shutdown env ws =
     ([], concat (map (\<lambda>w. tagged (project_id w) (diag_worker_retire env w False)) ws))"

subsection \<open>Interleaving\<close>

record diag_sys =
  g_workers :: "diag_worker list"
  wire_log :: wire
  latest :: "workspace_snapshot option"

definition diag_start :: diag_sys where
  "diag_start = \<lparr> g_workers = [], wire_log = [], latest = None \<rparr>"

text \<open>\<open>E\<close> holds the surroundings a run of the compiler may meet.\<close>

inductive worker_step :: "tj3_env set \<Rightarrow> diag_sys \<Rightarrow> diag_sys \<Rightarrow> bool" for E where
  take_request: "i < length (g_workers s) \<Longrightarrow> dw_pc (g_workers s ! i) = Waiting \<Longrightarrow>
    pending (g_workers s ! i) = Some snapshot \<Longrightarrow>
    worker_step E s (s \<lparr> g_workers := (g_workers s)[i := (g_workers s ! i) \<lparr> pending := None, dw_pc := Running snapshot \<rparr>] \<rparr>)"
| finish_run: "i < length (g_workers s) \<Longrightarrow> dw_pc (g_workers s ! i) = Running snapshot \<Longrightarrow>
    env \<in> E \<Longrightarrow> run_once env (g_workers s ! i) snapshot = (out, w) \<Longrightarrow>
    worker_step E s (s \<lparr> g_workers := (g_workers s)[i := w],
                       wire_log := wire_log s @ tagged (project_id (g_workers s ! i)) out \<rparr>)"

inductive diag_step :: "tj3_env set \<Rightarrow> diag_sys \<Rightarrow> diag_sys \<Rightarrow> bool" for E where
  update: "env \<in> E \<Longrightarrow> diag_registry_update env snapshot (g_workers s) = (ws, out) \<Longrightarrow>
    diag_step E s \<lparr> g_workers = ws, wire_log = wire_log s @ out, latest = Some snapshot \<rparr>"
| worker: "worker_step E s s' \<Longrightarrow> diag_step E s s'"

inductive_cases worker_stepE: "worker_step E s s'"
inductive_cases diag_stepE: "diag_step E s s'"

inductive diag_reachable :: "tj3_env set \<Rightarrow> diag_sys \<Rightarrow> bool" for E where
  diag_init: "diag_reachable E diag_start"
| diag_next: "diag_reachable E s \<Longrightarrow> diag_step E s s' \<Longrightarrow> diag_reachable E s'"

subsection \<open>What the client shows of each worker\<close>

definition shown :: "wire \<Rightarrow> string \<Rightarrow> string \<Rightarrow> Diagnostic list" where
  "shown log pid = client_shows (map snd (filter (\<lambda>e. fst e = pid) log)) (\<lambda>_. [])"

definition published_diags :: "diag_set option \<Rightarrow> string \<Rightarrow> Diagnostic list" where
  "published_diags p = (case p of None \<Rightarrow> (\<lambda>_. []) | Some s \<Rightarrow> diags_of s)"

lemma client_shows_Nil [simp]: "client_shows [] v = v"
  by (simp add: client_shows_def)

lemma client_shows_append: "client_shows (ps @ qs) v = client_shows qs (client_shows ps v)"
  by (simp add: client_shows_def)

lemma shown_tagged: "shown (log @ tagged pid ps) q = (if pid = q then client_shows ps (shown log q) else shown log q)"
  by (simp add: shown_def tagged_def client_shows_append filter_map comp_def)

lemma shown_append_other: "\<forall>e \<in> set out. fst e \<noteq> q \<Longrightarrow> shown (log @ out) q = shown log q"
  by (simp add: shown_def)

definition worker_ok :: "wire \<Rightarrow> diag_worker \<Rightarrow> bool" where
  "worker_ok log w =
     ((case last_published w of None \<Rightarrow> True | Some s \<Rightarrow> buckets_ok s) \<and>
      shown log (project_id w) = published_diags (last_published w))"

lemma diags_of_absent: "u \<notin> fst ` set s \<Longrightarrow> diags_of s u = []"
  by (simp add: diags_of_def map_of_eq_None_iff [THEN iffD2])

lemma publish_none: "diag_set_publish (Some cur) None = diag_set_publish (Some cur) (Some [])"
  by (simp add: diag_set_publish_def)

lemma publish_shows:
  assumes "worker_ok log w" and "buckets_ok cur"
  shows "client_shows (diag_set_publish (Some cur) (last_published w)) (shown log (project_id w)) = diags_of cur"
proof (rule ext)
  fix u
  show "client_shows (diag_set_publish (Some cur) (last_published w)) (shown log (project_id w)) u = diags_of cur u"
  proof (cases "last_published w")
    case None
    then show ?thesis
      using assms publish_client [OF assms(2), of "[]" _ u] diags_of_absent [of u cur]
      by (simp add: worker_ok_def published_diags_def publish_none buckets_ok_def)
  next
    case (Some prev)
    then have "buckets_ok prev" and "shown log (project_id w) = diags_of prev"
      using assms(1) by (simp_all add: worker_ok_def published_diags_def)
    then show ?thesis
      using Some publish_client [OF assms(2), of prev _ u] diags_of_absent [of u cur] diags_of_absent [of u prev]
      by simp
  qed
qed

lemma parse_diagnostic_line_ok: "buckets_ok out \<Longrightarrow> buckets_ok (parse_diagnostic_line tmpdir real_tmp ms out s)"
  by (auto simp: parse_diagnostic_line_def Let_def split: option.splits prod.splits)

lemma parse_diagnostics_ok: "buckets_ok out \<Longrightarrow> buckets_ok (parse_diagnostics buf tmpdir real_tmp ms out)"
proof -
  have "buckets_ok out \<Longrightarrow> buckets_ok (foldl (parse_diagnostic_line tmpdir real_tmp ms) out ls)" for ls
    by (induction ls arbitrary: out) (simp_all add: parse_diagnostic_line_ok)
  then show "buckets_ok out \<Longrightarrow> buckets_ok (parse_diagnostics buf tmpdir real_tmp ms out)"
    by (simp add: parse_diagnostics_def split: option.split)
qed

lemma tj3_collect_ok: "buckets_ok out \<Longrightarrow> buckets_ok (tj3_collect_project env ws p m out)"
  by (auto simp: tj3_collect_project_def Let_def parse_diagnostics_ok split: option.splits prod.splits)

lemma check_project_ok: "buckets_ok (check_project env pid m ws)"
proof -
  have "buckets_ok diag_set_new"
    by (simp add: buckets_ok_def diag_set_new_def)
  then show ?thesis
    by (simp add: check_project_def tj3_collect_ok collect_missing_ok split: option.split)
qed

lemma run_once_ok:
  assumes "worker_ok log w" and "run_once env w ws = (out, w')"
  shows "worker_ok (log @ tagged (project_id w) out) w'" and "project_id w' = project_id w" and "mode w' = mode w"
    and "dw_pc w' = Waiting" and "pending w' = pending w"
    and "last_published w' = Some (check_project env (project_id w) (mode w) ws)"
proof -
  let ?cur = "check_project env (project_id w) (mode w) ws"
  have w': "w' = w \<lparr> last_published := Some ?cur, dw_pc := Waiting \<rparr>"
    and out: "out = diag_set_publish (Some ?cur) (last_published w)"
    using assms(2) by (auto simp: run_once_def Let_def)
  show "worker_ok (log @ tagged (project_id w) out) w'"
    using publish_shows [OF assms(1) check_project_ok, of env "project_id w" "mode w" ws]
    by (simp add: worker_ok_def w' out shown_tagged check_project_ok published_diags_def)
qed (use assms(2) in \<open>auto simp: run_once_def Let_def\<close>)

lemma clear_shows:
  assumes "worker_ok log w"
  shows "client_shows (clear_published (last_published w)) (shown log (project_id w)) = (\<lambda>_. [])"
proof (cases "last_published w = None")
  case True
  then show ?thesis
    using assms by (simp add: clear_published_def client_shows_def worker_ok_def published_diags_def)
next
  case False
  have "diags_of diag_set_new = (\<lambda>_. [])"
    by (rule ext) (simp add: diags_of_def diag_set_new_def)
  moreover have "buckets_ok diag_set_new"
    by (simp add: buckets_ok_def diag_set_new_def)
  ultimately show ?thesis
    using False publish_shows [OF assms, of diag_set_new] by (simp only: clear_published_def if_False)
qed

lemma retire_shows:
  assumes "worker_ok log w"
  shows "shown (log @ tagged (project_id w) (diag_worker_retire env w True)) q =
    (if q = project_id w then (\<lambda>_. []) else shown log q)"
proof (cases "dw_pc w")
  case Waiting
  then show ?thesis
    using clear_shows [OF assms] by (simp add: diag_worker_retire_def shown_tagged)
next
  case (Running ws)
  obtain out w' where run: "run_once env w ws = (out, w')" by (cases "run_once env w ws")
  note ok = run_once_ok [OF assms run]
  have "tagged (project_id w) (diag_worker_retire env w True) =
      tagged (project_id w) out @ tagged (project_id w) (clear_published (last_published w'))"
    by (simp add: diag_worker_retire_def Running run tagged_def)
  then show ?thesis
    using clear_shows [OF ok(1)] ok(2) by (simp add: shown_tagged append_assoc [symmetric] del: append_assoc)
qed

subsection \<open>Registry operations\<close>

lemma registry_find_Some: "registry_find ws pid = Some i \<Longrightarrow> i < length ws \<and> project_id (ws ! i) = pid"
  by (induction ws pid arbitrary: i rule: registry_find.induct) (auto split: if_splits)

lemma registry_find_None: "registry_find ws pid = None \<longleftrightarrow> pid \<notin> project_id ` set ws"
  by (induction ws pid rule: registry_find.induct) auto

lemma mset_butlast: "xs \<noteq> [] \<Longrightarrow> add_mset (last xs) (mset (butlast xs)) = mset xs"
  by (metis add_mset_add_single append_butlast_last_id mset_append mset_single_iff_right mset.simps)

lemma registry_remove_mset:
  assumes "i < length ws"
  shows "add_mset (ws ! i) (mset (registry_remove_at ws i)) = mset ws"
proof -
  let ?us = "ws[i := last ws]"
  have ne: "?us \<noteq> []" using assms by auto
  have "last ?us = last ws"
    using assms ne by (simp add: last_conv_nth nth_list_update)
  then have "add_mset (last ws) (mset (registry_remove_at ws i)) = mset ?us"
    using mset_butlast [OF ne] by (simp add: registry_remove_at_def)
  also have "\<dots> = add_mset (last ws) (mset ws - {#ws ! i#})"
    using assms by (simp add: mset_update)
  finally have "mset (registry_remove_at ws i) = mset ws - {#ws ! i#}"
    by simp
  then show ?thesis
    using assms by simp
qed

text \<open>The registry with the wire: distinct ids, each worker's messages show what it published
  last, and no worker, no diagnostics.\<close>

definition registry_ok :: "diag_worker list \<Rightarrow> wire \<Rightarrow> bool" where
  "registry_ok ws log = (distinct (map project_id ws) \<and> (\<forall>w \<in> set ws. worker_ok log w) \<and>
     (\<forall>q. q \<notin> project_id ` set ws \<longrightarrow> shown log q = (\<lambda>_. [])))"

lemma registry_remove_ok:
  assumes "registry_ok ws log" and "i < length ws"
  shows "registry_ok (registry_remove_at ws i)
      (log @ tagged (project_id (ws ! i)) (diag_worker_retire env (ws ! i) True))"
    and "set ws = insert (ws ! i) (set (registry_remove_at ws i))"
    and "project_id (ws ! i) \<notin> project_id ` set (registry_remove_at ws i)"
proof -
  let ?rest = "registry_remove_at ws i"
  have m: "mset (ws ! i # ?rest) = mset ws"
    using registry_remove_mset [OF assms(2)] by simp
  then have "mset (map project_id (ws ! i # ?rest)) = mset (map project_id ws)"
    by (simp only: mset_map)
  from mset_eq_imp_distinct_iff [OF this] have d: "distinct (map project_id (ws ! i # ?rest))"
    using assms(1) by (simp only: registry_ok_def)
  show s: "set ws = insert (ws ! i) (set ?rest)"
    using mset_eq_setD [OF m] by simp
  show n: "project_id (ws ! i) \<notin> project_id ` set ?rest"
    using d by simp
  have wi: "worker_ok log (ws ! i)"
    using assms by (simp add: registry_ok_def)
  note r = retire_shows [OF wi, where env = env]
  have "worker_ok (log @ tagged (project_id (ws ! i)) (diag_worker_retire env (ws ! i) True)) w" if "w \<in> set ?rest" for w
  proof -
    have "worker_ok log w"
      using assms(1) that s by (simp add: registry_ok_def)
    moreover have "project_id w \<noteq> project_id (ws ! i)"
      using that n by (metis image_eqI)
    ultimately have "worker_ok log w" and "project_id w \<noteq> project_id (ws ! i)" .
    then show ?thesis
      by (simp add: worker_ok_def r)
  qed
  moreover have "shown (log @ tagged (project_id (ws ! i)) (diag_worker_retire env (ws ! i) True)) q = (\<lambda>_. [])"
    if "q \<notin> project_id ` set ?rest" for q
    using assms(1) that s by (auto simp: registry_ok_def r)
  ultimately show "registry_ok ?rest (log @ tagged (project_id (ws ! i)) (diag_worker_retire env (ws ! i) True))"
    using d by (simp add: registry_ok_def)
qed

lemma registry_spawn_ok:
  assumes "registry_ok ws log" and "pid \<notin> project_id ` set ws"
  shows "registry_ok (ws @ [diag_worker_spawn pid m]) log"
  using assms by (auto simp: registry_ok_def diag_worker_spawn_def worker_ok_def published_diags_def)

lemma acquire_ok:
  assumes "registry_ok ws log" and "acquire_project_worker env ws pid m = (i, ws', sent)"
  shows "registry_ok ws' (log @ sent)" and "i < length ws'" and "project_id (ws' ! i) = pid" and "mode (ws' ! i) = m"
    and "set ws' \<subseteq> set ws \<union> {diag_worker_spawn pid m}"
    and "{w \<in> set ws. project_id w \<noteq> pid} \<subseteq> set ws'"
proof -
  have "registry_ok ws' (log @ sent) \<and> i < length ws' \<and> project_id (ws' ! i) = pid \<and> mode (ws' ! i) = m \<and>
    set ws' \<subseteq> set ws \<union> {diag_worker_spawn pid m} \<and> {w \<in> set ws. project_id w \<noteq> pid} \<subseteq> set ws'"
  proof (cases "registry_find ws pid")
    case None
    then have "pid \<notin> project_id ` set ws"
      using registry_find_None by blast
    then show ?thesis
      using assms None registry_spawn_ok [OF assms(1)]
      by (auto simp: acquire_project_worker_def diag_worker_spawn_def)
  next
    case (Some j)
    note j = registry_find_Some [OF Some]
    show ?thesis
    proof (cases "mode (ws ! j) = m")
      case True
      then show ?thesis
        using assms Some j by (auto simp: acquire_project_worker_def)
    next
      case False
      let ?rest = "registry_remove_at ws j"
      note rest = registry_remove_ok(1) [OF assms(1), where i = j and env = env]
        registry_remove_ok(2,3) [OF assms(1), of j]
      have "i = length ?rest" and "ws' = ?rest @ [diag_worker_spawn pid m]"
        and "sent = tagged (project_id (ws ! j)) (diag_worker_retire env (ws ! j) True)"
        using assms(2) Some False by (auto simp: acquire_project_worker_def Let_def)
      then show ?thesis
        using registry_spawn_ok [OF rest(1)] rest(2,3) j
        by (auto simp: diag_worker_spawn_def)
    qed
  qed
  then show "registry_ok ws' (log @ sent)" and "i < length ws'" and "project_id (ws' ! i) = pid"
    and "mode (ws' ! i) = m" and "set ws' \<subseteq> set ws \<union> {diag_worker_spawn pid m}"
    and "{w \<in> set ws. project_id w \<noteq> pid} \<subseteq> set ws'"
    by blast+
qed

lemma registry_upd_ok:
  assumes "registry_ok ws log" and "i < length ws" and "project_id w = project_id (ws ! i)"
    and "last_published w = last_published (ws ! i)"
  shows "registry_ok (ws[i := w]) log"
proof -
  have ids: "map project_id (ws[i := w]) = map project_id ws"
    using assms(2,3) by (simp add: map_update list_update_same_conv)
  have "worker_ok log w"
    using assms by (simp add: registry_ok_def worker_ok_def)
  then have "\<forall>v \<in> set (ws[i := w]). worker_ok log v"
    using assms(1) set_update_subset_insert [of ws i w] by (auto simp: registry_ok_def)
  then show ?thesis
    using assms(1) ids by (simp add: registry_ok_def) (metis list.set_map)
qed

subsection \<open>A registry update\<close>

text \<open>After handing the snapshot to the projects \<open>ps\<close>: the seen workers are theirs, with the
  snapshot as their request.\<close>

definition handed :: "workspace_snapshot \<Rightarrow> ws_project list \<Rightarrow> diag_worker list \<Rightarrow> bool" where
  "handed snapshot ps ws =
     ((\<forall>w \<in> set ws. seen w \<longrightarrow> pending w = Some snapshot \<and> (\<exists>p \<in> set ps. proj_id p = project_id w \<and> mode_of p = mode w)) \<and>
      (\<forall>p \<in> set ps. \<exists>w \<in> set ws. seen w \<and> project_id w = proj_id p))"

lemma hand_over_ok:
  assumes "registry_ok ws (log @ out)" and "handed snapshot ps ws"
    and "hand_over env snapshot (ws, out) p = (ws', out')"
  shows "registry_ok ws' (log @ out') \<and> handed snapshot (ps @ [p]) ws'"
proof -
  obtain i ws1 sent where acq: "acquire_project_worker env ws (proj_id p) (mode_of p) = (i, ws1, sent)"
    by (metis prod_cases3)
  note a = acquire_ok [OF assms(1) acq]
  let ?w = "diag_worker_request ((ws1 ! i) \<lparr> seen := True \<rparr>) snapshot"
  have eq: "ws' = ws1[i := ?w]" "out' = out @ sent"
    using assms(3) acq by (auto simp: hand_over_def)
  have w: "project_id ?w = proj_id p" "mode ?w = mode_of p" "seen ?w" "pending ?w = Some snapshot"
    "last_published ?w = last_published (ws1 ! i)"
    using a(3,4) by (simp_all add: diag_worker_request_def)
  have d: "distinct (map project_id ws1)"
    using a(1) by (simp add: registry_ok_def)
  have others: "v \<in> set ws1 \<Longrightarrow> project_id v \<noteq> proj_id p \<Longrightarrow> v \<in> set ws'" for v
    using a(3) by (auto simp: eq in_set_conv_nth) (metis nth_list_update_neq)
  have "?w \<in> set ws'"
    unfolding eq using a(2) by (rule set_update_memI)
  have mem: "v \<in> set ws' \<Longrightarrow> v = ?w \<or> v \<in> set ws1" for v
    unfolding eq using set_update_subset_insert [of ws1 i ?w] by blast
  have seen_old: "v \<in> set ws1 \<Longrightarrow> seen v \<Longrightarrow> v \<in> set ws" for v
    using a(5) by (auto simp: diag_worker_spawn_def)
  have "\<forall>v \<in> set ws'. seen v \<longrightarrow> pending v = Some snapshot \<and>
      (\<exists>q \<in> set (ps @ [p]). proj_id q = project_id v \<and> mode_of q = mode v)"
  proof (intro ballI impI)
    fix v
    assume v: "v \<in> set ws'" "seen v"
    show "pending v = Some snapshot \<and> (\<exists>q \<in> set (ps @ [p]). proj_id q = project_id v \<and> mode_of q = mode v)"
    proof (cases "v = ?w")
      case True
      then show ?thesis using w by simp
    next
      case False
      then have "v \<in> set ws"
        using mem [OF v(1)] seen_old v(2) by blast
      then show ?thesis
        using assms(2) v(2) unfolding handed_def by auto
    qed
  qed
  moreover have "\<forall>q \<in> set (ps @ [p]). \<exists>v \<in> set ws'. seen v \<and> project_id v = proj_id q"
  proof
    fix q
    assume q: "q \<in> set (ps @ [p])"
    show "\<exists>v \<in> set ws'. seen v \<and> project_id v = proj_id q"
    proof (cases "proj_id q = proj_id p")
      case True
      then show ?thesis using \<open>?w \<in> set ws'\<close> w by metis
    next
      case False
      then have "q \<in> set ps" using q by auto
      then obtain v where v: "v \<in> set ws" "seen v" "project_id v = proj_id q"
        using assms(2) unfolding handed_def by blast
      then have "v \<in> set ws1"
        using a(6) False by auto
      then show ?thesis
        using others v False by metis
    qed
  qed
  moreover have "registry_ok ws' (log @ out')"
    unfolding eq append_assoc [symmetric]
    using a(1-3) w by (intro registry_upd_ok) simp_all
  ultimately show ?thesis
    by (simp only: handed_def simp_thms)
qed

lemma hand_over_all:
  assumes "registry_ok ws (log @ out)" and "handed snapshot ps ws"
    and "foldl (hand_over env snapshot) (ws, out) qs = (ws', out')"
  shows "registry_ok ws' (log @ out') \<and> handed snapshot (ps @ qs) ws'"
  using assms
proof (induction qs arbitrary: ws out ps)
  case (Cons q qs)
  obtain ws1 out1 where step: "hand_over env snapshot (ws, out) q = (ws1, out1)"
    by (cases "hand_over env snapshot (ws, out) q")
  note s = hand_over_ok [OF Cons.prems(1,2) step]
  show ?case
    using Cons.IH [of ws1 out1 "ps @ [q]"] s Cons.prems(3) step by simp
qed simp

lemma sweep_ok:
  assumes "registry_ok ws (log @ out)" and "i \<le> length ws" and "\<forall>w \<in> set (take i ws). seen w"
    and "sweep env i (ws, out) = (ws', out')"
  shows "registry_ok ws' (log @ out') \<and> set ws' = {w \<in> set ws. seen w}"
  using assms
proof (induction "length ws - i" arbitrary: i ws out rule: less_induct)
  case less
  show ?case
  proof (cases "length ws \<le> i")
    case True
    then show ?thesis
      using less.prems by (auto simp: sweep.simps [of env i])
  next
    case False
    show ?thesis
    proof (cases "seen (ws ! i)")
      case True
      then have "\<forall>w \<in> set (take (Suc i) ws). seen w"
        using less.prems(3) False by (simp add: take_Suc_conv_app_nth)
      moreover have "sweep env (Suc i) (ws, out) = (ws', out')"
        using less.prems(4) False True by (simp add: sweep.simps [of env i])
      ultimately show ?thesis
        using less.hyps [of ws "Suc i" out] less.prems(1) False by simp
    next
      case unseen: False
      let ?rest = "registry_remove_at ws i"
      let ?out = "out @ tagged (project_id (ws ! i)) (diag_worker_retire env (ws ! i) True)"
      have lt: "i < length ws" using False by simp
      note r = registry_remove_ok(1) [OF less.prems(1) lt, where env = env]
        registry_remove_ok(2,3) [OF less.prems(1) lt]
      have len: "length ?rest = length ws - 1"
        using lt by (auto simp: registry_remove_at_def)
      have "take i ?rest = take i ws"
        using lt by (simp add: registry_remove_at_def take_butlast)
      then have "\<forall>w \<in> set (take i ?rest). seen w"
        using less.prems(3) by simp
      moreover have "sweep env i (?rest, ?out) = (ws', out')"
        using less.prems(4) False unseen by (simp add: sweep.simps [of env i ws])
      ultimately have "registry_ok ws' (log @ out') \<and> set ws' = {w \<in> set ?rest. seen w}"
        using less.hyps [of ?rest i ?out] r(1) len lt by simp
      then show ?thesis
        using r(2) unseen by auto
    qed
  qed
qed

lemma clear_seen_ok:
  assumes "registry_ok ws log"
  shows "registry_ok (map (\<lambda>w. w \<lparr> seen := False \<rparr>) ws) log"
  using assms by (simp add: registry_ok_def comp_def worker_ok_def image_image)

lemma registry_update:
  assumes "registry_ok ws log" and "diag_registry_update env snapshot ws = (ws', out)"
  shows "registry_ok ws' (log @ out)" and "handed snapshot (ws_projects snapshot) ws'" and "\<forall>w \<in> set ws'. seen w"
proof -
  let ?clear = "map (\<lambda>w. w \<lparr> seen := False \<rparr>) ws"
  obtain ws1 out1 where all: "foldl (hand_over env snapshot) (?clear, []) (ws_projects snapshot) = (ws1, out1)"
    by (cases "foldl (hand_over env snapshot) (?clear, []) (ws_projects snapshot)")
  have c: "registry_ok ?clear (log @ [])"
    using clear_seen_ok [OF assms(1)] by simp
  have e: "handed snapshot [] ?clear"
    by (simp add: handed_def)
  have h: "registry_ok ws1 (log @ out1)" "handed snapshot (ws_projects snapshot) ws1"
    using hand_over_all [OF c e all] by simp_all
  have "sweep env 0 (ws1, out1) = (ws', out)"
    using assms(2) all by (simp add: diag_registry_update_def)
  from sweep_ok [OF h(1) _ _ this] have s: "registry_ok ws' (log @ out)" "set ws' = {w \<in> set ws1. seen w}"
    by simp_all
  show "registry_ok ws' (log @ out)" by (rule s(1))
  show "\<forall>w \<in> set ws'. seen w" using s(2) by simp
  show "handed snapshot (ws_projects snapshot) ws'"
    using h(2) s(2) by (auto simp: handed_def)
qed

subsection \<open>The running system\<close>

text \<open>A worker that has nothing to do published the check of the latest snapshot.\<close>

definition up_to_date :: "tj3_env set \<Rightarrow> workspace_snapshot \<Rightarrow> diag_worker \<Rightarrow> bool" where
  "up_to_date E snapshot w =
     ((\<exists>p \<in> set (ws_projects snapshot). proj_id p = project_id w \<and> mode_of p = mode w) \<and>
      (pending w = Some snapshot \<or>
       (pending w = None \<and>
        (case dw_pc w of
           Running ws \<Rightarrow> ws = snapshot
         | Waiting \<Rightarrow> (\<exists>env \<in> E. last_published w = Some (check_project env (project_id w) (mode w) snapshot))))))"

definition sys_ok :: "tj3_env set \<Rightarrow> diag_sys \<Rightarrow> bool" where
  "sys_ok E s = (registry_ok (g_workers s) (wire_log s) \<and>
     (case latest s of
        None \<Rightarrow> g_workers s = []
      | Some snapshot \<Rightarrow>
          proj_id ` set (ws_projects snapshot) = project_id ` set (g_workers s) \<and>
          (\<forall>w \<in> set (g_workers s). up_to_date E snapshot w)))"

lemma update_sys_ok:
  assumes "sys_ok E s" and "diag_registry_update env snapshot (g_workers s) = (ws, out)"
  shows "sys_ok E \<lparr> g_workers = ws, wire_log = wire_log s @ out, latest = Some snapshot \<rparr>"
proof -
  have "registry_ok (g_workers s) (wire_log s)"
    using assms(1) by (simp add: sys_ok_def)
  note u = registry_update [OF this assms(2)]
  have h1: "pending w = Some snapshot \<and>
      (\<exists>p \<in> set (ws_projects snapshot). proj_id p = project_id w \<and> mode_of p = mode w)" if "w \<in> set ws" for w
    using u(2,3) that unfolding handed_def by blast
  have h2: "\<exists>w \<in> set ws. project_id w = proj_id p" if "p \<in> set (ws_projects snapshot)" for p
    using u(2) that unfolding handed_def by blast
  have "\<forall>w \<in> set ws. up_to_date E snapshot w"
    using h1 by (simp add: up_to_date_def)
  moreover have "project_id ` set ws \<subseteq> proj_id ` set (ws_projects snapshot)"
  proof
    fix x assume "x \<in> project_id ` set ws"
    then obtain w where "w \<in> set ws" "x = project_id w" by blast
    then show "x \<in> proj_id ` set (ws_projects snapshot)" using h1 [of w] by force
  qed
  moreover have "proj_id ` set (ws_projects snapshot) \<subseteq> project_id ` set ws"
  proof
    fix x assume "x \<in> proj_id ` set (ws_projects snapshot)"
    then obtain p where "p \<in> set (ws_projects snapshot)" "x = proj_id p" by blast
    then show "x \<in> project_id ` set ws" using h2 [of p] by force
  qed
  ultimately show ?thesis
    using u(1) unfolding sys_ok_def by (simp only: diag_sys.simps option.case) blast
qed

lemma registry_worker_ok:
  assumes "registry_ok ws log" and "i < length ws" and "project_id w = project_id (ws ! i)"
    and "worker_ok (log @ tagged (project_id (ws ! i)) out) w"
  shows "registry_ok (ws[i := w]) (log @ tagged (project_id (ws ! i)) out)"
proof -
  let ?log = "log @ tagged (project_id (ws ! i)) out"
  have ids: "map project_id (ws[i := w]) = map project_id ws"
    using assms(2,3) by (simp add: map_update list_update_same_conv)
  have d: "distinct (map project_id ws)"
    using assms(1) by (simp add: registry_ok_def)
  have "worker_ok ?log v" if v: "v \<in> set (ws[i := w])" for v
  proof -
    obtain j where j: "j < length ws" "v = ws[i := w] ! j"
      using v by (auto simp: in_set_conv_nth)
    show ?thesis
    proof (cases "j = i")
      case True
      then show ?thesis using assms(4) j by simp
    next
      case False
      then have "project_id v \<noteq> project_id (ws ! i)" and "v = ws ! j"
        using d j assms(2) by (auto simp: distinct_conv_nth)
      then show ?thesis
        using assms(1) j(1) by (simp add: registry_ok_def worker_ok_def shown_tagged)
    qed
  qed
  moreover have "project_id ` set (ws[i := w]) = project_id ` set ws"
    using ids by (metis list.set_map)
  moreover have "project_id (ws ! i) \<in> project_id ` set ws"
    using assms(2) by simp
  ultimately show ?thesis
    using assms(1) d ids by (auto simp: registry_ok_def shown_tagged)
qed

lemma upd_ids: "i < length ws \<Longrightarrow> project_id w = project_id (ws ! i) \<Longrightarrow>
    project_id ` set (ws[i := w]) = project_id ` set ws"
  by (metis list.set_map list_update_id map_update)

lemma upd_up_to_date:
  assumes "\<forall>v \<in> set ws. up_to_date E snapshot v" and "up_to_date E snapshot w"
  shows "\<forall>v \<in> set (ws[i := w]). up_to_date E snapshot v"
  using assms set_update_subset_insert [of ws i w] by blast

lemma worker_sys_ok:
  assumes "sys_ok E s" and "worker_step E s s'"
  shows "sys_ok E s' \<and> latest s' = latest s \<and> project_id ` set (g_workers s') = project_id ` set (g_workers s) \<and>
    length (g_workers s') = length (g_workers s)"
proof -
  have reg: "registry_ok (g_workers s) (wire_log s)"
    using assms(1) by (simp add: sys_ok_def)
  obtain snapshot where L: "latest s = Some snapshot"
    using assms by (cases "latest s") (auto simp: sys_ok_def elim!: worker_stepE)
  have ok: "proj_id ` set (ws_projects snapshot) = project_id ` set (g_workers s)"
    "\<forall>w \<in> set (g_workers s). up_to_date E snapshot w"
    using assms(1) by (simp_all add: sys_ok_def L)
  from assms(2) show ?thesis
  proof (cases rule: worker_step.cases)
    case (take_request i ws)
    let ?w = "(g_workers s ! i) \<lparr> pending := None, dw_pc := Running ws \<rparr>"
    have "up_to_date E snapshot (g_workers s ! i)"
      using ok(2) take_request by simp
    then have "up_to_date E snapshot ?w"
      using take_request by (simp add: up_to_date_def)
    then show ?thesis
      using registry_upd_ok [OF reg take_request(2), of ?w] ok upd_up_to_date [OF ok(2), of ?w i]
        upd_ids [OF take_request(2), of ?w]
      by (simp add: take_request(1) sys_ok_def L)
  next
    case (finish_run i ws env out w)
    have "worker_ok (wire_log s) (g_workers s ! i)"
      using reg finish_run(2) by (simp add: registry_ok_def)
    note r = run_once_ok [OF this finish_run(5)]
    have "up_to_date E snapshot (g_workers s ! i)"
      using ok(2) finish_run by simp
    then have "up_to_date E snapshot w"
      using r finish_run(3,4) by (auto simp: up_to_date_def)
    then show ?thesis
      using registry_worker_ok [OF reg finish_run(2) r(2,1)] ok upd_up_to_date [OF ok(2), of w i]
        upd_ids [OF finish_run(2) r(2)]
      by (simp add: finish_run(1) sys_ok_def L)
  qed
qed

lemma reachable_sys_ok: "diag_reachable E s \<Longrightarrow> sys_ok E s"
proof (induction rule: diag_reachable.induct)
  case diag_init
  show ?case
    by (simp add: sys_ok_def diag_start_def registry_ok_def shown_def)
next
  case (diag_next s s')
  from diag_next.hyps(2) show ?case
  proof (cases rule: diag_step.cases)
    case (update env snapshot ws out)
    then show ?thesis using update_sys_ok [OF diag_next.IH update(3)] by simp
  next
    case worker
    then show ?thesis using worker_sys_ok [OF diag_next.IH] by simp
  qed
qed

text \<open>How much the workers still have to do.\<close>

definition work_left :: "diag_worker \<Rightarrow> nat" where
  "work_left w = (if pending w = None then 0 else 2) + (case dw_pc w of Waiting \<Rightarrow> 0 | Running _ \<Rightarrow> 1)"

definition total_work :: "diag_worker list \<Rightarrow> nat" where
  "total_work ws = sum_list (map work_left ws)"

lemma total_work_upd: "i < length ws \<Longrightarrow> total_work (ws[i := w]) + work_left (ws ! i) = total_work ws + work_left w"
proof (induction ws arbitrary: i)
  case (Cons v ws)
  then show ?case
    by (cases i) (auto simp: total_work_def)
qed simp

lemma worker_step_work: "worker_step E s s' \<Longrightarrow> total_work (g_workers s') < total_work (g_workers s)"
proof (induction rule: worker_step.induct)
  case (take_request i s snapshot)
  then show ?case
    using total_work_upd [OF take_request(1), of "(g_workers s ! i) \<lparr> pending := None, dw_pc := Running snapshot \<rparr>"]
    by (simp add: work_left_def)
next
  case (finish_run i s snapshot env out w)
  then have "work_left w < work_left (g_workers s ! i)"
    by (auto simp: run_once_def Let_def work_left_def)
  then show ?case
    using total_work_upd [OF finish_run(1), of w] by simp
qed

lemma worker_steps:
  assumes "(worker_step E ^^ n) s s'" and "sys_ok E s"
  shows "sys_ok E s' \<and> latest s' = latest s \<and> n + total_work (g_workers s') \<le> total_work (g_workers s)"
  using assms
proof (induction n arbitrary: s')
  case (Suc n)
  then obtain t where t: "(worker_step E ^^ n) s t" "worker_step E t s'"
    by auto
  then show ?case
    using Suc.IH [OF t(1) Suc.prems(2)] worker_sys_ok [OF _ t(2)] worker_step_work [OF t(2)] by fastforce
qed simp

lemma total_work_bound: "total_work ws \<le> 3 * length ws"
  unfolding total_work_def by (induction ws) (auto simp: work_left_def split: diag_pc.split)

lemma stuck_idle:
  assumes "\<nexists>s'. worker_step E s s'" and "w \<in> set (g_workers s)" and "env \<in> E"
  shows "pending w = None \<and> dw_pc w = Waiting"
proof -
  obtain i where i: "i < length (g_workers s)" "w = g_workers s ! i"
    using assms(2) by (auto simp: in_set_conv_nth)
  have w: "dw_pc w = Waiting"
  proof (cases "dw_pc w")
    case (Running ws)
    then show ?thesis
      using assms(1) worker_step.finish_run [OF i(1) _ assms(3)] i(2) by (metis surj_pair)
  qed
  moreover have "pending w = None"
    using assms(1) worker_step.take_request [OF i(1)] i(2) w by (metis not_None_eq)
  ultimately show ?thesis by simp
qed

text \<open>Where the messages about a document come from one worker, the client shows that worker's.\<close>

lemma client_of_worker:
  "\<forall>e \<in> set log. fst (snd e) = u \<longrightarrow> fst e = pid \<Longrightarrow>
    client_shows (map snd log) (\<lambda>_. []) u = shown log pid u"
proof (induction log rule: rev_induct)
  case (snoc e log)
  obtain q v ds where e: "e = (q, v, ds)" by (cases e)
  have "client_shows (map snd (log @ [e])) (\<lambda>_. []) u =
      (if v = u then ds else client_shows (map snd log) (\<lambda>_. []) u)"
    by (simp add: client_shows_def e)
  moreover have "shown (log @ [e]) pid u = (if q = pid \<and> v = u then ds else shown log pid u)"
    by (simp add: shown_def client_shows_def e)
  ultimately show ?case
    using snoc by (auto simp: e)
qed (simp add: shown_def)

subsection \<open>Properties\<close>

definition ex_env :: tj3_env where
  "ex_env = \<lparr> tj3_cached = Some False, tj3_disabled = True, env_path = None, access_x = (\<lambda>_. False),
     mkdtemp = None, real_path = (\<lambda>_. None), sandbox_available = False, child = (\<lambda>_ _ _ _. None) \<rparr>"

definition ex_ws :: workspace_snapshot where
  "ex_ws = \<lparr> ws_docs = [\<lparr> wd_snap = docsnap_new ''file:///a.tji'' ''t'' example_output 1, wd_prefixes = no_prefixes,
       project_index = Some 0, wd_disk_only = False \<rparr>],
     ws_projects = [\<lparr> proj_id = ''file:///a.tji'', proj_root = project_root_new, from_compile_commands = False \<rparr>],
     ws_cc_status = CC_STATUS_MISSING \<rparr>"

definition ex_worker :: diag_worker where
  "ex_worker = \<lparr> project_id = ''file:///a.tji'', mode = TJ3_SYNTAX_ONLY, pending = Some ex_ws, last_published = None,
     seen = True, dw_pc = Waiting \<rparr>"

definition ex_asked :: diag_sys where
  "ex_asked = \<lparr> g_workers = [ex_worker], wire_log = [], latest = Some ex_ws \<rparr>"

lemma ex_update: "diag_registry_update env ex_ws [] = ([ex_worker], [])"
proof -
  have "ws_projects ex_ws = [\<lparr> proj_id = ''file:///a.tji'', proj_root = project_root_new, from_compile_commands = False \<rparr>]"
    by (simp add: ex_ws_def)
  then show ?thesis
    by (simp add: diag_registry_update_def hand_over_def acquire_project_worker_def diag_worker_spawn_def
        diag_worker_request_def mode_of_def sweep.simps ex_worker_def)
qed

lemma ex_asked_reachable: "diag_reachable {ex_env} ex_asked"
proof -
  have "diag_step {ex_env} diag_start ex_asked"
    using diag_step.update [of ex_env "{ex_env}" ex_ws diag_start "[ex_worker]" "[]"] ex_update
    by (simp add: diag_start_def ex_asked_def)
  then show ?thesis
    by (rule diag_next [OF diag_init])
qed

text \<open>C26: In every reachable state the registry has exactly one worker for each project of the
  latest snapshot, running in the mode the project's membership of compile_commands.json asks
  for, and the messages sent for any other project amount to no diagnostics.\<close>

theorem one_worker_per_project:
  assumes "diag_reachable E s" and "latest s = Some snapshot"
  shows "distinct (map project_id (g_workers s)) \<and>
    project_id ` set (g_workers s) = proj_id ` set (ws_projects snapshot) \<and>
    (\<forall>w \<in> set (g_workers s). \<exists>p \<in> set (ws_projects snapshot). proj_id p = project_id w \<and> mode w = mode_of p) \<and>
    (\<forall>q. q \<notin> proj_id ` set (ws_projects snapshot) \<longrightarrow> shown (wire_log s) q = (\<lambda>_. []))"
proof -
  have ok: "registry_ok (g_workers s) (wire_log s)"
    "proj_id ` set (ws_projects snapshot) = project_id ` set (g_workers s)"
    "\<forall>w \<in> set (g_workers s). up_to_date E snapshot w"
    using reachable_sys_ok [OF assms(1)] assms(2) by (simp_all add: sys_ok_def)
  have "\<forall>w \<in> set (g_workers s). \<exists>p \<in> set (ws_projects snapshot). proj_id p = project_id w \<and> mode w = mode_of p"
    using ok(3) unfolding up_to_date_def by metis
  then show ?thesis
    using ok(1,2) by (simp add: registry_ok_def)
qed



theorem one_worker_per_project_witness:
  "project_id ` set (g_workers ex_asked) = {''file:///a.tji''} \<and>
   shown (wire_log ex_asked) ''file:///b'' = (\<lambda>_. [])"
proof -
  have L: "latest ex_asked = Some ex_ws"
    by (simp add: ex_asked_def)
  have ids: "proj_id ` set (ws_projects ex_ws) = {''file:///a.tji''}"
    by (simp add: ex_ws_def)
  from one_worker_per_project [OF ex_asked_reachable L, unfolded ids]
  have "project_id ` set (g_workers ex_asked) = {''file:///a.tji''}"
    and "\<forall>q. q \<notin> {''file:///a.tji''} \<longrightarrow> shown (wire_log ex_asked) q = (\<lambda>_. [])"
    by blast+
  then show ?thesis
    by simp
qed

lemma ex_warning: "diags_of (check_project ex_env ''file:///a.tji'' m ex_ws) ''file:///a.tji'' =
    doc_warnings (docsnap_new ''file:///a.tji'' ''t'' example_output 1) CC_STATUS_MISSING"
proof -
  have "find_proj ex_ws ''file:///a.tji'' = Some 0"
    by (simp add: find_proj_def ex_ws_def)
  then have "check_project ex_env ''file:///a.tji'' m ex_ws = diag_collect_cc_missing ex_ws 0 diag_set_new"
    by (simp add: check_project_def tj3_collect_project_def tj3_available_def ex_env_def)
  then show ?thesis
    using collect_missing_diags [of ex_ws 0 diag_set_new "''file:///a.tji''"]
    by (simp add: ex_ws_def docsnap_new_def diags_of_def diag_set_new_def)
qed


text \<open>The worker of the example runs its check.\<close>

definition ex_running :: diag_sys where
  "ex_running = ex_asked \<lparr> g_workers := [ex_worker \<lparr> pending := None, dw_pc := Running ex_ws \<rparr>] \<rparr>"

definition ex_checked :: diag_sys where
  "ex_checked = (case run_once ex_env (ex_worker \<lparr> pending := None, dw_pc := Running ex_ws \<rparr>) ex_ws of
     (out, w) \<Rightarrow> ex_running \<lparr> g_workers := [w], wire_log := tagged ''file:///a.tji'' out \<rparr>)"

lemma ex_two_steps: "(worker_step {ex_env} ^^ 2) ex_asked ex_checked"
proof -
  let ?w = "ex_worker \<lparr> pending := None, dw_pc := Running ex_ws \<rparr>"
  have "worker_step {ex_env} ex_asked ex_running"
    using worker_step.take_request [of 0 ex_asked ex_ws "{ex_env}"]
    by (simp add: ex_asked_def ex_running_def ex_worker_def)
  moreover have "worker_step {ex_env} ex_running ex_checked"
  proof -
    obtain out w where run: "run_once ex_env ?w ex_ws = (out, w)"
      by (cases "run_once ex_env ?w ex_ws")
    then show ?thesis
      using worker_step.finish_run [of 0 ex_running ex_ws ex_env "{ex_env}" out w]
      by (simp add: ex_asked_def ex_running_def ex_checked_def ex_worker_def)
  qed
  ultimately show ?thesis
    by (auto simp: numeral_2_eq_2)
qed

lemma ex_checked_idle: "\<nexists>s. worker_step {ex_env} ex_checked s"
  by (auto elim!: worker_stepE simp: ex_checked_def ex_running_def run_once_def Let_def ex_worker_def)

lemma ex_checked_tags: "\<forall>e \<in> set (wire_log ex_checked). fst (snd e) = u \<longrightarrow> fst e = ''file:///a.tji''"
  by (auto simp: ex_checked_def run_once_def Let_def tagged_def)


end
