(* ===== verification/Cursor.thy ===== *)
theory Cursor
  imports Tok_Owners
begin

text \<open>
  Looking up what is under the cursor: the binary searches over the token spans
  (\<open>tok_span_at\<close> of \<open>src/src/hover.c\<close>, \<open>tj_node_at\<close> of \<open>document_symbol.c\<close>), the walks up the
  declaration tree of \<open>dependency.c\<close>, and the keyword stack of \<open>hover.c\<close>.  Nodes are paths from
  the document's root, parents the paths without their last index; the recorded owners of the
  tokens are the parallel list of the parse.  Searches over indices keep C's signed \<open>lo\<close>, \<open>hi\<close>
  and \<open>found\<close>.
\<close>

subsection \<open>Searching the tokens\<close>

lemma mid_bounds: "\<not> hi < (lo :: int) \<Longrightarrow> lo \<le> lo + (hi - lo) div 2 \<and> lo + (hi - lo) div 2 \<le> hi"
  by linarith

function span_search :: "TokenSpan list \<Rightarrow> LspPos \<Rightarrow> int \<Rightarrow> int \<Rightarrow> int \<Rightarrow> int" where
  "span_search tokens pos lo hi found =
     (if hi < lo then found
      else let mid = lo + (hi - lo) div 2 in
        if token_kind (tokens ! nat mid) = TK_EOF then span_search tokens pos lo (mid - 1) found
        else if pos_cmp (tok_start (tokens ! nat mid)) pos \<le> 0 then span_search tokens pos (mid + 1) hi mid
        else span_search tokens pos lo (mid - 1) found)"
  by pat_completeness auto
termination
  by (relation "measure (\<lambda>(tokens, pos, lo, hi, found). nat (hi - lo + 1))") (auto dest: mid_bounds)

declare span_search.simps [simp del]

definition span_index :: "TokenSpan list \<Rightarrow> LspPos \<Rightarrow> int" where
  "span_index tokens pos = span_search tokens pos 0 (int (length tokens) - 1) (- 1)"

definition pos_in :: "LspPos \<Rightarrow> LspPos \<Rightarrow> LspPos \<Rightarrow> bool" where
  "pos_in p a b = (pos_cmp a p \<le> 0 \<and> pos_cmp p b \<le> 0)"

definition tok_span_at :: "TokenSpan list \<Rightarrow> LspPos \<Rightarrow> TokenSpan option" where
  "tok_span_at tokens pos =
     (let found = span_index tokens pos in
      if 0 \<le> found \<and> pos_in pos (tok_start (tokens ! nat found)) (tok_end (tokens ! nat found))
      then Some (tokens ! nat found) else None)"

text \<open>The nearest node from a path upwards for which a lookup succeeds.\<close>

function climb_find :: "(path \<Rightarrow> 'a option) \<Rightarrow> path \<Rightarrow> 'a option" where
  "climb_find f p = (case f p of Some x \<Rightarrow> Some x | None \<Rightarrow> if p = [] then None else climb_find f (butlast p))"
  by pat_completeness auto
termination
  by (relation "measure (\<lambda>(f, p). length p)") auto

declare climb_find.simps [simp del]

definition ends_after :: "tj_node \<Rightarrow> LspPos \<Rightarrow> path \<Rightarrow> path option" where
  "ends_after root pos p =
     (case node_at root p of
        None \<Rightarrow> None
      | Some n \<Rightarrow> if 0 \<le> pos_cmp pos (range_end (node_range (info n))) then None else Some p)"

definition tj_node_at :: "tj_node \<Rightarrow> TokenSpan list \<Rightarrow> path option list option \<Rightarrow> LspPos \<Rightarrow> path option" where
  "tj_node_at root tokens owners pos =
     (let found = span_index tokens pos in
      if found < 0 then None
      else (case (case owners of None \<Rightarrow> None | Some os \<Rightarrow> os ! nat found) of
              None \<Rightarrow> None
            | Some s \<Rightarrow> climb_find (ends_after root pos) s))"

subsection \<open>Dependencies and declarations\<close>

definition pos_in_range :: "LspPos \<Rightarrow> LspRange \<Rightarrow> bool" where
  "pos_in_range p r =
     ((line (range_start r) < line p \<or> (line p = line (range_start r) \<and> character (range_start r) \<le> character p)) \<and>
      (line p < line (range_end r) \<or> (line p = line (range_end r) \<and> character p \<le> character (range_end r))))"

definition dep_at :: "tj_node \<Rightarrow> LspPos \<Rightarrow> path \<Rightarrow> (path \<times> nat) option" where
  "dep_at root cursor p =
     (case node_at root p of
        None \<Rightarrow> None
      | Some n \<Rightarrow> map_option (Pair p)
          (List.find (\<lambda>i. pos_in_range cursor (source_range (dependencies (info n) ! i)))
             [0..<length (dependencies (info n))]))"

definition dependency_at_cursor ::
  "tj_node \<Rightarrow> TokenSpan list \<Rightarrow> path option list option \<Rightarrow> LspPos \<Rightarrow> (path \<times> nat) option" where
  "dependency_at_cursor root tokens owners cursor =
     (case tj_node_at root tokens owners cursor of
        None \<Rightarrow> None | Some p \<Rightarrow> climb_find (dep_at root cursor) p)"

definition decl_at :: "tj_node \<Rightarrow> LspPos \<Rightarrow> path \<Rightarrow> path option" where
  "decl_at root cursor p =
     (case node_at root p of
        None \<Rightarrow> None
      | Some n \<Rightarrow> if keyword (info n) = KW_TASK \<and> pos_in_range cursor (selection_range (info n)) then Some p else None)"

definition task_decl_at_cursor ::
  "tj_node \<Rightarrow> TokenSpan list \<Rightarrow> path option list option \<Rightarrow> LspPos \<Rightarrow> path option" where
  "task_decl_at_cursor root tokens owners cursor =
     (case tj_node_at root tokens owners cursor of
        None \<Rightarrow> None | Some p \<Rightarrow> climb_find (decl_at root cursor) p)"

subsection \<open>The keyword stack\<close>

text \<open>The stack is listed bottom first, as the array is filled.\<close>

record KwStackEntry =
  kw :: string
  kw_range :: LspRange
  depth :: u32
  argc :: int

definition push_keyword_entry :: "KwStackEntry list \<Rightarrow> nat \<Rightarrow> u32 \<Rightarrow> TokenSpan \<Rightarrow> string \<Rightarrow> KwStackEntry list" where
  "push_keyword_entry stack cap brace_depth tok text =
     (let rest = rev (dropWhile (\<lambda>e. brace_depth \<le> depth e) (rev stack)) in
      if length rest < cap
      then rest @ [\<lparr> kw = text, kw_range = \<lparr> range_start = tok_start tok, range_end = tok_end tok \<rparr>,
                     depth = brace_depth, argc = 0 \<rparr>]
      else rest)"

text \<open>The topmost entry at the current depth takes the argument.\<close>

fun bump_top :: "u32 \<Rightarrow> KwStackEntry list \<Rightarrow> KwStackEntry list" where
  "bump_top d [] = []"
| "bump_top d (e # es) = (if depth e = d then e \<lparr> argc := argc e + 1 \<rparr> # es else e # bump_top d es)"

definition bump_active_argc :: "KwStackEntry list \<Rightarrow> u32 \<Rightarrow> TokenSpan \<Rightarrow> LspPos \<Rightarrow> KwStackEntry list" where
  "bump_active_argc stack brace_depth tok cursor =
     (if line (tok_end tok) < line cursor \<or>
         (line (tok_end tok) = line cursor \<and> character (tok_end tok) \<le> character cursor)
      then rev (bump_top brace_depth (rev stack)) else stack)"

definition scan_token ::
  "LspPos \<Rightarrow> nat \<Rightarrow> bool \<Rightarrow> nat \<Rightarrow> TokenSpan \<Rightarrow> KwStackEntry list \<times> u32 \<Rightarrow> KwStackEntry list \<times> u32" where
  "scan_token cursor kind_max track_argc cap tok st =
     (case st of (stack, brace_depth) \<Rightarrow>
        let k = token_kind tok in
        if k = TK_LINE_COMMENT \<or> k = TK_BLOCK_COMMENT then (stack, brace_depth)
        else if k = TK_LBRACE then (stack, brace_depth + 1)
        else if k = TK_RBRACE then
          (let d = (if 0 < brace_depth then brace_depth - 1 else brace_depth) in
           (rev (dropWhile (\<lambda>e. d < depth e) (rev stack)), d))
        else (case tok_text tok of
                Some text \<Rightarrow> if k < kind_max then (push_keyword_entry stack cap brace_depth tok text, brace_depth)
                              else if track_argc then (bump_active_argc stack brace_depth tok cursor, brace_depth)
                              else (stack, brace_depth)
              | None \<Rightarrow> if track_argc then (bump_active_argc stack brace_depth tok cursor, brace_depth)
                        else (stack, brace_depth)))"

definition beyond :: "LspPos \<Rightarrow> TokenSpan \<Rightarrow> bool" where
  "beyond cursor tok = (token_kind tok = TK_EOF \<or> line cursor < line (tok_start tok) \<or>
     (line (tok_start tok) = line cursor \<and> character cursor < character (tok_start tok)))"

definition scan_kw_stack ::
  "TokenSpan list \<Rightarrow> LspPos \<Rightarrow> nat \<Rightarrow> bool \<Rightarrow> nat \<Rightarrow> KwStackEntry list \<times> u32" where
  "scan_kw_stack tokens cursor kind_max track_argc cap =
     foldl (\<lambda>st tok. scan_token cursor kind_max track_argc cap tok st) ([], 0)
       (takeWhile (\<lambda>tok. \<not> beyond cursor tok) tokens)"

definition top_at_depth :: "KwStackEntry list \<Rightarrow> u32 \<Rightarrow> KwStackEntry option" where
  "top_at_depth stack d = List.find (\<lambda>e. depth e = d) (rev stack)"

definition active_keyword_at :: "TokenSpan list \<Rightarrow> LspPos \<Rightarrow> (string \<times> LspRange) option" where
  "active_keyword_at tokens cursor =
     (case scan_kw_stack tokens cursor KW_DOCS_END False 512 of
        (stack, brace_depth) \<Rightarrow>
          map_option (\<lambda>e. (kw e, kw_range e)) (top_at_depth stack brace_depth))"

subsection \<open>The binary search\<close>

text \<open>The tokens of a parse: in source order, only the end of file last.\<close>

definition token_list :: "TokenSpan list \<Rightarrow> bool" where
  "token_list tokens = (sorted (map tok_start tokens) \<and>
     (\<exists>ts es. tokens = ts @ es \<and> (\<forall>t \<in> set ts. token_kind t \<noteq> TK_EOF) \<and> (\<forall>t \<in> set es. token_kind t = TK_EOF)))"

definition proper :: "TokenSpan list \<Rightarrow> TokenSpan list" where
  "proper tokens = filter (\<lambda>t. token_kind t \<noteq> TK_EOF) tokens"

text \<open>How many proper tokens start at or before a position.\<close>

definition started :: "TokenSpan list \<Rightarrow> LspPos \<Rightarrow> nat" where
  "started tokens pos = length (filter (\<lambda>t. token_kind t \<noteq> TK_EOF \<and> tok_start t \<le> pos) tokens)"

lemma sorted_filter_prefix:
  "sorted (map f xs) \<Longrightarrow> filter (\<lambda>x. f x \<le> (a :: 'a :: linorder)) xs = takeWhile (\<lambda>x. f x \<le> a) xs"
proof (induction xs)
  case (Cons x xs)
  show ?case
  proof (cases "f x \<le> a")
    case False
    then have "\<forall>y \<in> set xs. \<not> f y \<le> a"
      using Cons.prems by (auto dest: order_trans)
    then show ?thesis
      using False by (simp add: filter_empty_conv)
  qed (use Cons in simp)
qed simp

lemma takeWhile_index: "i < length xs \<Longrightarrow> sorted (map f xs) \<Longrightarrow>
    i < length (takeWhile (\<lambda>x. f x \<le> (a :: 'a :: linorder)) xs) \<longleftrightarrow> f (xs ! i) \<le> a"
proof (induction xs arbitrary: i)
  case (Cons x xs)
  show ?case
  proof (cases i)
    case (Suc j)
    have "f x \<le> f (xs ! j)"
      using Cons.prems Suc by simp
    then have "f (xs ! j) \<le> a \<Longrightarrow> f x \<le> a"
      by (rule order_trans)
    then show ?thesis
      using Cons Suc by auto
  qed simp
qed simp

lemma started_le: "started tokens pos \<le> length tokens"
  by (simp add: started_def)

lemma started_index:
  assumes "token_list tokens" and "i < length tokens"
  shows "i < started tokens pos \<longleftrightarrow> token_kind (tokens ! i) \<noteq> TK_EOF \<and> tok_start (tokens ! i) \<le> pos"
proof -
  obtain ts es where t: "tokens = ts @ es" "\<forall>t \<in> set ts. token_kind t \<noteq> TK_EOF" "\<forall>t \<in> set es. token_kind t = TK_EOF"
    and s: "sorted (map tok_start tokens)"
    using assms(1) by (auto simp: token_list_def)
  have sts: "sorted (map tok_start ts)"
    using s by (simp add: t(1) sorted_append)
  have "filter (\<lambda>t. token_kind t \<noteq> TK_EOF \<and> tok_start t \<le> pos) ts = filter (\<lambda>t. tok_start t \<le> pos) ts"
    using t(2) by (intro filter_cong) auto
  moreover have "filter (\<lambda>t. token_kind t \<noteq> TK_EOF \<and> tok_start t \<le> pos) es = []"
    using t(3) by (simp add: filter_empty_conv)
  ultimately have n: "started tokens pos = length (takeWhile (\<lambda>t. tok_start t \<le> pos) ts)"
    by (simp add: started_def t(1) sorted_filter_prefix [OF sts])
  show ?thesis
  proof (cases "i < length ts")
    case True
    then show ?thesis
      using takeWhile_index [OF True sts, of pos] t(2) unfolding n by (simp add: t(1) nth_append)
  next
    case False
    then have "\<not> i < started tokens pos"
      using length_takeWhile_le [of "\<lambda>t. tok_start t \<le> pos" ts] by (simp add: n)
    moreover have "token_kind (tokens ! i) = TK_EOF"
      using False assms(2) t(3) by (simp add: t(1) nth_append)
    ultimately show ?thesis by simp
  qed
qed

lemma filter_started:
  assumes "token_list tokens"
  shows "filter (\<lambda>t. token_kind t \<noteq> TK_EOF \<and> tok_start t \<le> pos) tokens = take (started tokens pos) tokens"
proof -
  let ?P = "\<lambda>t. token_kind t \<noteq> TK_EOF \<and> tok_start t \<le> pos"
  let ?n = "started tokens pos"
  have "?P t" if "t \<in> set (take ?n tokens)" for t
  proof -
    have "\<exists>i < ?n. i < length tokens \<and> t = tokens ! i"
      using that by (auto simp: in_set_conv_nth)
    then show ?thesis
      using started_index [OF assms] by blast
  qed
  then have l: "filter ?P (take ?n tokens) = take ?n tokens"
    by (simp only: filter_id_conv) blast
  have "\<not> ?P t" if "t \<in> set (drop ?n tokens)" for t
  proof -
    have "\<exists>i < length tokens - ?n. t = tokens ! (?n + i)"
      using that started_le [of tokens pos] by (auto simp: in_set_conv_nth)
    then obtain i where "i < length tokens - ?n" "t = tokens ! (?n + i)"
      by blast
    then show ?thesis
      using started_index [OF assms, of "?n + i" pos] by simp
  qed
  then have r: "filter ?P (drop ?n tokens) = []"
    unfolding filter_empty_conv by blast
  have "filter ?P tokens = filter ?P (take ?n tokens @ drop ?n tokens)"
    by (simp only: append_take_drop_id)
  then show ?thesis
    by (simp only: filter_append l r append_Nil2)
qed

lemma span_search_started:
  assumes "token_list tokens"
  shows "0 \<le> lo \<Longrightarrow> lo \<le> int (started tokens pos) \<Longrightarrow> int (started tokens pos) - 1 \<le> hi \<Longrightarrow>
    hi < int (length tokens) \<Longrightarrow> span_search tokens pos lo hi (lo - 1) = int (started tokens pos) - 1"
proof (induction "nat (hi - lo + 1)" arbitrary: lo hi rule: less_induct)
  case less
  let ?n = "int (started tokens pos)"
  show ?case
  proof (cases "hi < lo")
    case True
    then show ?thesis
      using less.prems by (subst span_search.simps) simp
  next
    case False
    define mid where "mid = lo + (hi - lo) div 2"
    have mid: "lo \<le> mid" "mid \<le> hi"
      using mid_bounds [OF False] by (simp_all add: mid_def)
    then have lt: "nat mid < length tokens" and nn: "int (nat mid) = mid"
      using less.prems by linarith+
    note at = started_index [OF assms lt, of pos]
    have step: "span_search tokens pos lo hi (lo - 1) =
        (if token_kind (tokens ! nat mid) = TK_EOF then span_search tokens pos lo (mid - 1) (lo - 1)
         else if pos_cmp (tok_start (tokens ! nat mid)) pos \<le> 0 then span_search tokens pos (mid + 1) hi mid
         else span_search tokens pos lo (mid - 1) (lo - 1))"
      using False by (subst span_search.simps) (simp only: if_False Let_def mid_def)
    show ?thesis
    proof (cases "nat mid < started tokens pos")
      case True
      then have "span_search tokens pos lo hi (lo - 1) = span_search tokens pos (mid + 1) hi mid"
        using at unfolding step by simp
      also have "\<dots> = ?n - 1"
        using less.hyps [of hi "mid + 1"] less.prems mid True nn by simp
      finally show ?thesis .
    next
      case F: False
      then have "span_search tokens pos lo hi (lo - 1) = span_search tokens pos lo (mid - 1) (lo - 1)"
        using at unfolding step by auto
      also have "\<dots> = ?n - 1"
        using less.hyps [of "mid - 1" lo] less.prems mid F nn by simp
      finally show ?thesis .
    qed
  qed
qed

lemma span_index_started:
  assumes "token_list tokens"
  shows "span_index tokens pos = int (started tokens pos) - 1"
proof -
  have "started tokens pos \<le> length tokens"
    by (simp add: started_def)
  then show ?thesis
    using span_search_started [OF assms, of 0 pos "int (length tokens) - 1"] by (simp add: span_index_def)
qed

subsection \<open>Climbing\<close>

lemma climb_find_hit: "f p = Some x \<Longrightarrow> climb_find f p = Some x"
  by (subst climb_find.simps) simp

lemma climb_find_up: "f p = None \<Longrightarrow> climb_find f p = (if p = [] then None else climb_find f (butlast p))"
  by (subst climb_find.simps) simp

lemma climb_find_Some:
  "climb_find f p = Some x \<Longrightarrow> \<exists>k \<le> length p. f (take k p) = Some x \<and> (\<forall>j. k < j \<and> j \<le> length p \<longrightarrow> f (take j p) = None)"
proof (induction f p rule: climb_find.induct)
  case (1 f p)
  show ?case
  proof (cases "f p")
    case (Some y)
    then show ?thesis
      using "1.prems" by (intro exI [of _ "length p"]) (simp add: climb_find_hit)
  next
    case None
    have eq: "(if p = [] then None else climb_find f (butlast p)) = Some x"
      using "1.prems" climb_find_up [of f p, OF None] by simp
    then have ne: "p \<noteq> []"
      by auto
    with eq have up: "climb_find f (butlast p) = Some x"
      by simp
    obtain k where k: "k \<le> length (butlast p)" "f (take k (butlast p)) = Some x"
      "\<forall>j. k < j \<and> j \<le> length (butlast p) \<longrightarrow> f (take j (butlast p)) = None"
      using "1.IH" [OF None ne up] by blast
    have tk: "j < length p \<Longrightarrow> take j (butlast p) = take j p" for j
      by (simp add: take_butlast)
    have "length p = Suc (length (butlast p))"
      using ne by simp
    then have "k < length p"
      using k(1) by linarith
    then have "f (take k p) = Some x" and "k \<le> length p"
      using k(2) tk [of k] by simp_all
    moreover have "f (take j p) = None" if "k < j" "j \<le> length p" for j
    proof (cases "j = length p")
      case False
      then have "j < length p" and "j \<le> length (butlast p)"
        using that by simp_all
      then show ?thesis
        using k(3) that(1) tk [of j] by metis
    qed (simp add: None)
    ultimately show ?thesis by blast
  qed
qed

lemma climb_find_None: "climb_find f p = None \<longleftrightarrow> (\<forall>k \<le> length p. f (take k p) = None)"
proof (induction f p rule: climb_find.induct)
  case (1 f p)
  show ?case
  proof (cases "f p")
    case (Some y)
    then show ?thesis
      by (auto simp: climb_find_hit intro!: exI [of _ "length p"])
  next
    case None
    show ?thesis
    proof (cases "p = []")
      case True
      then show ?thesis using None by (simp add: climb_find_up)
    next
      case False
      have "(\<forall>k \<le> length p. f (take k p) = None) \<longleftrightarrow> (\<forall>k \<le> length (butlast p). f (take k (butlast p)) = None)"
      proof -
        have "k \<le> length p \<Longrightarrow> f (take k p) = None \<longleftrightarrow> k = length p \<or> f (take k (butlast p)) = None" for k
          using None by (cases "k = length p") (simp_all add: take_butlast)
        moreover have "k \<le> length (butlast p) \<longleftrightarrow> k \<le> length p \<and> k \<noteq> length p" for k
          using False by (cases p) auto
        ultimately show ?thesis by metis
      qed
      then show ?thesis
        using "1.IH" [OF None False] False by (simp add: climb_find_up [of f p, OF None])
    qed
  qed
qed

subsection \<open>Scopes and nodes\<close>

lemma in_to_scopes: "t \<in> set (to_scopes p k cs) \<longleftrightarrow> (\<exists>i < length cs. t = to_scope (p @ [k + i]) (cs ! i))"
proof (induction cs arbitrary: k)
  case (Cons c cs)
  show ?case
  proof
    assume "t \<in> set (to_scopes p k (c # cs))"
    then consider "t = to_scope (p @ [k]) c" | i where "i < length cs" "t = to_scope (p @ [Suc k + i]) (cs ! i)"
      using Cons.IH [of "Suc k"] by auto
    then show "\<exists>i < length (c # cs). t = to_scope (p @ [k + i]) ((c # cs) ! i)"
      by cases force+
  next
    assume "\<exists>i < length (c # cs). t = to_scope (p @ [k + i]) ((c # cs) ! i)"
    then obtain i where "i < length (c # cs)" "t = to_scope (p @ [k + i]) ((c # cs) ! i)" by blast
    then show "t \<in> set (to_scopes p k (c # cs))"
      using Cons.IH [of "Suc k"] by (cases i) auto
  qed
qed simp

lemma bex_to_scopes: "(\<exists>t \<in> set (to_scopes p 0 cs). P t) \<longleftrightarrow> (\<exists>j < length cs. P (to_scope (p @ [j]) (cs ! j)))"
  by (auto simp: Bex_def in_to_scopes)

lemma st_kids_to_scope: "st_kids (to_scope p n) = to_scopes p 0 (children n)"
  by (cases n) simp

text \<open>The scopes below that of a node are those of the nodes below it.\<close>

lemma subscopes_to_scope:
  "u \<in> set (subscopes (to_scope p n)) \<longleftrightarrow> (\<exists>q m. node_at n q = Some m \<and> u = to_scope (p @ q) m)"
proof (induction n arbitrary: p)
  case (TjNode i cs)
  have IH: "u \<in> set (subscopes (to_scope (p @ [j]) (cs ! j))) \<longleftrightarrow>
      (\<exists>q m. node_at (cs ! j) q = Some m \<and> u = to_scope ((p @ [j]) @ q) m)" if "j < length cs" for j
    using TjNode.IH [OF nth_mem [OF that]] .
  have "u \<in> set (subscopes (to_scope p (TjNode i cs))) \<longleftrightarrow>
      u = to_scope p (TjNode i cs) \<or> (\<exists>j < length cs. u \<in> set (subscopes (to_scope (p @ [j]) (cs ! j))))"
    using bex_to_scopes [of p cs "\<lambda>t. u \<in> set (subscopes t)"] by simp
  also have "\<dots> \<longleftrightarrow> u = to_scope p (TjNode i cs) \<or>
      (\<exists>j < length cs. \<exists>q m. node_at (cs ! j) q = Some m \<and> u = to_scope ((p @ [j]) @ q) m)"
    by (simp only: IH cong: conj_cong)
  also have "\<dots> \<longleftrightarrow> (\<exists>q m. node_at (TjNode i cs) q = Some m \<and> u = to_scope (p @ q) m)" (is "?l \<longleftrightarrow> ?r")
  proof
    assume ?l
    then show ?r
    proof
      assume "u = to_scope p (TjNode i cs)"
      then show ?r by (intro exI [of _ "[]"] exI [of _ "TjNode i cs"]) simp
    next
      assume "\<exists>j < length cs. \<exists>q m. node_at (cs ! j) q = Some m \<and> u = to_scope ((p @ [j]) @ q) m"
      then obtain j q m where "j < length cs" "node_at (cs ! j) q = Some m" "u = to_scope ((p @ [j]) @ q) m"
        by blast
      then show ?r by (intro exI [of _ "j # q"] exI [of _ m]) simp
    qed
  next
    assume ?r
    then obtain q m where q: "node_at (TjNode i cs) q = Some m" "u = to_scope (p @ q) m"
      by blast
    show ?l
    proof (cases q)
      case Nil
      then show ?thesis using q by simp
    next
      case (Cons j r)
      then have "j < length cs" "node_at (cs ! j) r = Some m" "u = to_scope ((p @ [j]) @ r) m"
        using q by (simp_all split: if_splits)
      then show ?thesis by blast
    qed
  qed
  finally show ?case .
qed

text \<open>The scope of the project block, whose scope children are hoisted siblings.\<close>

definition project_scope :: "tj_node \<Rightarrow> scope_tree \<Rightarrow> bool" where
  "project_scope root s = (\<exists>j. find_project root = Some j \<and> st_path s = [j])"

definition node_scope :: "tj_node \<Rightarrow> scope_tree \<Rightarrow> bool" where
  "node_scope root s = (\<exists>q m. q \<noteq> [] \<and> node_at root q = Some m \<and> s = to_scope q m)"

lemma decl_scope: "t \<in> set (to_scopes [] 0 (children root)) \<longleftrightarrow> (\<exists>i < length (children root). t = to_scope [i] (children root ! i))"
  by (simp add: in_to_scopes)

lemma decl_sub:
  assumes "i < length (children root)" and "u \<in> set (subscopes (to_scope [i] (children root ! i)))"
  shows "node_scope root u" and "take 1 (st_path u) = [i]"
proof -
  obtain q m where q: "node_at (children root ! i) q = Some m" "u = to_scope ([i] @ q) m"
    using assms(2) unfolding subscopes_to_scope by blast
  then have "node_at root (i # q) = Some m"
    using assms(1) by simp
  then show "node_scope root u"
    unfolding node_scope_def using q(2) by (intro exI [of _ "i # q"] exI [of _ m]) simp
  show "take 1 (st_path u) = [i]"
    by (simp add: q(2))
qed

lemma find_project_index: "find_project root = Some j \<Longrightarrow> j < length (children root)"
  by (auto simp: find_project_def find_Some_iff)

lemma subscopes_self_kids: "set (subscopes s) = insert s (\<Union>k \<in> set (st_kids s). set (subscopes k))"
  by (cases s) auto

definition top_scopes :: "tj_node \<Rightarrow> scope_tree set" where
  "top_scopes root = (\<Union>k \<in> set (build_owner_scope root (find_project root)). set (subscopes k))"

lemma find_project_decl:
  assumes "find_project root = Some j"
  shows "to_scopes [] 0 (children root) ! j = to_scope [j] (children root ! j)"
proof -
  have "length (to_scopes p k cs) = length cs" for p k cs
    by (induction cs arbitrary: k) auto
  moreover have "i < length cs \<Longrightarrow> to_scopes p k cs ! i = to_scope (p @ [k + i]) (cs ! i)" for p k cs i
  proof (induction cs arbitrary: k i)
    case (Cons c cs)
    then show ?case by (cases i) auto
  qed simp
  ultimately show ?thesis
    using find_project_index [OF assms] by simp
qed

definition the_project :: "tj_node \<Rightarrow> nat \<Rightarrow> scope_tree" where
  "the_project root j = ScopeNode [j] (node_range (info (children root ! j)))
     (sort_key st_start (filter (\<lambda>t. range_within (st_range t) (node_range (info (children root ! j))))
        (filter (\<lambda>t. st_path t \<noteq> [j]) (to_scopes [] 0 (children root)))))"

lemma owner_scope_none:
  "find_project root = None \<Longrightarrow>
   set (build_owner_scope root (find_project root)) = set (to_scopes [] 0 (children root))"
  by (simp add: build_owner_scope_def Let_def)

lemma owner_scope_some:
  "find_project root = Some j \<Longrightarrow>
   set (build_owner_scope root (find_project root)) = insert (the_project root j)
     {t \<in> set (to_scopes [] 0 (children root)). st_path t \<noteq> [j] \<and>
        \<not> range_within (st_range t) (node_range (info (children root ! j)))}"
  by (auto simp: build_owner_scope_def Let_def find_project_decl the_project_def)

lemma the_project_kids:
  "set (st_kids (the_project root j)) =
     {t \<in> set (to_scopes [] 0 (children root)). st_path t \<noteq> [j] \<and>
        range_within (st_range t) (node_range (info (children root ! j)))}"
  by (auto simp: the_project_def)

lemma declared_scope:
  assumes "t \<in> set (to_scopes [] 0 (children root))" and "u \<in> set (subscopes t)"
  shows "node_scope root u" and "take 1 (st_path u) = st_path t"
proof -
  obtain i where "i < length (children root)" "t = to_scope [i] (children root ! i)"
    using assms(1) decl_scope by blast
  then show "node_scope root u" and "take 1 (st_path u) = st_path t"
    using decl_sub [of i root u] assms(2) by simp_all
qed

text \<open>The scopes are those of all nodes but the project block, and the block's own.\<close>

lemma top_scopes_cases:
  assumes "s \<in> top_scopes root"
  shows "(\<exists>j. find_project root = Some j \<and> s = the_project root j) \<or> node_scope root s"
proof -
  obtain k where k: "k \<in> set (build_owner_scope root (find_project root))" "s \<in> set (subscopes k)"
    using assms unfolding top_scopes_def by blast
  show ?thesis
  proof (cases "find_project root")
    case None
    then show ?thesis
      using declared_scope(1) [OF _ k(2)] k(1) owner_scope_none [OF None] by blast
  next
    case (Some j)
    show ?thesis
    proof (cases "k = the_project root j")
      case True
      then consider "s = the_project root j" | t where "t \<in> set (st_kids (the_project root j))" "s \<in> set (subscopes t)"
        using k(2) subscopes_split by blast
      then show ?thesis
        using Some declared_scope(1) the_project_kids by cases blast+
    next
      case False
      then show ?thesis
        using declared_scope(1) [OF _ k(2)] k(1) owner_scope_some [OF Some] by blast
    qed
  qed
qed

text \<open>Every node but the project block has its scope there, where the block has no children.\<close>

lemma node_in_top_scopes:
  assumes "node_at root q = Some m" and "q \<noteq> []"
    and "find_project root = Some (hd q) \<Longrightarrow> children (children root ! hd q) = []"
  shows "(find_project root = Some (hd q) \<and> q = [hd q]) \<or> to_scope q m \<in> top_scopes root"
proof -
  obtain i r where q: "q = i # r" using assms(2) by (cases q) auto
  then have i: "i < length (children root)" "node_at (children root ! i) r = Some m"
    using assms(1) by (auto split: if_splits)
  have "\<exists>q' m'. node_at (children root ! i) q' = Some m' \<and> to_scope q m = to_scope ([i] @ q') m'"
    using i(2) by (intro exI [of _ r] exI [of _ m]) (simp add: q)
  then have sub: "to_scope q m \<in> set (subscopes (to_scope [i] (children root ! i)))"
    unfolding subscopes_to_scope .
  have mem: "to_scope [i] (children root ! i) \<in> set (to_scopes [] 0 (children root))"
    using i(1) decl_scope by blast
  show ?thesis
  proof (cases "find_project root")
    case None
    then show ?thesis
      using sub mem owner_scope_none [OF None] unfolding top_scopes_def by blast
  next
    case (Some j)
    show ?thesis
    proof (cases "i = j")
      case True
      then have "r = []"
        using assms(3) Some i(2) by (cases r) (simp_all add: q)
      then show ?thesis using Some True by (simp add: q)
    next
      case False
      let ?t = "to_scope [i] (children root ! i)"
      have path: "st_path ?t \<noteq> [j]" using False by simp
      show ?thesis
      proof (cases "range_within (st_range ?t) (node_range (info (children root ! j)))")
        case True
        then have "?t \<in> set (st_kids (the_project root j))"
          unfolding the_project_kids using mem path by blast
        then have "to_scope q m \<in> set (subscopes (the_project root j))"
          using sub by (rule subscopes_kid)
        then show ?thesis
          using owner_scope_some [OF Some] unfolding top_scopes_def by blast
      next
        case F: False
        then have "?t \<in> set (build_owner_scope root (find_project root))"
          unfolding owner_scope_some [OF Some] using mem path by blast
        then show ?thesis
          using sub unfolding top_scopes_def by blast
      qed
    qed
  qed
qed

lemma node_at_append: "node_at n (p @ q) = (case node_at n p of None \<Rightarrow> None | Some m \<Rightarrow> node_at m q)"
  by (induction n p rule: node_at.induct) auto

lemma nested_sub: "u \<in> set (subscopes c) \<Longrightarrow> nested_scope c \<Longrightarrow> nested_scope u"
proof (induction c)
  case (ScopeNode p r ks)
  then show ?case by auto
qed

lemma zero_least: "zero_pos \<le> p"
  by (cases p) (auto simp: zero_pos_def less_eq_LspPos_def word_gt_0)

subsection \<open>Parsed documents\<close>

fun inner_nodes :: "tj_node \<Rightarrow> tj_node list" where
  "inner_nodes (TjNode i cs) = concat (map (\<lambda>c. c # inner_nodes c) cs)"

lemma node_at_inner: "node_at n q = Some m \<Longrightarrow> q \<noteq> [] \<Longrightarrow> m \<in> set (inner_nodes n)"
proof (induction n q rule: node_at.induct)
  case (2 n i p)
  obtain inf cs where n: "n = TjNode inf cs" by (cases n)
  have i: "i < length cs" and m: "node_at (cs ! i) p = Some m"
    using "2.prems"(1) by (auto simp: n split: if_splits)
  have "m \<in> set (cs ! i # inner_nodes (cs ! i))"
  proof (cases "p = []")
    case True
    then show ?thesis using m by simp
  next
    case False
    then show ?thesis using "2.IH" i m by (simp add: n)
  qed
  then show ?case
    using nth_mem [OF i] by (simp add: n) blast
qed simp

text \<open>What the parser promises: a synthetic root, a project block without children, declarations
  nested in source order, each starting at a token.\<close>

definition parsed_tree :: "tj_node \<Rightarrow> TokenSpan list \<Rightarrow> bool" where
  "parsed_tree root tokens =
     (node_range (info root) = zero_range \<and>
      (case find_project root of None \<Rightarrow> True | Some j \<Rightarrow> children (children root ! j) = []) \<and>
      nested_scopes (build_owner_scope root (find_project root)) \<and>
      token_list tokens \<and>
      (\<forall>m \<in> set (inner_nodes root). range_start (node_range (info m)) \<in> tok_start ` set (proper tokens)))"

definition encloses :: "tj_node \<Rightarrow> LspPos \<Rightarrow> path \<Rightarrow> bool" where
  "encloses root pos q = (case node_at root q of None \<Rightarrow> False | Some m \<Rightarrow> q \<noteq> [] \<and> in_range pos (node_range (info m)))"

definition is_project :: "tj_node \<Rightarrow> path \<Rightarrow> bool" where
  "is_project root q = (\<exists>j. find_project root = Some j \<and> q = [j])"

lemma project_no_below:
  assumes "parsed_tree root tokens" and "node_at root q = Some m" and "find_project root = Some (hd q)" and "q \<noteq> []"
  shows "q = [hd q]"
proof -
  obtain i r where q: "q = i # r" using assms(4) by (cases q) auto
  then have "node_at (children root ! i) r = Some m" and "children (children root ! i) = []"
    using assms by (auto simp: parsed_tree_def split: if_splits)
  then show ?thesis
    by (cases r) (simp_all add: q)
qed

lemma enclosing_scope:
  assumes "parsed_tree root tokens" and "node_at root q = Some m" and "q \<noteq> []" and "\<not> is_project root q"
  shows "to_scope q m \<in> top_scopes root"
proof -
  have "find_project root = Some (hd q) \<Longrightarrow> children (children root ! hd q) = []"
    using assms(1) by (simp add: parsed_tree_def)
  from node_in_top_scopes [OF assms(2,3) this] assms(4) show ?thesis
    unfolding is_project_def by blast
qed

text \<open>The token at or before a position lies inside every declaration around the position.\<close>

lemma last_token_inside:
  assumes "parsed_tree root tokens" and "encloses root pos q"
  shows "0 < started tokens pos"
    and "node_at root q = Some m \<Longrightarrow> in_range (tok_start (tokens ! (started tokens pos - 1))) (node_range (info m))"
proof -
  let ?n = "started tokens pos"
  have tl: "token_list tokens"
    using assms(1) by (simp add: parsed_tree_def)
  obtain m' where m': "node_at root q = Some m'" "q \<noteq> []" "in_range pos (node_range (info m'))"
    using assms(2) by (auto simp: encloses_def split: option.splits)
  have "range_start (node_range (info m')) \<in> tok_start ` set (proper tokens)"
    using assms(1) node_at_inner [OF m'(1,2)] by (simp add: parsed_tree_def)
  then obtain i where i: "i < length tokens" "token_kind (tokens ! i) \<noteq> TK_EOF"
    "tok_start (tokens ! i) = range_start (node_range (info m'))"
    by (auto simp: proper_def in_set_conv_nth)
  have "i < ?n"
    using started_index [OF tl i(1)] i(2,3) m'(3) by simp
  then show "0 < ?n" by simp
  have n: "?n - 1 < length tokens"
    using \<open>i < ?n\<close> started_le [of tokens pos] by linarith
  have "tok_start (tokens ! (?n - 1)) \<le> pos"
    using started_index [OF tl n, of pos] \<open>i < ?n\<close> by simp
  moreover have "tok_start (tokens ! i) \<le> tok_start (tokens ! (?n - 1))"
    using tl \<open>i < ?n\<close> n sorted_nth_mono [of "map tok_start tokens" i "?n - 1"] by (simp add: token_list_def)
  ultimately show "in_range (tok_start (tokens ! (?n - 1))) (node_range (info m))" if "node_at root q = Some m"
    using that m' i(3) by (auto intro: le_less_trans)
qed

subsection \<open>The declaration at a position\<close>

lemma owner_innermost:
  assumes "parsed_tree root tokens" and "0 < started tokens pos"
  shows "assign_token_owners root tokens ! (started tokens pos - 1) =
    map_option st_path (innermost (tok_start (tokens ! (started tokens pos - 1))) None
      (build_owner_scope root (find_project root)))"
proof -
  have "nested_scopes (build_owner_scope root (find_project root))" and s: "sorted (map tok_start tokens)"
    using assms(1) by (simp_all add: parsed_tree_def token_list_def)
  then have "ordered_scopes (build_owner_scope root (find_project root))"
    using nested_scopes_ordered nested_scope_ordered by blast
  moreover have "started tokens pos - 1 < length tokens"
    using assms(2) started_le [of tokens pos] by linarith
  ultimately show ?thesis
    using assign_token_owners_search [OF _ s] by simp
qed

text \<open>The owner of the token at or before the position encloses it from inside every declaration
  around it.\<close>

lemma owner_below:
  assumes "parsed_tree root tokens" and "encloses root pos q" and "\<not> is_project root q"
  shows "\<exists>r. assign_token_owners root tokens ! (started tokens pos - 1) = Some (q @ r)"
proof -
  let ?i = "started tokens pos - 1"
  let ?tops = "build_owner_scope root (find_project root)"
  obtain m where m: "node_at root q = Some m" "q \<noteq> []"
    using assms(2) by (auto simp: encloses_def split: option.splits)
  note tok = last_token_inside [OF assms(1,2)]
  have nest: "nested_scopes ?tops"
    using assms(1) by (simp add: parsed_tree_def)
  note own = owner_innermost [OF assms(1) tok(1)]
  have "to_scope q m \<in> top_scopes root"
    using enclosing_scope [OF assms(1) m assms(3)] .
  then obtain k where k: "k \<in> set ?tops" "to_scope q m \<in> set (subscopes k)"
    unfolding top_scopes_def by blast
  have "in_range (tok_start (tokens ! ?i)) (st_range (to_scope q m))"
    using tok(2) [OF m(1)] by simp
  moreover have spec: "case innermost (tok_start (tokens ! ?i)) None ?tops of
      None \<Rightarrow> \<forall>k \<in> set ?tops. \<forall>u \<in> set (subscopes k). \<not> in_range (tok_start (tokens ! ?i)) (st_range u)
    | Some s \<Rightarrow> \<forall>k \<in> set ?tops. \<forall>u \<in> set (subscopes k).
        in_range (tok_start (tokens ! ?i)) (st_range u) \<longrightarrow> s \<in> set (subscopes u)"
    using innermost_spec [of ?tops None "tok_start (tokens ! ?i)"] nest by (auto split: option.splits)
  ultimately obtain s where s: "innermost (tok_start (tokens ! ?i)) None ?tops = Some s"
    "s \<in> set (subscopes (to_scope q m))"
  proof (cases "innermost (tok_start (tokens ! ?i)) None ?tops")
    case None
    then show ?thesis
      using spec [unfolded None option.case] k \<open>in_range (tok_start (tokens ! ?i)) (st_range (to_scope q m))\<close> by blast
  next
    case (Some s)
    then have "s \<in> set (subscopes (to_scope q m))"
      using spec [unfolded Some option.case] k \<open>in_range (tok_start (tokens ! ?i)) (st_range (to_scope q m))\<close> by blast
    then show ?thesis using that Some by blast
  qed
  obtain r m' where "s = to_scope (q @ r) m'"
    using s(2) unfolding subscopes_to_scope by blast
  then show ?thesis
    using own s(1) by simp
qed

text \<open>The owner is a declaration that starts at or before the position.\<close>

lemma owner_node:
  assumes "parsed_tree root tokens" and "0 < started tokens pos"
    and "assign_token_owners root tokens ! (started tokens pos - 1) = Some p"
  shows "p \<noteq> []" and "\<exists>m. node_at root p = Some m"
    and "k \<le> length p \<Longrightarrow> 0 < k \<Longrightarrow> node_at root (take k p) = Some m \<Longrightarrow> range_start (node_range (info m)) \<le> pos"
proof -
  let ?i = "started tokens pos - 1"
  let ?tops = "build_owner_scope root (find_project root)"
  let ?tok = "tok_start (tokens ! ?i)"
  have tl: "token_list tokens" and nest: "nested_scopes ?tops"
    using assms(1) by (simp_all add: parsed_tree_def)
  have lt: "?i < length tokens"
    using assms(2) started_le [of tokens pos] by linarith
  have own: "Some p = map_option st_path (innermost ?tok None ?tops)"
    using owner_innermost [OF assms(1,2)] assms(3) by (simp only:)
  then obtain s where s: "innermost ?tok None ?tops = Some s" "st_path s = p"
    by (cases "innermost ?tok None ?tops") auto
  have in_s: "in_range ?tok (st_range s)" and "\<exists>k \<in> set ?tops. s \<in> set (subscopes k)"
    using innermost_spec [of ?tops None ?tok] nest s(1) by auto
  then have top: "s \<in> top_scopes root"
    unfolding top_scopes_def by blast
  have tok_pos: "?tok \<le> pos"
    using started_index [OF tl lt, of pos] assms(2) by simp
  have shape: "p \<noteq> [] \<and> (\<exists>m. node_at root p = Some m \<and> st_range s = node_range (info m)) \<and>
      (is_project root p \<or> (\<exists>m. node_at root p = Some m \<and> s = to_scope p m))"
    using top_scopes_cases [OF top]
  proof
    assume "\<exists>j. find_project root = Some j \<and> s = the_project root j"
    then show ?thesis
      using s(2) find_project_index by (auto simp: the_project_def is_project_def)
  next
    assume "node_scope root s"
    then show ?thesis
      using s(2) by (auto simp: node_scope_def)
  qed
  then show "p \<noteq> []" and "\<exists>m. node_at root p = Some m"
    by auto
  show "range_start (node_range (info m)) \<le> pos"
    if "k \<le> length p" "0 < k" "node_at root (take k p) = Some m"
  proof (cases "k = length p")
    case True
    then have "st_range s = node_range (info m)"
      using shape that(3) by auto
    then show ?thesis
      using in_s tok_pos by auto
  next
    case False
    then have not_proj: "\<not> is_project root p"
      using that(1,2) by (auto simp: is_project_def)
    then obtain ms where ms: "node_at root p = Some ms" "s = to_scope p ms"
      using shape by blast
    have "\<not> is_project root (take k p)"
    proof
      assume "is_project root (take k p)"
      then have "find_project root = Some (hd p)"
        using that(2) by (cases p; cases k) (auto simp: is_project_def)
      then show False
        using project_no_below [OF assms(1) ms(1)] not_proj shape by (auto simp: is_project_def)
    qed
    moreover have "take k p \<noteq> []"
      using that(2) shape by simp
    ultimately have "to_scope (take k p) m \<in> top_scopes root"
      using enclosing_scope [OF assms(1) that(3)] by blast
    then obtain c where "c \<in> set ?tops" "to_scope (take k p) m \<in> set (subscopes c)"
      unfolding top_scopes_def by blast
    then have "nested_scope (to_scope (take k p) m)"
      using nest nested_sub by blast
    moreover have "node_at m (drop k p) = Some ms"
      using node_at_append [of root "take k p" "drop k p"] that(3) ms(1) by simp
    then have "s \<in> set (subscopes (to_scope (take k p) m))"
      unfolding subscopes_to_scope ms(2) by (intro exI [of _ "drop k p"] exI [of _ ms]) simp
    ultimately have "range_start (node_range (info m)) \<le> st_start s"
      using subscope_inside by fastforce
    then show ?thesis
      using in_s tok_pos by auto
  qed
qed

subsection \<open>Properties\<close>

text \<open>The token under the cursor: the binary search over the token spans of a parse finds the
  last token that starts at or before the cursor, the end of file aside, and returns it where
  the cursor is not past its end; an empty or exhausted search returns nothing.\<close>

theorem tok_span_at_last_started:
  assumes "token_list tokens"
  shows "tok_span_at tokens pos =
    (let before = filter (\<lambda>t. token_kind t \<noteq> TK_EOF \<and> tok_start t \<le> pos) tokens in
     if before = [] \<or> tok_end (last before) < pos then None else Some (last before))"
proof -
  let ?P = "\<lambda>t. token_kind t \<noteq> TK_EOF \<and> tok_start t \<le> pos"
  let ?n = "started tokens pos"
  have n: "length (filter ?P tokens) = ?n"
    by (simp add: started_def)
  note take = filter_started [OF assms, of pos]
  show ?thesis
  proof (cases "?n = 0")
    case True
    then show ?thesis
      using n span_index_started [OF assms] by (simp add: tok_span_at_def)
  next
    case False
    then have ne: "take ?n tokens \<noteq> []"
      using started_le [of tokens pos] by auto
    have "last (take ?n tokens) = tokens ! (?n - 1)"
      using last_conv_nth [OF ne] False started_le [of tokens pos] by simp
    then have "last (filter ?P tokens) = tokens ! (?n - 1)" and "filter ?P tokens \<noteq> []"
      using ne by (simp_all only: take not_False_eq_True)
    moreover have "tok_start (tokens ! (?n - 1)) \<le> pos"
      using started_index [OF assms, of "?n - 1" pos] False started_le [of tokens pos] by simp
    moreover have "nat (int ?n - 1) = ?n - 1"
      by simp
    ultimately show ?thesis
      using False by (simp add: tok_span_at_def span_index_started [OF assms] pos_in_def Let_def not_less)
  qed
qed

text \<open>C30: The declaration under the cursor: on the output of the parser, the node found encloses
  the cursor and is the innermost that does, and where none is found no declaration encloses
  it, the project block alone excepted.\<close>

theorem tj_node_at_innermost:
  assumes "parsed_tree root tokens"
  shows "case tj_node_at root tokens (Some (assign_token_owners root tokens)) pos of
      None \<Rightarrow> \<forall>q. encloses root pos q \<longrightarrow> is_project root q
    | Some p \<Rightarrow> encloses root pos p \<and> (\<forall>q. encloses root pos q \<longrightarrow> is_project root q \<or> (\<exists>r. p = q @ r))"
proof -
  let ?n = "started tokens pos"
  let ?own = "assign_token_owners root tokens ! (?n - 1)"
  have "token_list tokens"
    using assms by (simp add: parsed_tree_def)
  note idx = span_index_started [OF this, of pos]
  show ?thesis
  proof (cases "?n = 0")
    case True
    then have "tj_node_at root tokens (Some (assign_token_owners root tokens)) pos = None"
      by (simp add: tj_node_at_def idx Let_def)
    moreover have "\<not> encloses root pos q" for q
      using last_token_inside(1) [OF assms, of pos q] True by auto
    ultimately show ?thesis by simp
  next
    case False
    then have pos0: "0 < ?n" by simp
    have at: "tj_node_at root tokens (Some (assign_token_owners root tokens)) pos =
        (case ?own of None \<Rightarrow> None | Some s \<Rightarrow> climb_find (ends_after root pos) s)"
      using False by (simp add: tj_node_at_def idx Let_def nat_diff_distrib)
    have below: "\<exists>r. ?own = Some (q @ r)" if "encloses root pos q" "\<not> is_project root q" for q
      using owner_below [OF assms that] .
    show ?thesis
    proof (cases ?own)
      case None
      then show ?thesis
        using at below by auto
    next
      case (Some s)
      note node = owner_node [OF assms pos0 Some]
      have ends: "ends_after root pos q = Some q" if "encloses root pos q" for q
        using that by (auto simp: encloses_def ends_after_def split: option.splits)
      show ?thesis
      proof (cases "climb_find (ends_after root pos) s")
        case none: None
        have "is_project root q" if enc: "encloses root pos q" for q
        proof (rule ccontr)
          assume "\<not> is_project root q"
          from below [OF enc this] Some obtain r where "s = q @ r"
            by auto
          then have "ends_after root pos (take (length q) s) = Some q"
            using ends [OF enc] by simp
          moreover have "ends_after root pos (take (length q) s) = None"
            using none [unfolded climb_find_None] \<open>s = q @ r\<close> by (metis le_add1 length_append)
          ultimately show False
            by simp
        qed
        then show ?thesis
          using at Some none by simp
      next
        case (Some p)
        obtain k where k: "k \<le> length s" "ends_after root pos (take k s) = Some p"
          "\<forall>j. k < j \<and> j \<le> length s \<longrightarrow> ends_after root pos (take j s) = None"
          using climb_find_Some [OF Some] by blast
        obtain m where m: "node_at root p = Some m" "p = take k s" "pos < range_end (node_range (info m))"
          using k(2) by (auto simp: ends_after_def split: option.splits if_splits)
        have "0 < k"
        proof (rule ccontr)
          assume "\<not> 0 < k"
          then have "m = root" using m by simp
          then show False
            using m(3) assms zero_least [of pos] by (simp add: parsed_tree_def zero_range_def)
        qed
        then have "p \<noteq> []"
          using m(2) node(1) by simp
        moreover have "range_start (node_range (info m)) \<le> pos"
          using node(3) [OF k(1) \<open>0 < k\<close>] m by simp
        ultimately have enc: "encloses root pos p"
          using m by (simp add: encloses_def)
        have "is_project root q \<or> (\<exists>r. p = q @ r)" if encq: "encloses root pos q" for q
        proof (cases "is_project root q")
          case False
          from below [OF encq this] \<open>?own = Some s\<close> obtain r where r: "s = q @ r"
            by auto
          then have "ends_after root pos (take (length q) s) = Some q"
            using ends [OF encq] by simp
          then have "length q \<le> k"
            using k(3) r by (metis le_add1 length_append linorder_not_le option.distinct(1))
          then show ?thesis
            using r by (simp add: m(2))
        qed simp
        then show ?thesis
          using at \<open>?own = Some s\<close> Some enc by simp
      qed
    qed
  qed
qed

subsection \<open>Instances\<close>

definition ex_tokens :: "TokenSpan list" where
  "ex_tokens = example_toks @ [\<lparr> token_kind = TK_EOF, tok_start = LspPos 12 1, tok_end = LspPos 12 1, tok_text = None \<rparr>]"

lemma ex_token_list: "token_list ex_tokens"
proof -
  have "sorted (map tok_start ex_tokens)" "\<forall>t \<in> set example_toks. token_kind t \<noteq> TK_EOF"
    by code_simp+
  then show ?thesis
    unfolding token_list_def ex_tokens_def by (intro conjI exI [of _ example_toks] exI) (auto simp: ex_tokens_def)
qed

lemma ex_parsed_tree: "parsed_tree example_root ex_tokens"
proof -
  have "node_range (info example_root) = zero_range"
    "(case find_project example_root of None \<Rightarrow> True | Some j \<Rightarrow> children (children example_root ! j) = [])"
    "nested_scopes (build_owner_scope example_root (find_project example_root))"
    "\<forall>m \<in> set (inner_nodes example_root). range_start (node_range (info m)) \<in> tok_start ` set (proper ex_tokens)"
    by code_simp+
  then show ?thesis
    using ex_token_list by (simp add: parsed_tree_def)
qed

theorem tok_span_at_last_started_witness:
  "tok_span_at ex_tokens (LspPos 3 1) = Some (example_toks ! 2) \<and> tok_span_at ex_tokens (LspPos 4 0) = None"
proof -
  have f: "filter (\<lambda>t. token_kind t \<noteq> TK_EOF \<and> tok_start t \<le> LspPos 3 1) ex_tokens = take 3 example_toks"
    "filter (\<lambda>t. token_kind t \<noteq> TK_EOF \<and> tok_start t \<le> LspPos 4 0) ex_tokens = take 3 example_toks"
    by code_simp+
  have l: "last (take 3 example_toks) = example_toks ! 2" "tok_end (example_toks ! 2) = LspPos 3 1"
    "take 3 example_toks \<noteq> []"
    by code_simp+
  show ?thesis
    unfolding tok_span_at_last_started [OF ex_token_list] f Let_def l(1,2)
    using l(3) by (simp add: less_LspPos_def)
qed

text \<open>Between the end of the nested task and the next one, the cursor is in the outer task.\<close>

theorem tj_node_at_innermost_witness:
  "\<exists>p. tj_node_at example_root ex_tokens (Some (assign_token_owners example_root ex_tokens)) (LspPos 4 5) = Some p \<and>
     encloses example_root (LspPos 4 5) p \<and> (\<exists>r. p = [1] @ r)"
proof -
  have enc: "encloses example_root (LspPos 4 5) [1]" and np: "find_project example_root = Some 0"
    by code_simp+
  have "\<not> is_project example_root [1]"
    by (simp add: is_project_def np)
  then show ?thesis
    using tj_node_at_innermost [OF ex_parsed_tree, of "LspPos 4 5"] enc
    by (cases "tj_node_at example_root ex_tokens (Some (assign_token_owners example_root ex_tokens)) (LspPos 4 5)") auto
qed

text \<open>After the last declaration inside the project block nothing is found, although the block
  encloses the cursor: the hoisted declarations' parent is the root.\<close>

lemma project_body_not_found:
  "tj_node_at example_root ex_tokens (Some (assign_token_owners example_root ex_tokens)) (LspPos 6 1) = None \<and>
   encloses example_root (LspPos 6 1) [0]"
  by code_simp

end
