(* ===== verification/Navigation.thy ===== *)
theory Navigation
  imports Cursor Query_Context
begin

text \<open>
  Go to definition, find references and document highlights (\<open>src/src/definition.c\<close>,
  \<open>references.c\<close>, \<open>document_highlight.c\<close>).  A handler takes the query context, the primary
  document, the position of the request (None where a parameter is missing) and the memo cells of
  the project, and returns the response (None is JSON null) with the cells.  All three walk the
  project in the same order: a node's own dependencies, then its children.
\<close>

record location =
  loc_uri :: "string option"
  loc_range :: LspRange

subsection \<open>Walking a project\<close>

fun walk_project :: "(path \<Rightarrow> pn_info \<Rightarrow> 'a \<Rightarrow> 'a) \<Rightarrow> path \<Rightarrow> ProjectNode \<Rightarrow> 'a \<Rightarrow> 'a"
  and walk_children :: "(path \<Rightarrow> pn_info \<Rightarrow> 'a \<Rightarrow> 'a) \<Rightarrow> path \<Rightarrow> nat \<Rightarrow> ProjectNode list \<Rightarrow> 'a \<Rightarrow> 'a" where
  "walk_project f p (PNode i cs) st = walk_children f p 0 cs (f p i st)"
| "walk_children f p k [] st = st"
| "walk_children f p k (c # cs) st = walk_children f p (Suc k) cs (walk_project f (p @ [k]) c st)"

text \<open>The dependencies of a node that resolve to the wanted task, each handed to \<open>emit\<close>.\<close>

definition resolved_deps ::
  "ProjectNode \<Rightarrow> path \<Rightarrow> (pn_info \<Rightarrow> Dependency \<Rightarrow> 'b list) \<Rightarrow> path \<Rightarrow> pn_info \<Rightarrow> 'b list \<times> dep_memo \<Rightarrow> 'b list \<times> dep_memo" where
  "resolved_deps root wanted emit p i st =
     foldl (\<lambda>(arr, memo) k. case project_dep_resolve root p k memo of (target, memo') \<Rightarrow>
              (if target \<noteq> Some wanted then arr else arr @ emit i (pn_dependencies i ! k), memo'))
       st [0..<length (pn_dependencies i)]"

subsection \<open>Go to definition\<close>

definition build_definition :: "ProjectNode \<Rightarrow> path option \<Rightarrow> location option" where
  "build_definition root target =
     (case Option.bind target (pnode_at root) of
        None \<Rightarrow> None
      | Some n \<Rightarrow> Some \<lparr> loc_uri = source_uri (pinfo n), loc_range = pn_selection_range (pinfo n) \<rparr>)"

definition doc_dependency :: "query_doc \<Rightarrow> LspPos \<Rightarrow> (path \<times> nat) option" where
  "doc_dependency d pos =
     dependency_at_cursor (snap_root (qd_snap d)) (snap_tok_spans (qd_snap d)) (Some (snap_tok_owners (qd_snap d))) pos"

definition doc_task_decl :: "query_doc \<Rightarrow> LspPos \<Rightarrow> path option" where
  "doc_task_decl d pos =
     task_decl_at_cursor (snap_root (qd_snap d)) (snap_tok_spans (qd_snap d)) (Some (snap_tok_owners (qd_snap d))) pos"

definition doc_task_prefix :: "query_doc \<Rightarrow> string option" where
  "doc_task_prefix d = prefix_get (Some (qd_prefixes d)) PREFIX_TASK"

definition handle_definition ::
  "query_context \<Rightarrow> query_doc option \<Rightarrow> LspPos option \<Rightarrow> dep_memo \<Rightarrow> location option \<times> dep_memo" where
  "handle_definition qc d position memo =
     (case (position, d, qc_project_root qc) of
        (Some pos, Some doc, Some root) \<Rightarrow>
          (case doc_dependency doc pos of
             None \<Rightarrow> (None, memo)
           | Some (owner, i) \<Rightarrow>
               (case project_resolve_dep_ref root (doc_task_prefix doc) (snap_root (qd_snap doc)) owner i memo of
                  (target, memo') \<Rightarrow> (build_definition root target, memo')))
      | _ \<Rightarrow> (None, memo))"

subsection \<open>Find references\<close>

definition ref_location :: "pn_info \<Rightarrow> Dependency \<Rightarrow> location list" where
  "ref_location i dep = [\<lparr> loc_uri = source_uri i, loc_range = source_range dep \<rparr>]"

definition collect_refs_in_subtree ::
  "ProjectNode \<Rightarrow> path \<Rightarrow> location list \<times> dep_memo \<Rightarrow> location list \<times> dep_memo" where
  "collect_refs_in_subtree root wanted st = walk_project (resolved_deps root wanted ref_location) [] root st"

definition build_references ::
  "ProjectNode \<Rightarrow> path option \<Rightarrow> dep_memo \<Rightarrow> location list option \<times> dep_memo" where
  "build_references root wanted memo =
     (case wanted of
        None \<Rightarrow> (None, memo)
      | Some w \<Rightarrow> (case collect_refs_in_subtree root w ([], memo) of (arr, memo') \<Rightarrow> (Some arr, memo')))"

definition doc_task_node :: "ProjectNode \<Rightarrow> query_doc \<Rightarrow> path option \<Rightarrow> path option" where
  "doc_task_node root d task =
     Option.bind task (project_node_for_doc_task root (doc_task_prefix d) (snap_root (qd_snap d)))"

definition handle_references ::
  "query_context \<Rightarrow> query_doc option \<Rightarrow> LspPos option \<Rightarrow> dep_memo \<Rightarrow> location list option \<times> dep_memo" where
  "handle_references qc d position memo =
     (case (position, d, qc_project_root qc) of
        (Some pos, Some doc, Some root) \<Rightarrow>
          build_references root (doc_task_node root doc (doc_task_decl doc pos)) memo
      | _ \<Rightarrow> (None, memo))"

subsection \<open>Document highlights\<close>

definition last_ident_in_range :: "TokenSpan list \<Rightarrow> LspRange \<Rightarrow> LspRange option" where
  "last_ident_in_range tokens r =
     foldl (\<lambda>out t. if token_kind t \<noteq> TK_IDENT \<or> pos_cmp (tok_start t) (range_start r) < 0 \<or>
                       0 < pos_cmp (tok_start t) (range_end r) then out
                    else Some \<lparr> range_start = tok_start t, range_end = tok_end t \<rparr>) None tokens"

definition read_highlight :: "TokenSpan list \<Rightarrow> pn_info \<Rightarrow> Dependency \<Rightarrow> (LspRange \<times> nat) list" where
  "read_highlight tokens i dep =
     (case last_ident_in_range tokens (source_range dep) of None \<Rightarrow> [] | Some seg \<Rightarrow> [(seg, 2)])"

definition collect_read_highlights ::
  "ProjectNode \<Rightarrow> path \<Rightarrow> string \<Rightarrow> TokenSpan list \<Rightarrow> (LspRange \<times> nat) list \<times> dep_memo \<Rightarrow>
   (LspRange \<times> nat) list \<times> dep_memo" where
  "collect_read_highlights root wanted doc_uri tokens st =
     walk_project (\<lambda>p i st. if source_uri i = Some doc_uri
                             then resolved_deps root wanted (read_highlight tokens) p i st else st) [] root st"

definition build_document_highlight ::
  "ProjectNode \<Rightarrow> path option \<Rightarrow> string \<Rightarrow> TokenSpan list \<Rightarrow> dep_memo \<Rightarrow> (LspRange \<times> nat) list option \<times> dep_memo" where
  "build_document_highlight root wanted doc_uri tokens memo =
     (case wanted of
        None \<Rightarrow> (None, memo)
      | Some w \<Rightarrow>
          (let write_mark = (case pnode_at root w of
                               None \<Rightarrow> []
                             | Some n \<Rightarrow> if source_uri (pinfo n) = Some doc_uri
                                         then [(pn_selection_range (pinfo n), 3)] else []) in
           case collect_read_highlights root w doc_uri tokens (write_mark, memo) of (arr, memo') \<Rightarrow> (Some arr, memo')))"

definition resolve_highlight_target ::
  "ProjectNode \<Rightarrow> query_doc \<Rightarrow> LspPos \<Rightarrow> dep_memo \<Rightarrow> path option \<times> dep_memo" where
  "resolve_highlight_target root d pos memo =
     (case doc_task_decl d pos of
        Some decl \<Rightarrow> (doc_task_node root d (Some decl), memo)
      | None \<Rightarrow>
          (case doc_dependency d pos of
             None \<Rightarrow> (None, memo)
           | Some (owner, i) \<Rightarrow>
               project_resolve_dep_ref root (doc_task_prefix d) (snap_root (qd_snap d)) owner i memo))"

definition handle_document_highlight ::
  "query_context \<Rightarrow> query_doc option \<Rightarrow> LspPos option \<Rightarrow> dep_memo \<Rightarrow> (LspRange \<times> nat) list option \<times> dep_memo" where
  "handle_document_highlight qc d position memo =
     (case (position, d, qc_project_root qc) of
        (Some pos, Some doc, Some root) \<Rightarrow>
          (case resolve_highlight_target root doc pos memo of (wanted, memo') \<Rightarrow>
             build_document_highlight root wanted (snap_uri (qd_snap doc)) (snap_tok_spans (qd_snap doc)) memo')
      | _ \<Rightarrow> (None, memo))"

subsection \<open>The order of a walk\<close>

fun preorder :: "path \<Rightarrow> ProjectNode \<Rightarrow> (path \<times> pn_info) list"
  and preorders :: "path \<Rightarrow> nat \<Rightarrow> ProjectNode list \<Rightarrow> (path \<times> pn_info) list" where
  "preorder p (PNode i cs) = (p, i) # preorders p 0 cs"
| "preorders p k [] = []"
| "preorders p k (c # cs) = preorder (p @ [k]) c @ preorders p (Suc k) cs"

lemma walk_foldl:
  "walk_project f p n st = foldl (\<lambda>st (q, i). f q i st) st (preorder p n)"
  "walk_children f p k cs st = foldl (\<lambda>st (q, i). f q i st) st (preorders p k cs)"
  by (induction f p n st and f p k cs st rule: walk_project_walk_children.induct) simp_all

lemma in_preorders: "x \<in> set (preorders p k cs) \<longleftrightarrow> (\<exists>j < length cs. x \<in> set (preorder (p @ [k + j]) (cs ! j)))"
proof (induction cs arbitrary: k)
  case (Cons c cs)
  have "(\<exists>j < length (c # cs). x \<in> set (preorder (p @ [k + j]) ((c # cs) ! j))) \<longleftrightarrow>
      x \<in> set (preorder (p @ [k]) c) \<or> (\<exists>j < length cs. x \<in> set (preorder (p @ [Suc k + j]) (cs ! j)))"
    by (auto simp: less_Suc_eq_0_disj)
  then show ?case
    using Cons.IH [of "Suc k"] by simp
qed simp

lemma in_preorder: "(q, i) \<in> set (preorder p n) \<longleftrightarrow> (\<exists>r m. pnode_at n r = Some m \<and> q = p @ r \<and> i = pinfo m)"
proof (induction n arbitrary: p)
  case (PNode inf cs)
  have IH: "(q, i) \<in> set (preorder (p @ [j]) (cs ! j)) \<longleftrightarrow>
      (\<exists>r m. pnode_at (cs ! j) r = Some m \<and> q = (p @ [j]) @ r \<and> i = pinfo m)" if "j < length cs" for j
    using PNode.IH [OF nth_mem [OF that]] .
  have "(q, i) \<in> set (preorder p (PNode inf cs)) \<longleftrightarrow>
      (q = p \<and> i = inf) \<or> (\<exists>j < length cs. (q, i) \<in> set (preorder (p @ [j]) (cs ! j)))"
    by (auto simp: in_preorders)
  also have "\<dots> \<longleftrightarrow> (q = p \<and> i = inf) \<or>
      (\<exists>j < length cs. \<exists>r m. pnode_at (cs ! j) r = Some m \<and> q = (p @ [j]) @ r \<and> i = pinfo m)"
    by (simp only: IH cong: conj_cong)
  also have "\<dots> \<longleftrightarrow> (\<exists>r m. pnode_at (PNode inf cs) r = Some m \<and> q = p @ r \<and> i = pinfo m)" (is "?l \<longleftrightarrow> ?r")
  proof
    assume ?l
    then show ?r
    proof
      assume "q = p \<and> i = inf"
      then show ?r by (intro exI [of _ "[]"] exI [of _ "PNode inf cs"]) simp
    next
      assume "\<exists>j < length cs. \<exists>r m. pnode_at (cs ! j) r = Some m \<and> q = (p @ [j]) @ r \<and> i = pinfo m"
      then obtain j r m where "j < length cs" "pnode_at (cs ! j) r = Some m" "q = (p @ [j]) @ r" "i = pinfo m"
        by blast
      then show ?r by (intro exI [of _ "j # r"] exI [of _ m]) simp
    qed
  next
    assume ?r
    then obtain r m where r: "pnode_at (PNode inf cs) r = Some m" "q = p @ r" "i = pinfo m"
      by blast
    show ?l
    proof (cases r)
      case Nil
      then show ?thesis using r by auto
    next
      case (Cons j r')
      then have "j < length cs" "pnode_at (cs ! j) r' = Some m" "q = (p @ [j]) @ r'"
        using r by (simp_all split: if_splits)
      then show ?thesis using r(3) by blast
    qed
  qed
  finally show ?case .
qed

subsection \<open>What a walk collects\<close>

definition node_hits :: "ProjectNode \<Rightarrow> path \<Rightarrow> (pn_info \<Rightarrow> Dependency \<Rightarrow> 'b list) \<Rightarrow> path \<Rightarrow> pn_info \<Rightarrow> 'b list" where
  "node_hits root wanted emit p i =
     concat (map (\<lambda>k. if dep_answer root p k = Some wanted then emit i (pn_dependencies i ! k) else [])
       [0..<length (pn_dependencies i)])"

lemma resolved_deps_spec:
  assumes "memo_valid root (snd st)"
  shows "fst (resolved_deps root wanted emit p i st) = fst st @ node_hits root wanted emit p i \<and>
    memo_valid root (snd (resolved_deps root wanted emit p i st))"
proof -
  let ?step = "\<lambda>(arr, memo) k. case project_dep_resolve root p k memo of (target, memo') \<Rightarrow>
      (if target \<noteq> Some wanted then arr else arr @ emit i (pn_dependencies i ! k), memo')"
  have "fst (foldl ?step st ks) = fst st @
      concat (map (\<lambda>k. if dep_answer root p k = Some wanted then emit i (pn_dependencies i ! k) else []) ks) \<and>
    memo_valid root (snd (foldl ?step st ks))" for ks
    using assms
  proof (induction ks arbitrary: st)
    case (Cons k ks)
    obtain arr memo where st: "st = (arr, memo)" by (cases st)
    obtain target memo' where r: "project_dep_resolve root p k memo = (target, memo')"
      by (cases "project_dep_resolve root p k memo")
    have "target = dep_answer root p k" and valid: "memo_valid root memo'"
      using resolve_memo [of root memo p k] Cons.prems by (simp_all add: st r)
    then have "?step st k = (arr @ (if dep_answer root p k = Some wanted then emit i (pn_dependencies i ! k) else []), memo')"
      by (simp add: st r)
    then show ?case
      using Cons.IH [of "?step st k"] valid by (simp add: st)
  qed simp
  then show ?thesis
    by (simp add: resolved_deps_def node_hits_def)
qed

lemma walk_hits:
  assumes "memo_valid root (snd st)"
  shows "fst (walk_project (\<lambda>p i st. if keep i then resolved_deps root wanted emit p i st else st) [] root st) =
      fst st @ concat (map (\<lambda>(p, i). node_hits root wanted emit p i) (filter (\<lambda>(p, i). keep i) (preorder [] root))) \<and>
    memo_valid root (snd (walk_project (\<lambda>p i st. if keep i then resolved_deps root wanted emit p i st else st) [] root st))"
proof -
  have "fst (foldl (\<lambda>st (q, i). if keep i then resolved_deps root wanted emit q i st else st) st qs) =
      fst st @ concat (map (\<lambda>(p, i). node_hits root wanted emit p i) (filter (\<lambda>(p, i). keep i) qs)) \<and>
    memo_valid root (snd (foldl (\<lambda>st (q, i). if keep i then resolved_deps root wanted emit q i st else st) st qs))" for qs
    using assms
  proof (induction qs arbitrary: st)
    case (Cons q qs)
    obtain p i where q: "q = (p, i)" by (cases q)
    show ?case
      using Cons.IH [of "resolved_deps root wanted emit p i st"] Cons.IH [of st] Cons.prems
        resolved_deps_spec [OF Cons.prems, of wanted emit p i] by (simp add: q)
  qed simp
  then show ?thesis
    unfolding walk_foldl .
qed

text \<open>The references of a task: every dependency of the project that resolves to it, in the order
  of the walk.\<close>

definition all_hits :: "ProjectNode \<Rightarrow> path \<Rightarrow> (pn_info \<Rightarrow> bool) \<Rightarrow> (pn_info \<Rightarrow> Dependency \<Rightarrow> 'b list) \<Rightarrow> 'b list" where
  "all_hits root wanted keep emit =
     concat (map (\<lambda>(p, i). node_hits root wanted emit p i) (filter (\<lambda>(p, i). keep i) (preorder [] root)))"

lemma in_node_hits:
  "x \<in> set (node_hits root wanted emit p i) \<longleftrightarrow>
   (\<exists>k < length (pn_dependencies i). dep_answer root p k = Some wanted \<and> x \<in> set (emit i (pn_dependencies i ! k)))"
  by (auto simp: node_hits_def split: if_splits intro: bexI)

lemma in_all_hits:
  "x \<in> set (all_hits root wanted keep emit) \<longleftrightarrow>
   (\<exists>p n k. pnode_at root p = Some n \<and> keep (pinfo n) \<and> k < length (pn_dependencies (pinfo n)) \<and>
      dep_answer root p k = Some wanted \<and> x \<in> set (emit (pinfo n) (pn_dependencies (pinfo n) ! k)))"
proof -
  have "x \<in> set (all_hits root wanted keep emit) \<longleftrightarrow>
      (\<exists>p i. (p, i) \<in> set (preorder [] root) \<and> keep i \<and> x \<in> set (node_hits root wanted emit p i))"
    by (auto simp: all_hits_def)
  also have "\<dots> \<longleftrightarrow> (\<exists>p n. pnode_at root p = Some n \<and> keep (pinfo n) \<and> x \<in> set (node_hits root wanted emit p (pinfo n)))"
    by (auto simp: in_preorder)
  also have "\<dots> \<longleftrightarrow> (\<exists>p n k. pnode_at root p = Some n \<and> keep (pinfo n) \<and> k < length (pn_dependencies (pinfo n)) \<and>
      dep_answer root p k = Some wanted \<and> x \<in> set (emit (pinfo n) (pn_dependencies (pinfo n) ! k)))"
    by (auto simp: in_node_hits)
  finally show ?thesis .
qed

lemma build_references_spec:
  assumes "memo_valid root memo"
  shows "fst (build_references root (Some w) memo) = Some (all_hits root w (\<lambda>_. True) ref_location)"
proof -
  have "fst (collect_refs_in_subtree root w ([], memo)) = all_hits root w (\<lambda>_. True) ref_location"
    using walk_hits [of root "([], memo)" "\<lambda>_. True" w ref_location] assms
    by (simp add: collect_refs_in_subtree_def all_hits_def)
  then show ?thesis
    by (simp add: build_references_def split_def)
qed

lemma build_highlight_spec:
  assumes "memo_valid root memo" and "pnode_at root w = Some n"
  shows "fst (build_document_highlight root (Some w) doc_uri tokens memo) =
    Some ((if source_uri (pinfo n) = Some doc_uri then [(pn_selection_range (pinfo n), 3)] else []) @
      all_hits root w (\<lambda>i. source_uri i = Some doc_uri) (read_highlight tokens))"
proof -
  let ?w = "if source_uri (pinfo n) = Some doc_uri then [(pn_selection_range (pinfo n), 3)] else []"
  have "fst (collect_read_highlights root w doc_uri tokens (?w, memo)) =
      ?w @ all_hits root w (\<lambda>i. source_uri i = Some doc_uri) (read_highlight tokens)"
    using walk_hits [of root "(?w, memo)" "\<lambda>i. source_uri i = Some doc_uri" w "read_highlight tokens"] assms(1)
    by (simp add: collect_read_highlights_def all_hits_def)
  then show ?thesis
    using assms(2) by (simp add: build_document_highlight_def Let_def split_def)
qed

subsection \<open>Properties\<close>

definition nav_range :: "nat \<Rightarrow> nat \<Rightarrow> nat \<Rightarrow> LspRange" where
  "nav_range l a b = \<lparr> range_start = LspPos (of_nat l) (of_nat a), range_end = LspPos (of_nat l) (of_nat b) \<rparr>"

definition nav_dep :: Dependency where
  "nav_dep = \<lparr> dep_kind = DEP_KIND_DEPENDS, bang_count = 0, dep_path = ''c'', source_range = nav_range 2 8 9 \<rparr>"

definition nav_doc :: tj_node where
  "nav_doc = TjNode (info tj_node_new)
     [TjNode ((info (example_node KW_TASK ''b'' 1 3 [])) \<lparr> selection_range := nav_range 1 5 6, dependencies := [nav_dep] \<rparr>) [],
      TjNode ((info (example_node KW_TASK ''c'' 5 6 [])) \<lparr> selection_range := nav_range 5 5 6 \<rparr>) []]"

definition nav_root :: ProjectNode where
  "nav_root = PNode (pinfo project_root_new) (map (\<lambda>n. project_node_from_tj n (Some ''file:///d'')) (children nav_doc))"

definition nav_query :: query_doc where
  "nav_query = \<lparr> qd_snap = \<lparr> doc_version = 1, snap_uri = ''file:///d'', snap_text = [], snap_root = nav_doc,
      snap_tok_spans = map (\<lambda>(k, l, a, b). \<lparr> token_kind = k, tok_start = LspPos l a, tok_end = LspPos l b, tok_text = None \<rparr>)
        [(KW_TASK, 1, 0, 4), (TK_IDENT, 2, 8, 9), (KW_TASK, 5, 0, 4), (TK_IDENT, 5, 5, 6)],
      snap_tok_owners = [Some [0], Some [0], Some [1], Some [1]], snap_num_sem_entries = 4, sem_memo = None \<rparr>,
     qd_prefixes = no_prefixes, is_primary = True \<rparr>"

definition nav_context :: query_context where
  "nav_context = \<lparr> qc_ws = None, qc_prev_snap = None, qc_docs = [nav_query], primary_idx = Some 0,
     qc_project_root = Some nav_root, qc_project_id = Some ''file:///d'' \<rparr>"

text \<open>C31: Find references at a task's declaration answers with exactly the places of the
  dependencies, in any document of the project, whose reference names the task, whatever was
  resolved before.\<close>

theorem references_exact:
  assumes "tree_ok root" and "qc_project_root qc = Some root"
    and "doc_task_node root doc (doc_task_decl doc pos) = Some t"
  shows "\<exists>locs. fst (handle_references qc (Some doc) (Some pos) (memo_after root history)) = Some locs \<and>
    (\<forall>l. l \<in> set locs \<longleftrightarrow>
       (\<exists>p n k. pnode_at root p = Some n \<and> k < length (pn_dependencies (pinfo n)) \<and>
          dep_target root p (pn_dependencies (pinfo n) ! k) t \<and>
          l = \<lparr> loc_uri = source_uri (pinfo n), loc_range = source_range (pn_dependencies (pinfo n) ! k) \<rparr>))"
proof -
  let ?locs = "all_hits root t (\<lambda>_. True) ref_location"
  have "fst (handle_references qc (Some doc) (Some pos) (memo_after root history)) = Some ?locs"
    using build_references_spec [OF memo_after_valid] assms(2,3) by (simp add: handle_references_def)
  moreover have "l \<in> set ?locs \<longleftrightarrow>
      (\<exists>p n k. pnode_at root p = Some n \<and> k < length (pn_dependencies (pinfo n)) \<and>
          dep_target root p (pn_dependencies (pinfo n) ! k) t \<and>
          l = \<lparr> loc_uri = source_uri (pinfo n), loc_range = source_range (pn_dependencies (pinfo n) ! k) \<rparr>)" for l
  proof -
    have "dep_answer root p k = Some t \<longleftrightarrow> dep_target root p (pn_dependencies (pinfo n) ! k) t"
      if "pnode_at root p = Some n" for p n k
      using resolve_dependency_iff [OF assms(1) that] dep_answer_eq [OF that] by simp
    moreover have "l \<in> set (ref_location i dep) \<longleftrightarrow> l = \<lparr> loc_uri = source_uri i, loc_range = source_range dep \<rparr>" for i dep
      by (auto simp: ref_location_def)
    ultimately show ?thesis
      unfolding in_all_hits by blast
  qed
  ultimately show ?thesis
    by blast
qed

lemma nav_tree_ok: "tree_ok nav_root"
  by code_simp

lemma nav_decl: "doc_task_node nav_root nav_query (doc_task_decl nav_query (LspPos 5 5)) = Some [1]"
  by code_simp

theorem references_exact_witness:
  "\<exists>locs. fst (handle_references nav_context (Some nav_query) (Some (LspPos 5 5)) (memo_after nav_root [])) = Some locs \<and>
     \<lparr> loc_uri = Some ''file:///d'', loc_range = nav_range 2 8 9 \<rparr> \<in> set locs"
proof -
  have r: "qc_project_root nav_context = Some nav_root"
    by (simp add: nav_context_def)
  have n: "pnode_at nav_root [0] = Some (project_node_from_tj (children nav_doc ! 0) (Some ''file:///d''))"
    by code_simp
  have deps: "pn_dependencies (pinfo (project_node_from_tj (children nav_doc ! 0) (Some ''file:///d''))) = [nav_dep]"
    "source_uri (pinfo (project_node_from_tj (children nav_doc ! 0) (Some ''file:///d''))) = Some ''file:///d''"
    "resolve_dependency nav_root [0] nav_dep = Some [1]" "source_range nav_dep = nav_range 2 8 9"
    by code_simp+
  have "dep_target nav_root [0] nav_dep [1]"
    using resolve_dependency_iff [OF nav_tree_ok n] deps(3) by simp
  then have "\<exists>p n k. pnode_at nav_root p = Some n \<and> k < length (pn_dependencies (pinfo n)) \<and>
      dep_target nav_root p (pn_dependencies (pinfo n) ! k) [1] \<and>
      \<lparr> loc_uri = Some ''file:///d'', loc_range = nav_range 2 8 9 \<rparr> =
        \<lparr> loc_uri = source_uri (pinfo n), loc_range = source_range (pn_dependencies (pinfo n) ! k) \<rparr>"
    using n deps by (intro exI [of _ "[0]"] exI [of _ "project_node_from_tj (children nav_doc ! 0) (Some ''file:///d'')"]
        exI [of _ 0]) simp
  then show ?thesis
    using references_exact [OF nav_tree_ok r nav_decl, of "[]"] by blast
qed


lemma nav_def: "doc_dependency nav_query (LspPos 2 8) = Some ([0], 0)"
  "fst (handle_definition nav_context (Some nav_query) (Some (LspPos 2 8)) (memo_after nav_root [])) =
     Some \<lparr> loc_uri = Some ''file:///d'', loc_range = nav_range 5 5 6 \<rparr>"
  by code_simp+


end
