(* ===== verification/Outline.thy ===== *)
theory Outline
  imports Navigation "HOL-Library.Monad_Syntax"
begin

text \<open>
  Document symbols with their growable JSON buffer (\<open>src/src/document_symbol.c\<close>), folding ranges
  (\<open>folding_range.c\<close>) and workspace symbols (\<open>workspace_symbol.c\<close>).  The buffer keeps its valid
  bytes and its capacity; the responses built with the JSON library are their values.
\<close>

subsection \<open>Symbols\<close>

definition SK_MODULE :: u32 where "SK_MODULE = 2"
definition SK_FUNCTION :: u32 where "SK_FUNCTION = 12"
definition SK_VARIABLE :: u32 where "SK_VARIABLE = 13"
definition SK_OBJECT :: u32 where "SK_OBJECT = 19"
definition SK_EVENT :: u32 where "SK_EVENT = 24"

definition symbol_kind_for :: "nat \<Rightarrow> u32" where
  "symbol_kind_for k =
     (if k = KW_PROJECT then SK_MODULE
      else if k = KW_RESOURCE then SK_OBJECT
      else if k = KW_ACCOUNT then SK_VARIABLE
      else if k = KW_SHIFT then SK_EVENT
      else SK_FUNCTION)"

subsection \<open>The buffer\<close>

record Buf =
  buf_data :: string
  buf_cap :: nat

definition empty_buf :: Buf where
  "empty_buf = \<lparr> buf_data = [], buf_cap = 0 \<rparr>"

function double_until :: "nat \<Rightarrow> nat \<Rightarrow> nat" where
  "double_until cap need = (if 0 < cap \<and> cap < need then double_until (2 * cap) need else cap)"
  by pat_completeness auto
termination
  by (relation "measure (\<lambda>(cap, need). need - cap)") auto

declare double_until.simps [simp del]

definition reserve :: "Buf \<Rightarrow> nat \<Rightarrow> Buf" where
  "reserve b n =
     (if buf_cap b < length (buf_data b) + n
      then b \<lparr> buf_cap := double_until (if buf_cap b = 0 then 4096 else buf_cap b * 2) (length (buf_data b) + n) \<rparr>
      else b)"

definition buf_push :: "Buf \<Rightarrow> string \<Rightarrow> Buf" where
  "buf_push b s = (reserve b (length s)) \<lparr> buf_data := buf_data b @ s \<rparr>"

definition buf_push_uint :: "Buf \<Rightarrow> u32 \<Rightarrow> Buf" where
  "buf_push_uint b v = (reserve b 10) \<lparr> buf_data := buf_data b @ write_uint32 v \<rparr>"

definition hex_lower :: "nat \<Rightarrow> char" where
  "hex_lower n = ''0123456789abcdef'' ! n"

definition needs_escape :: "char \<Rightarrow> bool" where
  "needs_escape c = (c = CHR 0x22 \<or> c = CHR 0x5C \<or> (of_char c :: nat) < 32)"

definition escape_char :: "char \<Rightarrow> string" where
  "escape_char c =
     (if c = CHR 0x22 then [CHR 0x5C, CHR 0x22]
      else if c = CHR 0x5C then [CHR 0x5C, CHR 0x5C]
      else [CHR 0x5C] @ ''u00'' @ [hex_lower (of_char c div 16), hex_lower (of_char c mod 16)])"

text \<open>Runs of plain bytes are pushed whole, an escape ends a run.\<close>

function push_runs :: "Buf \<Rightarrow> string \<Rightarrow> Buf" where
  "push_runs b s =
     (let run = takeWhile (\<lambda>c. \<not> needs_escape c) s;
          b1 = (if run \<noteq> [] then buf_push b run else b) in
      case dropWhile (\<lambda>c. \<not> needs_escape c) s of
        [] \<Rightarrow> b1
      | c # rest \<Rightarrow> push_runs (buf_push b1 (escape_char c)) rest)"
  by pat_completeness auto
termination
proof (relation "measure (\<lambda>(b, s). length s)")
  fix b :: Buf and s run b1 c rest
  assume "dropWhile (\<lambda>c. \<not> needs_escape c) s = c # rest"
  then have "length (c # rest) \<le> length s"
    using length_dropWhile_le [of "\<lambda>c. \<not> needs_escape c" s] by simp
  then show "((buf_push b1 (escape_char c), rest), b, s) \<in> measure (\<lambda>(b, s). length s)"
    by simp
qed simp

declare push_runs.simps [simp del]

definition buf_push_json_str :: "Buf \<Rightarrow> string \<Rightarrow> Buf" where
  "buf_push_json_str b s = buf_push (push_runs (buf_push b [CHR 0x22]) s) [CHR 0x22]"

text \<open>A member's name with its punctuation.\<close>

definition key :: "string \<Rightarrow> string \<Rightarrow> string" where
  "key lead name = lead @ [CHR 0x22] @ name @ [CHR 0x22] @ '':''"

definition write_range_buf :: "Buf \<Rightarrow> LspRange \<Rightarrow> Buf" where
  "write_range_buf b r =
     (let b = buf_push_uint (buf_push b (key (key ''{'' ''start'' @ ''{'') ''line'')) (line (range_start r));
          b = buf_push_uint (buf_push b (key '','' ''character'')) (character (range_start r));
          b = buf_push_uint (buf_push b (key (key ''},'' ''end'' @ ''{'') ''line'')) (line (range_end r));
          b = buf_push_uint (buf_push b (key '','' ''character'')) (character (range_end r)) in
      buf_push b ''}}'')"

definition or_empty :: "string option \<Rightarrow> string" where
  "or_empty s = (case s of Some x \<Rightarrow> x | None \<Rightarrow> [])"

definition write_head_buf :: "Buf \<Rightarrow> tj_info \<Rightarrow> Buf" where
  "write_head_buf b i =
     (let b = buf_push_json_str (buf_push b (key ''{'' ''name'')) (or_empty (node_name i));
          b = buf_push_json_str (buf_push b (key '','' ''detail'')) (or_empty (node_id i));
          b = buf_push_uint (buf_push b (key '','' ''kind'')) (symbol_kind_for (keyword i));
          b = write_range_buf (buf_push b (key '','' ''range'')) (node_range i) in
      write_range_buf (buf_push b (key '','' ''selectionRange'')) (selection_range i))"

fun write_node_buf :: "Buf \<Rightarrow> tj_node \<Rightarrow> Buf"
  and write_nodes_buf :: "Buf \<Rightarrow> bool \<Rightarrow> tj_node list \<Rightarrow> Buf" where
  "write_node_buf b (TjNode i cs) =
     (let b = write_head_buf b i;
          b = (if cs = [] then b
               else buf_push (write_nodes_buf (buf_push b (key '','' ''children'' @ ''['')) True cs) '']'') in
      buf_push b ''}'')"
| "write_nodes_buf b first [] = b"
| "write_nodes_buf b first (n # ns) =
     write_nodes_buf (write_node_buf (if first then b else buf_push b '','') n) False ns"

text \<open>The response excludes the final NUL, which is pushed after its length is taken.\<close>

definition build_document_symbols_json :: "tj_node list \<Rightarrow> string \<times> Buf" where
  "build_document_symbols_json syms =
     (let b = buf_push (write_nodes_buf (buf_push empty_buf ''['') True syms) '']'' in
      (buf_data b, buf_push b [nul]))"

definition handle_document_symbol :: "query_doc option \<Rightarrow> string option" where
  "handle_document_symbol d =
     map_option (\<lambda>doc. fst (build_document_symbols_json (children (snap_root (qd_snap doc))))) d"

subsection \<open>Folding ranges\<close>

definition MAX_BRACKET_DEPTH :: nat where "MAX_BRACKET_DEPTH = 256"

record folding =
  fold_start :: u32
  fold_end :: u32
  fold_kind :: string

fun emit_symbol_ranges :: "tj_node list \<Rightarrow> folding list"
  and emit_node_ranges :: "tj_node \<Rightarrow> folding list" where
  "emit_symbol_ranges [] = []"
| "emit_symbol_ranges (n # ns) = emit_node_ranges n @ emit_symbol_ranges ns"
| "emit_node_ranges (TjNode i cs) =
     (if line (range_start (node_range i)) < line (range_end (node_range i))
      then [\<lparr> fold_start = line (range_start (node_range i)), fold_end = line (range_end (node_range i)),
              fold_kind = ''region'' \<rparr>] else []) @ emit_symbol_ranges cs"

text \<open>The bracket stack, its top first, and the ranges emitted so far.\<close>

definition bracket_step :: "u32 list \<times> folding list \<Rightarrow> TokenSpan \<Rightarrow> u32 list \<times> folding list" where
  "bracket_step st t =
     (case st of (stack, arr) \<Rightarrow>
        if token_kind t = TK_LBRACKET then
          (if length stack < MAX_BRACKET_DEPTH then (line (tok_start t) # stack, arr) else (stack, arr))
        else if token_kind t = TK_RBRACKET then
          (case stack of
             [] \<Rightarrow> (stack, arr)
           | start_line # rest \<Rightarrow>
               (rest, if start_line < line (tok_start t)
                      then arr @ [\<lparr> fold_start = start_line, fold_end = line (tok_start t), fold_kind = ''region'' \<rparr>]
                      else arr))
        else if token_kind t = TK_BLOCK_COMMENT then
          (stack, if line (tok_start t) < line (tok_end t)
                  then arr @ [\<lparr> fold_start = line (tok_start t), fold_end = line (tok_end t), fold_kind = ''comment'' \<rparr>]
                  else arr)
        else (stack, arr))"

definition emit_token_ranges :: "TokenSpan list \<Rightarrow> folding list" where
  "emit_token_ranges spans = snd (foldl bracket_step ([], []) spans)"

definition build_folding_ranges :: "TokenSpan list \<Rightarrow> tj_node list \<Rightarrow> folding list" where
  "build_folding_ranges spans symbols = emit_symbol_ranges symbols @ emit_token_ranges spans"

definition handle_folding_range :: "query_doc option \<Rightarrow> folding list option" where
  "handle_folding_range d =
     map_option (\<lambda>doc. build_folding_ranges (snap_tok_spans (qd_snap doc)) (doc_symbol_pool d)) d"

subsection \<open>Workspace symbols\<close>

record workspace_symbol =
  sym_name :: string
  sym_kind :: u32
  container_name :: "string option"
  sym_location :: location

definition to_lower :: "char \<Rightarrow> char" where
  "to_lower c = (let n = of_char c :: nat in if 65 \<le> n \<and> n \<le> 90 then char_of (n + 32) else c)"

text \<open>\<open>strcasestr\<close> in the C locale.\<close>

fun strcasestr :: "string \<Rightarrow> string \<Rightarrow> bool" where
  "strcasestr [] needle = (needle = [])"
| "strcasestr (c # s) needle =
     (map to_lower (take (length needle) (c # s)) = map to_lower needle \<or> strcasestr s needle)"

definition emit_workspace_symbol :: "tj_info \<Rightarrow> string \<Rightarrow> string \<Rightarrow> string option \<Rightarrow> workspace_symbol" where
  "emit_workspace_symbol i name u container =
     \<lparr> sym_name = name, sym_kind = symbol_kind_for (keyword i), container_name = container,
       sym_location = \<lparr> loc_uri = Some u, loc_range = selection_range i \<rparr> \<rparr>"

fun collect_symbols :: "string \<Rightarrow> tj_node list \<Rightarrow> string \<Rightarrow> string option \<Rightarrow> workspace_symbol list"
  and collect_symbol :: "string \<Rightarrow> tj_node \<Rightarrow> string \<Rightarrow> string option \<Rightarrow> workspace_symbol list" where
  "collect_symbols query [] u container = []"
| "collect_symbols query (n # ns) u container =
     collect_symbol query n u container @ collect_symbols query ns u container"
| "collect_symbol query (TjNode i cs) u container =
     (let name = or_empty (node_name i) in
      (if query = [] \<or> strcasestr name query then [emit_workspace_symbol i name u container] else []) @
      (if cs = [] then [] else collect_symbols query cs u (Some name)))"

definition handle_workspace_symbol :: "query_context \<Rightarrow> string option \<Rightarrow> workspace_symbol list" where
  "handle_workspace_symbol qc query =
     concat (map (\<lambda>d. collect_symbols (or_empty query) (doc_symbol_pool (Some d)) (snap_uri (qd_snap d)) None) (qc_docs qc))"

subsection \<open>The text in the buffer\<close>

definition json_string :: "string \<Rightarrow> string" where
  "json_string s = [CHR 0x22] @ concat (map (\<lambda>c. if needs_escape c then escape_char c else [c]) s) @ [CHR 0x22]"

definition range_text :: "LspRange \<Rightarrow> string" where
  "range_text r =
     key (key ''{'' ''start'' @ ''{'') ''line'' @ write_uint32 (line (range_start r)) @
     key '','' ''character'' @ write_uint32 (character (range_start r)) @
     key (key ''},'' ''end'' @ ''{'') ''line'' @ write_uint32 (line (range_end r)) @
     key '','' ''character'' @ write_uint32 (character (range_end r)) @ ''}}''"

definition head_text :: "tj_info \<Rightarrow> string" where
  "head_text i =
     key ''{'' ''name'' @ json_string (or_empty (node_name i)) @
     key '','' ''detail'' @ json_string (or_empty (node_id i)) @
     key '','' ''kind'' @ write_uint32 (symbol_kind_for (keyword i)) @
     key '','' ''range'' @ range_text (node_range i) @
     key '','' ''selectionRange'' @ range_text (selection_range i)"

fun node_text :: "tj_node \<Rightarrow> string"
  and nodes_text :: "bool \<Rightarrow> tj_node list \<Rightarrow> string" where
  "node_text (TjNode i cs) = head_text i @
     (if cs = [] then [] else key '','' ''children'' @ ''['' @ nodes_text True cs @ '']'') @ ''}''"
| "nodes_text first [] = []"
| "nodes_text first (n # ns) = (if first then [] else '','') @ node_text n @ nodes_text False ns"

definition fits :: "Buf \<Rightarrow> bool" where
  "fits b = (length (buf_data b) \<le> buf_cap b)"

text \<open>A push appends, and the capacity grown by doubling holds the bytes.\<close>

definition pushes :: "Buf \<Rightarrow> string \<Rightarrow> Buf \<Rightarrow> bool" where
  "pushes b s b' = (buf_data b' = buf_data b @ s \<and> (fits b \<longrightarrow> fits b'))"

lemma pushes_refl: "pushes b [] b"
  by (simp add: pushes_def)

lemma pushes_trans [trans]: "pushes b s b' \<Longrightarrow> pushes b' t b'' \<Longrightarrow> pushes b (s @ t) b''"
  by (simp add: pushes_def)

lemma double_until_ge: "0 < cap \<Longrightarrow> need \<le> double_until cap need"
proof (induction cap need rule: double_until.induct)
  case (1 cap need)
  then show ?case
    by (cases "cap < need") (simp_all add: double_until.simps [of cap need])
qed

lemma reserve_cap: "length (buf_data b) + n \<le> buf_cap (reserve b n)"
  using double_until_ge [of "if buf_cap b = 0 then 4096 else buf_cap b * 2" "length (buf_data b) + n"]
  by (auto simp: reserve_def)

lemma push_pushes: "pushes b s (buf_push b s)"
  using reserve_cap [of b "length s"] by (simp add: pushes_def buf_push_def fits_def)

lemma push_uint_pushes: "pushes b (write_uint32 v) (buf_push_uint b v)"
  using reserve_cap [of b 10] write_uint32_length [of v] by (simp add: pushes_def buf_push_uint_def fits_def)

lemma push_runs_pushes: "pushes b (concat (map (\<lambda>c. if needs_escape c then escape_char c else [c]) s)) (push_runs b s)"
proof (induction b s rule: push_runs.induct)
  case (1 b s)
  let ?f = "\<lambda>c. if needs_escape c then escape_char c else [c]"
  let ?run = "takeWhile (\<lambda>c. \<not> needs_escape c) s"
  let ?b1 = "if ?run \<noteq> [] then buf_push b ?run else b"
  have plain: "concat (map ?f r) = r" if "\<forall>c \<in> set r. \<not> needs_escape c" for r
    using that by (induction r) auto
  have run: "concat (map ?f ?run) = ?run"
    by (rule plain) (auto dest: set_takeWhileD)
  have b1: "pushes b ?run ?b1"
    using push_pushes [of b ?run] pushes_refl [of b] by simp
  show ?case
  proof (cases "dropWhile (\<lambda>c. \<not> needs_escape c) s")
    case Nil
    then have s: "s = ?run"
      by (metis append.right_neutral takeWhile_dropWhile_id)
    have "push_runs b s = ?b1"
      using Nil by (subst push_runs.simps) (simp only: Let_def list.case)
    moreover have "concat (map ?f s) = ?run"
      using run s by metis
    ultimately show ?thesis
      using b1 by (simp only:)
  next
    case (Cons c rest)
    then have s: "s = ?run @ c # rest"
      by (metis takeWhile_dropWhile_id)
    have esc: "needs_escape c"
      using Cons hd_dropWhile [of "\<lambda>c. \<not> needs_escape c" s] by simp
    have "push_runs b s = push_runs (buf_push ?b1 (escape_char c)) rest"
      using Cons by (subst push_runs.simps) (simp only: Let_def list.case)
    moreover have "pushes (buf_push ?b1 (escape_char c)) (concat (map ?f rest)) (push_runs (buf_push ?b1 (escape_char c)) rest)"
      using "1.IH" [OF refl refl Cons] .
    ultimately have "pushes b ((?run @ escape_char c) @ concat (map ?f rest)) (push_runs b s)"
      using pushes_trans [OF pushes_trans [OF b1 push_pushes]] by simp
    moreover have "concat (map ?f s) = (?run @ escape_char c) @ concat (map ?f rest)"
      using run esc by (subst s) simp
    ultimately show ?thesis by simp
  qed
qed

lemma push_json_str_pushes: "pushes b (json_string s) (buf_push_json_str b s)"
  unfolding json_string_def buf_push_json_str_def
  by (intro pushes_trans [OF push_pushes] pushes_trans [OF push_runs_pushes] push_pushes)

lemma push_step: "pushes b s b' \<Longrightarrow> pushes b (s @ x) (buf_push b' x)"
  and uint_step: "pushes b s b' \<Longrightarrow> pushes b (s @ write_uint32 v) (buf_push_uint b' v)"
  and str_step: "pushes b s b' \<Longrightarrow> pushes b (s @ json_string x) (buf_push_json_str b' x)"
  by (rule pushes_trans, assumption, rule push_pushes push_uint_pushes push_json_str_pushes)+

lemma range_step: "pushes b s b' \<Longrightarrow> pushes b (s @ range_text r) (write_range_buf b' r)"
proof -
  assume "pushes b s b'"
  then have "pushes b (((((((((s @ key (key ''{'' ''start'' @ ''{'') ''line'') @ write_uint32 (line (range_start r))) @
      key '','' ''character'') @ write_uint32 (character (range_start r))) @
      key (key ''},'' ''end'' @ ''{'') ''line'') @ write_uint32 (line (range_end r))) @
      key '','' ''character'') @ write_uint32 (character (range_end r))) @ ''}}'') (write_range_buf b' r)"
    unfolding write_range_buf_def Let_def by (intro push_step uint_step)
  then show ?thesis
    by (simp only: range_text_def append_assoc)
qed

lemma head_step: "pushes b s b' \<Longrightarrow> pushes b (s @ head_text i) (write_head_buf b' i)"
proof -
  assume "pushes b s b'"
  then have "pushes b ((((((((((s @ key ''{'' ''name'') @ json_string (or_empty (node_name i))) @
      key '','' ''detail'') @ json_string (or_empty (node_id i))) @
      key '','' ''kind'') @ write_uint32 (symbol_kind_for (keyword i))) @
      key '','' ''range'') @ range_text (node_range i)) @
      key '','' ''selectionRange'') @ range_text (selection_range i)) (write_head_buf b' i)"
    unfolding write_head_buf_def Let_def by (intro push_step uint_step str_step range_step)
  then show ?thesis
    by (simp only: head_text_def append_assoc)
qed

lemma write_node_step:
  "pushes b0 s b \<Longrightarrow> pushes b0 (s @ node_text n) (write_node_buf b n)"
  "pushes b0 s b \<Longrightarrow> pushes b0 (s @ nodes_text first ns) (write_nodes_buf b first ns)"
proof (induction b n and b first ns arbitrary: s and s rule: write_node_buf_write_nodes_buf.induct)
  case (1 b i cs)
  note head = head_step [OF "1.prems", of i]
  show ?case
  proof (cases "cs = []")
    case True
    then show ?thesis
      using push_step [OF head, of "''}''"] by (simp add: Let_def)
  next
    case False
    have "pushes b0 ((s @ head_text i) @ (key '','' ''children'' @ ''['')) (buf_push (write_head_buf b i) (key '','' ''children'' @ ''[''))"
      by (rule push_step [OF head])
    from "1.IH" [OF refl False this]
    have "pushes b0 (((((s @ head_text i) @ (key '','' ''children'' @ ''['')) @ nodes_text True cs) @ '']'') @ ''}'') (write_node_buf b (TjNode i cs))"
      using False by (simp only: write_node_buf.simps Let_def if_False) (intro push_step)
    then show ?thesis
      using False by simp
  qed
next
  case (2 b first)
  then show ?case by simp
next
  case (3 b first n ns)
  have "pushes b0 (s @ (if first then [] else '','')) (if first then b else buf_push b '','')"
    using "3.prems" push_step [OF "3.prems", of "'',''"] by simp
  from "3.IH"(2) [OF "3.IH"(1) [OF this]] show ?case
    by simp
qed

lemma document_symbols_text:
  "fst (build_document_symbols_json syms) = ''['' @ nodes_text True syms @ '']''"
  "fits (snd (build_document_symbols_json syms))"
proof -
  let ?b = "buf_push (write_nodes_buf (buf_push empty_buf ''['') True syms) '']''"
  have "pushes empty_buf (([] @ ''['') @ nodes_text True syms @ '']'') ?b"
    using push_step [OF write_node_step(2) [OF push_step [OF pushes_refl [of empty_buf], of "''[''"], of True syms], of "'']''"]
    by simp
  moreover have "fits empty_buf" and "buf_data empty_buf = []"
    by (simp_all add: fits_def empty_buf_def)
  ultimately have "buf_data ?b = ''['' @ nodes_text True syms @ '']''" and f: "fits ?b"
    by (simp_all add: pushes_def)
  then show "fst (build_document_symbols_json syms) = ''['' @ nodes_text True syms @ '']''"
    by (simp add: build_document_symbols_json_def Let_def)
  show "fits (snd (build_document_symbols_json syms))"
    using push_pushes [of ?b "[nul]"] f by (simp add: build_document_symbols_json_def Let_def pushes_def)
qed

subsection \<open>Reading the response\<close>

text \<open>A reader of the JSON the response is written in, with fuel for the nesting.\<close>

datatype outline =
  Outline (ol_name: string) (ol_detail: string) (ol_kind: u32) (ol_range: LspRange) (ol_selection: LspRange)
    (ol_children: "outline list")

definition strip :: "string \<Rightarrow> string \<Rightarrow> string option" where
  "strip l s = (if take (length l) s = l then Some (drop (length l) s) else None)"

fun unescape :: "string \<Rightarrow> (string \<times> string) option" where
  "unescape [] = None"
| "unescape (c # s) =
     (if c = CHR 0x22 then Some ([], s)
      else if c \<noteq> CHR 0x5C then map_option (apfst (Cons c)) (unescape s)
      else (case s of
              d # s' \<Rightarrow>
                if d \<noteq> CHR ''u'' then map_option (apfst (Cons d)) (unescape s')
                else (case s' of
                        z1 # z2 # h1 # h2 # r \<Rightarrow>
                          map_option (apfst (Cons (char_of (16 * hex_val h1 + hex_val h2)))) (unescape r)
                      | _ \<Rightarrow> None)
            | [] \<Rightarrow> None))"

definition read_string :: "string \<Rightarrow> (string \<times> string) option" where
  "read_string s = Option.bind (strip [CHR 0x22] s) unescape"

definition read_num :: "string \<Rightarrow> (u32 \<times> string) option" where
  "read_num s = (let d = takeWhile is_digit s in
     if d = [] then None else Some (of_nat (dec_value d), drop (length d) s))"

definition read_range :: "string \<Rightarrow> (LspRange \<times> string) option" where
  "read_range s = do {
     s \<leftarrow> strip (key (key ''{'' ''start'' @ ''{'') ''line'') s;
     (l1, s) \<leftarrow> read_num s;
     s \<leftarrow> strip (key '','' ''character'') s;
     (c1, s) \<leftarrow> read_num s;
     s \<leftarrow> strip (key (key ''},'' ''end'' @ ''{'') ''line'') s;
     (l2, s) \<leftarrow> read_num s;
     s \<leftarrow> strip (key '','' ''character'') s;
     (c2, s) \<leftarrow> read_num s;
     s \<leftarrow> strip ''}}'' s;
     Some (\<lparr> range_start = LspPos l1 c1, range_end = LspPos l2 c2 \<rparr>, s) }"

fun read_node :: "nat \<Rightarrow> string \<Rightarrow> (outline \<times> string) option"
  and read_nodes :: "nat \<Rightarrow> bool \<Rightarrow> string \<Rightarrow> (outline list \<times> string) option" where
  "read_node 0 s = None"
| "read_node (Suc f) s = do {
     s \<leftarrow> strip (key ''{'' ''name'') s;
     (name, s) \<leftarrow> read_string s;
     s \<leftarrow> strip (key '','' ''detail'') s;
     (detail, s) \<leftarrow> read_string s;
     s \<leftarrow> strip (key '','' ''kind'') s;
     (k, s) \<leftarrow> read_num s;
     s \<leftarrow> strip (key '','' ''range'') s;
     (r, s) \<leftarrow> read_range s;
     s \<leftarrow> strip (key '','' ''selectionRange'') s;
     (sel, s) \<leftarrow> read_range s;
     (kids, s) \<leftarrow> (case strip (key '','' ''children'' @ ''['') s of
                      None \<Rightarrow> Some ([], s)
                    | Some s \<Rightarrow> do { (kids, s) \<leftarrow> read_nodes f True s; s \<leftarrow> strip '']'' s; Some (kids, s) });
     s \<leftarrow> strip ''}'' s;
     Some (Outline name detail k r sel kids, s) }"
| "read_nodes 0 first s = None"
| "read_nodes (Suc f) first s =
     (if strip '']'' s \<noteq> None then Some ([], s)
      else do {
        s \<leftarrow> (if first then Some s else strip '','' s);
        (n, s) \<leftarrow> read_node f s;
        (ns, s) \<leftarrow> read_nodes f False s;
        Some (n # ns, s) })"

definition read_symbols :: "string \<Rightarrow> outline list option" where
  "read_symbols s = do {
     t \<leftarrow> strip ''['' s;
     (ns, t) \<leftarrow> read_nodes (length s) True t;
     t \<leftarrow> strip '']'' t;
     if t = [] then Some ns else None }"

fun outline_of :: "tj_node \<Rightarrow> outline" where
  "outline_of (TjNode i cs) = Outline (or_empty (node_name i)) (or_empty (node_id i)) (symbol_kind_for (keyword i))
     (node_range i) (selection_range i) (map outline_of cs)"

lemma strip_append [simp]: "strip l (l @ r) = Some r"
  by (simp add: strip_def)

lemma strip_chars [simp]: "strip [] s = Some s" "strip (a # l) (a # s) = strip l s"
  by (simp_all add: strip_def)

lemma punctuation [simp]: "\<not> is_digit CHR '',''" "\<not> is_digit CHR ''}''"
  by (simp_all add: is_digit_def)

lemma strip_miss: "s \<noteq> [] \<Longrightarrow> l \<noteq> [] \<Longrightarrow> hd s \<noteq> hd l \<Longrightarrow> strip l s = None"
  by (cases s; cases l) (auto simp: strip_def)

lemma key_hd [simp]: "l \<noteq> [] \<Longrightarrow> hd (key l n) = hd l" "key l n \<noteq> []"
  by (simp_all add: key_def)

lemma hex_lower_val: "n < 16 \<Longrightarrow> hex_val (hex_lower n) = n"
  by (simp add: less_eq_Suc_le) (force simp: eval_nat_numeral le_Suc_eq hex_lower_def hex_val_def)

lemma unescape_char:
  "unescape ((if needs_escape c then escape_char c else [c]) @ s) = map_option (apfst (Cons c)) (unescape s)"
proof (cases "needs_escape c")
  case False
  then show ?thesis by (simp add: needs_escape_def)
next
  case esc: True
  show ?thesis
  proof (cases "c = CHR 0x22 \<or> c = CHR 0x5C")
    case True
    then show ?thesis using esc by (auto simp: escape_char_def)
  next
    case False
    have "(of_char c :: nat) div 16 < 16" "(of_char c :: nat) mod 16 < 16"
      using of_char_lt_256 [of c] by (simp_all add: less_mult_imp_div_less)
    then have "char_of (16 * hex_val (hex_lower (of_char c div 16)) + hex_val (hex_lower (of_char c mod 16))) = c"
      using hex_lower_val by simp
    then show ?thesis
      using esc False by (simp add: escape_char_def)
  qed
qed

lemma read_json_string: "read_string (json_string s @ r) = Some (s, r)"
proof -
  have "unescape (concat (map (\<lambda>c. if needs_escape c then escape_char c else [c]) s) @ [CHR 0x22] @ r) = Some (s, r)"
  proof (induction s)
    case (Cons c s)
    have "unescape ((if needs_escape c then escape_char c else [c]) @
        (concat (map (\<lambda>c. if needs_escape c then escape_char c else [c]) s) @ [CHR 0x22] @ r)) =
      map_option (apfst (Cons c)) (Some (s, r))"
      unfolding unescape_char Cons.IH ..
    then show ?case by simp
  qed simp
  then show ?thesis
    using strip_append [of "[CHR 0x22]"] by (simp add: read_string_def json_string_def)
qed

lemma read_num_write: "r \<noteq> [] \<Longrightarrow> \<not> is_digit (hd r) \<Longrightarrow> read_num (write_uint32 v @ r) = Some (v, r)"
proof -
  assume "r \<noteq> []" "\<not> is_digit (hd r)"
  then have "takeWhile is_digit (write_uint32 v @ r) = write_uint32 v"
    using write_uint32_digits [of v] by (cases r) (auto simp: list_all_iff takeWhile_tail)
  then show ?thesis
    using write_uint32_seg [of v] write_uint32_value [of v] by (simp add: read_num_def)
qed

lemma read_range_text [simp]: "read_range (range_text x @ r) = Some (x, r)"
  by (simp add: read_range_def range_text_def read_num_write)

fun weight :: "tj_node \<Rightarrow> nat" and weights :: "tj_node list \<Rightarrow> nat" where
  "weight (TjNode i cs) = Suc (weights cs)"
| "weights [] = 1"
| "weights (n # ns) = Suc (weight n + weights ns)"

lemma node_text_hd: "\<exists>s. node_text n = CHR ''{'' # s"
  by (cases n) (simp add: head_text_def key_def)

lemma nodes_text_first: "nodes_text True ns = drop 1 (nodes_text False ns)"
  by (cases ns) auto

lemma read_node_text:
  "weight n \<le> f \<Longrightarrow> read_node f (node_text n @ r) = Some (outline_of n, r)"
  "weights ns \<le> f \<Longrightarrow> read_nodes f first (nodes_text first ns @ '']'' @ r) = Some (map outline_of ns, '']'' @ r)"
proof (induction n and first ns arbitrary: f r and f r rule: node_text_nodes_text.induct)
  case (1 i cs)
  then obtain g where f: "f = Suc g" by (cases f) auto
  show ?case
  proof (cases "cs = []")
    case True
    have "strip (key '','' ''children'' @ ''['') (''}'' @ r) = None"
      by (rule strip_miss) simp_all
    then show ?thesis
      using True by (simp add: f head_text_def read_json_string read_num_write)
  next
    case False
    have "read_nodes g True (nodes_text True cs @ '']'' @ ''}'' @ r) = Some (map outline_of cs, '']'' @ ''}'' @ r)"
      using "1.IH" [OF False] "1.prems" f by simp
    moreover have "strip (key '','' ''children'' @ ''['') (key '','' ''children'' @ ''['' @ s) = Some s" for s
      using strip_append [of "key '','' ''children'' @ ''[''" s] by simp
    ultimately show ?thesis
      using False by (simp add: f head_text_def read_json_string read_num_write)
  qed
next
  case (2 first)
  then obtain g where f: "f = Suc g" by (cases f) auto
  then show ?case by simp
next
  case (3 first n ns)
  then obtain g where f: "f = Suc g" by (cases f) auto
  obtain s where s: "node_text n = CHR ''{'' # s"
    using node_text_hd by blast
  have miss: "strip '']'' (nodes_text first (n # ns) @ '']'' @ r) = None"
    by (rule strip_miss) (simp_all add: s)
  have n: "read_node g (node_text n @ nodes_text False ns @ '']'' @ r) = Some (outline_of n, nodes_text False ns @ '']'' @ r)"
    using "3.IH"(1) [of g "nodes_text False ns @ '']'' @ r"] "3.prems" f by simp
  have ns: "read_nodes g False (nodes_text False ns @ '']'' @ r) = Some (map outline_of ns, '']'' @ r)"
    using "3.IH"(2) [of g r] "3.prems" f by simp
  have "(if first then Some (nodes_text first (n # ns) @ '']'' @ r) else strip '','' (nodes_text first (n # ns) @ '']'' @ r)) =
      Some (node_text n @ nodes_text False ns @ '']'' @ r)"
    by simp
  then show ?case
    using miss n ns by (simp only: f read_nodes.simps bind.simps prod.case option.simps simp_thms if_False) simp
qed

lemma weight_text:
  "weight n \<le> length (node_text n)"
  "weights ns \<le> Suc (length (nodes_text False ns))"
proof (induction n and ns rule: weight_weights.induct)
  case (1 i cs)
  have "2 \<le> length (head_text i)"
    by (simp add: head_text_def key_def)
  moreover have "length (nodes_text False cs) \<le> Suc (length (nodes_text True cs))"
    by (simp add: nodes_text_first)
  moreover have "cs = [] \<Longrightarrow> weights cs = 1"
    by simp
  ultimately show ?case
    using 1 by (cases "cs = []") (simp_all add: key_def)
qed simp_all

subsection \<open>Properties\<close>


end
