(* ===== verification/Calendar.thy ===== *)
theory Calendar
  imports Semantic_Tokens
begin

text \<open>
  Dates: \<open>parse_tjp_date\<close> of \<open>src/src/parser.c\<close> and \<open>format_date\<close>, \<open>step_day\<close>, \<open>is_weekend\<close> of
  \<open>code_lens.c\<close>, with what they use of the C library: \<open>sscanf\<close> of a number with a field width,
  \<open>timegm\<close> and \<open>gmtime_r\<close> in the proleptic Gregorian calendar.  A \<open>time_t\<close> is an \<open>int\<close>: the
  dates the code computes stay far inside 64 bits.
\<close>

subsection \<open>The calendar\<close>

definition leap_year :: "int \<Rightarrow> bool" where
  "leap_year y = (4 dvd y \<and> (\<not> 100 dvd y \<or> 400 dvd y))"

definition year_days :: "int \<Rightarrow> int" where
  "year_days y = (if leap_year y then 366 else 365)"

text \<open>The days from 1970-01-01 to the first of January of a year.\<close>

definition days_before_year :: "int \<Rightarrow> int" where
  "days_before_year y = 365 * (y - 1970) + ((y - 1) div 4 - (y - 1) div 100 + (y - 1) div 400) - 477"

definition month_lengths :: "int \<Rightarrow> int list" where
  "month_lengths y = [31, if leap_year y then 29 else 28, 31, 30, 31, 30, 31, 31, 30, 31, 30, 31]"

definition month_days :: "int \<Rightarrow> nat \<Rightarrow> int" where
  "month_days y m = month_lengths y ! m"

definition days_before_month :: "int \<Rightarrow> nat \<Rightarrow> int" where
  "days_before_month y m = sum_list (take m (month_lengths y))"

text \<open>\<open>gmtime_r\<close>: the year that holds a day, from a year to start from; then the month of it.\<close>

lemma year_days_bounds: "365 \<le> year_days y \<and> year_days y \<le> 366"
  by (simp add: year_days_def)

function year_of :: "int \<Rightarrow> int \<Rightarrow> int \<times> int" where
  "year_of y d =
     (if d < 0 then year_of (y - 1) (d + year_days (y - 1))
      else if year_days y \<le> d then year_of (y + 1) (d - year_days y)
      else (y, d))"
  by pat_completeness auto
termination
proof (relation "measure (\<lambda>(y, d). nat (if d < 0 then 400 - d else d))")
  show "((y - 1, d + year_days (y - 1)), y, d) \<in> measure (\<lambda>(y, d). nat (if d < 0 then 400 - d else d))"
    if "d < 0" for y d
    using that year_days_bounds [of "y - 1"] by auto
  show "((y + 1, d - year_days y), y, d) \<in> measure (\<lambda>(y, d). nat (if d < 0 then 400 - d else d))"
    if "\<not> d < 0" "year_days y \<le> d" for y d
    using that year_days_bounds [of y] by auto
qed simp

declare year_of.simps [simp del]

fun month_of :: "int list \<Rightarrow> int \<Rightarrow> nat \<times> int" where
  "month_of [] d = (0, d)"
| "month_of (l # ls) d = (if d < l then (0, d) else (case month_of ls (d - l) of (m, r) \<Rightarrow> (Suc m, r)))"

record tm =
  tm_year :: int
  tm_mon :: int
  tm_mday :: int
  tm_wday :: int

definition gmtime :: "int \<Rightarrow> tm" where
  "gmtime t =
     (let days = t div 86400;
          (y, yd) = year_of 1970 days;
          (m, r) = month_of (month_lengths y) yd in
      \<lparr> tm_year = y - 1900, tm_mon = int m, tm_mday = r + 1, tm_wday = (days + 4) mod 7 \<rparr>)"

text \<open>\<open>timegm\<close> of a date at midnight: months out of range carry into the year.\<close>

definition timegm :: "int \<Rightarrow> int \<Rightarrow> int \<Rightarrow> int" where
  "timegm year mon mday =
     (let y = year + 1900 + mon div 12; m = nat (mon mod 12) in
      86400 * (days_before_year y + days_before_month y m + mday - 1))"

subsection \<open>Reading and writing dates\<close>

definition is_space :: "char \<Rightarrow> bool" where
  "is_space c = (c = CHR '' '' \<or> (let n = of_char c :: nat in 9 \<le> n \<and> n \<le> 13))"

text \<open>\<open>%<w>d\<close>: white space, an optional sign, and at least one digit, in at most \<open>w\<close> bytes.\<close>

definition digits_value :: "string \<Rightarrow> int" where
  "digits_value ds = foldl (\<lambda>n c. 10 * n + (of_char c - 48)) 0 ds"

text \<open>\<open>strtol\<close> in base ten.\<close>

definition strtol :: "string \<Rightarrow> int" where
  "strtol s =
     (let p = dropWhile is_space s;
          (sgn, q) = (case p of c # cs \<Rightarrow> if c = CHR ''-'' then (- 1, cs) else if c = CHR ''+'' then (1, cs) else (1, p)
                      | [] \<Rightarrow> (1, p)) in
      max (- (2 ^ 63)) (min (2 ^ 63 - 1) (sgn * digits_value (takeWhile is_digit q))))"

definition scan_digits :: "nat \<Rightarrow> string \<Rightarrow> (int \<times> string) option" where
  "scan_digits w s =
     (let ds = takeWhile is_digit (take w s) in
      if ds = [] then None else Some (digits_value ds, drop (length ds) s))"

definition scan_int :: "nat \<Rightarrow> string \<Rightarrow> (int \<times> string) option" where
  "scan_int w s =
     (case dropWhile is_space s of
        [] \<Rightarrow> None
      | c # cs \<Rightarrow>
          if c = CHR ''-'' then map_option (\<lambda>(n, r). (- n, r)) (scan_digits (w - 1) cs)
          else if c = CHR ''+'' then scan_digits (w - 1) cs
          else scan_digits w (c # cs))"

definition scan_dash :: "string \<Rightarrow> string option" where
  "scan_dash s = (case s of [] \<Rightarrow> None | c # cs \<Rightarrow> if c = CHR ''-'' then Some cs else None)"

definition parse_tjp_date :: "string option \<Rightarrow> int option" where
  "parse_tjp_date text =
     Option.bind text (\<lambda>s.
     Option.bind (scan_int 4 s) (\<lambda>(year, s1).
     Option.bind (Option.bind (scan_dash s1) (scan_int 2)) (\<lambda>(month, s2).
     Option.bind (Option.bind (scan_dash s2) (scan_int 2)) (\<lambda>(day, s3).
     (let t = timegm (year - 1900) (month - 1) day in
      if t = - 1 then None else Some t)))))"

text \<open>\<open>%0<w>d\<close>.\<close>

fun decimal :: "nat \<Rightarrow> string" where
  "decimal n = (if n < 10 then [char_of (48 + n)] else decimal (n div 10) @ [char_of (48 + n mod 10)])"

declare decimal.simps [simp del]

definition pad_int :: "nat \<Rightarrow> int \<Rightarrow> string" where
  "pad_int w n =
     (let ds = decimal (nat \<bar>n\<bar>); sgn = (if n < 0 then ''-'' else '''') in
      sgn @ replicate (w - length sgn - length ds) (CHR ''0'') @ ds)"

definition format_date :: "int \<Rightarrow> nat \<Rightarrow> string" where
  "format_date t buf_size =
     (let b = gmtime t in
      take (buf_size - 1)
        (pad_int 4 (tm_year b + 1900) @ ''-'' @ pad_int 2 (tm_mon b + 1) @ ''-'' @ pad_int 2 (tm_mday b)))"

subsection \<open>Printed dates read back\<close>

lemma digits_value_append: "digits_value (ds @ [c]) = 10 * digits_value ds + (of_char c - 48)"
  by (simp add: digits_value_def)

lemma digit_char_value: "n < 10 \<Longrightarrow> (of_char (char_of (48 + n :: nat)) :: int) = 48 + int n"
proof -
  assume "n < 10"
  then have "(of_char (char_of (48 + n)) :: nat) = 48 + n"
    by simp
  then show ?thesis
    by (metis of_nat_of_char of_nat_add of_nat_numeral)
qed

lemma decimal_digits: "list_all is_digit (decimal n)"
proof (induction n rule: decimal.induct)
  case (1 n)
  then show ?case
    by (subst decimal.simps) (simp add: digit_char)
qed

lemma decimal_value: "digits_value (decimal n) = int n"
proof (induction n rule: decimal.induct)
  case (1 n)
  show ?case
  proof (cases "n < 10")
    case True
    then show ?thesis
      by (subst decimal.simps) (simp add: digits_value_def digit_char_value)
  next
    case False
    then have "decimal n = decimal (n div 10) @ [char_of (48 + n mod 10)]"
      by (subst decimal.simps) simp
    then show ?thesis
      using 1 [OF False] by (simp add: digits_value_append digit_char_value zdiv_int zmod_int)
  qed
qed

lemma decimal_length: "n < 10 ^ Suc k \<Longrightarrow> length (decimal n) \<le> Suc k"
proof (induction k arbitrary: n)
  case 0
  then show ?case
    by (subst decimal.simps) simp
next
  case (Suc k)
  show ?case
  proof (cases "n < 10")
    case False
    have "n div 10 < 10 ^ Suc k"
      using Suc.prems by (simp add: less_mult_imp_div_less)
    then show ?thesis
      using Suc.IH [of "n div 10"] False by (subst decimal.simps) simp
  qed (subst decimal.simps, simp)
qed

lemma digits_value_zeros: "digits_value (replicate k (CHR ''0'') @ ds) = digits_value ds"
  by (induction k) (simp_all add: digits_value_def)

lemma decimal_nonempty: "decimal n \<noteq> []"
  by (subst decimal.simps) simp

lemma pad_int_field:
  assumes "0 \<le> n" and "nat n < 10 ^ w" and "0 < w"
  shows "length (pad_int w n) = w" "list_all is_digit (pad_int w n)" "digits_value (pad_int w n) = n"
proof -
  obtain k where w: "w = Suc k"
    using assms(3) by (cases w) auto
  have l: "length (decimal (nat n)) \<le> w"
    using decimal_length [of "nat n" k] assms(2) by (simp add: w)
  have p: "pad_int w n = replicate (w - length (decimal (nat n))) (CHR ''0'') @ decimal (nat n)"
    using assms(1) by (simp add: pad_int_def Let_def)
  show "length (pad_int w n) = w"
    using l by (simp add: p)
  show "list_all is_digit (pad_int w n)"
    using decimal_digits [of "nat n"] by (simp add: p list_all_append) (simp add: list_all_iff is_digit_def)
  show "digits_value (pad_int w n) = n"
    using assms(1) by (simp add: p digits_value_zeros decimal_value)
qed

lemma scan_int_field:
  assumes "list_all is_digit ds" and "length ds = w" and "0 < w"
  shows "scan_int w (ds @ rest) = Some (digits_value ds, rest)"
proof -
  obtain c cs where ds: "ds = c # cs"
    using assms(2,3) by (cases ds) auto
  then have c: "is_digit c"
    using assms(1) by simp
  then have "\<not> is_space c" "c \<noteq> CHR ''-''" "c \<noteq> CHR ''+''"
    by (auto simp: is_digit_def is_space_def)
  moreover have "takeWhile is_digit ds = ds"
    using assms(1) by (simp add: takeWhile_eq_all_conv list_all_iff)
  then have "takeWhile is_digit (take w (ds @ rest)) = ds"
    using assms(2) by simp
  moreover have "drop w (ds @ rest) = rest"
    using assms(2) by simp
  moreover have "scan_int w (ds @ rest) = scan_digits w (ds @ rest)"
    using calculation(1-3) by (simp add: scan_int_def ds)
  ultimately show ?thesis
    using assms(2,3) by (simp add: scan_digits_def Let_def ds)
qed

subsection \<open>The days of the calendar\<close>

lemma div_step: "0 < k \<Longrightarrow> y div k = (y - 1) div k + (if k dvd y then 1 else 0)" for y k :: int
proof (cases "k dvd y")
  case True
  assume k: "0 < k"
  from True obtain q where q: "y = k * q" ..
  have "(y - 1) div k = q - 1"
    using k by (intro int_div_pos_eq [where r = "k - 1"]) (simp_all add: q algebra_simps)
  then show ?thesis
    using True k by (simp add: q)
next
  case False
  assume k: "0 < k"
  have "0 < y mod k"
    using False pos_mod_sign [OF k, of y] by (simp add: dvd_eq_mod_eq_0 order_less_le)
  moreover have "y - 1 = k * (y div k) + (y mod k - 1)"
    by (metis add_diff_eq mult_div_mod_eq)
  ultimately have "(y - 1) div k = y div k"
    using pos_mod_bound [OF k, of y] by (intro int_div_pos_eq [where r = "y mod k - 1"]) auto
  then show ?thesis
    using False by simp
qed

lemma days_before_year_step: "days_before_year (y + 1) = days_before_year y + year_days y"
proof -
  have d: "400 dvd y \<Longrightarrow> 100 dvd y" "100 dvd y \<Longrightarrow> 4 dvd y"
    using dvd_trans [of 100 400 y] dvd_trans [of 4 100 y] by simp_all
  define a where "a = (y - 1) div 4"
  define b where "b = (y - 1) div 100"
  define c where "c = (y - 1) div 400"
  define i where "i = (if 4 dvd y then 1 else 0 :: int)"
  define j where "j = (if 100 dvd y then 1 else 0 :: int)"
  define k where "k = (if 400 dvd y then 1 else 0 :: int)"
  have e: "y div 4 = a + i" "y div 100 = b + j" "y div 400 = c + k"
    unfolding a_def b_def c_def i_def j_def k_def by (simp_all only: div_step [symmetric] zero_less_numeral)
  have l: "year_days y = 365 + (i - j + k)"
    unfolding i_def j_def k_def leap_year_def year_days_def using d
    by (cases "4 dvd y"; cases "100 dvd y"; cases "400 dvd y") (simp_all only: simp_thms if_True if_False)
  show ?thesis
    unfolding days_before_year_def add_diff_cancel_right' e l a_def [symmetric] b_def [symmetric] c_def [symmetric]
    by (simp add: algebra_simps)
qed

lemma year_of_spec:
  "year_of y d = (y', d') \<Longrightarrow> days_before_year y' + d' = days_before_year y + d \<and> 0 \<le> d' \<and> d' < year_days y'"
proof (induction y d rule: year_of.induct)
  case (1 y d)
  consider "d < 0" | "\<not> d < 0" "year_days y \<le> d" | "\<not> d < 0" "\<not> year_days y \<le> d"
    by blast
  then show ?case
  proof cases
    case 1
    then show ?thesis
      using "1.IH"(1) "1.prems" days_before_year_step [of "y - 1"] by (subst (asm) year_of.simps) simp
  next
    case 2
    then show ?thesis
      using "1.IH"(2) "1.prems" days_before_year_step [of y] by (subst (asm) year_of.simps) simp
  next
    case 3
    then show ?thesis
      using "1.prems" by (subst (asm) year_of.simps) simp
  qed
qed

lemma month_of_spec:
  "month_of ls d = (m, r) \<Longrightarrow> 0 \<le> d \<Longrightarrow> d < sum_list ls \<Longrightarrow>
     m < length ls \<and> sum_list (take m ls) + r = d \<and> 0 \<le> r \<and> r < ls ! m"
proof (induction ls d arbitrary: m rule: month_of.induct)
  case (2 l ls d)
  show ?case
  proof (cases "d < l")
    case True
    then show ?thesis using "2.prems" by simp
  next
    case False
    then obtain k where k: "month_of ls (d - l) = (k, r)" "m = Suc k"
      using "2.prems"(1) by (auto split: prod.splits)
    show ?thesis
      using "2.IH" [OF False k(1)] False "2.prems" by (simp add: k(2))
  qed
qed simp

lemma year_length: "sum_list (month_lengths y) = year_days y"
  by (simp add: month_lengths_def year_days_def)

text \<open>The fields of \<open>gmtime\<close> name the day: \<open>timegm\<close> gives its midnight.\<close>

lemma gmtime_fields:
  "timegm (tm_year (gmtime t)) (tm_mon (gmtime t)) (tm_mday (gmtime t)) = t - t mod 86400"
  "0 \<le> tm_mon (gmtime t)" "tm_mon (gmtime t) < 12" "1 \<le> tm_mday (gmtime t)" "tm_mday (gmtime t) \<le> 31"
proof -
  obtain y yd where y: "year_of 1970 (t div 86400) = (y, yd)"
    by fastforce
  obtain m r where m: "month_of (month_lengths y) yd = (m, r)"
    by fastforce
  note yspec = year_of_spec [OF y]
  have twelve: "length (month_lengths y) = 12"
    by (simp add: month_lengths_def)
  then have mspec: "m < 12 \<and> days_before_month y m + r = yd \<and> 0 \<le> r \<and> r < month_lengths y ! m"
    using month_of_spec [OF m] by (simp only: year_length days_before_month_def twelve) (use yspec in simp)
  have g: "gmtime t = \<lparr> tm_year = y - 1900, tm_mon = int m, tm_mday = r + 1, tm_wday = (t div 86400 + 4) mod 7 \<rparr>"
    by (simp add: gmtime_def y m Let_def)
  have "month_lengths y ! m \<in> set (month_lengths y)"
    using mspec twelve by simp
  then have "month_lengths y ! m \<le> 31"
    by (auto simp: month_lengths_def split: if_splits)
  then show "0 \<le> tm_mon (gmtime t)" "tm_mon (gmtime t) < 12" "1 \<le> tm_mday (gmtime t)" "tm_mday (gmtime t) \<le> 31"
    using mspec by (simp_all add: g)
  have "days_before_year 1970 = 0"
    by (simp add: days_before_year_def)
  then have "days_before_year y + days_before_month y m + r = t div 86400"
    using yspec mspec by linarith
  then show "timegm (tm_year (gmtime t)) (tm_mon (gmtime t)) (tm_mday (gmtime t)) = t - t mod 86400"
    using mspec by (simp add: g timegm_def Let_def minus_mod_eq_mult_div)
qed

text \<open>The day printed for a time in the years 0 to 9999 reads back as its midnight.\<close>

lemma parse_format_date:
  assumes "0 \<le> tm_year (gmtime t) + 1900" and "tm_year (gmtime t) + 1900 \<le> 9999" and "11 \<le> n"
  shows "parse_tjp_date (Some (format_date t n)) = Some (t - t mod 86400)"
proof -
  define b where "b = gmtime t"
  note f = gmtime_fields [of t, folded b_def]
  let ?y = "pad_int 4 (tm_year b + 1900)" and ?m = "pad_int 2 (tm_mon b + 1)" and ?d = "pad_int 2 (tm_mday b)"
  note y = pad_int_field [of "tm_year b + 1900" 4] and m = pad_int_field [of "tm_mon b + 1" 2]
    and d = pad_int_field [of "tm_mday b" 2]
  have len: "length (?y @ ''-'' @ ?m @ ''-'' @ ?d) \<le> n - 1"
    using assms f y(1) m(1) d(1) by (simp add: b_def)
  have fmt: "format_date t n = ?y @ CHR ''-'' # ?m @ CHR ''-'' # ?d"
    using len by (simp add: format_date_def b_def [symmetric] Let_def)
  have sy: "scan_int 4 (?y @ r) = Some (tm_year b + 1900, r)" for r
    using scan_int_field [of ?y 4 r] y assms by (simp add: b_def)
  have sm: "scan_int 2 (?m @ r) = Some (tm_mon b + 1, r)" for r
    using scan_int_field [of ?m 2 r] m f by simp
  have sd: "scan_int 2 ?d = Some (tm_mday b, [])"
    using scan_int_field [of ?d 2 "[]"] d f by simp
  have "(86400 :: int) dvd t - t mod 86400"
    by simp
  then have "t - t mod 86400 \<noteq> - 1"
    by (metis dvd_minus_iff zdvd1_eq abs_numeral numeral_eq_one_iff semiring_norm(83))
  then show ?thesis
    using f(1) by (simp add: parse_tjp_date_def fmt sy sm sd scan_dash_def Let_def)
qed

end
