(* ===== verification/Code_Lens.thy ===== *)
theory Code_Lens
  imports Calendar Query_Context
begin

text \<open>
  Code lenses (\<open>src/src/code_lens.c\<close>): the other end of a task from one date and its \<open>duration\<close>
  or \<open>length\<close>.  Values are C ints, read modulo \<open>2^32\<close> where the code's accumulation overflows;
  the days and times computed from them fit 64 bits and are ints.
\<close>

subsection \<open>Durations\<close>

definition canon_unit :: "string option \<Rightarrow> char option" where
  "canon_unit s =
     (if s = Some ''min'' then Some (CHR ''i'') else if s = Some ''h'' then Some (CHR ''h'')
      else if s = Some ''d'' then Some (CHR ''d'') else if s = Some ''w'' then Some (CHR ''w'')
      else if s = Some ''m'' then Some (CHR ''m'') else if s = Some ''y'' then Some (CHR ''y'') else None)"

definition parse_compact_duration :: "string option \<Rightarrow> (int \<times> char) option" where
  "parse_compact_duration text =
     (case text of None \<Rightarrow> None | Some [] \<Rightarrow> None
      | Some (c # cs) \<Rightarrow>
          (let (sgn, p) = (if c = CHR ''+'' then (1, cs) else if c = CHR ''-'' then (- 1, cs) else (1, c # cs));
               ds = takeWhile is_digit p in
           if ds = [] then None
           else map_option (\<lambda>unit. (sint (sgn * word_of_int (digits_value ds) :: u32), unit))
                  (canon_unit (Some (dropWhile is_digit p)))))"

definition parse_dur_val_at :: "TokenSpan list \<Rightarrow> nat \<Rightarrow> (int \<times> char) option" where
  "parse_dur_val_at spans i =
     (if length spans \<le> i then None
      else let t = spans ! i in
        if token_kind t = TK_DURATION then parse_compact_duration (tok_text t)
        else if token_kind t = TK_INTEGER \<or> token_kind t = TK_FLOAT then
          (if length spans \<le> i + 1 then None
           else let u = spans ! (i + 1) in
             if token_kind u \<noteq> TK_IDENT then None
             else case canon_unit (tok_text u) of
                    None \<Rightarrow> None
                  | Some unit \<Rightarrow> map_option (\<lambda>s. (sint (word_of_int (strtol s) :: u32), unit)) (tok_text t))
        else None)"

definition WORKING_DAYS_PER_WEEK :: int where "WORKING_DAYS_PER_WEEK = 5"
definition WORKING_DAYS_PER_MONTH :: int where "WORKING_DAYS_PER_MONTH = 22"
definition WORKING_DAYS_PER_YEAR :: int where "WORKING_DAYS_PER_YEAR = 260"
definition CALENDAR_SECONDS_PER_DAY :: int where "CALENDAR_SECONDS_PER_DAY = 86400"

definition duration_to_calendar_days :: "int \<Rightarrow> char \<Rightarrow> int" where
  "duration_to_calendar_days v unit =
     (if unit = CHR ''i'' then 0 else if unit = CHR ''h'' then 0
      else if unit = CHR ''d'' then v else if unit = CHR ''w'' then v * 7
      else if unit = CHR ''m'' then v * 30 else if unit = CHR ''y'' then v * 365 else 0)"

definition length_to_working_days :: "int \<Rightarrow> char \<Rightarrow> int" where
  "length_to_working_days v unit =
     (if unit = CHR ''i'' \<or> unit = CHR ''h'' then (if 0 < v then 1 else if v < 0 then - 1 else 0)
      else if unit = CHR ''d'' then v else if unit = CHR ''w'' then v * WORKING_DAYS_PER_WEEK
      else if unit = CHR ''m'' then v * WORKING_DAYS_PER_MONTH
      else if unit = CHR ''y'' then v * WORKING_DAYS_PER_YEAR else 0)"

subsection \<open>Walking the calendar\<close>

text \<open>The two directions the code passes, \<open>+1\<close> and \<open>-1\<close>.\<close>

datatype direction = Forward | Backward

fun dir :: "direction \<Rightarrow> int" where
  "dir Forward = 1"
| "dir Backward = - 1"

definition step_day :: "int \<Rightarrow> direction \<Rightarrow> int" where
  "step_day t d = t + dir d * CALENDAR_SECONDS_PER_DAY"

definition is_weekend :: "int \<Rightarrow> bool" where
  "is_weekend t = (let wday = tm_wday (gmtime t) in wday = 0 \<or> wday = 6)"

lemma wday_gmtime: "tm_wday (gmtime t) = (t div 86400 + 4) mod 7"
  by (simp add: gmtime_def Let_def split: prod.splits)

lemma day_of_step: "step_day t d div 86400 = t div 86400 + dir d"
proof -
  have "(t + dir d * 86400) div 86400 = dir d + t div 86400"
    by (rule div_mult_self1) simp
  then show ?thesis
    by (simp add: step_day_def CALENDAR_SECONDS_PER_DAY_def)
qed

text \<open>The days of the weekend that a walk has in a row from a day on.\<close>

definition weekend_run :: "int \<Rightarrow> direction \<Rightarrow> nat" where
  "weekend_run t d =
     (let wday = (t div 86400 + 4) mod 7; first = (if d = Forward then 6 else 0); last = 6 - first in
      if wday = first then 2 else if wday = last then 1 else 0)"

lemma weekend_run_step: "is_weekend t \<Longrightarrow> weekend_run (step_day t d) d < weekend_run t d"
proof -
  assume w: "is_weekend t"
  define k where "k = (t div 86400 + 4) mod 7"
  have s: "(step_day t d div 86400 + 4) mod 7 = (k + dir d) mod 7"
    by (simp add: day_of_step k_def mod_simps algebra_simps)
  have "k = 0 \<or> k = 6"
    using w unfolding is_weekend_def wday_gmtime k_def [symmetric] Let_def .
  then show ?thesis
    unfolding weekend_run_def s k_def [symmetric] Let_def by (cases d) auto
qed

function snap_to_working_day :: "int \<Rightarrow> direction \<Rightarrow> int" where
  "snap_to_working_day cur d = (if is_weekend cur then snap_to_working_day (step_day cur d) d else cur)"
  by pat_completeness auto
termination
  by (relation "measure (\<lambda>(cur, d). weekend_run cur d)") (auto dest: weekend_run_step)

function walk_days :: "int \<Rightarrow> nat \<Rightarrow> direction \<Rightarrow> int" where
  "walk_days cur remaining d =
     (if remaining = 0 then cur
      else let cur' = step_day cur d in
        walk_days cur' (if is_weekend cur' then remaining else remaining - 1) d)"
  by pat_completeness auto
termination
proof (relation "measures [\<lambda>(cur, n, d). n, \<lambda>(cur, n, d). weekend_run (step_day cur d) d]")
  show "((cur', if is_weekend cur' then n else n - 1, d), cur, n, d)
      \<in> measures [\<lambda>(cur, n, d). n, \<lambda>(cur, n, d). weekend_run (step_day cur d) d]"
    if "n \<noteq> 0" "cur' = step_day cur d" for cur cur' n d
    using that by (auto dest: weekend_run_step)
qed simp

declare snap_to_working_day.simps [simp del] walk_days.simps [simp del]

definition walk_working_days_inclusive :: "int \<Rightarrow> int \<Rightarrow> direction \<Rightarrow> int" where
  "walk_working_days_inclusive base days d =
     (if days \<le> 0 then base else walk_days (snap_to_working_day base d) (nat (days - 1)) d)"

definition walk_calendar_days_inclusive :: "int \<Rightarrow> int \<Rightarrow> direction \<Rightarrow> int" where
  "walk_calendar_days_inclusive base days d =
     (if days \<le> 0 then base else base + dir d * (days - 1) * CALENDAR_SECONDS_PER_DAY)"

subsection \<open>Lenses\<close>

record code_lens =
  lens_range :: LspRange
  lens_title :: string
  lens_command :: string

definition ends_arrow :: string where
  "ends_arrow = [CHR 0xE2, CHR 0x86, CHR 0x92] @ '' ends ''"

definition starts_arrow :: string where
  "starts_arrow = [CHR 0xE2, CHR 0x86, CHR 0x90] @ '' starts ''"

definition format_inferred_date_title :: "tj_info \<Rightarrow> nat \<Rightarrow> int \<Rightarrow> char \<Rightarrow> nat \<Rightarrow> string" where
  "format_inferred_date_title owner kind v unit title_size =
     (let (base, d, arrow) = (if has_start owner then (start_date owner, Forward, ends_arrow)
                              else (end_date owner, Backward, starts_arrow));
          result = (if kind = KW_DURATION
                    then walk_calendar_days_inclusive base \<bar>duration_to_calendar_days v unit\<bar> d
                    else walk_working_days_inclusive base \<bar>length_to_working_days v unit\<bar> d) in
      take (title_size - 1) (arrow @ format_date result 48))"

definition push_lens :: "code_lens list \<Rightarrow> LspRange \<Rightarrow> string \<Rightarrow> code_lens list" where
  "push_lens arr r title = arr @ [\<lparr> lens_range = r, lens_title = title, lens_command = [] \<rparr>]"

definition lens_owner :: "tj_node \<Rightarrow> path option list option \<Rightarrow> nat \<Rightarrow> tj_info option" where
  "lens_owner root owners i =
     (case owners of None \<Rightarrow> None | Some os \<Rightarrow> map_option info (Option.bind (os ! i) (node_at root)))"

definition lens_at :: "tj_node \<Rightarrow> TokenSpan list \<Rightarrow> path option list option \<Rightarrow> code_lens list \<Rightarrow> nat \<Rightarrow> code_lens list" where
  "lens_at root spans owners arr i =
     (let t = spans ! i in
      if token_kind t \<noteq> KW_LENGTH \<and> token_kind t \<noteq> KW_DURATION then arr
      else case lens_owner root owners i of
        None \<Rightarrow> arr
      | Some owner \<Rightarrow>
          if keyword owner \<noteq> KW_TASK \<or> (\<not> has_start owner \<and> \<not> has_end owner) then arr
          else (case parse_dur_val_at spans (i + 1) of
                  None \<Rightarrow> arr
                | Some (v, unit) \<Rightarrow>
                    if v = 0 then arr
                    else push_lens arr \<lparr> range_start = tok_start t, range_end = tok_end t \<rparr>
                           (format_inferred_date_title owner (token_kind t) v unit 80)))"

definition build_code_lens :: "tj_node \<Rightarrow> TokenSpan list \<Rightarrow> path option list option \<Rightarrow> code_lens list" where
  "build_code_lens root spans owners = foldl (lens_at root spans owners) [] [0..<length spans]"

definition handle_code_lens :: "query_doc option \<Rightarrow> code_lens list option" where
  "handle_code_lens d =
     map_option (\<lambda>doc. build_code_lens (snap_root (qd_snap doc)) (snap_tok_spans (qd_snap doc))
       (Some (snap_tok_owners (qd_snap doc)))) d"

subsection \<open>The days a walk covers\<close>

definition nth_day :: "int \<Rightarrow> direction \<Rightarrow> nat \<Rightarrow> int" where
  "nth_day t d k = t + dir d * int k * 86400"

text \<open>How many of \<open>k\<close> days in a row, the first one included, are working days.\<close>

definition working_days :: "int \<Rightarrow> direction \<Rightarrow> nat \<Rightarrow> nat" where
  "working_days t d k = length (filter (\<lambda>i. \<not> is_weekend (nth_day t d i)) [0..<k])"

lemma nth_day_0 [simp]: "nth_day t d 0 = t"
  by (simp add: nth_day_def)

lemma nth_day_step: "nth_day (step_day t d) d k = nth_day t d (Suc k)"
  by (simp add: nth_day_def step_day_def CALENDAR_SECONDS_PER_DAY_def algebra_simps)

lemma nth_day_add: "nth_day (nth_day t d j) d k = nth_day t d (j + k)"
  by (simp add: nth_day_def algebra_simps)

lemma nth_day_inj: "nth_day t d j = nth_day t d k \<longleftrightarrow> j = k"
  by (cases d) (auto simp: nth_day_def)

lemma working_days_0 [simp]: "working_days t d 0 = 0"
  by (simp add: working_days_def)

lemma working_days_add: "working_days t d (j + k) = working_days t d j + working_days (nth_day t d j) d k"
proof -
  have "[0..<j + k] = [0..<j] @ map (\<lambda>i. i + j) [0..<k]"
    by (simp only: map_add_upt upt_add_eq_append [OF le0] add.commute [of k j])
  then show ?thesis
    by (simp add: working_days_def filter_map o_def nth_day_add add.commute [of j])
qed

lemma working_days_Suc:
  "working_days t d (Suc k) = (if is_weekend t then 0 else 1) + working_days (step_day t d) d k"
proof -
  have "working_days t d 1 = (if is_weekend t then 0 else 1)"
    by (simp add: working_days_def)
  moreover have "nth_day t d 1 = step_day t d"
    using nth_day_step [of t d 0] by simp
  ultimately show ?thesis
    using working_days_add [of t d 1 k] by simp
qed

lemma snap_spec:
  "\<exists>k. snap_to_working_day t d = nth_day t d k \<and> working_days t d k = 0 \<and> \<not> is_weekend (snap_to_working_day t d)"
proof (induction t d rule: snap_to_working_day.induct)
  case (1 t d)
  show ?case
  proof (cases "is_weekend t")
    case True
    then obtain k where "snap_to_working_day (step_day t d) d = nth_day t d (Suc k)"
      "working_days (step_day t d) d k = 0" "\<not> is_weekend (snap_to_working_day (step_day t d) d)"
      using 1 by (auto simp: nth_day_step)
    then show ?thesis
      using True by (intro exI [of _ "Suc k"]) (simp add: snap_to_working_day.simps [of t] working_days_Suc)
  next
    case False
    then show ?thesis
      by (intro exI [of _ 0]) (simp add: snap_to_working_day.simps [of t])
  qed
qed

lemma walk_days_spec:
  "\<exists>k. walk_days t n d = nth_day t d k \<and> working_days (step_day t d) d k = n \<and>
     (\<not> is_weekend t \<or> 0 < n \<longrightarrow> \<not> is_weekend (walk_days t n d))"
proof (induction t n d rule: walk_days.induct)
  case (1 t n d)
  show ?case
  proof (cases "n = 0")
    case True
    then show ?thesis
      by (intro exI [of _ 0]) (simp add: walk_days.simps [of t 0])
  next
    case False
    define u where "u = step_day t d"
    define m where "m = (if is_weekend u then n else n - 1)"
    have w: "walk_days t n d = walk_days u m d"
      using False by (subst walk_days.simps) (simp add: u_def m_def Let_def)
    obtain k where k: "walk_days u m d = nth_day u d k" "working_days (step_day u d) d k = m"
      "\<not> is_weekend u \<or> 0 < m \<longrightarrow> \<not> is_weekend (walk_days u m d)"
      using 1 [OF False u_def, folded m_def] by (elim exE conjE) (rule that)
    have "working_days u d (Suc k) = n"
      using k(2) False by (simp add: working_days_Suc m_def)
    moreover have "\<not> is_weekend (walk_days u m d)"
      using k(3) False by (simp add: m_def split: if_splits)
    moreover have "walk_days t n d = nth_day t d (Suc k)"
      unfolding w k(1) by (simp add: u_def nth_day_step)
    ultimately show ?thesis
      unfolding w by (intro exI [of _ "Suc k"]) (simp add: u_def)
  qed
qed

lemma walk_working_days_spec:
  assumes "0 < n"
  shows "\<exists>k. walk_working_days_inclusive t n d = nth_day t d k \<and> working_days t d (Suc k) = nat n \<and>
    \<not> is_weekend (walk_working_days_inclusive t n d)"
proof -
  let ?s = "snap_to_working_day t d"
  obtain j where j: "?s = nth_day t d j" "working_days t d j = 0" "\<not> is_weekend ?s"
    using snap_spec by blast
  obtain k where k: "walk_days ?s (nat (n - 1)) d = nth_day ?s d k" "working_days (step_day ?s d) d k = nat (n - 1)"
    "\<not> is_weekend (walk_days ?s (nat (n - 1)) d)"
    using walk_days_spec [of ?s "nat (n - 1)" d] j(3) by blast
  have "walk_working_days_inclusive t n d = walk_days ?s (nat (n - 1)) d"
    using assms by (simp add: walk_working_days_inclusive_def)
  moreover have "working_days t d (Suc (j + k)) = nat n"
    using working_days_add [of t d j "Suc k"] j k(2) assms by (simp add: working_days_Suc [of "nth_day t d j"])
  ultimately show ?thesis
    using k j(1) by (intro exI [of _ "j + k"]) (simp add: nth_day_add)
qed

text \<open>The task covers \<open>n\<close> days from its known end to \<open>r\<close>, calendar days or working days.\<close>

definition covers :: "nat \<Rightarrow> int \<Rightarrow> direction \<Rightarrow> int \<Rightarrow> int \<Rightarrow> bool" where
  "covers kind base d n r =
     (if n = 0 then r = base
      else \<exists>k. r = nth_day base d k \<and>
        (if kind = KW_DURATION then int (Suc k) = n
         else int (working_days base d (Suc k)) = n \<and> \<not> is_weekend r))"

lemma working_days_mono:
  assumes "j < k" and "\<not> is_weekend (nth_day t d k)"
  shows "working_days t d (Suc j) < working_days t d (Suc k)"
proof -
  have "working_days t d (Suc k) = working_days t d (Suc j + (k - Suc j)) + working_days (nth_day t d k) d 1"
    using assms(1) working_days_add [of t d k 1] by simp
  moreover have "working_days (nth_day t d k) d 1 = 1"
    using assms(2) by (simp add: working_days_def)
  ultimately show ?thesis
    using working_days_add [of t d "Suc j" "k - Suc j"] by simp
qed

lemma covers_unique:
  assumes "covers kind base d n r" and "covers kind base d n r'"
  shows "r = r'"
proof (cases "n = 0 \<or> kind = KW_DURATION")
  case True
  then show ?thesis
    using assms by (auto simp: covers_def split: if_splits)
next
  case False
  then obtain j k where jk: "r = nth_day base d j" "r' = nth_day base d k"
    "int (working_days base d (Suc j)) = n" "int (working_days base d (Suc k)) = n" "\<not> is_weekend r" "\<not> is_weekend r'"
    using assms by (auto simp: covers_def)
  then have "working_days base d (Suc j) = working_days base d (Suc k)"
    by linarith
  then have "j = k"
    using working_days_mono [of j k base d] working_days_mono [of k j base d] jk(1,2,5,6)
    by (cases j k rule: linorder_cases) auto
  then show ?thesis
    using jk by simp
qed

definition task_days :: "nat \<Rightarrow> int \<Rightarrow> char \<Rightarrow> int" where
  "task_days kind v unit =
     \<bar>if kind = KW_DURATION then duration_to_calendar_days v unit else length_to_working_days v unit\<bar>"

definition walk_end :: "nat \<Rightarrow> int \<Rightarrow> direction \<Rightarrow> int \<Rightarrow> int" where
  "walk_end kind base d n =
     (if kind = KW_DURATION then walk_calendar_days_inclusive base n d else walk_working_days_inclusive base n d)"

lemma walk_end_covers: "0 \<le> n \<Longrightarrow> covers kind base d n (walk_end kind base d n)"
proof (cases "n = 0")
  case True
  then show ?thesis
    by (simp add: covers_def walk_end_def walk_calendar_days_inclusive_def walk_working_days_inclusive_def)
next
  case False
  assume "0 \<le> n"
  then have n: "0 < n" using False by simp
  show ?thesis
  proof (cases "kind = KW_DURATION")
    case True
    have "walk_end kind base d n = nth_day base d (nat (n - 1))"
      using n True by (simp add: walk_end_def walk_calendar_days_inclusive_def nth_day_def CALENDAR_SECONDS_PER_DAY_def)
    then show ?thesis
      using n True by (auto simp: covers_def)
  next
    case False
    obtain k where "walk_end kind base d n = nth_day base d k" "working_days base d (Suc k) = nat n"
      "\<not> is_weekend (walk_end kind base d n)"
      using walk_working_days_spec [OF n, of base d] False by (auto simp: walk_end_def)
    then show ?thesis
      using n False unfolding covers_def
      by (simp only: if_not_P [of "n = 0"] if_not_P [of "kind = KW_DURATION"]) (intro exI [of _ k], simp)
  qed
qed

definition known_end :: "tj_info \<Rightarrow> int \<times> direction \<times> string" where
  "known_end owner =
     (if has_start owner then (start_date owner, Forward, ends_arrow) else (end_date owner, Backward, starts_arrow))"

lemma take_format_date: "length (format_date t n) \<le> n - 1"
  by (simp add: format_date_def Let_def)

lemma inferred_title:
  assumes "known_end owner = (base, d, arrow)"
  shows "format_inferred_date_title owner kind v unit 80 =
    arrow @ format_date (walk_end kind base d (task_days kind v unit)) 48"
proof -
  have "length (arrow @ format_date (walk_end kind base d (task_days kind v unit)) 48) \<le> 79"
    using take_format_date [of "walk_end kind base d (task_days kind v unit)" 48] assms
    by (auto simp: known_end_def ends_arrow_def starts_arrow_def split: if_splits)
  then show ?thesis
    using assms by (auto simp: format_inferred_date_title_def known_end_def walk_end_def task_days_def split: if_splits)
qed

text \<open>The lens of a token, if it has one.\<close>

definition token_lens :: "tj_node \<Rightarrow> TokenSpan list \<Rightarrow> path option list option \<Rightarrow> nat \<Rightarrow> code_lens list" where
  "token_lens root spans owners i = lens_at root spans owners [] i"

lemma lens_at_append: "lens_at root spans owners arr i = arr @ token_lens root spans owners i"
  unfolding token_lens_def lens_at_def
  by (simp add: push_lens_def Let_def split: option.split prod.split)

lemma build_code_lens_concat:
  "build_code_lens root spans owners = concat (map (token_lens root spans owners) [0..<length spans])"
proof -
  have "foldl (lens_at root spans owners) arr is = arr @ concat (map (token_lens root spans owners) is)" for arr "is"
    by (induction "is" arbitrary: arr) (simp_all add: lens_at_append)
  then show ?thesis
    by (simp add: build_code_lens_def)
qed

lemma token_lens_iff:
  "l \<in> set (token_lens root spans owners i) \<longleftrightarrow>
     (token_kind (spans ! i) = KW_LENGTH \<or> token_kind (spans ! i) = KW_DURATION) \<and>
     (\<exists>owner v unit. lens_owner root owners i = Some owner \<and> keyword owner = KW_TASK \<and>
        (has_start owner \<or> has_end owner) \<and> parse_dur_val_at spans (i + 1) = Some (v, unit) \<and> v \<noteq> 0 \<and>
        l = \<lparr> lens_range = \<lparr> range_start = tok_start (spans ! i), range_end = tok_end (spans ! i) \<rparr>,
               lens_title = format_inferred_date_title owner (token_kind (spans ! i)) v unit 80, lens_command = [] \<rparr>)"
proof (cases "lens_owner root owners i")
  case (Some owner)
  show ?thesis
  proof (cases "parse_dur_val_at spans (i + 1)")
    case (Some vu)
    then show ?thesis
      using \<open>lens_owner root owners i = Some owner\<close>
      by (cases vu) (auto simp: token_lens_def lens_at_def push_lens_def Let_def)
  next
    case None
    then show ?thesis
      by (simp add: token_lens_def lens_at_def Let_def split: option.split)
  qed
qed (simp add: token_lens_def lens_at_def Let_def)

lemma task_days_nonneg: "0 \<le> task_days kind v unit"
  by (simp add: task_days_def)

text \<open>C35: A document's code lenses are those of its \<open>length\<close> and \<open>duration\<close> keywords in tasks with a
  known start or end and a non-zero value, and no others.  Each sits on its keyword, and its title
  names the date at the other end of the task: the day that makes the task cover, both ends
  included, the stated number of days, calendar days for a duration and working days for a length,
  where it is itself a working day.  Read back as a date, the title's text gives that day, for
  years of at most four digits.\<close>

theorem code_lens_endpoints:
  "set (build_code_lens root spans owners) =
     {\<lparr> lens_range = \<lparr> range_start = tok_start (spans ! i), range_end = tok_end (spans ! i) \<rparr>,
        lens_title = arrow @ format_date r 48, lens_command = [] \<rparr> |
      i owner v unit base d arrow r.
        i < length spans \<and> token_kind (spans ! i) \<in> {KW_LENGTH, KW_DURATION} \<and>
        lens_owner root owners i = Some owner \<and> keyword owner = KW_TASK \<and> (has_start owner \<or> has_end owner) \<and>
        parse_dur_val_at spans (i + 1) = Some (v, unit) \<and> v \<noteq> 0 \<and> known_end owner = (base, d, arrow) \<and>
        covers (token_kind (spans ! i)) base d (task_days (token_kind (spans ! i)) v unit) r} \<and>
   (tm_year (gmtime r) + 1900 \<in> {0..9999} \<longrightarrow> parse_tjp_date (Some (format_date r 48)) = Some (r - r mod 86400))"
  (is "_ = ?R \<and> _")
proof (intro conjI impI)
  have "l \<in> set (build_code_lens root spans owners) \<longleftrightarrow> l \<in> ?R" for l
  proof
    assume "l \<in> set (build_code_lens root spans owners)"
    then obtain i owner v unit where i: "i < length spans" "token_kind (spans ! i) \<in> {KW_LENGTH, KW_DURATION}"
      "lens_owner root owners i = Some owner" "keyword owner = KW_TASK" "has_start owner \<or> has_end owner"
      "parse_dur_val_at spans (i + 1) = Some (v, unit)" "v \<noteq> 0"
      and l: "l = \<lparr> lens_range = \<lparr> range_start = tok_start (spans ! i), range_end = tok_end (spans ! i) \<rparr>,
        lens_title = format_inferred_date_title owner (token_kind (spans ! i)) v unit 80, lens_command = [] \<rparr>"
      by (auto simp: build_code_lens_concat token_lens_iff)
    obtain base d arrow where e: "known_end owner = (base, d, arrow)"
      by (cases "known_end owner")
    then show "l \<in> ?R"
      using i walk_end_covers [OF task_days_nonneg, of "token_kind (spans ! i)" base d "token_kind (spans ! i)" v unit]
      unfolding l inferred_title [OF e] by blast
  next
    assume "l \<in> ?R"
    then obtain i owner v unit base d arrow r where i: "i < length spans" "token_kind (spans ! i) \<in> {KW_LENGTH, KW_DURATION}"
      "lens_owner root owners i = Some owner" "keyword owner = KW_TASK" "has_start owner \<or> has_end owner"
      "parse_dur_val_at spans (i + 1) = Some (v, unit)" "v \<noteq> 0" "known_end owner = (base, d, arrow)"
      and c: "covers (token_kind (spans ! i)) base d (task_days (token_kind (spans ! i)) v unit) r"
      and l: "l = \<lparr> lens_range = \<lparr> range_start = tok_start (spans ! i), range_end = tok_end (spans ! i) \<rparr>,
        lens_title = arrow @ format_date r 48, lens_command = [] \<rparr>"
      by blast
    have "r = walk_end (token_kind (spans ! i)) base d (task_days (token_kind (spans ! i)) v unit)"
      using covers_unique [OF c walk_end_covers [OF task_days_nonneg]] .
    then have "l \<in> set (token_lens root spans owners i)"
      using i l by (auto simp: token_lens_iff inferred_title [OF i(8)])
    then show "l \<in> set (build_code_lens root spans owners)"
      using i(1) by (auto simp: build_code_lens_concat)
  qed
  then show "set (build_code_lens root spans owners) = ?R"
    by blast
  show "parse_tjp_date (Some (format_date r 48)) = Some (r - r mod 86400)" if "tm_year (gmtime r) + 1900 \<in> {0..9999}"
    using that by (intro parse_format_date) auto
qed

text \<open>A task that starts on Monday 2024-01-01 with \<open>length 1w\<close> ends on the Friday.\<close>

definition ex_lens_task :: tj_info where
  "ex_lens_task = (info tj_node_new) \<lparr> keyword := KW_TASK, start_date := 1704067200, has_start := True \<rparr>"

definition ex_lens_root :: tj_node where
  "ex_lens_root = tj_node_append_child tj_node_new (TjNode ex_lens_task [])"

definition ex_lens_spans :: "TokenSpan list" where
  "ex_lens_spans =
     [\<lparr> token_kind = KW_LENGTH, tok_start = LspPos 2 2, tok_end = LspPos 2 8, tok_text = Some ''length'' \<rparr>,
      \<lparr> token_kind = TK_DURATION, tok_start = LspPos 2 9, tok_end = LspPos 2 11, tok_text = Some ''1w'' \<rparr>]"

lemma ex_lens_facts:
  "lens_owner ex_lens_root (Some [Some [0], Some [0]]) 0 = Some ex_lens_task"
  "parse_dur_val_at ex_lens_spans 1 = Some (1, CHR ''w'')"
  "known_end ex_lens_task = (1704067200, Forward, ends_arrow)"
  "task_days KW_LENGTH 1 (CHR ''w'') = 5"
  "working_days 1704067200 Forward 5 = 5" "\<not> is_weekend 1704412800"
  "format_date 1704412800 48 = ''2024-01-05''"
  "tm_year (gmtime 1704412800) = 124"
  by code_simp+

lemma ex_lens_covers: "covers KW_LENGTH 1704067200 Forward 5 1704412800"
proof -
  have "(1704412800 :: int) = nth_day 1704067200 Forward 4"
    by (simp add: nth_day_def)
  then show ?thesis
    using ex_lens_facts(5,6) by (auto simp: covers_def tok_simps eval_nat_numeral intro!: exI [of _ "4 :: nat"])
qed

theorem code_lens_endpoints_witness:
  "\<lparr> lens_range = \<lparr> range_start = LspPos 2 2, range_end = LspPos 2 8 \<rparr>,
     lens_title = ends_arrow @ ''2024-01-05'', lens_command = [] \<rparr> \<in>
     set (build_code_lens ex_lens_root ex_lens_spans (Some [Some [0], Some [0]])) \<and>
   parse_tjp_date (Some ''2024-01-05'') = Some 1704412800"
proof -
  note lenses = code_lens_endpoints [of ex_lens_root ex_lens_spans "Some [Some [0], Some [0]]" 1704412800]
  have s: "token_kind (ex_lens_spans ! 0) = KW_LENGTH" "tok_start (ex_lens_spans ! 0) = LspPos 2 2"
    "tok_end (ex_lens_spans ! 0) = LspPos 2 8" "0 < length ex_lens_spans"
    "keyword ex_lens_task = KW_TASK" "has_start ex_lens_task"
    by (simp_all add: ex_lens_spans_def ex_lens_task_def)
  have "\<lparr> lens_range = \<lparr> range_start = LspPos 2 2, range_end = LspPos 2 8 \<rparr>,
     lens_title = ends_arrow @ ''2024-01-05'', lens_command = [] \<rparr> \<in>
     set (build_code_lens ex_lens_root ex_lens_spans (Some [Some [0], Some [0]]))"
    unfolding conjunct1 [OF lenses]
    by (rule CollectI, rule exI [of _ 0], rule exI [of _ ex_lens_task], rule exI [of _ 1], rule exI [of _ "CHR ''w''"],
        rule exI [of _ 1704067200], rule exI [of _ Forward], rule exI [of _ ends_arrow], rule exI [of _ 1704412800])
      (use s ex_lens_facts ex_lens_covers in simp)
  moreover have "parse_tjp_date (Some (format_date 1704412800 48)) = Some (1704412800 - 1704412800 mod 86400)"
    using conjunct2 [OF lenses] by (simp add: ex_lens_facts)
  ultimately show ?thesis
    by (simp add: ex_lens_facts)
qed

end
