(* ===== verification/Keyword_Stack.thy ===== *)
theory Keyword_Stack
  imports Cursor
begin

text \<open>
  What the keyword stack of \<open>src/src/hover.c\<close> computes, without a stack: the keyword whose
  arguments or block position the cursor is at, found by its brace depth alone, and how many
  tokens have been counted as its arguments.  Hover (\<open>active_keyword_at\<close>) and signature help
  (\<open>active_context\<close> of \<open>signature.c\<close>) scan with different limits.
\<close>

definition active_context :: "TokenSpan list \<Rightarrow> LspPos \<Rightarrow> (string \<times> int) option" where
  "active_context tokens cursor =
     (case scan_kw_stack tokens cursor KW_SIG_END True 512 of
        (stack, brace_depth) \<Rightarrow> map_option (\<lambda>e. (kw e, argc e)) (top_at_depth stack brace_depth))"

subsection \<open>The reference\<close>

definition is_comment_tok :: "TokenSpan \<Rightarrow> bool" where
  "is_comment_tok t = (token_kind t = TK_LINE_COMMENT \<or> token_kind t = TK_BLOCK_COMMENT)"

definition is_brace_tok :: "TokenSpan \<Rightarrow> bool" where
  "is_brace_tok t = (token_kind t = TK_LBRACE \<or> token_kind t = TK_RBRACE)"

definition opens_scope :: "nat \<Rightarrow> TokenSpan \<Rightarrow> bool" where
  "opens_scope kind_max t =
     (\<not> is_comment_tok t \<and> \<not> is_brace_tok t \<and> token_kind t < kind_max \<and> tok_text t \<noteq> None)"

text \<open>A token counted as an argument: it ends at or before the cursor.\<close>

definition counts_as_arg :: "LspPos \<Rightarrow> nat \<Rightarrow> TokenSpan \<Rightarrow> bool" where
  "counts_as_arg cursor kind_max t =
     (\<not> is_comment_tok t \<and> \<not> is_brace_tok t \<and> \<not> opens_scope kind_max t \<and> tok_end t \<le> cursor)"

fun brace_step :: "nat \<Rightarrow> TokenSpan \<Rightarrow> nat" where
  "brace_step n t = (if token_kind t = TK_LBRACE then n + 1 else if token_kind t = TK_RBRACE then n - 1 else n)"

definition brace_depth_of :: "TokenSpan list \<Rightarrow> nat" where
  "brace_depth_of ts = foldl brace_step 0 ts"

text \<open>
  The keyword in force at depth \<open>e\<close> after the tokens \<open>ts\<close>: the last one at that depth since the
  depth was last below it.
\<close>

definition in_force :: "nat \<Rightarrow> TokenSpan list \<Rightarrow> nat \<Rightarrow> nat \<Rightarrow> bool" where
  "in_force kind_max ts e k =
     (opens_scope kind_max (ts ! k) \<and> brace_depth_of (take k ts) = e \<and>
      list_all (\<lambda>m. e \<le> brace_depth_of (take m ts)) [k..<Suc (length ts)])"

definition arg_count :: "LspPos \<Rightarrow> nat \<Rightarrow> TokenSpan list \<Rightarrow> nat \<Rightarrow> nat \<Rightarrow> nat" where
  "arg_count cursor kind_max ts e k =
     length (filter (\<lambda>m. counts_as_arg cursor kind_max (ts ! m) \<and> brace_depth_of (take m ts) = e) [Suc k..<length ts])"

definition keyword_in_force ::
  "LspPos \<Rightarrow> nat \<Rightarrow> bool \<Rightarrow> TokenSpan list \<Rightarrow> nat \<Rightarrow> KwStackEntry option" where
  "keyword_in_force cursor kind_max track ts e =
     (let ks = filter (in_force kind_max ts e) [0..<length ts] in
      if ks = [] then None
      else let k = last ks; t = ts ! k in
        Some \<lparr> kw = the (tok_text t), kw_range = \<lparr> range_start = tok_start t, range_end = tok_end t \<rparr>,
               depth = of_nat e,
               argc = (if track then int (arg_count cursor kind_max ts e k) else 0) \<rparr>)"

subsection \<open>One more token\<close>

lemma depth_snoc: "brace_depth_of (ts @ [t]) = brace_step (brace_depth_of ts) t"
  by (simp add: brace_depth_of_def)

lemma depth_take_snoc: "m \<le> length ts \<Longrightarrow> brace_depth_of (take m (ts @ [t])) = brace_depth_of (take m ts)"
  by simp

lemma in_force_snoc_old:
  assumes "k < length ts"
  shows "in_force kind_max (ts @ [t]) e k \<longleftrightarrow> in_force kind_max ts e k \<and> e \<le> brace_depth_of (ts @ [t])"
proof -
  have "[k..<Suc (length (ts @ [t]))] = [k..<Suc (length ts)] @ [Suc (length ts)]"
    using assms by simp
  moreover have "list_all (\<lambda>m. e \<le> brace_depth_of (take m (ts @ [t]))) [k..<Suc (length ts)] =
      list_all (\<lambda>m. e \<le> brace_depth_of (take m ts)) [k..<Suc (length ts)]"
    by (rule list.pred_cong) auto
  ultimately show ?thesis
    using assms unfolding in_force_def by (auto simp: nth_append)
qed

lemma in_force_snoc_new:
  "in_force kind_max (ts @ [t]) e (length ts) \<longleftrightarrow> opens_scope kind_max t \<and> brace_depth_of ts = e"
proof -
  have "opens_scope kind_max t \<Longrightarrow> brace_depth_of (ts @ [t]) = brace_depth_of ts"
    by (auto simp: depth_snoc opens_scope_def is_brace_tok_def)
  then show ?thesis
    by (auto simp: in_force_def)
qed

lemma in_force_list_snoc:
  "filter (in_force kind_max (ts @ [t]) e) [0..<length (ts @ [t])] =
     (if e \<le> brace_depth_of (ts @ [t]) then filter (in_force kind_max ts e) [0..<length ts] else []) @
     (if opens_scope kind_max t \<and> brace_depth_of ts = e then [length ts] else [])"
proof -
  have "filter (in_force kind_max (ts @ [t]) e) [0..<length ts] =
      (if e \<le> brace_depth_of (ts @ [t]) then filter (in_force kind_max ts e) [0..<length ts] else [])"
    using in_force_snoc_old [of _ ts kind_max t e] by (auto intro: filter_cong)
  then show ?thesis
    by (simp add: in_force_snoc_new)
qed

lemma arg_count_snoc:
  assumes "k < length ts"
  shows "arg_count cursor kind_max (ts @ [t]) e k =
    arg_count cursor kind_max ts e k + (if counts_as_arg cursor kind_max t \<and> brace_depth_of ts = e then 1 else 0)"
proof -
  have "filter (\<lambda>m. counts_as_arg cursor kind_max ((ts @ [t]) ! m) \<and> brace_depth_of (take m (ts @ [t])) = e) [Suc k..<length ts] =
      filter (\<lambda>m. counts_as_arg cursor kind_max (ts ! m) \<and> brace_depth_of (take m ts) = e) [Suc k..<length ts]"
    by (rule filter_cong) (auto simp: nth_append)
  then show ?thesis
    using assms by (simp add: arg_count_def)
qed

lemma arg_count_none: "arg_count cursor kind_max (ts @ [t]) e (length ts) = 0"
  by (simp add: arg_count_def)

definition bump :: "bool \<Rightarrow> KwStackEntry \<Rightarrow> KwStackEntry" where
  "bump b x = (if b then x \<lparr> argc := argc x + 1 \<rparr> else x)"

lemma bump_False [simp]: "map_option (bump False) e = e"
  by (cases e) (simp_all add: bump_def)

lemma keyword_in_force_snoc:
  "keyword_in_force cursor kind_max track (ts @ [t]) e =
     (if opens_scope kind_max t \<and> brace_depth_of ts = e
      then Some \<lparr> kw = the (tok_text t), kw_range = \<lparr> range_start = tok_start t, range_end = tok_end t \<rparr>,
                  depth = of_nat e, argc = 0 \<rparr>
      else if e \<le> brace_depth_of (ts @ [t])
      then map_option (bump (track \<and> counts_as_arg cursor kind_max t \<and> brace_depth_of ts = e))
             (keyword_in_force cursor kind_max track ts e)
      else None)"
proof -
  let ?ks = "filter (in_force kind_max ts e) [0..<length ts]"
  have k: "last ?ks < length ts" if "?ks \<noteq> []"
    using last_in_set [OF that] by simp
  consider "opens_scope kind_max t \<and> brace_depth_of ts = e"
    | "\<not> (opens_scope kind_max t \<and> brace_depth_of ts = e)" "\<not> e \<le> brace_depth_of (ts @ [t])"
    | "\<not> (opens_scope kind_max t \<and> brace_depth_of ts = e)" "e \<le> brace_depth_of (ts @ [t])" "?ks = []"
    | "\<not> (opens_scope kind_max t \<and> brace_depth_of ts = e)" "e \<le> brace_depth_of (ts @ [t])" "?ks \<noteq> []"
    by blast
  then show ?thesis
  proof cases
    case 1
    then show ?thesis
      unfolding keyword_in_force_def in_force_list_snoc by (simp add: Let_def arg_count_none)
  next
    case 2
    then show ?thesis
      unfolding keyword_in_force_def in_force_list_snoc by (simp only: if_False if_True append_Nil simp_thms Let_def)
  next
    case 3
    then show ?thesis
      unfolding keyword_in_force_def in_force_list_snoc by (simp only: if_False if_True append_Nil2 simp_thms Let_def option.map)
  next
    case 4
    have n: "(ts @ [t]) ! last ?ks = ts ! last ?ks"
      using k [OF 4(3)] by (simp add: nth_append)
    have a: "arg_count cursor kind_max (ts @ [t]) e (last ?ks) = arg_count cursor kind_max ts e (last ?ks) +
        (if counts_as_arg cursor kind_max t \<and> brace_depth_of ts = e then 1 else 0)"
      by (rule arg_count_snoc [OF k [OF 4(3)]])
    have l: "filter (in_force kind_max (ts @ [t]) e) [0..<length (ts @ [t])] = ?ks"
      unfolding in_force_list_snoc if_not_P [OF 4(1)] if_P [OF 4(2)] by simp
    show ?thesis
      unfolding keyword_in_force_def l if_not_P [OF 4(1)] if_P [OF 4(2)] Let_def if_not_P [OF 4(3)] n a
      by (auto simp: bump_def)
  qed
qed

lemma keyword_in_force_deep: "brace_depth_of ts < e \<Longrightarrow> keyword_in_force cursor kind_max track ts e = None"
proof (induction ts rule: rev_induct)
  case Nil
  then show ?case
    by (simp add: keyword_in_force_def)
next
  case (snoc t ts)
  have "opens_scope kind_max t \<Longrightarrow> brace_depth_of (ts @ [t]) = brace_depth_of ts"
    by (auto simp: depth_snoc opens_scope_def is_brace_tok_def)
  then show ?case
    using snoc.prems unfolding keyword_in_force_snoc by auto
qed

subsection \<open>The stack\<close>

definition rising :: "KwStackEntry list \<Rightarrow> bool" where
  "rising S = sorted_wrt (\<lambda>x y. unat (depth x) < unat (depth y)) S"

definition at_depth :: "nat \<Rightarrow> KwStackEntry list \<Rightarrow> KwStackEntry option" where
  "at_depth e S = List.find (\<lambda>x. unat (depth x) = e) S"

lemma pop_rising:
  assumes "rising S" and "\<And>a b. P a \<Longrightarrow> a < b \<Longrightarrow> P b"
  shows "rev (dropWhile (\<lambda>x. P (depth x)) (rev S)) = filter (\<lambda>x. \<not> P (depth x)) S"
  using assms(1)
proof (induction S rule: rev_induct)
  case (snoc x S)
  then have r: "rising S" "\<forall>y \<in> set S. depth y < depth x"
    by (auto simp: rising_def sorted_wrt_append word_less_nat_alt)
  show ?case
  proof (cases "P (depth x)")
    case True
    then show ?thesis
      using snoc.IH [OF r(1)] by simp
  next
    case False
    then have "\<forall>y \<in> set S. \<not> P (depth y)"
      using r(2) assms(2) by blast
    then show ?thesis
      using False by (simp add: filter_id_conv)
  qed
qed simp

lemma bump_rising:
  "rising S \<Longrightarrow> rev (bump_top d (rev S)) = map (\<lambda>x. bump (depth x = d) x) S"
proof (induction S rule: rev_induct)
  case (snoc x S)
  then have r: "rising S" "\<forall>y \<in> set S. depth y \<noteq> depth x"
    by (auto simp: rising_def sorted_wrt_append)
  show ?case
  proof (cases "depth x = d")
    case True
    then have "map (\<lambda>x. bump (depth x = d) x) S = S"
      using r(2) by (intro map_idI) (auto simp: bump_def)
    then show ?thesis
      using True by (simp add: bump_def)
  next
    case False
    then show ?thesis
      using snoc.IH [OF r(1)] by (simp add: bump_def)
  qed
qed simp

lemma at_depth_filter: "at_depth e (filter (\<lambda>x. Q (unat (depth x))) S) = (if Q e then at_depth e S else None)"
  by (induction S) (auto simp: at_depth_def)

lemma at_depth_bump: "at_depth e (map (\<lambda>x. bump (b (depth x)) x) S) =
    map_option (\<lambda>x. bump (b (depth x)) x) (at_depth e S)"
proof (induction S)
  case (Cons x S)
  have "depth (bump (b (depth x)) x) = depth x"
    by (simp add: bump_def)
  then show ?case
    using Cons by (simp add: at_depth_def)
qed (simp add: at_depth_def)

lemma rising_bump: "rising (map (\<lambda>x. bump (b (depth x)) x) S) = rising S"
proof -
  have "(\<lambda>x. depth (bump (b (depth x)) x)) = depth"
    by (auto simp: bump_def)
  then show ?thesis
    by (simp add: rising_def sorted_wrt_map fun_eq_iff)
qed

lemma rising_filter: "rising S \<Longrightarrow> rising (filter P S)"
  by (simp add: rising_def sorted_wrt_filter)

lemma at_depth_append: "at_depth e (S @ [x]) = (case at_depth e S of Some y \<Rightarrow> Some y | None \<Rightarrow> if unat (depth x) = e then Some x else None)"
  by (simp add: at_depth_def find_append split: option.split)

lemma rising_length: "rising S \<Longrightarrow> \<forall>x \<in> set S. unat (depth x) < n \<Longrightarrow> length S \<le> n"
proof (induction S arbitrary: n rule: rev_induct)
  case (snoc x S)
  then have "rising S" "\<forall>y \<in> set S. unat (depth y) < unat (depth x)"
    by (auto simp: rising_def sorted_wrt_append)
  then have "length S \<le> unat (depth x)"
    using snoc.IH by blast
  then show ?case
    using snoc.prems(2) by simp
qed simp

subsection \<open>The stack holds the keywords in force\<close>

definition scopes_ok :: "LspPos \<Rightarrow> nat \<Rightarrow> bool \<Rightarrow> TokenSpan list \<Rightarrow> KwStackEntry list \<times> u32 \<Rightarrow> bool" where
  "scopes_ok cursor kind_max track ts st =
     (snd st = of_nat (brace_depth_of ts) \<and> rising (fst st) \<and>
      (\<forall>e. at_depth e (fst st) = keyword_in_force cursor kind_max track ts e))"

lemma at_depth_member: "rising S \<Longrightarrow> x \<in> set S \<Longrightarrow> at_depth (unat (depth x)) S = Some x"
proof (induction S)
  case (Cons y S)
  then show ?case
    by (cases "x = y") (auto simp: at_depth_def rising_def)
qed simp

lemma scopes_ok_bound:
  assumes "scopes_ok cursor kind_max track ts st" and "x \<in> set (fst st)"
  shows "unat (depth x) \<le> brace_depth_of ts"
proof (rule ccontr)
  assume "\<not> unat (depth x) \<le> brace_depth_of ts"
  then have "keyword_in_force cursor kind_max track ts (unat (depth x)) = None"
    by (intro keyword_in_force_deep) simp
  then show False
    using assms at_depth_member [of "fst st" x] by (simp add: scopes_ok_def)
qed

lemma scopes_ok_init: "scopes_ok cursor kind_max track [] ([], 0)"
  by (simp add: scopes_ok_def rising_def at_depth_def keyword_in_force_def brace_depth_of_def)

lemma same_stack:
  assumes "scopes_ok cursor kind_max track ts (S, d)" and "\<not> opens_scope kind_max t"
    and "\<not> (track \<and> counts_as_arg cursor kind_max t)" and "brace_depth_of ts \<le> brace_depth_of (ts @ [t])"
  shows "scopes_ok cursor kind_max track (ts @ [t]) (S, of_nat (brace_depth_of (ts @ [t])))"
proof -
  have "keyword_in_force cursor kind_max track (ts @ [t]) e = keyword_in_force cursor kind_max track ts e" for e
  proof (cases "e \<le> brace_depth_of (ts @ [t])")
    case True
    then show ?thesis
      using assms(2,3) unfolding keyword_in_force_snoc by auto
  next
    case False
    then have "keyword_in_force cursor kind_max track ts e = None"
      using assms(4) by (intro keyword_in_force_deep) simp
    then show ?thesis
      using False assms(2) unfolding keyword_in_force_snoc by simp
  qed
  then show ?thesis
    using assms(1) by (simp add: scopes_ok_def)
qed

lemma nat_depth: "n < 512 \<Longrightarrow> unat (of_nat n :: u32) = n"
  by (simp add: unat_of_nat take_bit_eq_mod)

lemma close_brace:
  assumes "scopes_ok cursor kind_max track ts (S, d)" and "token_kind t = TK_RBRACE" and "brace_depth_of ts < 512"
    and n: "n = brace_depth_of (ts @ [t])"
  shows "scopes_ok cursor kind_max track (ts @ [t]) (rev (dropWhile (\<lambda>e. of_nat n < depth e) (rev S)), of_nat n)"
proof -
  have le: "n \<le> brace_depth_of ts" "n < 512"
    using assms(2,3) by (simp_all add: n depth_snoc tok_simps)
  have r: "rising S" and S: "at_depth e S = keyword_in_force cursor kind_max track ts e" for e
    using assms(1) by (simp_all add: scopes_ok_def)
  have c: "(\<not> of_nat n < depth x) = (unat (depth x) \<le> n)" for x
    by (simp add: word_less_nat_alt nat_depth [OF le(2)] not_less)
  have p: "rev (dropWhile (\<lambda>e. of_nat n < depth e) (rev S)) = filter (\<lambda>x. unat (depth x) \<le> n) S"
    unfolding c [symmetric] by (rule pop_rising [OF r]) auto
  have "\<not> opens_scope kind_max t" "\<not> counts_as_arg cursor kind_max t"
    using assms(2) by (simp_all add: opens_scope_def counts_as_arg_def is_brace_tok_def)
  then have "keyword_in_force cursor kind_max track (ts @ [t]) e = (if e \<le> n then at_depth e S else None)" for e
    unfolding keyword_in_force_snoc n [symmetric] by (simp add: S)
  then show ?thesis
    using r by (simp add: scopes_ok_def p n [symmetric] rising_filter at_depth_filter [of e "\<lambda>k. k \<le> n" for e])
qed

lemma push_keyword:
  assumes "scopes_ok cursor kind_max track ts (S, d)" and "opens_scope kind_max t" and "tok_text t = Some text"
    and lt: "brace_depth_of ts < 512"
  shows "scopes_ok cursor kind_max track (ts @ [t]) (push_keyword_entry S 512 d t text, d)"
proof -
  let ?n = "brace_depth_of ts"
  let ?new = "\<lparr> kw = text, kw_range = \<lparr> range_start = tok_start t, range_end = tok_end t \<rparr>, depth = d, argc = 0 \<rparr>"
  let ?rest = "filter (\<lambda>x. unat (depth x) < ?n) S"
  have n: "brace_depth_of (ts @ [t]) = ?n"
    using assms(2) by (auto simp: depth_snoc opens_scope_def is_brace_tok_def)
  have d: "d = of_nat ?n" and r: "rising S" and S: "at_depth e S = keyword_in_force cursor kind_max track ts e" for e
    using assms(1) by (simp_all add: scopes_ok_def)
  have dn: "unat d = ?n"
    by (simp add: d nat_depth [OF lt])
  have c: "(\<not> d \<le> depth x) = (unat (depth x) < ?n)" for x
    by (simp add: word_le_nat_alt dn not_le)
  have "rev (dropWhile (\<lambda>e. d \<le> depth e) (rev S)) = ?rest"
    unfolding c [symmetric] by (rule pop_rising [OF r]) auto
  moreover have "length ?rest \<le> ?n"
    by (rule rising_length [OF rising_filter [OF r]]) simp
  ultimately have p: "push_keyword_entry S 512 d t text = ?rest @ [?new]"
    using lt by (simp add: push_keyword_entry_def)
  have "rising (?rest @ [?new])"
    using rising_filter [OF r] by (auto simp: rising_def sorted_wrt_append dn)
  moreover have "at_depth e (?rest @ [?new]) = keyword_in_force cursor kind_max track (ts @ [t]) e" for e
  proof -
    consider "e < ?n" | "e = ?n" | "?n < e"
      by linarith
    then show ?thesis
    proof cases
      case 1
      have "\<not> counts_as_arg cursor kind_max t"
        using assms(2) by (simp add: counts_as_arg_def)
      then show ?thesis
        using 1 unfolding keyword_in_force_snoc n at_depth_append at_depth_filter [of e "\<lambda>k. k < ?n" S]
        by (simp add: S dn split: option.split)
    next
      case 2
      then show ?thesis
        using assms(2,3) unfolding keyword_in_force_snoc at_depth_append at_depth_filter [of e "\<lambda>k. k < ?n" S]
        by (simp add: dn) (simp add: d)
    next
      case 3
      then have "keyword_in_force cursor kind_max track (ts @ [t]) e = None"
        by (intro keyword_in_force_deep) (simp add: n)
      then show ?thesis
        using 3 unfolding at_depth_append at_depth_filter [of e "\<lambda>k. k < ?n" S] by (simp add: dn)
    qed
  qed
  ultimately show ?thesis
    unfolding scopes_ok_def fst_conv snd_conv p n by (simp add: d [symmetric])
qed

lemma count_argument:
  assumes "scopes_ok cursor kind_max True ts (S, d)" and "counts_as_arg cursor kind_max t"
    and lt: "brace_depth_of ts < 512"
  shows "scopes_ok cursor kind_max True (ts @ [t]) (rev (bump_top d (rev S)), d)"
proof -
  let ?n = "brace_depth_of ts"
  have n: "brace_depth_of (ts @ [t]) = ?n"
    using assms(2) by (auto simp: depth_snoc counts_as_arg_def is_brace_tok_def)
  have o: "\<not> opens_scope kind_max t"
    using assms(2) by (simp add: counts_as_arg_def)
  have d: "d = of_nat ?n" and r: "rising S" and S: "at_depth e S = keyword_in_force cursor kind_max True ts e" for e
    using assms(1) by (simp_all add: scopes_ok_def)
  have dn: "unat d = ?n"
    by (simp add: d nat_depth [OF lt])
  have p: "rev (bump_top d (rev S)) = map (\<lambda>x. bump (depth x = d) x) S"
    by (rule bump_rising [OF r])
  have b: "map_option (\<lambda>x. bump (depth x = d) x) (at_depth e S) = map_option (bump (?n = e)) (at_depth e S)" for e
  proof (cases "at_depth e S")
    case (Some x)
    then have "unat (depth x) = e"
      by (auto simp: at_depth_def find_Some_iff)
    then have "(depth x = d) = (?n = e)"
      using dn by (auto simp: word_unat_eq_iff)
    then show ?thesis
      using Some by simp
  qed simp
  have "at_depth e (rev (bump_top d (rev S))) = keyword_in_force cursor kind_max True (ts @ [t]) e" for e
  proof (cases "e \<le> ?n")
    case True
    then show ?thesis
      unfolding p at_depth_bump [of e "\<lambda>x. x = d"] b keyword_in_force_snoc n using assms(2) o by (simp add: S)
  next
    case False
    then have "keyword_in_force cursor kind_max True ts e = None" "keyword_in_force cursor kind_max True (ts @ [t]) e = None"
      by (auto intro: keyword_in_force_deep simp: n)
    then show ?thesis
      unfolding p at_depth_bump [of e "\<lambda>x. x = d"] by (simp add: S)
  qed
  then show ?thesis
    using r rising_bump [of "\<lambda>x. x = d" S] by (simp add: scopes_ok_def n d [symmetric] p)
qed

lemma scan_token_ok:
  assumes ok: "scopes_ok cursor kind_max track ts (S, d)" and lt: "brace_depth_of ts < 512"
  shows "scopes_ok cursor kind_max track (ts @ [t]) (scan_token cursor kind_max track 512 t (S, d))"
proof -
  let ?n = "brace_depth_of ts"
  have d: "d = of_nat ?n"
    using ok by (simp add: scopes_ok_def)
  have pos: "0 < d \<longleftrightarrow> 0 < ?n"
    using nat_depth [OF lt] by (metis d unat_gt_0 neq0_conv word_gt_0)
  consider (comment) "is_comment_tok t" | (open_brace) "token_kind t = TK_LBRACE" | (closing) "token_kind t = TK_RBRACE"
    | (keyword_tok) lexeme where "opens_scope kind_max t" "tok_text t = Some lexeme"
    | (other) "\<not> is_comment_tok t" "\<not> is_brace_tok t" "\<not> opens_scope kind_max t"
    by (cases "tok_text t") (auto simp: opens_scope_def is_brace_tok_def)
  then show ?thesis
  proof cases
    case comment
    then have "scan_token cursor kind_max track 512 t (S, d) = (S, d)"
      by (simp add: scan_token_def is_comment_tok_def)
    moreover have "brace_depth_of (ts @ [t]) = ?n"
      using comment by (auto simp: depth_snoc is_comment_tok_def tok_simps)
    moreover have "\<not> opens_scope kind_max t" "\<not> counts_as_arg cursor kind_max t"
      using comment by (simp_all add: opens_scope_def counts_as_arg_def)
    ultimately show ?thesis
      using same_stack [OF ok, of t] by (simp add: d)
  next
    case open_brace
    then have "scan_token cursor kind_max track 512 t (S, d) = (S, d + 1)"
      by (simp add: scan_token_def tok_simps)
    moreover have "brace_depth_of (ts @ [t]) = ?n + 1"
      using open_brace by (simp add: depth_snoc)
    moreover have "\<not> opens_scope kind_max t" "\<not> counts_as_arg cursor kind_max t"
      using open_brace by (simp_all add: opens_scope_def counts_as_arg_def is_brace_tok_def)
    ultimately show ?thesis
      using same_stack [OF ok, of t] by (simp add: d add.commute)
  next
    case closing
    let ?d = "of_nat (?n - 1) :: u32"
    have "(if 0 < d then d - 1 else d) = ?d"
      unfolding pos by (auto simp: d of_nat_diff Suc_le_eq)
    then have "scan_token cursor kind_max track 512 t (S, d) = (rev (dropWhile (\<lambda>e. ?d < depth e) (rev S)), ?d)"
      using closing by (simp add: scan_token_def tok_simps Let_def)
    moreover have "?n - 1 = brace_depth_of (ts @ [t])"
      using closing by (simp add: depth_snoc tok_simps)
    ultimately show ?thesis
      using close_brace [OF ok closing lt] by simp
  next
    case keyword_tok
    then have "scan_token cursor kind_max track 512 t (S, d) = (push_keyword_entry S 512 d t lexeme, d)"
      by (simp add: scan_token_def opens_scope_def is_brace_tok_def is_comment_tok_def Let_def)
    then show ?thesis
      using push_keyword [OF ok keyword_tok lt] by simp
  next
    case other
    have s: "scan_token cursor kind_max track 512 t (S, d) =
        (if track then bump_active_argc S d t cursor else S, d)"
      using other by (auto simp: scan_token_def opens_scope_def is_brace_tok_def is_comment_tok_def Let_def split: option.split)
    have n: "brace_depth_of (ts @ [t]) = ?n"
      using other by (simp add: depth_snoc is_brace_tok_def)
    have c: "counts_as_arg cursor kind_max t \<longleftrightarrow> tok_end t \<le> cursor"
      using other by (simp add: counts_as_arg_def)
    have b: "bump_active_argc S d t cursor = (if tok_end t \<le> cursor then rev (bump_top d (rev S)) else S)"
      by (simp add: bump_active_argc_def less_eq_LspPos_def)
    show ?thesis
    proof (cases "track \<and> tok_end t \<le> cursor")
      case True
      then have e: "scan_token cursor kind_max track 512 t (S, d) = (rev (bump_top d (rev S)), d)"
        unfolding s b by simp
      show ?thesis
        unfolding e using True count_argument [of cursor kind_max ts S d t] ok c lt by simp
    next
      case False
      then have "scan_token cursor kind_max track 512 t (S, d) = (S, d)"
        unfolding s b by auto
      then show ?thesis
        using same_stack [OF ok other(3)] False c by (simp add: n d)
    qed
  qed
qed

text \<open>The tokens a scan reads: those before the end of file that start at or before the cursor.\<close>

definition seen_tokens :: "TokenSpan list \<Rightarrow> LspPos \<Rightarrow> TokenSpan list" where
  "seen_tokens tokens cursor = takeWhile (\<lambda>t. \<not> beyond cursor t) tokens"

definition nested_below :: "nat \<Rightarrow> TokenSpan list \<Rightarrow> bool" where
  "nested_below n ts = list_all (\<lambda>m. brace_depth_of (take m ts) < n) [0..<Suc (length ts)]"

lemma nested_below_snoc: "nested_below n (ts @ [t]) \<Longrightarrow> nested_below n ts \<and> brace_depth_of (ts @ [t]) < n"
  by (auto simp: nested_below_def list_all_iff)

lemma nested_below_here: "nested_below n ts \<Longrightarrow> brace_depth_of ts < n"
  by (simp add: nested_below_def)

lemma scan_scopes_ok:
  assumes "nested_below 512 ts"
  shows "scopes_ok cursor kind_max track ts (foldl (\<lambda>st tok. scan_token cursor kind_max track 512 tok st) ([], 0) ts)"
  using assms
proof (induction ts rule: rev_induct)
  case Nil
  show ?case
    by (simp add: scopes_ok_init)
next
  case (snoc t ts)
  let ?st = "foldl (\<lambda>st tok. scan_token cursor kind_max track 512 tok st) ([], 0) ts"
  have "nested_below 512 ts"
    using nested_below_snoc [OF snoc.prems] by simp
  then have "scopes_ok cursor kind_max track (ts @ [t]) (scan_token cursor kind_max track 512 t (fst ?st, snd ?st))"
    using snoc.IH by (intro scan_token_ok) (simp_all add: nested_below_here)
  then show ?case
    by simp
qed

lemma top_is_in_force:
  assumes "nested_below 512 (seen_tokens tokens cursor)"
    and "scan_kw_stack tokens cursor kind_max track 512 = (S, d)"
  shows "top_at_depth S d = keyword_in_force cursor kind_max track (seen_tokens tokens cursor)
    (brace_depth_of (seen_tokens tokens cursor))"
proof -
  let ?ts = "seen_tokens tokens cursor"
  have ok: "scopes_ok cursor kind_max track ?ts (S, d)"
    using scan_scopes_ok [OF assms(1), of cursor kind_max track] assms(2)
    by (simp add: scan_kw_stack_def seen_tokens_def)
  then have r: "rising S" and d: "unat d = brace_depth_of ?ts"
    using nat_depth [OF nested_below_here [OF assms(1)]] by (simp_all add: scopes_ok_def)
  have "List.find (\<lambda>e. depth e = d) (rev S) = at_depth (unat d) S"
    using r
  proof (induction S rule: rev_induct)
    case (snoc x S)
    then have "rising S" "\<forall>y \<in> set S. unat (depth y) < unat (depth x)"
      by (auto simp: rising_def sorted_wrt_append)
    moreover from this(2) have "depth x = d \<Longrightarrow> at_depth (unat d) S = None"
      by (auto simp: at_depth_def find_None_iff)
    ultimately show ?case
      using snoc.IH by (auto simp: at_depth_append word_unat_eq_iff split: option.split)
  qed (simp add: at_depth_def)
  then show ?thesis
    using ok d by (simp add: top_at_depth_def scopes_ok_def)
qed

end
