(* ===== verification/Keyword_Help.thy ===== *)
theory Keyword_Help
  imports Keyword_Stack Navigation
begin

text \<open>
  Hover (\<open>handle_hover\<close> of \<open>src/src/hover.c\<close>) and signature help (\<open>src/src/signature.c\<close>): the
  documentation tables with their lookups and the two handlers.  The texts are the bytes of the
  sources; the keywords of \<open>lexer.l\<close> that have documentation are listed with their token kinds.
\<close>

subsection \<open>The keywords\<close>

text \<open>The lexemes \<open>lexer.l\<close> maps to the token kinds declared before \<open>KW_SIG_END\<close>.\<close>

definition documented_keywords :: "(string \<times> nat) list" where
  "documented_keywords =
    [(''project'', 258), (''task'', 259), (''resource'', 260), (''account'', 261),
     (''shift'', 262), (''macro'', 263), (''include'', 264), (''flags'', 265),
     (''supplement'', 266), (''effort'', 267), (''duration'', 268), (''length'', 269),
     (''milestone'', 270), (''depends'', 271), (''precedes'', 272), (''allocate'', 273),
     (''start'', 274), (''end'', 275), (''maxstart'', 276), (''minstart'', 277),
     (''maxend'', 278), (''minend'', 279), (''priority'', 280), (''complete'', 281),
     (''note'', 282), (''responsible'', 283), (''booking'', 284), (''scheduled'', 285),
     (''rate'', 286), (''efficiency'', 287), (''vacation'', 288), (''leaves'', 289),
     (''now'', 290), (''currency'', 291), (''timeformat'', 292), (''timezone'', 293),
     (''workinghours'', 294), (''timingresolution'', 295), (''scenario'', 296)]"

text \<open>\<open>strcmp\<close>, of which only the sign matters, and \<open>bsearch\<close> as the C library implements it.\<close>

fun strcmp :: "string \<Rightarrow> string \<Rightarrow> int" where
  "strcmp [] [] = 0"
| "strcmp [] (d # ds) = - 1"
| "strcmp (c # cs) [] = 1"
| "strcmp (c # cs) (d # ds) = (if c = d then strcmp cs ds else of_char c - of_char d)"

function bsearch :: "string \<Rightarrow> (string \<times> 'a) list \<Rightarrow> nat \<Rightarrow> nat \<Rightarrow> 'a option" where
  "bsearch key table l u =
     (if u \<le> l then None
      else let idx = (l + u) div 2; cmp = strcmp key (fst (table ! idx)) in
        if cmp < 0 then bsearch key table l idx
        else if 0 < cmp then bsearch key table (idx + 1) u
        else Some (snd (table ! idx)))"
  by pat_completeness auto
termination
  by (relation "measure (\<lambda>(key, table, l, u). u - l)") auto

declare bsearch.simps [simp del]

subsection \<open>Documentation\<close>

definition ellipsis :: string where "ellipsis = [CHR 0xE2, CHR 0x80, CHR 0xA6]"
definition en_dash :: string where "en_dash = [CHR 0xE2, CHR 0x80, CHR 0x93]"
definition em_dash :: string where "em_dash = [CHR 0xE2, CHR 0x80, CHR 0x94]"
definition right_quote :: string where "right_quote = [CHR 0xE2, CHR 0x80, CHR 0x99]"
definition open_quote :: string where "open_quote = [CHR 0xE2, CHR 0x80, CHR 0x9C]"
definition close_quote :: string where "close_quote = [CHR 0xE2, CHR 0x80, CHR 0x9D]"
definition newline :: string where "newline = [CHR 0x0A]"
definition blank_line :: string where "blank_line = [CHR 0x0A, CHR 0x0A]"

definition keyword_doc_table_1 :: "(string \<times> string) list" where
  "keyword_doc_table_1 =
    [
     (''account'', ''**`account`** *(declaration)*'' @ blank_line @
        ''Defines a cost/revenue account used for project accounting.'' @ blank_line @
        ''**Syntax:** `account <id> \"<name>\" { '' @ ellipsis @ '' }`''),
     (''allocate'', ''**`allocate`** *(task attribute)*'' @ blank_line @
        ''Assigns one or more resources to the task for scheduling purposes.'' @ blank_line @
        ''**Syntax:** `allocate <resource-id> [{ '' @ ellipsis @ '' }] [, '' @ ellipsis @ '']`'' @ blank_line @
        ''**Example:** `allocate alice, bob`''),
     (''booking'', ''**`booking`** *(task attribute)*'' @ blank_line @
        ''Records actual work already performed on a task by a resource on a specific date, used for progress tracking.'' @ blank_line @
        ''**Syntax:** `booking <resource-id> <date> <duration> { '' @ ellipsis @ '' }`''),
     (''complete'', ''**`complete`** *(task attribute)*'' @ blank_line @
        ''The percentage of the task that is already done (0'' @ en_dash @ ''100). Used in progress tracking and reports.'' @ blank_line @
        ''**Syntax:** `complete <0'' @ en_dash @ ''100>`''),
     (''currency'', ''**`currency`** *(project attribute)*'' @ blank_line @
        ''Sets the currency symbol displayed in cost/revenue reports.'' @ blank_line @
        ''**Syntax:** `currency \"<symbol>\"`'' @ blank_line @
        ''**Example:** `currency \"EUR\"`''),
     (''depends'', ''**`depends`** *(task attribute)*'' @ blank_line @
        ''Specifies finish-to-start dependencies on other tasks. The current task cannot start until all listed tasks have finished.'' @ blank_line @
        ''**Syntax:** `depends <task-id> [{ gap <duration> }] [, '' @ ellipsis @ '']`'' @ blank_line @
        ''**Example:** `depends !design, !prototype`''),
     (''duration'', ''**`duration`** *(task attribute)*'' @ blank_line @
        ''The elapsed (wall-clock) duration of the task, regardless of resource availability or working hours.'' @ blank_line @
        ''**Syntax:** `duration <value><unit>`'' @ blank_line @
        ''**Units:** `min`, `h`, `d`, `w`, `m`''),
     (''efficiency'', ''**`efficiency`** *(resource attribute)*'' @ blank_line @
        ''A multiplier (default 1.0) applied to the resource'' @ right_quote @ ''s work output. `efficiency 0.5` means the resource works at half speed.'' @ blank_line @
        ''**Syntax:** `efficiency <number>`''),
     (''effort'', ''**`effort`** *(task attribute)*'' @ blank_line @
        ''The amount of work required to complete the task, expressed in time units. The scheduler distributes this across allocated resources.'' @ blank_line @
        ''**Syntax:** `effort <value><unit>`'' @ blank_line @
        ''**Units:** `min`, `h`, `d` (days), `w` (weeks), `m` (months)'' @ blank_line @
        ''**Example:** `effort 5d`''),
     (''end'', ''**`end`** *(task / project attribute)*'' @ blank_line @
        ''Pins the end date of a task or defines the project end date.'' @ blank_line @
        ''**Syntax:** `end <YYYY-MM-DD[-HH:MM]>`''),
     (''flags'', ''**`flags`** *(declaration)*'' @ blank_line @
        ''Declares one or more flag identifiers that can later be set on tasks, resources, or accounts and used in reports.'' @ blank_line @
        ''**Syntax:** `flags <id> [, <id> '' @ ellipsis @ '']`''),
     (''include'', ''**`include`** *(directive)*'' @ blank_line @
        ''Includes another TaskJuggler file at this point in the project.'' @ blank_line @
        ''**Syntax:** `include \"<filename>\"`''),
     (''leaves'', ''**`leaves`** *(resource / project attribute)*'' @ blank_line @
        ''Defines a leave block (holiday, sick leave, etc.) similar to `vacation` but with a typed category.'' @ blank_line @
        ''**Syntax:** `leaves <type> <date> [+<duration>]`'' @ blank_line @
        ''**Types:** `annual`, `sick`, `special`, `unpaid`''),
     (''length'', ''**`length`** *(task attribute)*'' @ blank_line @
        ''The duration of the task measured in working days/hours, as opposed to calendar time (`duration`).'' @ blank_line @
        ''**Syntax:** `length <value><unit>`''),
     (''macro'', ''**`macro`** *(declaration)*'' @ blank_line @
        ''Defines a reusable text macro. The body is enclosed in `[ '' @ ellipsis @ '' ]` and may contain `${1}`, `${2}`, '' @ ellipsis @ '' placeholders for arguments.'' @ blank_line @
        ''**Syntax:** `macro <id> [ <body> ]`''),
     (''maxend'', ''**`maxend`** *(task attribute)*'' @ blank_line @
        ''Sets a latest-allowed end date.'' @ blank_line @
        ''**Syntax:** `maxend <YYYY-MM-DD>`'')]"

definition keyword_doc_table_2 :: "(string \<times> string) list" where
  "keyword_doc_table_2 =
    [
     (''maxstart'', ''**`maxstart`** *(task attribute)*'' @ blank_line @
        ''Sets a latest-allowed start date. The scheduler reports an error if the task would start later than this date.'' @ blank_line @
        ''**Syntax:** `maxstart <YYYY-MM-DD>`''),
     (''milestone'', ''**`milestone`** *(task attribute)*'' @ blank_line @
        ''Marks the task as a milestone (zero duration). A milestone represents a point-in-time event rather than a work package.'' @ blank_line @
        ''**Syntax:** `milestone`''),
     (''minend'', ''**`minend`** *(task attribute)*'' @ blank_line @
        ''Sets an earliest-allowed end date.'' @ blank_line @
        ''**Syntax:** `minend <YYYY-MM-DD>`''),
     (''minstart'', ''**`minstart`** *(task attribute)*'' @ blank_line @
        ''Sets an earliest-allowed start date.'' @ blank_line @
        ''**Syntax:** `minstart <YYYY-MM-DD>`''),
     (''note'', ''**`note`** *(task / resource attribute)*'' @ blank_line @
        ''Attaches a free-text note to the task or resource.'' @ blank_line @
        ''**Syntax:** `note \"<text>\"`''),
     (''now'', ''**`now`** *(project attribute)*'' @ blank_line @
        ''Sets the reference date used as '' @ open_quote @ ''today'' @ close_quote @ '' in reports and progress calculations. Defaults to the current date.'' @ blank_line @
        ''**Syntax:** `now <YYYY-MM-DD>`''),
     (''precedes'', ''**`precedes`** *(task attribute)*'' @ blank_line @
        ''The reverse of `depends`: lists tasks that must not start before this task finishes.'' @ blank_line @
        ''**Syntax:** `precedes <task-id> [, '' @ ellipsis @ '']`''),
     (''priority'', ''**`priority`** *(task attribute)*'' @ blank_line @
        ''Sets the scheduling priority. Higher values (0'' @ en_dash @ ''1000, default 500) cause the task to be scheduled before lower-priority tasks when resources are contested.'' @ blank_line @
        ''**Syntax:** `priority <0'' @ en_dash @ ''1000>`''),
     (''project'', ''**`project`** *(declaration)*'' @ blank_line @
        ''Defines the project header. Required exactly once per TJP file.'' @ blank_line @
        ''**Syntax:** `project <id> \"<name>\" <start> <end|duration> { '' @ ellipsis @ '' }`'' @ blank_line @
        ''**Example:**'' @ newline @ ''```'' @ newline @ ''project acso \"Accounting Software\" 2024-01-01 +6m { }'' @ newline @ ''```''),
     (''rate'', ''**`rate`** *(resource attribute)*'' @ blank_line @
        ''The daily cost rate of the resource in the project currency, used for cost calculations.'' @ blank_line @
        ''**Syntax:** `rate <number>`''),
     (''resource'', ''**`resource`** *(declaration)*'' @ blank_line @
        ''Defines a resource (person, team, or piece of equipment) that can be allocated to tasks.'' @ blank_line @
        ''**Syntax:** `resource <id> \"<name>\" { '' @ ellipsis @ '' }`'' @ blank_line @
        ''**Common body attributes:** `rate`, `workinghours`, `vacation`, `leaves`, `efficiency`, `limits`''),
     (''responsible'', ''**`responsible`** *(task attribute)*'' @ blank_line @
        ''Names the resource(s) accountable for completing the task. Informational only; does not affect scheduling.'' @ blank_line @
        ''**Syntax:** `responsible <resource-id> [, '' @ ellipsis @ '']`''),
     (''scenario'', ''**`scenario`** *(project attribute)*'' @ blank_line @
        ''Defines a scheduling scenario for what-if analysis. The default scenario is always `plan`.'' @ blank_line @
        ''**Syntax:** `scenario <id> \"<name>\" { '' @ ellipsis @ '' }`''),
     (''scheduled'', ''**`scheduled`** *(task attribute)*'' @ blank_line @
        ''Marks a task as having fixed, pre-computed start and end dates that the scheduler should not change.'' @ blank_line @
        ''**Syntax:** `scheduled`''),
     (''shift'', ''**`shift`** *(declaration)*'' @ blank_line @
        ''Defines a named set of working hours that can be assigned to resources or tasks.'' @ blank_line @
        ''**Syntax:** `shift <id> \"<name>\" { workinghours '' @ ellipsis @ '' }`''),
     (''start'', ''**`start`** *(task / project attribute)*'' @ blank_line @
        ''Pins the start date of a task or defines the project start date.'' @ blank_line @
        ''**Syntax:** `start <YYYY-MM-DD[-HH:MM]>`''),
     (''supplement'', ''**`supplement`** *(declaration)*'' @ blank_line @
        ''Adds attributes to a previously-defined task or resource without redefining it. Useful when splitting definitions across included files.'' @ blank_line @
        ''**Syntax:** `supplement task|resource <id> { '' @ ellipsis @ '' }`''),
     (''task'', ''**`task`** *(declaration)*'' @ blank_line @
        ''Defines a work package, summary task, or milestone. Tasks may be nested to form a work-breakdown structure.'' @ blank_line @
        ''**Syntax:** `task <id> \"<name>\" { '' @ ellipsis @ '' }`'' @ blank_line @
        ''**Common body attributes:** `effort`, `duration`, `depends`, `allocate`, `milestone`, `start`, `end`, `priority`, `complete`''),
     (''timeformat'', ''**`timeformat`** *(project attribute)*'' @ blank_line @
        ''Sets the `strftime`-style format string used when displaying dates.'' @ blank_line @
        ''**Syntax:** `timeformat \"<format>\"`'' @ blank_line @
        ''**Example:** `timeformat \"%Y-%m-%d\"`''),
     (''timezone'', ''**`timezone`** *(project attribute)*'' @ blank_line @
        ''Sets the timezone for all date calculations. Uses IANA tz database names.'' @ blank_line @
        ''**Syntax:** `timezone \"<tz>\"`'' @ blank_line @
        ''**Example:** `timezone \"America/New_York\"`''),
     (''timingresolution'', ''**`timingresolution`** *(project attribute)*'' @ blank_line @
        ''Sets the scheduling granularity in minutes (default 60). Smaller values give finer-grained schedules at the cost of longer computation.'' @ blank_line @
        ''**Syntax:** `timingresolution <minutes>`''),
     (''vacation'', ''**`vacation`** *(resource / project attribute)*'' @ blank_line @
        ''Defines a vacation period during which the resource is unavailable (or a project-wide holiday).'' @ blank_line @
        ''**Syntax:** `vacation \"<name>\" <date> [+<duration> | - <date>]`''),
     (''workinghours'', ''**`workinghours`** *(project / resource / shift attribute)*'' @ blank_line @
        ''Defines which hours of the day and days of the week are working time.'' @ blank_line @
        ''**Syntax:** `workinghours <days> <HH:MM> - <HH:MM> [, '' @ ellipsis @ '']`'' @ blank_line @
        ''**Days:** `mon`, `tue`, `wed`, `thu`, `fri`, `sat`, `sun`, ranges like `mon-fri`, or `off`'' @ blank_line @
        ''**Example:** `workinghours mon-fri 9:00 - 17:00`'')]"

definition keyword_doc_table :: "(string \<times> string) list" where
  "keyword_doc_table = keyword_doc_table_1 @ keyword_doc_table_2"

definition keyword_docs :: "string option \<Rightarrow> string option" where
  "keyword_docs key =
     (case key of None \<Rightarrow> None | Some k \<Rightarrow> bsearch k keyword_doc_table 0 (length keyword_doc_table))"

subsection \<open>Hover\<close>

record hover =
  hover_value :: string
  hover_range :: LspRange

definition task_markdown :: "string \<Rightarrow> string \<Rightarrow> string" where
  "task_markdown qid name = ''**Task `'' @ qid @ ''`** '' @ em_dash @ '' '' @ name"

fun pnodes_on :: "ProjectNode \<Rightarrow> path \<Rightarrow> ProjectNode list" where
  "pnodes_on n [] = [n]"
| "pnodes_on n (i # p) = n # (if i < length (pchildren n) then pnodes_on (pchildren n ! i) p else [])"

definition pid_of :: "ProjectNode \<Rightarrow> string" where
  "pid_of n = (case pn_id (pinfo n) of Some i \<Rightarrow> i | None \<Rightarrow> [])"

definition pname_of :: "ProjectNode \<Rightarrow> string" where
  "pname_of n = (case pn_name (pinfo n) of Some i \<Rightarrow> i | None \<Rightarrow> [])"

definition project_node_hover_markdown :: "ProjectNode \<Rightarrow> path \<Rightarrow> string" where
  "project_node_hover_markdown root p =
     (case pnode_at root p of
        None \<Rightarrow> task_markdown [] []
      | Some node \<Rightarrow>
          if pn_id (pinfo node) = None then task_markdown [] (pname_of node)
          else (let chain = take 64 (filter (\<lambda>n. pn_keyword (pinfo n) = pn_keyword (pinfo node) \<and> pid_of n \<noteq> [])
                                            (rev (pnodes_on root p))) in
                task_markdown (join_with (CHR ''.'') (map pid_of (rev chain))) (pname_of node)))"

definition dep_of :: "query_doc \<Rightarrow> path \<Rightarrow> nat \<Rightarrow> Dependency option" where
  "dep_of d owner i = map_option (\<lambda>n. dependencies (info n) ! i) (node_at (snap_root (qd_snap d)) owner)"

definition try_dependency_hover ::
  "query_context \<Rightarrow> query_doc \<Rightarrow> LspPos \<Rightarrow> dep_memo \<Rightarrow> hover option \<times> dep_memo" where
  "try_dependency_hover qc d pos memo =
     (case qc_project_root qc of
        None \<Rightarrow> (None, memo)
      | Some root \<Rightarrow>
          (case doc_dependency d pos of
             None \<Rightarrow> (None, memo)
           | Some (owner, i) \<Rightarrow>
               (case project_resolve_dep_ref root (doc_task_prefix d) (snap_root (qd_snap d)) owner i memo of
                  (None, memo') \<Rightarrow> (None, memo')
                | (Some target, memo') \<Rightarrow>
                    (map_option (\<lambda>dep. \<lparr> hover_value = project_node_hover_markdown root target,
                                          hover_range = source_range dep \<rparr>) (dep_of d owner i), memo'))))"

definition keyword_hover :: "TokenSpan list \<Rightarrow> LspPos \<Rightarrow> hover option" where
  "keyword_hover tokens pos =
     (case active_keyword_at tokens pos of
        None \<Rightarrow> None
      | Some (key, r) \<Rightarrow> map_option (\<lambda>docs. \<lparr> hover_value = docs, hover_range = r \<rparr>) (keyword_docs (Some key)))"

definition handle_hover ::
  "query_context \<Rightarrow> query_doc option \<Rightarrow> LspPos option \<Rightarrow> dep_memo \<Rightarrow> hover option \<times> dep_memo" where
  "handle_hover qc d position memo =
     (case (position, d) of
        (Some pos, Some doc) \<Rightarrow>
          (case try_dependency_hover qc doc pos memo of
             (Some h, memo') \<Rightarrow> (Some h, memo')
           | (None, memo') \<Rightarrow> (keyword_hover (snap_tok_spans (qd_snap doc)) pos, memo'))
      | _ \<Rightarrow> (None, memo))"

subsection \<open>Signature help\<close>

record SigDef =
  sig_label :: string
  params :: "string list"
  sig_doc :: string

text \<open>The \<open>strcmp\<close> chain of \<open>build_signature_help_json\<close>, in its order; \<open>SIG0\<close> has no parameters.\<close>

definition signatures_1 :: "(string \<times> SigDef) list" where
  "signatures_1 =
    [
     (''project'', \<lparr> sig_label = ''project [<id>] <name> [<version>] <start> <end|+duration>'',
        params = [''[<id>]'', ''<name>'', ''[<version>]'', ''<start>'', ''<end|+duration>''],
        sig_doc = ''Project header. Required exactly once per file.'' \<rparr>),
     (''task'', \<lparr> sig_label = ''task [<id>] <name>'',
        params = [''[<id>]'', ''<name>''],
        sig_doc = ''Work package, summary task, or milestone.'' \<rparr>),
     (''resource'', \<lparr> sig_label = ''resource [<id>] <name>'',
        params = [''[<id>]'', ''<name>''],
        sig_doc = ''Resource (person, team, or equipment).'' \<rparr>),
     (''account'', \<lparr> sig_label = ''account [<id>] <name>'',
        params = [''[<id>]'', ''<name>''],
        sig_doc = ''Cost/revenue account.'' \<rparr>),
     (''shift'', \<lparr> sig_label = ''shift [<id>] <name>'',
        params = [''[<id>]'', ''<name>''],
        sig_doc = ''Named working-hours shift.'' \<rparr>),
     (''macro'', \<lparr> sig_label = ''macro <ID> <MACRO>'',
        params = [''<ID>'', ''<MACRO>''],
        sig_doc = ''Reusable text macro. Body is enclosed in `[ ]`. Use `${1}`, `${2}`, ... for arguments.'' \<rparr>),
     (''include'', \<lparr> sig_label = ''include <filename> [{ <attributes> }]'',
        params = [''<filename>''],
        sig_doc = ''Include another TaskJuggler file.'' \<rparr>),
     (''flags'', \<lparr> sig_label = ''flags <ID> [, <ID>...]'',
        params = [''<ID> [, <ID>...]''],
        sig_doc = ''Declare flag identifiers.'' \<rparr>),
     (''supplement'', \<lparr> sig_label = ''supplement (account|resource|task) <id> [{ <attributes> }]'',
        params = [''account|resource|task'', ''<id>''],
        sig_doc = ''Add attributes to a previously-defined account, resource, or task.'' \<rparr>),
     (''scenario'', \<lparr> sig_label = ''scenario <id> <name> [{ <attributes> }]'',
        params = [''<id>'', ''<name>''],
        sig_doc = ''Alternative scheduling scenario.'' \<rparr>),
     (''effort'', \<lparr> sig_label = ''effort <value> (min|h|d|w|m|y)'',
        params = [''<value>'', ''min|h|d|w|m|y''],
        sig_doc = ''Work required (e.g. `effort 5 d`, `effort 8 h`). Distributed across allocated resources.'' \<rparr>),
     (''duration'', \<lparr> sig_label = ''duration <value> (min|h|d|w|m|y)'',
        params = [''<value>'', ''min|h|d|w|m|y''],
        sig_doc = ''Elapsed (wall-clock) duration, ignoring resource availability.'' \<rparr>),
     (''length'', \<lparr> sig_label = ''length <value> (min|h|d|w|m|y)'',
        params = [''<value>'', ''min|h|d|w|m|y''],
        sig_doc = ''Duration in working time.'' \<rparr>),
     (''milestone'', \<lparr> sig_label = ''milestone'',
        params = [],
        sig_doc = ''Mark as a zero-duration milestone.'' \<rparr>),
     (''scheduled'', \<lparr> sig_label = ''scheduled'',
        params = [],
        sig_doc = ''Task has fixed, pre-computed dates. Requires manual bookings.'' \<rparr>)]"

definition signatures_2 :: "(string \<times> SigDef) list" where
  "signatures_2 =
    [
     (''depends'', \<lparr> sig_label = ''depends <id> [{ <attributes> }] [, <id> [{ <attributes> }]...]'',
        params = [''<id> [, <id>...]''],
        sig_doc = ''Finish-to-start dependency. Use `!` prefix for relative paths, `!!` to go up a level.'' \<rparr>),
     (''precedes'', \<lparr> sig_label = ''precedes <id> [{ <attributes> }] [, <id> [{ <attributes> }]...]'',
        params = [''<id> [, <id>...]''],
        sig_doc = ''Reverse dependency: listed tasks cannot start before this one finishes.'' \<rparr>),
     (''allocate'', \<lparr> sig_label = ''allocate <resource> [{ <attributes> }] [, <resource> [{ <attributes> }]...]'',
        params = [''<resource> [, <resource>...]''],
        sig_doc = ''Assign resources to this task.'' \<rparr>),
     (''start'', \<lparr> sig_label = ''start <date>'',
        params = [''<date>''],
        sig_doc = ''Hard constraint on start date (`YYYY-MM-DD[-HH:MM]`). Task will not start earlier.'' \<rparr>),
     (''end'', \<lparr> sig_label = ''end <date>'',
        params = [''<date>''],
        sig_doc = ''Hard constraint on end date (`YYYY-MM-DD[-HH:MM]`). Task will not end later.'' \<rparr>),
     (''maxstart'', \<lparr> sig_label = ''maxstart <date>'',
        params = [''<date>''],
        sig_doc = ''Maximum desired start date. Reported as error if violated after scheduling.'' \<rparr>),
     (''minstart'', \<lparr> sig_label = ''minstart <date>'',
        params = [''<date>''],
        sig_doc = ''Minimum desired start date. Reported as error if violated after scheduling.'' \<rparr>),
     (''maxend'', \<lparr> sig_label = ''maxend <date>'',
        params = [''<date>''],
        sig_doc = ''Maximum desired end date. Reported as error if violated after scheduling.'' \<rparr>),
     (''minend'', \<lparr> sig_label = ''minend <date>'',
        params = [''<date>''],
        sig_doc = ''Minimum desired end date. Reported as error if violated after scheduling.'' \<rparr>),
     (''priority'', \<lparr> sig_label = ''priority <value>'',
        params = [''<value>''],
        sig_doc = ''Scheduling priority 1-1000 (default 500). Higher value wins contested resources.'' \<rparr>),
     (''complete'', \<lparr> sig_label = ''complete <percent>'',
        params = [''<percent>''],
        sig_doc = ''Completion percentage (0-100) for progress tracking.'' \<rparr>),
     (''note'', \<lparr> sig_label = ''note <STRING>'',
        params = [''<STRING>''],
        sig_doc = ''Attach a note or description to the task.'' \<rparr>),
     (''responsible'', \<lparr> sig_label = ''responsible <resource> [, <resource>...]'',
        params = [''<resource> [, <resource>...]''],
        sig_doc = ''Resource(s) accountable for this task (informational only, not used in scheduling).'' \<rparr>),
     (''booking'', \<lparr> sig_label = ''booking <resource> <interval> [, <interval>...] [{ <attributes> }]'',
        params = [''<resource>'', ''<interval> [, <interval>...]''],
        sig_doc = ''Record actual work already performed on this task.'' \<rparr>),
     (''rate'', \<lparr> sig_label = ''rate (<INTEGER>|<FLOAT>)'',
        params = [''<INTEGER>|<FLOAT>''],
        sig_doc = ''Daily cost rate in the project currency.'' \<rparr>),
     (''efficiency'', \<lparr> sig_label = ''efficiency (<INTEGER>|<FLOAT>)'',
        params = [''<INTEGER>|<FLOAT>''],
        sig_doc = ''Work output multiplier (default 1.0; >1.0 above average, <1.0 reduced).'' \<rparr>),
     (''vacation'', \<lparr> sig_label = ''vacation <name> <interval> [, <interval>...]'',
        params = [''<name>'', ''<interval> [, <interval>...]''],
        sig_doc = ''Define a vacation / unavailability period.'' \<rparr>),
     (''leaves'', \<lparr> sig_label = ''leaves (project|annual|special|sick|unpaid|holiday|unemployed) [<name>] <interval> [, ...]'',
        params = [''project|annual|special|sick|unpaid|holiday|unemployed'', ''[<name>]'', ''<interval>''],
        sig_doc = ''Leave block by type. Name is optional.'' \<rparr>),
     (''now'', \<lparr> sig_label = ''now <date>'',
        params = [''<date>''],
        sig_doc = ''Reference date for reports and progress calculations (default: system clock).'' \<rparr>),
     (''currency'', \<lparr> sig_label = ''currency <symbol>'',
        params = [''<symbol>''],
        sig_doc = ''Currency unit for all monetary values (e.g. `\"USD\"`, `\"EUR\"`).'' \<rparr>),
     (''timeformat'', \<lparr> sig_label = ''timeformat <format>'',
        params = [''<format>''],
        sig_doc = ''Date/time format string using `%` specifiers (e.g. `\"%Y-%m-%d\"`).'' \<rparr>),
     (''timezone'', \<lparr> sig_label = ''timezone <zone>'',
        params = [''<zone>''],
        sig_doc = ''IANA timezone for all date calculations (e.g. `\"Europe/Berlin\"`, `\"America/New_York\"`).'' \<rparr>),
     (''workinghours'', \<lparr> sig_label = ''workinghours <weekday> [- <weekday>] [, ...] (off | <HH:MM> - <HH:MM> [, <HH:MM> - <HH:MM>...])'',
        params = [''<weekday> [- <weekday>]'', ''off | <HH:MM> - <HH:MM>''],
        sig_doc = ''Working hours. Days: `mon`, `tue`, `wed`, `thu`, `fri`, `sat`, `sun`, ranges like `mon-fri`, or `off`.'' \<rparr>),
     (''timingresolution'', \<lparr> sig_label = ''timingresolution <INTEGER> min'',
        params = [''<INTEGER>''],
        sig_doc = ''Scheduling granularity in minutes (valid: 5-60, default 60). The `min` unit suffix is required.'' \<rparr>)]"

definition signatures :: "(string \<times> SigDef) list" where
  "signatures = signatures_1 @ signatures_2"

record signature_help =
  help_def :: SigDef
  active_parameter :: "int option"

definition make_sig :: "SigDef \<Rightarrow> int \<Rightarrow> signature_help" where
  "make_sig d active_param =
     (let nparams = int (length (params d));
          clamped = (if nparams = 0 then 0 else if active_param < nparams then active_param else nparams - 1) in
      \<lparr> help_def = d, active_parameter = (if 0 < nparams then Some clamped else None) \<rparr>)"

definition build_signature_help :: "string \<Rightarrow> int \<Rightarrow> signature_help option" where
  "build_signature_help key active_param =
     map_option (\<lambda>(_, d). make_sig d active_param) (List.find (\<lambda>(k, _). key = k) signatures)"

definition signature_at :: "TokenSpan list \<Rightarrow> LspPos \<Rightarrow> signature_help option" where
  "signature_at tokens pos =
     (case active_context tokens pos of None \<Rightarrow> None | Some (key, n) \<Rightarrow> build_signature_help key n)"

definition handle_signature_help :: "query_doc option \<Rightarrow> LspPos option \<Rightarrow> signature_help option" where
  "handle_signature_help d position =
     (case (position, d) of
        (Some pos, Some doc) \<Rightarrow> signature_at (snap_tok_spans (qd_snap doc)) pos
      | _ \<Rightarrow> None)"

subsection \<open>The lookups\<close>

lemma strcmp_eq: "strcmp a b = 0 \<longleftrightarrow> a = b"
  by (induction a b rule: strcmp.induct) auto

lemma strcmp_swap: "strcmp a b < 0 \<longleftrightarrow> 0 < strcmp b a"
  by (induction a b rule: strcmp.induct) auto

lemma strcmp_trans: "strcmp a b < 0 \<Longrightarrow> strcmp b c < 0 \<Longrightarrow> strcmp a c < 0"
proof (induction a b arbitrary: c rule: strcmp.induct)
  case (2 d ds)
  then show ?case by (cases c) auto
next
  case (4 x xs y ys)
  then obtain z zs where c: "c = z # zs"
    by (cases c) auto
  show ?case
  proof (cases "x = y")
    case True
    then show ?thesis
      using 4 c by (auto split: if_splits)
  next
    case False
    then have xy: "(of_char x :: int) < of_char y"
      using "4.prems"(1) by simp
    have "(of_char y :: int) \<le> of_char z"
      using "4.prems"(2) by (auto simp: c split: if_splits)
    then show ?thesis
      using xy by (auto simp: c)
  qed
qed auto

text \<open>A table sorted by its keys is searched by halving as it would be by walking through it.\<close>

definition key_sorted :: "(string \<times> 'a) list \<Rightarrow> bool" where
  "key_sorted table = sorted_wrt (\<lambda>a b. strcmp a b < 0) (map fst table)"

lemma key_sorted_less: "key_sorted t \<Longrightarrow> i < j \<Longrightarrow> j < length t \<Longrightarrow> strcmp (fst (t ! i)) (fst (t ! j)) < 0"
  by (auto simp: key_sorted_def sorted_wrt_iff_nth_less)

lemma bsearch_sound:
  "bsearch key t l u = Some v \<Longrightarrow> u \<le> length t \<Longrightarrow> (key, v) \<in> set t"
proof (induction key t l u rule: bsearch.induct)
  case (1 key t l u)
  define idx where "idx = (l + u) div 2"
  have ul: "\<not> u \<le> l"
    using "1.prems"(1) by (auto simp: bsearch.simps)
  then have idx: "idx < u" "idx \<le> u"
    unfolding idx_def by auto
  consider "strcmp key (fst (t ! idx)) < 0" | "0 < strcmp key (fst (t ! idx))" | "strcmp key (fst (t ! idx)) = 0"
    by linarith
  then show ?case
  proof cases
    case 1
    then have "bsearch key t l u = bsearch key t l idx"
      using ul by (subst bsearch.simps) (simp add: idx_def Let_def)
    then show ?thesis
      using "1.IH"(1) [OF ul idx_def refl 1] "1.prems" idx by simp
  next
    case 2
    then have "bsearch key t l u = bsearch key t (idx + 1) u"
      using ul by (subst bsearch.simps) (simp add: idx_def Let_def)
    then show ?thesis
      using "1.IH"(2) [OF ul idx_def refl _ 2] 2 "1.prems" by simp
  next
    case 3
    then have "v = snd (t ! idx)" "key = fst (t ! idx)"
      using ul "1.prems"(1) by (simp_all add: bsearch.simps [of key t l] idx_def Let_def strcmp_eq [symmetric])
    then show ?thesis
      using idx "1.prems"(2) by (metis nth_mem order_less_le_trans prod.collapse)
  qed
qed

lemma strcmp_asym: "strcmp a b < 0 \<Longrightarrow> \<not> strcmp b a < 0"
  using strcmp_swap [of a b] by simp

lemma bsearch_complete:
  "key_sorted t \<Longrightarrow> fst (t ! i) = key \<Longrightarrow> l \<le> i \<Longrightarrow> i < u \<Longrightarrow> u \<le> length t \<Longrightarrow>
     bsearch key t l u = Some (snd (t ! i))"
proof (induction key t l u rule: bsearch.induct)
  case (1 key t l u)
  define idx where "idx = (l + u) div 2"
  have ul: "\<not> u \<le> l"
    using "1.prems" by simp
  then have idx: "idx < length t" "idx < u" "l \<le> idx"
    using "1.prems"(5) unfolding idx_def by auto
  have i: "i < length t"
    using "1.prems"(4,5) by simp
  consider "strcmp key (fst (t ! idx)) < 0" | "0 < strcmp key (fst (t ! idx))" | "strcmp key (fst (t ! idx)) = 0"
    by linarith
  then show ?case
  proof cases
    case 1
    then have "\<not> idx < i" "idx \<noteq> i"
      using key_sorted_less [OF "1.prems"(1), of idx i] i "1.prems"(2) strcmp_asym strcmp_eq [of key key] by auto
    moreover have "bsearch key t l u = bsearch key t l idx"
      using 1 ul by (subst bsearch.simps) (simp add: idx_def Let_def)
    ultimately show ?thesis
      using "1.IH"(1) [OF ul idx_def refl 1] "1.prems" idx by simp
  next
    case 2
    then have "strcmp (fst (t ! idx)) key < 0"
      using strcmp_swap by blast
    then have "\<not> i < idx" "idx \<noteq> i"
      using key_sorted_less [OF "1.prems"(1), of i idx] idx(1) "1.prems"(2) strcmp_asym strcmp_eq [of key key] by auto
    moreover have "bsearch key t l u = bsearch key t (idx + 1) u"
      using 2 ul by (subst bsearch.simps) (simp add: idx_def Let_def)
    ultimately show ?thesis
      using "1.IH"(2) [OF ul idx_def refl _ 2] 2 "1.prems" by simp
  next
    case 3
    then have k: "key = fst (t ! idx)"
      by (simp add: strcmp_eq)
    have "idx = i"
      using key_sorted_less [OF "1.prems"(1), of i idx] key_sorted_less [OF "1.prems"(1), of idx i]
        idx(1) i k "1.prems"(2) strcmp_eq [of key key] by (cases i idx rule: linorder_cases) auto
    moreover have "bsearch key t l u = Some (snd (t ! idx))"
      using 3 ul by (subst bsearch.simps) (simp add: idx_def Let_def)
    ultimately show ?thesis
      by simp
  qed
qed

lemma bsearch_map_of:
  assumes "key_sorted t"
  shows "bsearch key t 0 (length t) = map_of t key"
proof -
  have d: "distinct (map fst t)"
    unfolding distinct_conv_nth
  proof (intro allI impI)
    fix i j
    assume "i < length (map fst t)" "j < length (map fst t)" "i \<noteq> j"
    then show "map fst t ! i \<noteq> map fst t ! j"
      using key_sorted_less [OF assms, of i j] key_sorted_less [OF assms, of j i] strcmp_eq [of "fst (t ! j)" "fst (t ! j)"]
      by (cases i j rule: linorder_cases) auto
  qed
  show ?thesis
  proof (cases "map_of t key")
    case (Some v)
    then obtain i where "i < length t" "t ! i = (key, v)"
      by (auto dest!: map_of_SomeD simp: in_set_conv_nth)
    then show ?thesis
      using bsearch_complete [OF assms, of i key 0 "length t"] Some by simp
  next
    case None
    then have "(key, v) \<notin> set t" for v
      by (auto simp: map_of_eq_None_iff image_iff)
    then show ?thesis
      using bsearch_sound [of key t 0 "length t"] None by (cases "bsearch key t 0 (length t)") auto
  qed
qed

lemma keyword_doc_table_sorted: "key_sorted keyword_doc_table"
  unfolding key_sorted_def keyword_doc_table_def keyword_doc_table_1_def keyword_doc_table_2_def by simp

lemma keyword_docs_map_of: "keyword_docs (Some key) = map_of keyword_doc_table key"
  by (simp add: keyword_docs_def bsearch_map_of [OF keyword_doc_table_sorted])

lemma doc_table_keys: "map fst keyword_doc_table =
    [''account'', ''allocate'', ''booking'', ''complete'', ''currency'', ''depends'', ''duration'', ''efficiency'',
     ''effort'', ''end'', ''flags'', ''include'', ''leaves'', ''length'', ''macro'', ''maxend'', ''maxstart'',
     ''milestone'', ''minend'', ''minstart'', ''note'', ''now'', ''precedes'', ''priority'', ''project'', ''rate'',
     ''resource'', ''responsible'', ''scenario'', ''scheduled'', ''shift'', ''start'', ''supplement'', ''task'',
     ''timeformat'', ''timezone'', ''timingresolution'', ''vacation'', ''workinghours'']"
  unfolding keyword_doc_table_def keyword_doc_table_1_def keyword_doc_table_2_def by simp

text \<open>The keywords below \<open>KW_SIG_END\<close> are the documented ones and the ones with a signature.\<close>

lemma documented_have_docs: "(key, k) \<in> set documented_keywords \<Longrightarrow> map_of keyword_doc_table key \<noteq> None"
  unfolding map_of_eq_None_iff set_map [symmetric] doc_table_keys documented_keywords_def by auto

lemma documented_have_signatures: "(key, k) \<in> set documented_keywords \<Longrightarrow> key \<in> fst ` set signatures"
proof -
  have "map fst signatures =
    [''project'', ''task'', ''resource'', ''account'', ''shift'', ''macro'', ''include'', ''flags'', ''supplement'',
     ''scenario'', ''effort'', ''duration'', ''length'', ''milestone'', ''scheduled'', ''depends'', ''precedes'',
     ''allocate'', ''start'', ''end'', ''maxstart'', ''minstart'', ''maxend'', ''minend'', ''priority'', ''complete'',
     ''note'', ''responsible'', ''booking'', ''rate'', ''efficiency'', ''vacation'', ''leaves'', ''now'', ''currency'',
     ''timeformat'', ''timezone'', ''workinghours'', ''timingresolution'']"
    unfolding signatures_def signatures_1_def signatures_2_def by simp
  then have "fst ` set signatures = set [''project'', ''task'', ''resource'', ''account'', ''shift'', ''macro'', ''include'', ''flags'', ''supplement'',
     ''scenario'', ''effort'', ''duration'', ''length'', ''milestone'', ''scheduled'', ''depends'', ''precedes'',
     ''allocate'', ''start'', ''end'', ''maxstart'', ''minstart'', ''maxend'', ''minend'', ''priority'', ''complete'',
     ''note'', ''responsible'', ''booking'', ''rate'', ''efficiency'', ''vacation'', ''leaves'', ''now'', ''currency'',
     ''timeformat'', ''timezone'', ''workinghours'', ''timingresolution'']"
    by (metis set_map)
  then show "(key, k) \<in> set documented_keywords \<Longrightarrow> key \<in> fst ` set signatures"
    unfolding documented_keywords_def by auto
qed

text \<open>Tokens as the lexer makes them: a kind below the sentinels comes with its keyword.\<close>

definition lexed :: "TokenSpan \<Rightarrow> bool" where
  "lexed t = (KW_DOCS_END \<le> token_kind t \<or> tok_text t = None \<or> (the (tok_text t), token_kind t) \<in> set documented_keywords)"

lemma in_force_keyword:
  assumes "list_all lexed ts" and "kind_max \<le> KW_DOCS_END" and "keyword_in_force cursor kind_max track ts e = Some x"
  shows "\<exists>k. (kw x, k) \<in> set documented_keywords"
proof -
  let ?ks = "filter (in_force kind_max ts e) [0..<length ts]"
  have ks: "?ks \<noteq> []" and x: "kw x = the (tok_text (ts ! last ?ks))"
    using assms(3) by (auto simp: keyword_in_force_def Let_def split: if_splits)
  then have k: "last ?ks < length ts" "in_force kind_max ts e (last ?ks)"
    using last_in_set [OF ks] by auto
  then have "lexed (ts ! last ?ks)" "opens_scope kind_max (ts ! last ?ks)"
    using assms(1) by (simp_all add: list_all_length in_force_def)
  then show ?thesis
    using assms(2) by (auto simp: lexed_def opens_scope_def x)
qed

lemma lexed_seen: "list_all lexed tokens \<Longrightarrow> list_all lexed (seen_tokens tokens cursor)"
  unfolding seen_tokens_def list_all_iff by (auto dest: set_takeWhileD)

lemma build_signature_some:
  "key \<in> fst ` set signatures \<Longrightarrow> \<exists>d. (key, d) \<in> set signatures \<and> build_signature_help key n = Some (make_sig d n)"
proof -
  assume "key \<in> fst ` set signatures"
  then obtain r where "List.find (\<lambda>(k, _). key = k) signatures = Some r"
    by (cases "List.find (\<lambda>(k, _). key = k) signatures") (auto simp: find_None_iff)
  moreover from this have "r \<in> set signatures" "fst r = key"
    by (auto simp: find_Some_iff in_set_conv_nth)
  ultimately show ?thesis
    by (intro exI [of _ "snd r"]) (auto simp: build_signature_help_def split_beta)
qed

text \<open>C36: Keyword hover and signature help agree with what the grammar promises of them.  In a
  document of lexed tokens whose braces nest less than 512 deep, the keyword found is the one in
  force at the cursor (the last one at its brace depth since the depth was last below it); where
  there is one, hover shows the documentation the table has for it, over the keyword, and signature
  help shows its signature with the parameter of the arguments written so far, the last one where
  there are more; where there is none, neither answers.\<close>

theorem keyword_help_complete:
  assumes "list_all lexed tokens" and "nested_below 512 (seen_tokens tokens cursor)"
  shows "keyword_hover tokens cursor =
      map_option (\<lambda>e. \<lparr> hover_value = the (map_of keyword_doc_table (kw e)), hover_range = kw_range e \<rparr>)
        (keyword_in_force cursor KW_DOCS_END False (seen_tokens tokens cursor) (brace_depth_of (seen_tokens tokens cursor))) \<and>
    (case keyword_in_force cursor KW_SIG_END True (seen_tokens tokens cursor) (brace_depth_of (seen_tokens tokens cursor)) of
       None \<Rightarrow> signature_at tokens cursor = None
     | Some e \<Rightarrow> \<exists>d. (kw e, d) \<in> set signatures \<and>
         signature_at tokens cursor = Some \<lparr> help_def = d,
           active_parameter = (if params d = [] then None else Some (min (argc e) (int (length (params d)) - 1))) \<rparr>)"
proof
  let ?ts = "seen_tokens tokens cursor"
  obtain S d where sd: "scan_kw_stack tokens cursor KW_DOCS_END False 512 = (S, d)"
    by fastforce
  have ak: "active_keyword_at tokens cursor = map_option (\<lambda>e. (kw e, kw_range e))
      (keyword_in_force cursor KW_DOCS_END False ?ts (brace_depth_of ?ts))"
    using top_is_in_force [OF assms(2) sd] by (simp add: active_keyword_at_def sd)
  show "keyword_hover tokens cursor = map_option (\<lambda>e. \<lparr> hover_value = the (map_of keyword_doc_table (kw e)), hover_range = kw_range e \<rparr>)
        (keyword_in_force cursor KW_DOCS_END False ?ts (brace_depth_of ?ts))"
  proof (cases "keyword_in_force cursor KW_DOCS_END False ?ts (brace_depth_of ?ts)")
    case (Some e)
    then obtain v where "map_of keyword_doc_table (kw e) = Some v"
      using in_force_keyword [OF lexed_seen [OF assms(1)] order_refl Some] documented_have_docs by blast
    then show ?thesis
      by (simp add: keyword_hover_def ak Some keyword_docs_map_of)
  qed (simp add: keyword_hover_def ak)
next
  let ?ts = "seen_tokens tokens cursor"
  obtain S d where sd: "scan_kw_stack tokens cursor KW_SIG_END True 512 = (S, d)"
    by fastforce
  have ac: "active_context tokens cursor = map_option (\<lambda>e. (kw e, argc e))
      (keyword_in_force cursor KW_SIG_END True ?ts (brace_depth_of ?ts))"
    using top_is_in_force [OF assms(2) sd] by (simp add: active_context_def sd)
  show "case keyword_in_force cursor KW_SIG_END True ?ts (brace_depth_of ?ts) of
       None \<Rightarrow> signature_at tokens cursor = None
     | Some e \<Rightarrow> \<exists>d. (kw e, d) \<in> set signatures \<and>
         signature_at tokens cursor = Some \<lparr> help_def = d,
           active_parameter = (if params d = [] then None else Some (min (argc e) (int (length (params d)) - 1))) \<rparr>"
  proof (cases "keyword_in_force cursor KW_SIG_END True ?ts (brace_depth_of ?ts)")
    case (Some e)
    have "KW_SIG_END \<le> KW_DOCS_END"
      by (simp add: tok_simps)
    then obtain k where "(kw e, k) \<in> set documented_keywords"
      using in_force_keyword [OF lexed_seen [OF assms(1)] _ Some] by blast
    then obtain g where g: "(kw e, g) \<in> set signatures" "build_signature_help (kw e) (argc e) = Some (make_sig g (argc e))"
      using build_signature_some [OF documented_have_signatures] by blast
    have "make_sig g (argc e) = \<lparr> help_def = g,
           active_parameter = (if params g = [] then None else Some (min (argc e) (int (length (params g)) - 1))) \<rparr>"
      by (simp add: make_sig_def Let_def min_def)
    then show ?thesis
      using g by (auto simp: Some signature_at_def ac)
  qed (simp add: signature_at_def ac)
qed

text \<open>\<open>task t "T" { depends !a\<close>, with the cursor behind it.\<close>

definition ex_help_tokens :: "TokenSpan list" where
  "ex_help_tokens =
     [\<lparr> token_kind = KW_TASK, tok_start = LspPos 0 0, tok_end = LspPos 0 4, tok_text = Some ''task'' \<rparr>,
      \<lparr> token_kind = TK_IDENT, tok_start = LspPos 0 5, tok_end = LspPos 0 6, tok_text = Some ''t'' \<rparr>,
      \<lparr> token_kind = TK_STR, tok_start = LspPos 0 7, tok_end = LspPos 0 10, tok_text = Some ''T'' \<rparr>,
      \<lparr> token_kind = TK_LBRACE, tok_start = LspPos 0 11, tok_end = LspPos 0 12, tok_text = None \<rparr>,
      \<lparr> token_kind = 271, tok_start = LspPos 0 13, tok_end = LspPos 0 20, tok_text = Some ''depends'' \<rparr>,
      \<lparr> token_kind = TK_BANG, tok_start = LspPos 0 21, tok_end = LspPos 0 22, tok_text = None \<rparr>,
      \<lparr> token_kind = TK_IDENT, tok_start = LspPos 0 22, tok_end = LspPos 0 23, tok_text = Some ''a'' \<rparr>]"

lemma ex_help_facts:
  "list_all lexed ex_help_tokens" "nested_below 512 (seen_tokens ex_help_tokens (LspPos 0 23))"
  "keyword_in_force (LspPos 0 23) KW_DOCS_END False (seen_tokens ex_help_tokens (LspPos 0 23))
     (brace_depth_of (seen_tokens ex_help_tokens (LspPos 0 23))) =
     Some \<lparr> kw = ''depends'', kw_range = \<lparr> range_start = LspPos 0 13, range_end = LspPos 0 20 \<rparr>, depth = 1, argc = 0 \<rparr>"
  "keyword_in_force (LspPos 0 23) KW_SIG_END True (seen_tokens ex_help_tokens (LspPos 0 23))
     (brace_depth_of (seen_tokens ex_help_tokens (LspPos 0 23))) =
     Some \<lparr> kw = ''depends'', kw_range = \<lparr> range_start = LspPos 0 13, range_end = LspPos 0 20 \<rparr>, depth = 1, argc = 2 \<rparr>"
  by code_simp+

theorem keyword_help_complete_witness:
  "map_option hover_range (keyword_hover ex_help_tokens (LspPos 0 23)) =
     Some \<lparr> range_start = LspPos 0 13, range_end = LspPos 0 20 \<rparr> \<and>
   signature_at ex_help_tokens (LspPos 0 23) \<noteq> None"
  using keyword_help_complete [OF ex_help_facts(1,2)] unfolding ex_help_facts(3,4) by auto

end
