(* ===== verification/Completion.thy ===== *)
theory Completion
  imports Keyword_Stack Outline
begin

text \<open>
  Completion (\<open>src/src/completion.c\<close>, \<open>tj_node_find_path\<close> of \<open>document_symbol.c\<close>): the tests that
  suppress it in strings and scissors blocks, the cursor's statement and block, the keyword tables,
  and the identifiers offered for dependencies, resources and accounts.  Texts are read as C
  strings: the end of the list is the NUL.
\<close>

definition CIK_FUNCTION :: nat where "CIK_FUNCTION = 3"
definition CIK_VARIABLE :: nat where "CIK_VARIABLE = 6"
definition CIK_CLASS :: nat where "CIK_CLASS = 7"
definition CIK_KEYWORD :: nat where "CIK_KEYWORD = 14"
definition CIK_REFERENCE :: nat where "CIK_REFERENCE = 18"

fun istarts :: "string \<Rightarrow> string \<Rightarrow> bool" where
  "istarts s [] = True"
| "istarts [] (p # ps) = False"
| "istarts (c # cs) (p # ps) = (to_lower c = to_lower p \<and> istarts cs ps)"

subsection \<open>Cursor suppression\<close>

text \<open>Pointers into the text are offsets.\<close>

fun find_line_start :: "u32 \<Rightarrow> u32 \<Rightarrow> string \<Rightarrow> nat" where
  "find_line_start target_line ln [] = 0"
| "find_line_start target_line ln (c # cs) =
     (if ln < target_line then Suc (find_line_start target_line (if c = CHR 0x0A then ln + 1 else ln) cs) else 0)"

fun dquote_scan :: "u32 \<Rightarrow> u32 \<Rightarrow> bool \<Rightarrow> string \<Rightarrow> bool" where
  "dquote_scan limit col in_string [] = in_string"
| "dquote_scan limit col in_string (c # cs) =
     (if c = CHR 0x0A \<or> \<not> col < limit then in_string
      else if in_string then
        (if c = CHR 0x5C then
           (case cs of
              [] \<Rightarrow> dquote_scan limit (col + 1) True cs
            | e # es \<Rightarrow> if e = CHR 0x0A then dquote_scan limit (col + 1) True cs
                        else dquote_scan limit (col + 2) True es)
         else dquote_scan limit (col + 1) (c \<noteq> CHR 0x22) cs)
      else dquote_scan limit (col + 1) (c = CHR 0x22) cs)"

definition cursor_in_dquote :: "string \<Rightarrow> LspPos \<Rightarrow> TokenSpan list \<Rightarrow> bool" where
  "cursor_in_dquote text_bytes cursor tokens =
     (case tok_span_at tokens cursor of
        Some ts \<Rightarrow> if token_kind ts = TK_STR then True
                   else dquote_scan (character cursor) 0 False (drop (find_line_start (line cursor) 0 text_bytes) text_bytes)
      | None \<Rightarrow> dquote_scan (character cursor) 0 False (drop (find_line_start (line cursor) 0 text_bytes) text_bytes))"

text \<open>\<open>cursor_ptr\<close>: forward to the column, but not past the end of the line.\<close>

fun column_offset :: "u32 \<Rightarrow> u32 \<Rightarrow> string \<Rightarrow> nat" where
  "column_offset limit col [] = 0"
| "column_offset limit col (c # cs) =
     (if c = CHR 0x0A \<or> \<not> col < limit then 0 else Suc (column_offset limit (col + 1) cs))"

text \<open>The backward scan; \<open>n\<close> is the offset behind the byte it looks at.\<close>

fun scissors_back :: "string \<Rightarrow> nat \<Rightarrow> bool" where
  "scissors_back s 0 = False"
| "scissors_back s (Suc p) =
     (if p < 3 then False
      else let w = take 4 (drop (p - 3) s) in
        if w = ''->8-'' then False
        else if w = ''-8<-'' then True
        else scissors_back s p)"

definition cursor_in_scissors :: "string \<Rightarrow> LspPos \<Rightarrow> TokenSpan list \<Rightarrow> bool" where
  "cursor_in_scissors text_bytes cursor tokens =
     (case tok_span_at tokens cursor of
        Some ts \<Rightarrow> token_kind ts = TK_MULTI_LINE_STR
      | None \<Rightarrow>
          (let line_start = find_line_start (line cursor) 0 text_bytes in
           scissors_back text_bytes (line_start + column_offset (character cursor) 0 (drop line_start text_bytes))))"

subsection \<open>Token context\<close>

fun line_first_word :: "TokenSpan list \<Rightarrow> LspPos \<Rightarrow> string option" where
  "line_first_word [] cursor = None"
| "line_first_word (t # ts) cursor =
     (if token_kind t = TK_EOF then None
      else if is_comment_tok t then line_first_word ts cursor
      else if line (tok_start t) < line cursor then line_first_word ts cursor
      else if line cursor < line (tok_start t) then None
      else if token_kind t = TK_IDENT then tok_text t
      else None)"

fun at_statement_start :: "TokenSpan list \<Rightarrow> LspPos \<Rightarrow> bool" where
  "at_statement_start [] cursor = True"
| "at_statement_start (t # ts) cursor =
     (if token_kind t = TK_EOF then True
      else if is_comment_tok t then at_statement_start ts cursor
      else if line cursor < line (tok_start t) then True
      else if line (tok_start t) = line cursor \<and> character (tok_start t) < character cursor then False
      else at_statement_start ts cursor)"

definition partial_word :: "TokenSpan list \<Rightarrow> LspPos \<Rightarrow> string" where
  "partial_word tokens cursor =
     (case tok_span_at tokens cursor of
        Some span \<Rightarrow> if token_kind span = TK_IDENT then or_empty (tok_text span) else []
      | None \<Rightarrow> [])"

text \<open>The keywords of the nodes from the root to the innermost one around the cursor.\<close>

definition block_stack :: "tj_node \<Rightarrow> TokenSpan list \<Rightarrow> path option list option \<Rightarrow> LspPos \<Rightarrow> nat list" where
  "block_stack root tokens owners cursor =
     (case tj_node_at root tokens owners cursor of
        None \<Rightarrow> [] | Some p \<Rightarrow> map (\<lambda>n. keyword (info n)) (nodes_on root p))"

subsection \<open>Keyword tables\<close>

definition TOPLEVEL_KWS :: "(string \<times> string) list" where
  "TOPLEVEL_KWS =
    [(''project'', ''Project header (required once per file)''),
     (''task'', ''Work package, summary task, or milestone''),
     (''resource'', ''Person, team, or equipment''),
     (''account'', ''Cost/revenue account''),
     (''shift'', ''Named working-hours shift''),
     (''scenario'', ''Alternative scheduling scenario''),
     (''macro'', ''Reusable text macro''),
     (''include'', ''Include another .tjp/.tji file''),
     (''flags'', ''Declare flag identifiers''),
     (''supplement'', ''Add attributes to an existing declaration''),
     (''rate'', ''Default daily cost rate for all resources''),
     (''leaves'', ''Global leave block''),
     (''vacation'', ''Global vacation / unavailability period''),
     (''now'', ''Reference date for reports''),
     (''currency'', ''Currency symbol''),
     (''timeformat'', ''Date/time display format string''),
     (''timezone'', ''IANA timezone identifier''),
     (''workinghours'', ''Working hours definition''),
     (''timingresolution'', ''Scheduling granularity in minutes''),
     (''balance'', ''Profit/loss account pair''),
     (''extend'', ''Add custom attributes to a built-in type''),
     (''navigator'', ''Navigation bar for HTML reports''),
     (''taskreport'', ''Task-based report definition''),
     (''textreport'', ''HTML/text report definition''),
     (''resourcereport'', ''Resource-based report definition'')]"

definition TASK_KWS :: "(string \<times> string) list" where
  "TASK_KWS =
    [(''task'', ''Sub-task''),
     (''effort'', ''Work required, e.g. `effort 5d`''),
     (''duration'', ''Elapsed wall-clock duration''),
     (''length'', ''Duration in working time''),
     (''milestone'', ''Mark as a zero-duration milestone''),
     (''scheduled'', ''Task has fixed pre-computed dates''),
     (''depends'', ''Finish-to-start dependency on task id(s)''),
     (''precedes'', ''Reverse dependency: listed tasks start after this one''),
     (''allocate'', ''Assign resource(s) to this task''),
     (''start'', ''Hard start date constraint (YYYY-MM-DD)''),
     (''end'', ''Hard end date constraint (YYYY-MM-DD)''),
     (''maxstart'', ''Maximum desired start date''),
     (''minstart'', ''Minimum desired start date''),
     (''maxend'', ''Maximum desired end date''),
     (''minend'', ''Minimum desired end date''),
     (''priority'', ''Scheduling priority 1-1000 (default 500)''),
     (''complete'', ''Completion percentage 0-100''),
     (''note'', ''Attach a text note''),
     (''responsible'', ''Resource(s) accountable for this task''),
     (''booking'', ''Record actual work performed''),
     (''charge'', ''Charge amount to an account''),
     (''chargeset'', ''Account to book labor costs to''),
     (''purge'', ''Remove an inherited attribute value''),
     (''journalentry'', ''Status / journal entry''),
     (''flags'', ''Assign flags to this task''),
     (''supplement'', ''Add attributes to an existing task''),
     (''limits'', ''Effort or allocation limits (dailymax, weeklymax, ...)''),
     (''statusnote'', ''Status note for dashboards'')]"

definition RESOURCE_KWS :: "(string \<times> string) list" where
  "RESOURCE_KWS =
    [(''resource'', ''Sub-resource''),
     (''rate'', ''Daily cost rate''),
     (''efficiency'', ''Work output multiplier (default 1.0)''),
     (''vacation'', ''Vacation / unavailability period''),
     (''leaves'', ''Leave block by type''),
     (''workinghours'', ''Working hours override for this resource''),
     (''limits'', ''Working limits (dailymax, weeklymax, ...)''),
     (''flags'', ''Assign flags''),
     (''managers'', ''Manager resource(s)''),
     (''booking'', ''Record actual work performed''),
     (''journalentry'', ''Journal entry''),
     (''supplement'', ''Add attributes to an existing resource''),
     (''shift'', ''Apply a working-hours shift'')]"

definition PROJECT_KWS :: "(string \<times> string) list" where
  "PROJECT_KWS =
    [(''scenario'', ''Define a scheduling scenario''),
     (''extend'', ''Add custom attributes to a built-in type''),
     (''timezone'', ''IANA timezone identifier''),
     (''timeformat'', ''Date/time display format string''),
     (''now'', ''Reference date for reports''),
     (''currency'', ''Currency symbol''),
     (''workinghours'', ''Default working hours''),
     (''timingresolution'', ''Scheduling granularity in minutes''),
     (''dailyworkinghours'', ''Hours per working day''),
     (''weeklyworkinghours'', ''Hours per working week''),
     (''balance'', ''Profit/loss account pair''),
     (''outputdir'', ''Output directory for generated reports'')]"

definition ACCOUNT_KWS :: "(string \<times> string) list" where
  "ACCOUNT_KWS =
    [(''account'', ''Sub-account''),
     (''credit'', ''Credit transaction''),
     (''debit'', ''Debit transaction'')]"

fun kws_from_innermost :: "nat list \<Rightarrow> (string \<times> string) list" where
  "kws_from_innermost [] = TOPLEVEL_KWS"
| "kws_from_innermost (k # ks) =
     (if k = KW_TASK then TASK_KWS
      else if k = KW_RESOURCE then RESOURCE_KWS
      else if k = KW_PROJECT then PROJECT_KWS
      else if k = KW_ACCOUNT then ACCOUNT_KWS
      else if k = KW_LIMITS \<or> k = KW_JOURNALENTRY \<or> k = KW_SUPPLEMENT \<or> k = KW_EXTEND \<or> k = KW_SCENARIO \<or>
              k = KW_NAVIGATOR \<or> k = KW_TASKREPORT \<or> k = KW_TEXTREPORT \<or> k = KW_RESOURCEREPORT \<or> k = KW_SHIFT
      then kws_from_innermost ks
      else TOPLEVEL_KWS)"

definition kws_for_stack :: "nat list \<Rightarrow> (string \<times> string) list" where
  "kws_for_stack stack = kws_from_innermost (rev stack)"

subsection \<open>Identifiers\<close>

fun collect_ids :: "nat \<Rightarrow> string \<Rightarrow> tj_node list \<Rightarrow> (string \<times> string) list" where
  "collect_ids kind pre [] = []"
| "collect_ids kind pre (TjNode i cs # ns) =
     (if keyword i = kind \<and> or_empty (node_id i) \<noteq> []
      then let qualified_id = (if pre = [] then or_empty (node_id i) else pre @ ''.'' @ or_empty (node_id i)) in
        (qualified_id, or_empty (node_name i)) # collect_ids kind qualified_id cs
      else collect_ids kind pre cs) @ collect_ids kind pre ns"

text \<open>The children below a path of task ids; a missing path is the empty list, as an empty
  children array is NULL.\<close>

fun tj_node_find_path :: "tj_node list \<Rightarrow> string list \<Rightarrow> tj_node list" where
  "tj_node_find_path syms [] = syms"
| "tj_node_find_path [] (s # path) = []"
| "tj_node_find_path (TjNode i cs # ns) (s # path) =
     (if keyword i = KW_TASK \<and> node_id i = Some s then tj_node_find_path cs path
      else if keyword i = KW_PROJECT \<and> tj_node_find_path cs (s # path) \<noteq> [] then tj_node_find_path cs (s # path)
      else tj_node_find_path ns (s # path))"

definition current_task_scope :: "tj_node \<Rightarrow> TokenSpan list \<Rightarrow> path option list option \<Rightarrow> LspPos \<Rightarrow> string list" where
  "current_task_scope root tokens owners cursor =
     (case tj_node_at root tokens owners cursor of
        None \<Rightarrow> []
      | Some p \<Rightarrow> map id_of (filter (\<lambda>n. keyword (info n) = KW_TASK \<and> id_of n \<noteq> []) (nodes_on root p)))"

text \<open>Bangs from the last token backwards, comments skipped, with the earliest one's position.\<close>

fun count_bangs_back :: "TokenSpan list \<Rightarrow> nat \<Rightarrow> LspPos \<Rightarrow> nat \<times> LspPos" where
  "count_bangs_back [] n first = (n, first)"
| "count_bangs_back (t # ts) n first =
     (if is_comment_tok t then count_bangs_back ts n first
      else if token_kind t \<noteq> TK_BANG then (n, first)
      else count_bangs_back ts (n + 1) (tok_start t))"

definition count_leading_bangs :: "TokenSpan list \<Rightarrow> LspPos \<Rightarrow> nat \<times> LspPos" where
  "count_leading_bangs tokens cursor =
     (let before = takeWhile (\<lambda>t. token_kind t \<noteq> TK_EOF \<and> \<not> pos_cmp cursor (tok_start t) < 0) tokens;
          back = dropWhile is_comment_tok (rev before);
          back = (if back \<noteq> [] \<and> token_kind (hd back) = TK_IDENT then tl back else back) in
      count_bangs_back back 0 zero_pos)"

definition completion_kind_for :: "nat \<Rightarrow> nat" where
  "completion_kind_for k =
     (if k = KW_TASK then CIK_FUNCTION else if k = KW_RESOURCE then CIK_CLASS
      else if k = KW_ACCOUNT then CIK_VARIABLE else CIK_REFERENCE)"

definition is_decl_keyword :: "string option \<Rightarrow> bool" where
  "is_decl_keyword fw =
     (fw \<in> Some ` set [''project'', ''task'', ''resource'', ''account'', ''shift'', ''scenario'', ''macro'', ''include'', ''supplement''])"

definition id_kind_for_keyword :: "string option \<Rightarrow> nat" where
  "id_kind_for_keyword word =
     (if word = Some ''depends'' \<or> word = Some ''precedes'' then KW_TASK
      else if word = Some ''allocate'' \<or> word = Some ''responsible'' \<or> word = Some ''managers'' then KW_RESOURCE
      else if word = Some ''chargeset'' \<or> word = Some ''balance'' then KW_ACCOUNT
      else 0)"

definition collect_all_ids :: "tj_node list \<Rightarrow> tj_node list list \<Rightarrow> nat \<Rightarrow> (string \<times> string) list" where
  "collect_all_ids symbols extra_pools kind =
     collect_ids kind [] symbols @ concat (map (collect_ids kind []) extra_pools)"

subsection \<open>Completion items\<close>

record completion_item =
  item_label :: string
  item_kind :: nat
  item_detail :: string
  item_sort :: string
  item_edit :: "(LspRange \<times> string) option"

text \<open>An item; a label that does not fit its 1024 bytes falls back to the plain id.\<close>

definition emit_id_item :: "string \<Rightarrow> string \<Rightarrow> nat \<Rightarrow> string \<Rightarrow> LspPos \<Rightarrow> LspPos \<Rightarrow> completion_item" where
  "emit_id_item i name kind bang_prefix first_bang_pos cursor =
     (let item = \<lparr> item_label = i, item_kind = completion_kind_for kind, item_detail = name,
                   item_sort = ''0'', item_edit = None \<rparr> in
      if bang_prefix = [] \<or> 1024 < length bang_prefix + length i + 1 then item
      else item \<lparr> item_label := bang_prefix @ i,
                  item_edit := Some (\<lparr> range_start = first_bang_pos, range_end = cursor \<rparr>, bang_prefix @ i) \<rparr>)"

text \<open>The result of a request: JSON null, a list, or the undefined behaviour of more bangs than
  the 64-byte \<open>bang_prefix\<close> holds.\<close>

datatype completions = Bang_Overflow | No_Completions | Completion_List (is_incomplete: bool) (items: "completion_item list")

definition completion_list :: "bool \<Rightarrow> completion_item list \<Rightarrow> completions" where
  "completion_list incomplete xs = (if xs = [] then No_Completions else Completion_List incomplete xs)"

definition bang_scope_ids :: "tj_node list \<Rightarrow> string list \<Rightarrow> nat \<Rightarrow> nat \<Rightarrow> (string \<times> string) list" where
  "bang_scope_ids symbols scope bangs kind =
     (if bangs \<le> length scope then collect_ids kind [] (tj_node_find_path symbols (take (length scope - bangs) scope))
      else [])"

definition build_dep_completions ::
  "tj_node \<Rightarrow> TokenSpan list \<Rightarrow> path option list option \<Rightarrow> LspPos \<Rightarrow> tj_node list \<Rightarrow> tj_node list list \<Rightarrow> nat \<Rightarrow> completions" where
  "build_dep_completions root tokens owners cursor symbols extra_pools kind =
     (case count_leading_bangs tokens cursor of
        (bangs, first_bang_pos) \<Rightarrow>
          if 64 \<le> bangs then Bang_Overflow
          else let ids = (if bangs = 0 then collect_all_ids symbols extra_pools kind
                          else bang_scope_ids symbols (current_task_scope root tokens owners cursor) bangs kind) in
            completion_list (0 < bangs)
              (map (\<lambda>(i, name). emit_id_item i name kind (replicate bangs (CHR ''!'')) first_bang_pos cursor) ids))"

definition build_id_completions ::
  "tj_node \<Rightarrow> TokenSpan list \<Rightarrow> path option list option \<Rightarrow> LspPos \<Rightarrow> tj_node list \<Rightarrow> tj_node list list \<Rightarrow> nat \<Rightarrow> completions" where
  "build_id_completions root tokens owners cursor symbols extra_pools kind =
     (if kind = KW_TASK then build_dep_completions root tokens owners cursor symbols extra_pools kind
      else completion_list False
             (map (\<lambda>(i, name). emit_id_item i name kind [] zero_pos zero_pos) (collect_all_ids symbols extra_pools kind)))"

definition build_keyword_completions :: "TokenSpan list \<Rightarrow> LspPos \<Rightarrow> string \<Rightarrow> nat list \<Rightarrow> completions" where
  "build_keyword_completions tokens cursor partial stack =
     (if partial = [] \<and> \<not> at_statement_start tokens cursor then No_Completions
      else completion_list False
             (map (\<lambda>(k, docs). \<lparr> item_label = k, item_kind = CIK_KEYWORD, item_detail = docs, item_sort = ''1'', item_edit = None \<rparr>)
                (filter (\<lambda>(k, docs). partial = [] \<or> istarts k partial) (kws_for_stack stack))))"

definition build_completions ::
  "tj_node \<Rightarrow> TokenSpan list \<Rightarrow> path option list option \<Rightarrow> LspPos \<Rightarrow> tj_node list \<Rightarrow> tj_node list list \<Rightarrow> string \<Rightarrow> completions" where
  "build_completions root tokens owners cursor symbols extra_pools text_bytes =
     (if cursor_in_dquote text_bytes cursor tokens \<or> cursor_in_scissors text_bytes cursor tokens then No_Completions
      else let stack = block_stack root tokens owners cursor;
               partial = partial_word tokens cursor;
               first_word = line_first_word tokens cursor in
        if is_decl_keyword first_word then No_Completions
        else let id_kind = (if first_word = None \<or> partial = [] \<or> first_word \<noteq> Some partial
                            then id_kind_for_keyword (map_option fst (active_context tokens cursor)) else 0) in
          if id_kind \<noteq> 0 then build_id_completions root tokens owners cursor symbols extra_pools id_kind
          else build_keyword_completions tokens cursor partial stack)"

definition collect_sibling_pools :: "query_context \<Rightarrow> tj_node list list" where
  "collect_sibling_pools qc =
     take MAX_DOCS (filter (\<lambda>ns. ns \<noteq> []) (map (\<lambda>d. doc_symbol_pool (Some d)) (filter (\<lambda>d. \<not> is_primary d) (qc_docs qc))))"

definition handle_completion :: "query_context \<Rightarrow> query_doc option \<Rightarrow> LspPos option \<Rightarrow> completions" where
  "handle_completion qc d position =
     (case (position, d) of
        (Some pos, Some doc) \<Rightarrow>
          build_completions (snap_root (qd_snap doc)) (snap_tok_spans (qd_snap doc)) (Some (snap_tok_owners (qd_snap doc)))
            pos (doc_symbol_pool d) (collect_sibling_pools qc) (snap_text (qd_snap doc))
      | _ \<Rightarrow> No_Completions)"

subsection \<open>Tasks and the ids collected for them\<close>

text \<open>Tasks have ids without dots and stand below tasks only.\<close>

fun no_tasks :: "tj_node \<Rightarrow> bool" where
  "no_tasks (TjNode i cs) = (keyword i \<noteq> KW_TASK \<and> list_all no_tasks cs)"

fun tasks_named :: "tj_node \<Rightarrow> bool" where
  "tasks_named (TjNode i cs) =
     (if keyword i = KW_TASK then task_id_ok (TjNode i cs) \<and> list_all tasks_named cs else list_all no_tasks cs)"

definition dotted_below :: "string \<Rightarrow> string list \<Rightarrow> string" where
  "dotted_below pre ids = (if pre = [] then join_with (CHR ''.'') ids else pre @ CHR ''.'' # join_with (CHR ''.'') ids)"

lemma dotted_below_Cons:
  "i \<noteq> [] \<Longrightarrow> ids \<noteq> [] \<Longrightarrow> dotted_below pre (i # ids) = dotted_below (dotted_below pre [i]) ids"
  by (cases ids) (auto simp: dotted_below_def)

lemma id_of_or_empty: "id_of (TjNode i cs) = or_empty (node_id i)"
  by (simp add: id_of_def or_empty_def)

lemma collect_no_tasks: "list_all no_tasks ns \<Longrightarrow> collect_ids KW_TASK pre ns = []"
  by (induction KW_TASK pre ns rule: collect_ids.induct) auto

lemma no_tasks_at: "no_tasks n \<Longrightarrow> node_at n r = Some m \<Longrightarrow> no_tasks m"
proof (induction n r rule: node_at.induct)
  case (2 n i p)
  then show ?case
    by (cases n) (auto simp: list_all_length split: if_splits)
qed simp

text \<open>A task below a forest, with its path and its qualified id.\<close>

definition named_below :: "tj_node list \<Rightarrow> string \<Rightarrow> string \<Rightarrow> string \<Rightarrow> nat \<Rightarrow> path \<Rightarrow> bool" where
  "named_below ns pre s name k r =
     (k < length ns \<and> list_all task_id_ok (nodes_on (ns ! k) r) \<and>
      (case node_at (ns ! k) r of None \<Rightarrow> False | Some m \<Rightarrow> name = or_empty (node_name (info m))) \<and>
      s = dotted_below pre (map id_of (nodes_on (ns ! k) r)))"

lemma named_below_Nil: "\<not> named_below [] pre s name k r"
  by (simp add: named_below_def)

lemma named_below_Suc: "named_below (n # ns) pre s name (Suc k) r = named_below ns pre s name k r"
  by (simp add: named_below_def)

lemma named_below_here:
  "named_below (TjNode i cs # ns) pre s name 0 [] \<longleftrightarrow>
     task_id_ok (TjNode i cs) \<and> name = or_empty (node_name i) \<and> s = dotted_below pre [or_empty (node_id i)]"
  by (auto simp: named_below_def id_of_or_empty)

lemma named_below_child:
  "named_below (TjNode i cs # ns) pre s name 0 (j # r) \<longleftrightarrow>
     task_id_ok (TjNode i cs) \<and> named_below cs (dotted_below pre [or_empty (node_id i)]) s name j r"
proof -
  have ne: "nodes_on c r \<noteq> []" for c
    by (cases r) simp_all
  have "task_id_ok (TjNode i cs) \<Longrightarrow> or_empty (node_id i) \<noteq> []"
    by (auto simp: task_id_ok_def id_of_or_empty)
  then show ?thesis
    using ne by (auto simp: named_below_def id_of_or_empty dotted_below_Cons)
qed

lemma collect_ids_iff:
  "list_all tasks_named ns \<Longrightarrow>
     (s, name) \<in> set (collect_ids KW_TASK pre ns) \<longleftrightarrow> (\<exists>k r. named_below ns pre s name k r)"
proof (induction KW_TASK pre ns rule: collect_ids.induct)
  case (1 pre)
  show ?case
    by (simp add: named_below_Nil)
next
  case (2 pre i cs ns)
  let ?q = "dotted_below pre [or_empty (node_id i)]"
  have tl: "list_all tasks_named ns"
    using "2.prems" by simp
  have split: "(\<exists>k r. named_below (TjNode i cs # ns) pre s name k r) \<longleftrightarrow>
      (task_id_ok (TjNode i cs) \<and> (name = or_empty (node_name i) \<and> s = ?q \<or> (\<exists>j r. named_below cs ?q s name j r))) \<or>
      (\<exists>k r. named_below ns pre s name k r)"
    (is "?L \<longleftrightarrow> ?R")
  proof
    assume ?L
    then obtain k r where kr: "named_below (TjNode i cs # ns) pre s name k r"
      by blast
    show ?R
    proof (cases k)
      case 0
      then show ?thesis
        using kr by (cases r) (auto simp: named_below_here named_below_child)
    next
      case (Suc k')
      then show ?thesis
        using kr by (auto simp: named_below_Suc)
    qed
  next
    assume ?R
    then consider "named_below (TjNode i cs # ns) pre s name 0 []"
      | j r where "named_below (TjNode i cs # ns) pre s name 0 (j # r)"
      | k r where "named_below (TjNode i cs # ns) pre s name (Suc k) r"
      by (auto simp: named_below_here named_below_child named_below_Suc)
    then show ?L
      by cases blast+
  qed
  show ?case
  proof (cases "keyword i = KW_TASK")
    case True
    then have ok: "task_id_ok (TjNode i cs)" "list_all tasks_named cs"
      using "2.prems" by simp_all
    then have ne: "or_empty (node_id i) \<noteq> []"
      by (auto simp: task_id_ok_def id_of_or_empty)
    have q: "(if pre = [] then or_empty (node_id i) else pre @ ''.'' @ or_empty (node_id i)) = ?q"
      by (simp add: dotted_below_def)
    have "collect_ids KW_TASK pre (TjNode i cs # ns) =
        (?q, or_empty (node_name i)) # collect_ids KW_TASK ?q cs @ collect_ids KW_TASK pre ns"
      unfolding collect_ids.simps q Let_def using True ne by simp
    moreover have "(s, name) \<in> set (collect_ids KW_TASK ?q cs) \<longleftrightarrow> (\<exists>j r. named_below cs ?q s name j r)"
      using "2.hyps"(1) [OF _ q [symmetric] ok(2)] True ne by simp
    ultimately show ?thesis
      unfolding split using "2.hyps"(3) [OF tl] ok(1) by auto
  next
    case False
    then have "collect_ids KW_TASK pre cs = []"
      using "2.prems" by (intro collect_no_tasks) simp
    moreover have "\<not> task_id_ok (TjNode i cs)"
      using False by (simp add: task_id_ok_def)
    ultimately show ?thesis
      unfolding split using "2.hyps"(3) [OF tl] False by simp
  qed
qed

subsection \<open>The scope of a bang run\<close>

lemma find_path_misses:
  "(\<And>n. n \<in> set ns \<Longrightarrow> keyword (info n) \<noteq> KW_TASK \<and> tj_node_find_path (children n) (s # path) = []) \<Longrightarrow>
     tj_node_find_path ns (s # path) = []"
proof (induction ns)
  case (Cons n ns)
  obtain i cs where n: "n = TjNode i cs"
    by (cases n)
  have "keyword i \<noteq> KW_TASK" "tj_node_find_path cs (s # path) = []"
    using Cons.prems [of n] by (simp_all add: n)
  moreover have "tj_node_find_path ns (s # path) = []"
    using Cons.IH Cons.prems by simp
  ultimately show ?case
    by (simp add: n)
qed simp

lemma find_path_no_tasks_below: "no_tasks n \<Longrightarrow> tj_node_find_path (children n) (s # path) = []"
proof (induction n)
  case (TjNode i cs)
  have "keyword (info c) \<noteq> KW_TASK" if "c \<in> set cs" for c
    using TjNode.prems that by (cases c) (auto simp: list_all_iff)
  moreover have "tj_node_find_path (children c) (s # path) = []" if "c \<in> set cs" for c
    using TjNode.IH [OF that] TjNode.prems that by (simp add: list_all_iff)
  ultimately show ?case
    using find_path_misses [of cs s path] by simp
qed

lemma find_path_no_tasks: "list_all no_tasks ns \<Longrightarrow> tj_node_find_path ns (s # path) = []"
proof (rule find_path_misses)
  fix n
  assume "list_all no_tasks ns" "n \<in> set ns"
  then have "no_tasks n"
    by (simp add: list_all_iff)
  then show "keyword (info n) \<noteq> KW_TASK \<and> tj_node_find_path (children n) (s # path) = []"
    using find_path_no_tasks_below [of n s path] by (cases n) simp
qed

lemma tasks_named_siblings: "tasks_named n \<Longrightarrow> keyword (info n) = KW_TASK \<Longrightarrow> list_all tasks_named (children n)"
  by (cases n) simp

text \<open>The descent by ids in the document is the descent in its copy.\<close>

fun first_task :: "tj_node list \<Rightarrow> string \<Rightarrow> nat option" where
  "first_task [] s = None"
| "first_task (n # ns) s =
     (if keyword (info n) = KW_TASK \<and> node_id (info n) = Some s then Some 0 else map_option Suc (first_task ns s))"

lemma find_path_first:
  "list_all tasks_named ns \<Longrightarrow> tj_node_find_path ns (s # path) =
     (case first_task ns s of None \<Rightarrow> [] | Some j \<Rightarrow> tj_node_find_path (children (ns ! j)) path)"
proof (induction ns)
  case (Cons n ns)
  obtain i cs where n: "n = TjNode i cs"
    by (cases n)
  show ?case
  proof (cases "keyword i = KW_TASK \<and> node_id i = Some s")
    case True
    then show ?thesis
      by (simp add: n)
  next
    case False
    have "keyword i = KW_PROJECT \<Longrightarrow> tj_node_find_path cs (s # path) = []"
      using Cons.prems by (intro find_path_no_tasks) (simp add: n tok_simps)
    then have "tj_node_find_path (n # ns) (s # path) = tj_node_find_path ns (s # path)"
      using False by (auto simp: n)
    then show ?thesis
      using Cons False by (auto simp: n split: option.split)
  qed
qed simp

lemma first_task_unique:
  assumes "distinct (task_ids (map (\<lambda>c. project_node_from_tj c u) ns))" and "i < length ns"
    and "keyword (info (ns ! i)) = KW_TASK" and "node_id (info (ns ! i)) = Some s"
  shows "first_task ns s = Some i"
proof -
  have hit: "is_task s (map (\<lambda>c. project_node_from_tj c u) ns ! j)"
    if "j < length ns" "keyword (info (ns ! j)) = KW_TASK" "node_id (info (ns ! j)) = Some s" for j
    using that by (simp add: is_task_def from_tj_fields)
  have sound: "first_task ms s = Some j \<Longrightarrow>
      j < length ms \<and> keyword (info (ms ! j)) = KW_TASK \<and> node_id (info (ms ! j)) = Some s" for ms j
    by (induction ms arbitrary: j) (auto split: if_splits)
  have "first_task ms s = None \<Longrightarrow> j < length ms \<Longrightarrow> keyword (info (ms ! j)) = KW_TASK \<Longrightarrow>
      node_id (info (ms ! j)) \<noteq> Some s" for ms j
  proof (induction ms arbitrary: j)
    case (Cons m ms)
    then show ?case
      by (cases j) (auto split: if_splits)
  qed simp
  then obtain j where j: "first_task ns s = Some j"
    using assms(2-4) by blast
  have "j = i"
    using distinct_task_index [OF assms(1), of j i s] sound [OF j] hit assms(2-4) by simp
  then show ?thesis
    using j by simp
qed

lemma from_tj_children: "pchildren (project_node_from_tj n u) = map (\<lambda>c. project_node_from_tj c u) (children n)"
  by (cases n) simp

lemma id_of_task: "task_id_ok n \<Longrightarrow> node_id (info n) = Some (id_of n) \<and> keyword (info n) = KW_TASK"
  by (auto simp: task_id_ok_def id_of_def split: option.splits)

text \<open>Following the ids of a chain of tasks leads to the children of its last one.\<close>

lemma find_path_chain:
  assumes "node_at n q = Some m" and "list_all task_id_ok (nodes_on n q)" and "tasks_named n"
    and "unique_tasks (project_node_from_tj n u)" and "k \<le> length q"
  shows "tj_node_find_path (children n) (map id_of (take k (tl (nodes_on n q)))) =
    (case node_at n (take k q) of None \<Rightarrow> [] | Some a \<Rightarrow> children a)"
  using assms
proof (induction k arbitrary: n q)
  case (Suc k)
  then obtain j r where q: "q = j # r"
    by (cases q) auto
  let ?c = "children n ! j"
  have j: "j < length (children n)" "node_at ?c r = Some m"
    using Suc.prems(1) by (auto simp: q split: if_splits)
  have ok: "list_all task_id_ok (nodes_on ?c r)"
    using Suc.prems(2) j by (simp add: q)
  have sib: "list_all tasks_named (children n)"
    using Suc.prems(2,3) by (intro tasks_named_siblings) (auto simp: q dest: id_of_task)
  have hd: "nodes_on ?c r = ?c # tl (nodes_on ?c r)"
    by (cases r) simp_all
  have "task_id_ok ?c"
    using ok by (subst (asm) hd) simp
  then have c: "node_id (info ?c) = Some (id_of ?c)" "keyword (info ?c) = KW_TASK"
    using id_of_task by blast+
  have "distinct (task_ids (map (\<lambda>c. project_node_from_tj c u) (children n)))"
    using unique_siblings [OF Suc.prems(4)] by (simp add: from_tj_children)
  then have f: "first_task (children n) (id_of ?c) = Some j"
    using first_task_unique [OF _ j(1) c(2,1)] by blast
  have uc: "unique_tasks (project_node_from_tj ?c u)"
    using unique_child [OF Suc.prems(4), of j] j(1) by (simp add: from_tj_children)
  have "take (Suc k) (tl (nodes_on n q)) = ?c # take k (tl (nodes_on ?c r))"
    using j(1) hd by (simp add: q) (metis take_Suc_Cons)
  then have "tj_node_find_path (children n) (map id_of (take (Suc k) (tl (nodes_on n q)))) =
      tj_node_find_path (children ?c) (map id_of (take k (tl (nodes_on ?c r))))"
    by (simp add: find_path_first [OF sib] f)
  also have "\<dots> = (case node_at ?c (take k r) of None \<Rightarrow> [] | Some a \<Rightarrow> children a)"
    using Suc.IH [OF j(2) ok _ uc] sib j(1) Suc.prems(5) by (simp add: q list_all_length)
  finally show ?case
    using j(1) by (simp add: q)
qed simp

lemma length_nodes_at: "node_at n q = Some m \<Longrightarrow> length (nodes_on n q) = Suc (length q)"
  by (induction n q rule: node_at.induct) (auto split: if_splits)

lemma node_at_take: "node_at n q = Some m \<Longrightarrow> \<exists>a. node_at n (take k q) = Some a"
proof (induction k arbitrary: n q)
  case (Suc k)
  then show ?case
    by (cases q) (auto split: if_splits)
qed simp

lemma nodes_on_take: "node_at n q = Some m \<Longrightarrow> nodes_on n (take k q) = take (Suc k) (nodes_on n q)"
proof (induction k arbitrary: n q)
  case 0
  then show ?case by (cases q) simp_all
next
  case (Suc k)
  then show ?case
    by (cases q) (auto split: if_splits)
qed

lemma tasks_named_along:
  "node_at n q = Some m \<Longrightarrow> list_all task_id_ok (nodes_on n q) \<Longrightarrow> tasks_named n \<Longrightarrow>
     tasks_named m \<and> keyword (info m) = KW_TASK"
proof (induction n q rule: node_at.induct)
  case (1 n)
  then show ?case
    using id_of_task [of n] by simp
next
  case (2 n j r)
  then have j: "j < length (children n)" "node_at (children n ! j) r = Some m"
    by (auto split: if_splits)
  have "task_id_ok n"
    using 2(3) by simp
  then have "tasks_named (children n ! j)"
    using tasks_named_siblings [OF 2(4)] id_of_task [of n] j(1) by (auto simp: list_all_length)
  then show ?case
    using 2(1) [OF j] 2(3) j(1) by simp
qed

lemma task_chain_named:
  "tasks_named n \<Longrightarrow> node_at n r = Some m \<Longrightarrow> keyword (info m) = KW_TASK \<Longrightarrow> list_all task_id_ok (nodes_on n r)"
proof (induction n r rule: node_at.induct)
  case (1 n)
  then show ?case by (cases n) auto
next
  case (2 n j r)
  then have j: "j < length (children n)" "node_at (children n ! j) r = Some m"
    by (auto split: if_splits)
  show ?case
  proof (cases "keyword (info n) = KW_TASK")
    case True
    then have "task_id_ok n" "tasks_named (children n ! j)"
      using 2(2) tasks_named_siblings [OF 2(2) True] j(1) by (cases n, simp, simp add: list_all_length)
    then show ?thesis
      using 2(1) [OF j(1)] 2(4) j by simp
  next
    case False
    then have "no_tasks n"
      using 2(2) by (cases n) simp
    then have "no_tasks m"
      using no_tasks_at 2(3) by blast
    then show ?thesis
      using 2(4) by (cases m) simp
  qed
qed

text \<open>The ids below a node are those of the tasks under it.\<close>

lemma collected_below:
  assumes "list_all tasks_named (children a)"
  shows "(s, name) \<in> set (collect_ids KW_TASK [] (children a)) \<longleftrightarrow>
    (\<exists>j r m. node_at a (j # r) = Some m \<and> keyword (info m) = KW_TASK \<and> name = or_empty (node_name (info m)) \<and>
       s = join_with (CHR ''.'') (map id_of (nodes_on (children a ! j) r)))"
  (is "_ \<longleftrightarrow> ?R")
proof
  assume "(s, name) \<in> set (collect_ids KW_TASK [] (children a))"
  then obtain j r where "named_below (children a) [] s name j r"
    using collect_ids_iff [OF assms] by blast
  then have j: "j < length (children a)" "list_all task_id_ok (nodes_on (children a ! j) r)"
    "case node_at (children a ! j) r of None \<Rightarrow> False | Some m \<Rightarrow> name = or_empty (node_name (info m))"
    "s = join_with (CHR ''.'') (map id_of (nodes_on (children a ! j) r))"
    by (simp_all add: named_below_def dotted_below_def)
  then obtain m where m: "node_at (children a ! j) r = Some m" "name = or_empty (node_name (info m))"
    by (auto split: option.splits)
  have "keyword (info m) = KW_TASK"
    using tasks_named_along [OF m(1) j(2)] assms j(1) by (simp add: list_all_length)
  then show ?R
    using j m by (intro exI [of _ j] exI [of _ r] exI [of _ m]) simp
next
  assume ?R
  then obtain j r m where h: "node_at a (j # r) = Some m" "keyword (info m) = KW_TASK"
    "name = or_empty (node_name (info m))" "s = join_with (CHR ''.'') (map id_of (nodes_on (children a ! j) r))"
    by blast
  then have j: "j < length (children a)" "node_at (children a ! j) r = Some m"
    by (auto split: if_splits)
  then have "list_all task_id_ok (nodes_on (children a ! j) r)"
    using task_chain_named [OF _ j(2) h(2)] assms by (simp add: list_all_length)
  then have "named_below (children a) [] s name j r"
    using h j by (simp add: named_below_def dotted_below_def)
  then show "(s, name) \<in> set (collect_ids KW_TASK [] (children a))"
    using collect_ids_iff [OF assms] by blast
qed

text \<open>A reference with \<open>b\<close> bangs and the id of a task below that ancestor resolves to its copy.\<close>

lemma bang_reference_resolves:
  assumes doc: "node_at c q = Some n" "list_all task_id_ok (nodes_on c q)" "tasks_named c"
    and tree: "tree_ok root" "pnode_at root (tp @ [k]) = Some (project_node_from_tj c u)"
    and b: "1 \<le> b" "b \<le> length q" "node_at c (take (length q - b) q) = Some a"
    and m: "node_at a (j # r) = Some m" "keyword (info m) = KW_TASK"
  shows "resolve_dependency root (tp @ k # q)
    \<lparr> dep_kind = dk, bang_count = b, dep_path = join_with (CHR ''.'') (map id_of (nodes_on (children a ! j) r)),
      source_range = rng \<rparr> = Some (tp @ k # take (length q - b) q @ j # r)"
proof -
  let ?ids = "map id_of (nodes_on (children a ! j) r)"
  let ?q = "take (length q - b) q"
  have pn: "pnode_at root (tp @ k # q') = pnode_at (project_node_from_tj c u) q'" for q'
    using tree(2) pnode_at_append [of root "tp @ [k]" q'] by simp
  have own: "pnode_at root (tp @ k # q) = Some (project_node_from_tj n u)"
    and base: "pnode_at root (tp @ k # ?q) = Some (project_node_from_tj a u)"
    using pn doc(1) b(3) by (simp_all add: pnode_at_from_tj)
  have j: "j < length (children a)" "node_at (children a ! j) r = Some m"
    using m(1) by (auto split: if_splits)
  have "list_all task_id_ok (nodes_on c ?q)"
    using doc(1,2) by (simp add: nodes_on_take list_all_length)
  then have a: "tasks_named a" "keyword (info a) = KW_TASK"
    using tasks_named_along [OF b(3) _ doc(3)] by auto
  then have "tasks_named (children a ! j)"
    using tasks_named_siblings j(1) by (simp add: list_all_length)
  then have ok: "list_all task_id_ok (nodes_on (children a ! j) r)"
    using task_chain_named j(2) m(2) by blast
  have segs: "split_dotted_path (join_with (CHR ''.'') ?ids) = ?ids"
    unfolding split_dotted_path_def using ok by (intro strtok_all_join_with) (auto simp: task_id_ok_def list_all_iff)
  have "nodes_on (children a ! j) r \<noteq> []"
    using nodes_on_last [OF j(2)] by simp
  moreover have "dep_base (tp @ k # q) b = Some (tp @ k # ?q)"
    using b(1,2) by (simp add: dep_base_def take_Cons' Suc_diff_le)
  moreover have "task_chain (project_node_from_tj a u) ?ids (j # r)"
    using task_chain_from_tj [OF j(2) ok, of j "project_node_from_tj a u" u] j(1) by (simp add: from_tj_children)
  ultimately show ?thesis
    unfolding resolve_dependency_iff [OF tree(1) own] dep_target_def using base segs by auto
qed

lemma scope_of_tasks:
  assumes "tj_node_at doc tokens owners cursor = Some (i # q)" and "keyword (info doc) \<noteq> KW_TASK"
    and "i < length (children doc)" and "list_all task_id_ok (nodes_on (children doc ! i) q)"
  shows "current_task_scope doc tokens owners cursor = map id_of (nodes_on (children doc ! i) q)"
proof -
  have "filter (\<lambda>n. keyword (info n) = KW_TASK \<and> id_of n \<noteq> []) (nodes_on (children doc ! i) q) = nodes_on (children doc ! i) q"
    using assms(4) by (auto simp: filter_id_conv list_all_iff task_id_ok_def)
  then show ?thesis
    using assms by (simp add: current_task_scope_def)
qed

text \<open>The ids a run of bangs offers are collected below the ancestor it names.\<close>

lemma bang_scope_children:
  assumes "node_at c q = Some n" and "list_all task_id_ok (nodes_on c q)" and "list_all tasks_named (children doc)"
    and "unique_tasks (project_node_from_tj doc u)" and "i < length (children doc)" and c: "c = children doc ! i"
    and b: "1 \<le> b" "b \<le> length q" "node_at c (take (length q - b) q) = Some a"
  shows "bang_scope_ids (children doc) (map id_of (nodes_on c q)) b KW_TASK = collect_ids KW_TASK [] (children a)"
proof -
  let ?k = "length q - b"
  have len: "length (nodes_on c q) = Suc (length q)"
    by (rule length_nodes_at [OF assms(1)])
  have hd: "nodes_on c q = c # tl (nodes_on c q)"
    by (cases q) simp_all
  have "task_id_ok c"
    using assms(2) by (subst (asm) hd) simp
  then have t: "node_id (info c) = Some (id_of c)" "keyword (info c) = KW_TASK"
    using id_of_task by blast+
  have "distinct (task_ids (map (\<lambda>c. project_node_from_tj c u) (children doc)))"
    using unique_siblings [OF assms(4)] by (simp add: from_tj_children)
  then have f: "first_task (children doc) (id_of c) = Some i"
    using first_task_unique [OF _ assms(5)] t by (simp add: c)
  have "unique_tasks (project_node_from_tj c u)"
    using unique_child [OF assms(4), of i] assms(5) by (simp add: from_tj_children c)
  then have chain: "tj_node_find_path (children c) (map id_of (take ?k (tl (nodes_on c q)))) = children a"
    using find_path_chain [OF assms(1,2), of u ?k] assms(3,5) b(3) by (simp add: c list_all_length)
  have "take (length (nodes_on c q) - b) (nodes_on c q) = c # take ?k (tl (nodes_on c q))"
    using b(1,2) len by (subst (2) hd) (simp add: Suc_diff_le)
  then have "take (length (map id_of (nodes_on c q)) - b) (map id_of (nodes_on c q)) =
      id_of c # map id_of (take ?k (tl (nodes_on c q)))"
    by (simp add: take_map)
  then show ?thesis
    using b(2) len chain by (simp add: bang_scope_ids_def find_path_first [OF assms(3)] f [unfolded c] c)
qed


text \<open>The document \<open>task a { task b { depends ! } task c }\<close>, alone in its project, with the cursor
  behind the bang.\<close>

definition ex_named :: "string \<Rightarrow> tj_node list \<Rightarrow> tj_node" where
  "ex_named i cs = TjNode (info tj_node_new
     \<lparr> keyword := KW_TASK, node_id := Some i, node_name := Some i, node_range := \<lparr> range_start = LspPos 0 0, range_end = LspPos 9 0 \<rparr> \<rparr>) cs"

definition ex_comp_doc :: tj_node where
  "ex_comp_doc = TjNode (info tj_node_new) [ex_named ''a'' [ex_named ''b'' [], ex_named ''c'' []]]"

definition ex_comp_tokens :: "TokenSpan list" where
  "ex_comp_tokens =
     [\<lparr> token_kind = 271, tok_start = LspPos 2 4, tok_end = LspPos 2 11, tok_text = Some ''depends'' \<rparr>,
      \<lparr> token_kind = TK_BANG, tok_start = LspPos 2 12, tok_end = LspPos 2 13, tok_text = None \<rparr>]"

definition ex_comp_owners :: "path option list option" where
  "ex_comp_owners = Some [Some [0, 0], Some [0, 0]]"

definition ex_comp_project :: ProjectNode where
  "ex_comp_project = project_node_append_child project_root_new (project_node_from_tj (ex_named ''a'' [ex_named ''b'' [], ex_named ''c'' []]) None)"

lemma ex_comp_facts:
  "node_at ex_comp_doc [0, 0] = Some (ex_named ''b'' [])" "keyword (info ex_comp_doc) \<noteq> KW_TASK"
  "list_all tasks_named (children ex_comp_doc)"
  "list_all task_id_ok (nodes_on (children ex_comp_doc ! 0) [0])" "unique_tasks (project_node_from_tj ex_comp_doc None)"
  "tree_ok ex_comp_project"
  "pnode_at ex_comp_project ([] @ [0]) = Some (project_node_from_tj (children ex_comp_doc ! 0) None)"
  "tj_node_at ex_comp_doc ex_comp_tokens ex_comp_owners (LspPos 2 13) = Some [0, 0]"
  "count_leading_bangs ex_comp_tokens (LspPos 2 13) = (1, LspPos 2 12)"
  by code_simp+


text \<open>With as many bangs as tasks around it, the outermost tasks are offered, but the reference
  escapes to the root and resolves to nothing.\<close>

lemma outermost_bangs_offered_unresolved:
  "collect_ids KW_TASK [] (tj_node_find_path (children ex_comp_doc) (take (2 - 2) [''a'', ''b''])) =
     [(''a'', ''a''), (''a.b'', ''b''), (''a.c'', ''c'')] \<and>
   resolve_dependency ex_comp_project [0, 0]
     \<lparr> dep_kind = DEP_KIND_DEPENDS, bang_count = 2, dep_path = ''a.c'', source_range = zero_range \<rparr> = None"
  by code_simp

text \<open>In a document included under a prefix, the absolute ids offered lack the prefix.\<close>

lemma prefixed_absolute_unresolved:
  "collect_all_ids (children ex_doc) [] KW_TASK = [(''b'', []), (''c'', [])] \<and>
   resolve_dependency ex_project [0, 0]
     \<lparr> dep_kind = DEP_KIND_DEPENDS, bang_count = 0, dep_path = ''c'', source_range = zero_range \<rparr> = None"
  by code_simp

end
