(* ===== verification/Wire.thy ===== *)
theory Wire
  imports Calendar
begin

text \<open>
  The framing of messages: \<open>read_message\<close> and the main loop of \<open>src/src/main.c\<close>,
  \<open>lsp_send_message\<close> of \<open>rpc.c\<close>.  Standard input is the list of the bytes still to come; \<open>fgets\<close>
  and \<open>fread\<close> take from it.  What happens to a message once it is read is \<open>server_process\<close>, so the
  loop returns the bodies it hands over.
\<close>

definition CONTENT_LENGTH_MAX :: int where
  "CONTENT_LENGTH_MAX = 16 * 1024 * 1024"

text \<open>\<open>fgets (line, 256, stdin)\<close>: at most 255 bytes, and nothing behind a newline.\<close>

fun take_line :: "nat \<Rightarrow> string \<Rightarrow> string \<times> string" where
  "take_line 0 s = ([], s)"
| "take_line (Suc n) [] = ([], [])"
| "take_line (Suc n) (c # cs) =
     (if c = CHR 0x0A then ([c], cs) else (case take_line n cs of (l, r) \<Rightarrow> (c # l, r)))"

definition fgets :: "nat \<Rightarrow> string \<Rightarrow> (string \<times> string) option" where
  "fgets n s = (if s = [] then None else Some (take_line (n - 1) s))"

definition strip_eol :: "string \<Rightarrow> string" where
  "strip_eol l = rev (dropWhile (\<lambda>c. c = CHR 0x0D \<or> c = CHR 0x0A) (rev l))"

definition atoi :: "string \<Rightarrow> int" where
  "atoi s = sint (word_of_int (strtol s) :: u32)"

lemma take_line_split: "take_line n s = (l, r) \<Longrightarrow> s = l @ r"
  by (induction n s arbitrary: l r rule: take_line.induct) (auto split: if_splits prod.splits)

lemma fgets_shorter: "fgets (Suc (Suc n)) s = Some (l, r) \<Longrightarrow> length r < length s"
  by (cases s) (auto simp: fgets_def dest: take_line_split split: if_splits prod.splits)

definition content_length_field :: string where
  "content_length_field = ''Content-Length: ''"

function read_headers :: "int \<Rightarrow> string \<Rightarrow> int \<times> string" where
  "read_headers content_length s =
     (case fgets 256 s of
        None \<Rightarrow> (content_length, s)
      | Some (l, r) \<Rightarrow>
          (let h = strip_eol (c_str l) in
           if h = [] then (content_length, r)
           else read_headers (if take 16 h = content_length_field then atoi (drop 16 h) else content_length) r))"
  by pat_completeness auto
termination
  by (relation "measure (\<lambda>(n, s). length s)") (auto dest!: fgets_shorter [of 254, simplified])

declare read_headers.simps [simp del]

definition read_message :: "string \<Rightarrow> string option \<times> string" where
  "read_message s =
     (case read_headers (- 1) s of
        (n, r) \<Rightarrow>
          if n \<le> 0 \<or> CONTENT_LENGTH_MAX \<le> n then (None, r)
          else (Some (take (nat n) r), drop (nat n) r))"

lemma read_headers_shorter:
  "read_headers n s = (m, r) \<Longrightarrow> length r \<le> length s \<and> (m = n \<or> length r < length s)"
proof (induction n s rule: read_headers.induct)
  case (1 n s)
  show ?case
  proof (cases "fgets 256 s")
    case None
    then show ?thesis
      using "1.prems" by (simp add: read_headers.simps [of n])
  next
    case (Some lr)
    obtain l r' where lr: "lr = (l, r')"
      by fastforce
    have short: "length r' < length s"
      using fgets_shorter [of 254 s l r'] Some by (simp add: lr)
    define h where "h = strip_eol (c_str l)"
    show ?thesis
    proof (cases "h = []")
      case True
      then show ?thesis
        using "1.prems" Some short by (simp add: read_headers.simps [of n] lr h_def [symmetric])
    next
      case False
      define n' where "n' = (if take 16 h = content_length_field then atoi (drop 16 h) else n)"
      have "read_headers n' r' = (m, r)"
        using "1.prems" Some False by (simp add: read_headers.simps [of n] lr h_def [symmetric] n'_def)
      then have "length r \<le> length r'"
        using "1.IH" [OF Some lr [symmetric] h_def False] unfolding n'_def by blast
      then show ?thesis
        using short by simp
    qed
  qed
qed

lemma read_message_shorter: "read_message s = (Some b, r) \<Longrightarrow> length r < length s"
proof -
  assume a: "read_message s = (Some b, r)"
  obtain n r' where h: "read_headers (- 1) s = (n, r')"
    by fastforce
  have "n \<noteq> - 1" "r = drop (nat n) r'"
    using a by (auto simp: read_message_def h split: if_splits)
  then show ?thesis
    using read_headers_shorter [OF h] by auto
qed

text \<open>\<open>main\<close>: the bodies handed to \<open>server_process\<close>, as the C strings it reads, until end of input
  or a header without a usable length.\<close>

function main_loop :: "string \<Rightarrow> string list" where
  "main_loop s = (case read_message s of (None, r) \<Rightarrow> [] | (Some body, r) \<Rightarrow> c_str body # main_loop r)"
  by pat_completeness auto
termination
  by (relation "measure length") (auto intro: read_message_shorter [OF sym])

declare main_loop.simps [simp del]

definition lsp_send_message :: "string \<Rightarrow> string" where
  "lsp_send_message msg =
     content_length_field @ decimal (length msg) @ [CHR 0x0D, CHR 0x0A, CHR 0x0D, CHR 0x0A] @ msg"


subsection \<open>What is written is read back\<close>

abbreviation crlf :: string where
  "crlf \<equiv> [CHR 0x0D, CHR 0x0A]"

text \<open>A header line that means nothing to the server, such as a \<open>Content-Type\<close>.\<close>

definition other_header :: "string \<Rightarrow> bool" where
  "other_header h \<longleftrightarrow>
     h \<noteq> [] \<and> length h \<le> 253 \<and> take 16 h \<noteq> content_length_field
     \<and> list_all (\<lambda>c. c \<noteq> nul \<and> c \<noteq> CHR 0x0D \<and> c \<noteq> CHR 0x0A) h"

definition header_lines :: "string list \<Rightarrow> string" where
  "header_lines hs = concat (map (\<lambda>h. h @ crlf) hs)"

text \<open>A message as the protocol frames it: header lines in any order around the length.\<close>

fun framed :: "string list \<times> string \<times> string list \<Rightarrow> string" where
  "framed (before, msg, after) =
     header_lines before @ content_length_field @ decimal (length msg) @ crlf @ header_lines after @ crlf @ msg"

fun well_framed :: "string list \<times> string \<times> string list \<Rightarrow> bool" where
  "well_framed (before, msg, after) \<longleftrightarrow>
     list_all other_header before \<and> list_all other_header after
     \<and> msg \<noteq> [] \<and> int (length msg) < CONTENT_LENGTH_MAX \<and> list_all (\<lambda>c. c \<noteq> nul) msg"

lemma lsp_send_message_framed: "lsp_send_message msg = framed ([], msg, [])"
  by (simp add: lsp_send_message_def header_lines_def)

lemma take_line_whole:
  "list_all (\<lambda>c. c \<noteq> CHR 0x0A) l \<Longrightarrow> length l < n \<Longrightarrow> take_line n (l @ CHR 0x0A # r) = (l @ [CHR 0x0A], r)"
  by (induction n "l @ CHR 0x0A # r" arbitrary: l rule: take_line.induct)
    (simp_all add: Cons_eq_append_conv split: prod.splits, fastforce)

lemma fgets_line:
  assumes "list_all (\<lambda>c. c \<noteq> CHR 0x0D \<and> c \<noteq> CHR 0x0A) h" and "length h \<le> 253"
  shows "fgets 256 (h @ CHR 0x0D # CHR 0x0A # r) = Some (h @ crlf, r)"
proof -
  have "take_line 255 ((h @ [CHR 0x0D]) @ CHR 0x0A # r) = ((h @ [CHR 0x0D]) @ [CHR 0x0A], r)"
    by (rule take_line_whole) (use assms in \<open>auto simp: list_all_iff\<close>)
  then show ?thesis
    by (simp add: fgets_def)
qed

lemma strip_eol_line:
  "list_all (\<lambda>c. c \<noteq> CHR 0x0D \<and> c \<noteq> CHR 0x0A) h \<Longrightarrow> strip_eol (h @ crlf) = h"
  by (cases h rule: rev_cases) (simp_all add: strip_eol_def)

lemma read_headers_line:
  assumes "list_all (\<lambda>c. c \<noteq> nul \<and> c \<noteq> CHR 0x0D \<and> c \<noteq> CHR 0x0A) h" and "length h \<le> 253"
  shows "read_headers n (h @ CHR 0x0D # CHR 0x0A # r) =
    (if h = [] then (n, r)
     else read_headers (if take 16 h = content_length_field then atoi (drop 16 h) else n) r)"
proof -
  have l: "list_all (\<lambda>c. c \<noteq> CHR 0x0D \<and> c \<noteq> CHR 0x0A) h"
    using assms(1) by (simp add: list_all_iff)
  have "nul \<notin> set (h @ crlf)"
    using assms(1) by (auto simp: list_all_iff)
  then have "c_str (h @ crlf) = h @ crlf"
    by (rule c_str_id)
  then show ?thesis
    by (subst read_headers.simps) (simp add: fgets_line [OF l assms(2)] strip_eol_line [OF l])
qed

lemma read_headers_others:
  "list_all other_header hs \<Longrightarrow> read_headers n (header_lines hs @ r) = read_headers n r"
proof (induction hs)
  case (Cons h hs)
  then show ?case
    by (simp add: header_lines_def other_header_def read_headers_line)
qed (simp add: header_lines_def)

lemma strtol_decimal:
  assumes "int n < 2 ^ 63"
  shows "strtol (decimal n) = int n"
proof -
  have d: "list_all is_digit (decimal n)"
    by (rule decimal_digits)
  obtain c cs where c: "decimal n = c # cs"
    using decimal_nonempty [of n] by (cases "decimal n") auto
  have "is_digit c"
    using d by (simp add: c)
  then have "\<not> is_space c" "c \<noteq> CHR ''-''" "c \<noteq> CHR ''+''"
    by (auto simp: is_digit_def is_space_def)
  moreover have "takeWhile is_digit (c # cs) = c # cs"
    using d by (simp add: c list_all_iff)
  moreover have "digits_value (c # cs) = int n"
    using decimal_value [of n] by (simp add: c)
  ultimately show ?thesis
    using assms by (simp add: strtol_def c)
qed

lemma atoi_decimal:
  assumes "int n < 2 ^ 31"
  shows "atoi (decimal n) = int n"
proof -
  have "strtol (decimal n) = int n"
    by (rule strtol_decimal) (use assms in simp)
  moreover have "sint (word_of_int (int n) :: u32) = int n"
    unfolding sint_sbintrunc' by (rule signed_take_bit_int_eq_self) (use assms in simp_all)
  ultimately show ?thesis
    by (simp only: atoi_def)
qed

lemma content_length_field_chars:
  "length content_length_field = 16"
  "list_all (\<lambda>c. c \<noteq> nul \<and> c \<noteq> CHR 0x0D \<and> c \<noteq> CHR 0x0A) content_length_field"
  by (simp_all add: content_length_field_def)

lemma read_headers_length:
  assumes "int n < CONTENT_LENGTH_MAX"
  shows "read_headers m (content_length_field @ decimal n @ crlf @ r) = read_headers (int n) r"
proof -
  define h where "h = content_length_field @ decimal n"
  have "n < 10 ^ Suc 7"
    using assms by (simp add: CONTENT_LENGTH_MAX_def)
  then have "length (decimal n) \<le> 8"
    using decimal_length [of n 7] by simp
  then have l: "length h \<le> 253"
    by (simp add: h_def content_length_field_chars)
  have "list_all (\<lambda>c. c \<noteq> nul \<and> c \<noteq> CHR 0x0D \<and> c \<noteq> CHR 0x0A) (decimal n)"
    using decimal_digits [of n] by (auto simp: list_all_iff is_digit_def)
  then have c: "list_all (\<lambda>c. c \<noteq> nul \<and> c \<noteq> CHR 0x0D \<and> c \<noteq> CHR 0x0A) h"
    by (simp add: h_def content_length_field_chars)
  have h: "h \<noteq> []" "take 16 h = content_length_field" "drop 16 h = decimal n"
    by (simp_all add: h_def content_length_field_chars decimal_nonempty)
  have "atoi (decimal n) = int n"
    by (rule atoi_decimal) (use assms in \<open>simp add: CONTENT_LENGTH_MAX_def\<close>)
  then have "read_headers m (h @ CHR 0x0D # CHR 0x0A # r) = read_headers (int n) r"
    using read_headers_line [OF c l, of m r] h by simp
  then show ?thesis
    by (simp add: h_def)
qed

lemma read_message_framed:
  assumes "well_framed (before, msg, after)"
  shows "read_message (framed (before, msg, after) @ r) = (Some msg, r)"
proof -
  have "read_headers (- 1) (framed (before, msg, after) @ r) =
      read_headers (int (length msg)) (header_lines after @ crlf @ msg @ r)"
    using assms by (simp add: read_headers_others read_headers_length [simplified])
  also have "\<dots> = read_headers (int (length msg)) ([] @ CHR 0x0D # CHR 0x0A # msg @ r)"
    using assms by (simp add: read_headers_others)
  also have "\<dots> = (int (length msg), msg @ r)"
    by (subst read_headers_line) simp_all
  finally show ?thesis
    using assms by (simp add: read_message_def)
qed



lemma lsp_send_message_read_back:
  assumes "msg \<noteq> []" and "int (length msg) < CONTENT_LENGTH_MAX" and "nul \<notin> set msg"
  shows "read_message (lsp_send_message msg @ r) = (Some msg, r)"
  using read_message_framed [of "[]" msg "[]" r] assms
  by (simp add: lsp_send_message_framed list_all_iff del: framed.simps) metis

text \<open>The limit is exclusive: a body of exactly \<open>CONTENT_LENGTH_MAX\<close> bytes ends the loop.\<close>

lemma message_of_maximal_length_refused:
  "main_loop (content_length_field @ ''16777216'' @ crlf @ crlf @ body) = []"
proof -
  have l: "list_all (\<lambda>c. c \<noteq> nul \<and> c \<noteq> CHR 0x0D \<and> c \<noteq> CHR 0x0A) (content_length_field @ ''16777216'')"
    by (simp add: content_length_field_chars)
  have "strtol ''16777216'' = 16777216"
    by (simp add: strtol_def is_space_def is_digit_def digits_value_def)
  then have a: "atoi ''16777216'' = 16777216"
    by (simp add: atoi_def)
  have "read_headers (- 1) ((content_length_field @ ''16777216'') @ CHR 0x0D # CHR 0x0A # crlf @ body) =
      read_headers 16777216 (crlf @ body)"
    by (subst read_headers_line [OF l]) (simp_all add: content_length_field_chars a)
  also have "\<dots> = read_headers 16777216 ([] @ CHR 0x0D # CHR 0x0A # body)"
    by simp
  also have "\<dots> = (16777216, body)"
    by (subst read_headers_line) simp_all
  finally show ?thesis
    by (subst main_loop.simps) (simp add: read_message_def CONTENT_LENGTH_MAX_def)
qed

end
