(* ===== verification/Lexer.thy ===== *)
theory Lexer
  imports Text_Change
begin

text \<open>
  The scanner of \<open>src/src/lexer.l\<close>: its rules as regular expressions with the choice flex makes
  between them (the longest match, then the earliest rule, then the default rule that copies one
  byte to the output), the actions of the rules, \<open>raw_yylex\<close>, and the wrapper \<open>yylex\<close> that puts in
  statement terminators and the braces that are missing at the end.  The input is the C string
  given to \<open>yy_scan_string\<close>; lines and columns are C ints in the code and numbers here, which is
  the same for a text below two gigabytes.
\<close>

subsection \<open>Patterns\<close>

text \<open>The patterns of the file: characters of a class, any number of them, sequence, choice, option.\<close>

datatype rx = Chars "char \<Rightarrow> bool" | Many "char \<Rightarrow> bool" | Seq rx rx | Alt rx rx | Opt rx

fun lit :: "string \<Rightarrow> rx" where
  "lit [] = Many (\<lambda>c. False)"
| "lit [c] = Chars (\<lambda>d. d = c)"
| "lit (c # cs) = Seq (Chars (\<lambda>d. d = c)) (lit cs)"

fun exactly :: "nat \<Rightarrow> (char \<Rightarrow> bool) \<Rightarrow> rx" where
  "exactly 0 P = Many (\<lambda>c. False)"
| "exactly (Suc 0) P = Chars P"
| "exactly (Suc n) P = Seq (Chars P) (exactly n P)"

abbreviation some_of :: "(char \<Rightarrow> bool) \<Rightarrow> rx" where
  "some_of P \<equiv> Seq (Chars P) (Many P)"

text \<open>What a pattern means, and the lengths of the beginnings of the input that it matches.\<close>

fun lang :: "rx \<Rightarrow> string \<Rightarrow> bool" where
  "lang (Chars P) s \<longleftrightarrow> (\<exists>c. s = [c] \<and> P c)"
| "lang (Many P) s \<longleftrightarrow> list_all P s"
| "lang (Seq a b) s \<longleftrightarrow> (\<exists>u v. s = u @ v \<and> lang a u \<and> lang b v)"
| "lang (Alt a b) s \<longleftrightarrow> lang a s \<or> lang b s"
| "lang (Opt a) s \<longleftrightarrow> s = [] \<or> lang a s"

fun lens :: "rx \<Rightarrow> string \<Rightarrow> nat list" where
  "lens (Chars P) s = (case s of [] \<Rightarrow> [] | c # cs \<Rightarrow> if P c then [1] else [])"
| "lens (Many P) s = [0..<Suc (length (takeWhile P s))]"
| "lens (Seq a b) s = concat (map (\<lambda>n. map ((+) n) (lens b (drop n s))) (lens a s))"
| "lens (Alt a b) s = lens a s @ lens b s"
| "lens (Opt a) s = 0 # lens a s"

subsection \<open>The rules\<close>

definition TK_PLUS :: nat where [tok_simps]: "TK_PLUS = 471"
definition TK_MINUS :: nat where [tok_simps]: "TK_MINUS = 472"
definition TK_COLON :: nat where [tok_simps]: "TK_COLON = 474"
definition TK_PERCENT :: nat where [tok_simps]: "TK_PERCENT = 476"
definition TK_DOLLAR :: nat where [tok_simps]: "TK_DOLLAR = 477"
definition TK_ERROR :: nat where [tok_simps]: "TK_ERROR = 479"

text \<open>The keyword rules in the order of the file, with the kinds bison numbers them by.\<close>

definition lexer_keywords :: "(string \<times> nat) list" where
  "lexer_keywords =
    [(''account'', 261), (''accountprefix'', 299), (''accountreport'', 300), (''accountroot'', 301),
     (''active'', 302), (''adopt'', 303), (''aggregate'', 304), (''alert'', 305), (''alertlevels'', 306),
     (''allocate'', 273), (''alternative'', 307), (''author'', 308), (''auxdir'', 309), (''balance'', 310),
     (''booking'', 284), (''caption'', 311), (''cellcolor'', 312), (''celltext'', 313), (''center'', 314),
     (''charge'', 315), (''chargeset'', 316), (''columns'', 317), (''complete'', 281), (''copyright'', 318),
     (''credits'', 319), (''currency'', 291), (''currencyformat'', 320), (''dailymax'', 321), (''dailymin'', 322),
     (''dailyworkinghours'', 323), (''date'', 324), (''definitions'', 325), (''depends'', 271), (''details'', 326),
     (''disabled'', 327), (''duration'', 268), (''efficiency'', 287), (''effort'', 267), (''effortdone'', 328),
     (''effortleft'', 329), (''email'', 330), (''enabled'', 331), (''end'', 275), (''endcredit'', 332),
     (''epilog'', 333), (''export'', 334), (''extend'', 335), (''fail'', 336), (''flags'', 265),
     (''fontcolor'', 337), (''footer'', 338), (''formats'', 339), (''gapduration'', 340), (''gaplength'', 341),
     (''halign'', 342), (''hasalert'', 343), (''header'', 344), (''headline'', 345), (''height'', 346),
     (''hideaccount'', 347), (''hidejournalentry'', 348), (''hidereport'', 349), (''hideresource'', 350),
     (''hidetask'', 351), (''icalreport'', 352), (''include'', 264), (''inherit'', 353), (''isactive'', 354),
     (''ischildof'', 355), (''isdependencyof'', 356), (''isdutyof'', 357), (''isfeatureof'', 358),
     (''isleaf'', 359), (''ismilestone'', 360), (''isongoing'', 361), (''isresource'', 362),
     (''isresponsibilityof'', 363), (''istask'', 364), (''isvalid'', 365), (''journalattributes'', 366),
     (''journalentry'', 367), (''journalmode'', 368), (''leaveallowances'', 369), (''leaves'', 289),
     (''left'', 370), (''length'', 269), (''limits'', 371), (''listitem'', 372), (''listtype'', 373),
     (''loadunit'', 374), (''macro'', 263), (''managers'', 375), (''mandatory'', 376), (''markdate'', 377),
     (''maxend'', 278), (''maximum'', 378), (''maxstart'', 276), (''milestone'', 270), (''minend'', 279),
     (''minimum'', 379), (''minstart'', 277), (''monthlymax'', 380), (''monthlymin'', 381), (''navigator'', 382),
     (''newtask'', 383), (''nikureport'', 384), (''note'', 282), (''novevents'', 385), (''now'', 290),
     (''number'', 386), (''numberformat'', 387), (''onend'', 388), (''onstart'', 389), (''opennodes'', 390),
     (''outputdir'', 391), (''overtime'', 392), (''period'', 393), (''persistent'', 394), (''precedes'', 272),
     (''priority'', 280), (''project'', 258), (''projectid'', 395), (''projectids'', 396), (''projection'', 397),
     (''prolog'', 398), (''purge'', 399), (''rate'', 286), (''rawhtmlhead'', 400), (''reference'', 401),
     (''remaining'', 402), (''replace'', 403), (''reportprefix'', 404), (''resource'', 260),
     (''resourceattributes'', 405), (''resourceprefix'', 406), (''resourcereport'', 407), (''resourceroot'', 408),
     (''resources'', 409), (''responsible'', 283), (''richtext'', 410), (''right'', 411), (''rollupaccount'', 412),
     (''rollupresource'', 413), (''rolluptask'', 414), (''scale'', 415), (''scenario'', 296), (''scenarios'', 416),
     (''scenariospecific'', 417), (''scheduled'', 285), (''scheduling'', 418), (''schedulingmode'', 419),
     (''select'', 420), (''selfcontained'', 421), (''shift'', 262), (''shifts'', 422), (''shorttimeformat'', 423),
     (''sloppy'', 424), (''sortaccounts'', 425), (''sortjournalentries'', 426), (''sortresources'', 427),
     (''sorttasks'', 428), (''start'', 274), (''startcredit'', 429), (''status'', 430), (''statussheet'', 431),
     (''statussheetreport'', 432), (''strict'', 433), (''summary'', 434), (''supplement'', 266), (''tagfile'', 435),
     (''task'', 259), (''taskattributes'', 436), (''taskprefix'', 437), (''taskreport'', 438), (''taskroot'', 439),
     (''text'', 440), (''textreport'', 441), (''timeformat'', 292), (''timeformat1'', 442), (''timeformat2'', 443),
     (''timeoff'', 444), (''timesheet'', 445), (''timesheetreport'', 446), (''timezone'', 293),
     (''timingresolution'', 295), (''title'', 447), (''tooltip'', 448), (''tracereport'', 449),
     (''trackingscenario'', 450), (''treelevel'', 451), (''vacation'', 288), (''warn'', 452), (''weeklymax'', 453),
     (''weeklymin'', 454), (''weekstartsmonday'', 455), (''weekstartssunday'', 456), (''width'', 457),
     (''work'', 458), (''workinghours'', 294), (''yearlyworkingdays'', 459)]"

abbreviation between :: "char \<Rightarrow> char \<Rightarrow> char \<Rightarrow> bool" where
  "between a b c \<equiv> (of_char a :: nat) \<le> of_char c \<and> (of_char c :: nat) \<le> of_char b"

definition digit :: "char \<Rightarrow> bool" where
  "digit c = between (CHR ''0'') (CHR ''9'') c"

definition ident_start :: "char \<Rightarrow> bool" where
  "ident_start c = (between (CHR ''a'') (CHR ''z'') c \<or> between (CHR ''A'') (CHR ''Z'') c \<or> c = CHR ''_'' \<or> between (CHR 0x80) (CHR 0xFF) c)"

definition ident_char :: "char \<Rightarrow> bool" where
  "ident_char c = (ident_start c \<or> digit c \<or> c = CHR '':'')"

definition blank :: "char \<Rightarrow> bool" where
  "blank c = (c \<in> {CHR '' '', CHR 0x09, CHR 0x0D, CHR 0x0C, CHR 0x0B})"

abbreviation line_feed :: char where
  "line_feed \<equiv> CHR 0x0A"

definition date_rx :: rx where
  "date_rx =
     Seq (exactly 4 digit) (Seq (lit ''-'') (Seq (exactly 2 digit) (Seq (lit ''-'') (Seq (exactly 2 digit)
       (Seq (Opt (Seq (lit ''-'') (Seq (exactly 2 digit) (Seq (lit '':'') (Seq (exactly 2 digit)
              (Opt (Seq (lit '':'') (exactly 2 digit))))))))
            (Opt (Seq (lit ''-'') (Seq (Chars (\<lambda>c. c = CHR ''+'' \<or> c = CHR ''-'')) (exactly 4 digit)))))))))"

definition duration_rx :: rx where
  "duration_rx =
     Seq (Opt (Chars (\<lambda>c. c = CHR ''+'' \<or> c = CHR ''-''))) (Seq (some_of digit)
       (Alt (lit ''min'') (Alt (lit ''h'') (Alt (lit ''d'') (Alt (lit ''w'') (Alt (lit ''m'') (lit ''y'')))))))"

datatype lex_rule =
    Skip | New_Line | Comment_Line
  | Open_Comment | Close_Comment | Open_Scissors | Close_Scissors | Open_Str char | Close_Str char
  | Fragment | Fragment_Line | Str_Line
  | Emit_Kw nat | Emit_Plain nat
  | Echo

datatype start_condition = INITIAL | BLOCK_COMMENT | SCISSORS | DQUOTE | SQUOTE

definition initial_rules :: "(rx \<times> lex_rule) list" where
  "initial_rules =
     [(some_of blank, Skip),
      (Chars (\<lambda>c. c = line_feed), New_Line),
      (Seq (lit ''#'') (Many (\<lambda>c. c \<noteq> line_feed)), Comment_Line),
      (Seq (lit ''//'') (Many (\<lambda>c. c \<noteq> line_feed)), Comment_Line),
      (lit ''/*'', Open_Comment),
      (lit ''-8<-'', Open_Scissors),
      (lit [CHR 0x22], Open_Str (CHR 0x22)),
      (lit [CHR 0x27], Open_Str (CHR 0x27)),
      (date_rx, Emit_Kw TK_DATE),
      (duration_rx, Emit_Kw TK_DURATION),
      (Seq (some_of digit) (Seq (lit ''.'') (some_of digit)), Emit_Plain TK_FLOAT),
      (some_of digit, Emit_Plain TK_INTEGER)]
     @ map (\<lambda>(w, k). (lit w, Emit_Kw k)) lexer_keywords
     @ [(Seq (Chars ident_start) (Many ident_char), Emit_Plain TK_IDENT),
        (lit ''{'', Emit_Plain TK_LBRACE), (lit ''}'', Emit_Plain TK_RBRACE),
        (lit ''['', Emit_Plain TK_LBRACKET), (lit '']'', Emit_Plain TK_RBRACKET),
        (lit ''!'', Emit_Plain TK_BANG), (lit ''+'', Emit_Plain TK_PLUS), (lit ''-'', Emit_Plain TK_MINUS),
        (lit ''.'', Emit_Plain TK_DOT), (lit '':'', Emit_Plain TK_COLON), (lit '','', Emit_Plain TK_COMMA),
        (lit ''%'', Emit_Plain TK_PERCENT), (lit ''$'', Emit_Plain TK_DOLLAR),
        (Chars (\<lambda>c. c \<noteq> line_feed), Emit_Plain TK_ERROR)]"

definition string_rules :: "char \<Rightarrow> (rx \<times> lex_rule) list" where
  "string_rules q =
     [(lit [q], Close_Str q),
      (Chars (\<lambda>c. c = line_feed), Str_Line),
      (Seq (lit [CHR 0x5C]) (Chars (\<lambda>c. c \<noteq> line_feed)), Fragment),
      (some_of (\<lambda>c. c \<noteq> q \<and> c \<noteq> CHR 0x5C \<and> c \<noteq> line_feed), Fragment)]"

fun rules :: "start_condition \<Rightarrow> (rx \<times> lex_rule) list" where
  "rules INITIAL = initial_rules"
| "rules BLOCK_COMMENT =
     [(lit ''*/'', Close_Comment), (Chars (\<lambda>c. c = line_feed), Fragment_Line),
      (some_of (\<lambda>c. c \<noteq> CHR ''*'' \<and> c \<noteq> line_feed), Fragment), (lit ''*'', Fragment)]"
| "rules SCISSORS =
     [(lit ''->8-'', Close_Scissors), (Chars (\<lambda>c. c = line_feed), Fragment_Line),
      (some_of (\<lambda>c. c \<noteq> CHR ''-'' \<and> c \<noteq> line_feed), Fragment), (lit ''-'', Fragment)]"
| "rules DQUOTE = string_rules (CHR 0x22)"
| "rules SQUOTE = string_rules (CHR 0x27)"

text \<open>The rule flex runs on a non-empty input: behind all others stands the default rule.\<close>

fun best_match :: "string \<Rightarrow> (rx \<times> lex_rule) list \<Rightarrow> nat \<times> lex_rule" where
  "best_match s [] = (1, Echo)"
| "best_match s ((r, a) # rs) =
     (case best_match s rs of
        (m, b) \<Rightarrow>
          (let ns = lens r s in
           if ns \<noteq> [] \<and> m \<le> fold max ns 0 then (fold max ns 0, a) else (m, b)))"

subsection \<open>The state and the actions\<close>

record Token =
  tk_kind :: nat
  tk_start :: LspPos
  tk_end :: LspPos
  tk_text :: "string option"

record lexer =
  yy_input :: string
  yy_start :: start_condition
  yylineno :: nat
  yycolumn :: nat
  tok_sl :: u32
  tok_sc :: u32
  mfrag_sl :: u32
  mfrag_sc :: u32
  str_buf :: string
  g_pending_newline :: bool
  yylval :: Token
  lex_acc :: lex_acc
  yyout :: string

text \<open>\<open>STR_APPEND\<close>: a fragment that does not fit into the 4096 bytes is dropped whole.\<close>

definition STR_APPEND :: "string \<Rightarrow> lexer \<Rightarrow> lexer" where
  "STR_APPEND s l = (if length (str_buf l) + length s < 4095 then l\<lparr>str_buf := str_buf l @ s\<rparr> else l)"

definition open_fragment :: "start_condition \<Rightarrow> string \<Rightarrow> lexer \<Rightarrow> lexer" where
  "open_fragment c s l =
     STR_APPEND s (l\<lparr>mfrag_sl := tok_sl l, mfrag_sc := tok_sc l, str_buf := [], yy_start := c\<rparr>)"

definition end_line :: "lexer \<Rightarrow> u32" where
  "end_line l = of_nat (yylineno l - 1)"

definition end_column :: "lexer \<Rightarrow> u32" where
  "end_column l = of_nat (yycolumn l)"

definition push_here :: "nat \<Rightarrow> u32 \<Rightarrow> u32 \<Rightarrow> string option \<Rightarrow> lexer \<Rightarrow> lexer" where
  "push_here code sl sc txt l =
     l\<lparr>lex_acc := g_push_tok_span code sl sc (end_line l) (end_column l) txt (lex_acc l)\<rparr>"

definition token_here :: "nat \<Rightarrow> u32 \<Rightarrow> u32 \<Rightarrow> string option \<Rightarrow> lexer \<Rightarrow> Token" where
  "token_here code sl sc txt l =
     \<lparr>tk_kind = code, tk_start = LspPos sl sc, tk_end = LspPos (end_line l) (end_column l), tk_text = txt\<rparr>"

definition store_semantic_token :: "nat \<Rightarrow> string \<Rightarrow> lexer \<Rightarrow> lexer" where
  "store_semantic_token code yytext l = push_here code (tok_sl l) (tok_sc l) (Some yytext) l"

definition emit_kw :: "nat \<Rightarrow> string \<Rightarrow> lexer \<Rightarrow> lexer" where
  "emit_kw code yytext l =
     (push_here code (tok_sl l) (tok_sc l) (Some yytext) l)
       \<lparr>yylval := token_here code (tok_sl l) (tok_sc l) (Some yytext) l\<rparr>"

definition emit_plain :: "nat \<Rightarrow> string \<Rightarrow> lexer \<Rightarrow> lexer" where
  "emit_plain code yytext l =
     (if code \<in> {TK_IDENT, TK_LBRACKET, TK_RBRACKET} then push_here code (tok_sl l) (tok_sc l) (Some yytext) l
      else if code \<in> {TK_LBRACE, TK_RBRACE, TK_BANG, TK_DOT, TK_COMMA} then push_here code (tok_sl l) (tok_sc l) None l
      else l)
       \<lparr>yylval := token_here code (tok_sl l) (tok_sc l) (if code = TK_IDENT then Some yytext else None) l\<rparr>"

definition emit_kw_mfrag_text :: "nat \<Rightarrow> string \<Rightarrow> lexer \<Rightarrow> lexer" where
  "emit_kw_mfrag_text code txt l =
     (push_here code (mfrag_sl l) (mfrag_sc l) (Some txt) l)
       \<lparr>yylval := token_here code (mfrag_sl l) (mfrag_sc l) (Some txt) l\<rparr>"

definition quote_condition :: "char \<Rightarrow> start_condition" where
  "quote_condition q = (if q = CHR 0x22 then DQUOTE else SQUOTE)"

text \<open>The action of a rule: the state after it and the kind it returns to the caller, if it returns.\<close>

fun lex_action :: "lex_rule \<Rightarrow> string \<Rightarrow> lexer \<Rightarrow> lexer \<times> nat option" where
  "lex_action Skip yytext l = (l, None)"
| "lex_action New_Line yytext l = (l\<lparr>yycolumn := 0, g_pending_newline := True\<rparr>, None)"
| "lex_action Comment_Line yytext l = (store_semantic_token TK_LINE_COMMENT yytext l, None)"
| "lex_action Open_Comment yytext l = (open_fragment BLOCK_COMMENT ''/*'' l, None)"
| "lex_action Close_Comment yytext l =
     (let l1 = STR_APPEND ''*/'' l in
      ((push_here TK_BLOCK_COMMENT (mfrag_sl l1) (mfrag_sc l1) (Some (str_buf l1)) l1)\<lparr>yy_start := INITIAL\<rparr>, None))"
| "lex_action Open_Scissors yytext l = (open_fragment SCISSORS ''-8<-'' l, None)"
| "lex_action Close_Scissors yytext l =
     (let l1 = STR_APPEND ''->8-'' l in
      (emit_kw_mfrag_text TK_MULTI_LINE_STR (str_buf l1) (l1\<lparr>yy_start := INITIAL\<rparr>), Some TK_MULTI_LINE_STR))"
| "lex_action (Open_Str q) yytext l = (open_fragment (quote_condition q) [q] l, None)"
| "lex_action (Close_Str q) yytext l =
     (let l1 = STR_APPEND [q] l in
      (emit_kw_mfrag_text TK_STR (str_buf l1) (l1\<lparr>yy_start := INITIAL\<rparr>), Some TK_STR))"
| "lex_action Fragment yytext l = (STR_APPEND yytext l, None)"
| "lex_action Fragment_Line yytext l = ((STR_APPEND yytext l)\<lparr>yycolumn := 0\<rparr>, None)"
| "lex_action Str_Line yytext l = (emit_plain TK_ERROR yytext (l\<lparr>yycolumn := 0, yy_start := INITIAL\<rparr>), Some TK_ERROR)"
| "lex_action (Emit_Kw code) yytext l = (emit_kw code yytext l, Some code)"
| "lex_action (Emit_Plain code) yytext l = (emit_plain code yytext l, Some code)"
| "lex_action Echo yytext l = (l\<lparr>yyout := yyout l @ yytext\<rparr>, None)"

text \<open>Before the action flex has counted the newlines of the match, and \<open>YY_USER_ACTION\<close> runs.\<close>

definition scan_match :: "nat \<Rightarrow> lexer \<Rightarrow> lexer" where
  "scan_match n l =
     (let no = yylineno l + length (filter (\<lambda>c. c = line_feed) (take n (yy_input l))) in
      l\<lparr>yy_input := drop n (yy_input l), yylineno := no,
        tok_sl := of_nat (no - 1), tok_sc := of_nat (yycolumn l), yycolumn := yycolumn l + n\<rparr>)"

definition lex_step :: "lexer \<Rightarrow> lexer \<times> nat option" where
  "lex_step l =
     (case best_match (yy_input l) (rules (yy_start l)) of
        (n, a) \<Rightarrow> lex_action a (take n (yy_input l)) (scan_match n l))"

text \<open>At the end of input an open comment or string is an error token; the end itself is 0.\<close>

definition lex_eof :: "lexer \<Rightarrow> lexer \<times> nat" where
  "lex_eof l =
     (if yy_start l = INITIAL then (l, 0) else (emit_plain TK_ERROR [] (l\<lparr>yy_start := INITIAL\<rparr>), TK_ERROR))"

subsection \<open>The choice of a rule\<close>

text \<open>The lengths a pattern reports are those of the beginnings in its language.\<close>

lemma lens_lang: "n \<in> set (lens r s) \<longleftrightarrow> n \<le> length s \<and> lang r (take n s)"
proof (induction r arbitrary: n s)
  case (Chars P)
  show ?case
    by (cases s; cases n) auto
next
  case (Many P)
  have "n \<le> length (takeWhile P s) \<longleftrightarrow> n \<le> length s \<and> list_all P (take n s)"
  proof (induction s arbitrary: n)
    case (Cons c s)
    then show ?case
      by (cases n) auto
  qed simp
  then show ?case
    by (simp add: less_Suc_eq_le del: upt_Suc)
next
  case (Seq a b)
  show ?case
  proof
    assume "n \<in> set (lens (Seq a b) s)"
    then obtain i j where ij: "n = i + j" "i \<in> set (lens a s)" "j \<in> set (lens b (drop i s))"
      by auto
    then have "take n s = take i s @ take j (drop i s)" "n \<le> length s"
      using Seq.IH by (auto simp: take_add)
    then show "n \<le> length s \<and> lang (Seq a b) (take n s)"
      using ij Seq.IH by auto
  next
    assume "n \<le> length s \<and> lang (Seq a b) (take n s)"
    then obtain u v where n: "n \<le> length s" and uv: "take n s = u @ v" "lang a u" "lang b v"
      by auto
    then have "length u + length v = n"
      by (metis length_append length_take min.absorb2)
    moreover from this uv(1) have "u = take (length u) s" "v = take (length v) (drop (length u) s)"
      by (metis append_eq_conv_conj take_take min.absorb1 le_add1)
        (metis uv(1) calculation append_eq_conv_conj drop_take add_diff_cancel_left')
    ultimately have "length u \<in> set (lens a s)" "length v \<in> set (lens b (drop (length u) s))"
      using Seq.IH uv n by auto
    then show "n \<in> set (lens (Seq a b) s)"
      using \<open>length u + length v = n\<close> by force
  qed
next
  case (Alt a b)
  then show ?case
    by auto
next
  case (Opt a)
  then show ?case
    by auto
qed

lemma fold_max_Max: "ns \<noteq> [] \<Longrightarrow> fold max ns 0 = Max (set (ns :: nat list))"
proof -
  assume "ns \<noteq> []"
  then have "fold max ns (0 :: nat) = Max (insert 0 (set ns))"
    using Max.set_eq_fold [of 0 ns] by simp
  then show ?thesis
    using \<open>ns \<noteq> []\<close> by (simp add: Max_insert)
qed

text \<open>What flex documents: no rule matches more, and none of the same length stands earlier.\<close>

definition longest :: "string \<Rightarrow> rx \<Rightarrow> nat \<Rightarrow> bool" where
  "longest s r n \<longleftrightarrow> n \<le> length s \<and> lang r (take n s) \<and> (\<forall>k \<le> length s. lang r (take k s) \<longrightarrow> k \<le> n)"

lemma longest_fold: "lens r s \<noteq> [] \<Longrightarrow> longest s r (fold max (lens r s) 0)"
proof -
  assume ne: "lens r s \<noteq> []"
  then have "fold max (lens r s) 0 \<in> set (lens r s)" "\<forall>k \<in> set (lens r s). k \<le> fold max (lens r s) 0"
    by (simp_all add: fold_max_Max)
  then show ?thesis
    by (simp add: longest_def lens_lang)
qed

lemma best_match_chosen:
  "best_match s rs = (n, a) \<Longrightarrow>
   (n, a) = (1, Echo) \<or> (\<exists>i < length rs. \<exists>r. rs ! i = (r, a) \<and> longest s r n \<and> 1 \<le> n)"
proof (induction rs arbitrary: n a)
  case (Cons ra rs)
  obtain r b where ra: "ra = (r, b)"
    by fastforce
  obtain m c where rest: "best_match s rs = (m, c)"
    by fastforce
  have m1: "1 \<le> m"
    using Cons.IH [OF rest] by auto
  show ?case
  proof (cases "lens r s \<noteq> [] \<and> m \<le> fold max (lens r s) 0")
    case True
    then have "n = fold max (lens r s) 0" "a = b"
      using Cons.prems by (auto simp: ra rest)
    then show ?thesis
      using True m1 longest_fold [of r s] by (intro disjI2 exI [of _ 0]) (simp add: ra)
  next
    case False
    then have "n = m" "a = c"
      using Cons.prems by (auto simp: ra rest Let_def)
    then show ?thesis
      using Cons.IH [OF rest] by (auto simp: nth_Cons_Suc intro: exI [of _ "Suc i" for i])
  qed
qed simp

lemma best_match_maximal:
  "best_match s rs = (n, a) \<Longrightarrow> (r, b) \<in> set rs \<Longrightarrow> k \<le> length s \<Longrightarrow> lang r (take k s) \<Longrightarrow> k \<le> n"
proof (induction rs arbitrary: n a)
  case (Cons ra rs)
  obtain m c where rest: "best_match s rs = (m, c)"
    by fastforce
  obtain r' b' where ra: "ra = (r', b')"
    by fastforce
  have n: "m \<le> n" "lens r' s \<noteq> [] \<Longrightarrow> fold max (lens r' s) 0 \<le> n"
    using Cons.prems(1) by (auto simp: ra rest Let_def split: if_splits)
  show ?case
  proof (cases "(r, b) = ra")
    case True
    then have "k \<in> set (lens r' s)"
      using Cons.prems by (simp add: ra lens_lang)
    moreover from this have "lens r' s \<noteq> []"
      by auto
    ultimately have "k \<le> fold max (lens r' s) 0" "lens r' s \<noteq> []"
      by (simp_all add: fold_max_Max)
    then show ?thesis
      using n(2) by simp
  next
    case False
    then have "k \<le> m"
      using Cons.IH [OF rest] Cons.prems by simp
    then show ?thesis
      using n(1) by simp
  qed
qed simp

lemma best_match_length: "s \<noteq> [] \<Longrightarrow> best_match s rs = (n, a) \<Longrightarrow> 1 \<le> n \<and> n \<le> length s"
  using best_match_chosen [of s rs n a] by (cases s) (auto simp: longest_def)

subsection \<open>\<open>raw_yylex\<close>\<close>

named_theorems lex_simps \<open>unfolding the actions of the scanner\<close>

declare STR_APPEND_def [lex_simps] open_fragment_def [lex_simps] push_here_def [lex_simps] token_here_def [lex_simps]
  store_semantic_token_def [lex_simps] emit_kw_def [lex_simps] emit_plain_def [lex_simps]
  emit_kw_mfrag_text_def [lex_simps] end_line_def [lex_simps] end_column_def [lex_simps]

lemma lex_action_input [simp]: "yy_input (fst (lex_action a w l)) = yy_input l"
  by (cases a) (simp_all add: lex_simps Let_def)

lemma lex_step_input:
  assumes "yy_input l \<noteq> []"
  obtains n where "1 \<le> n" "n \<le> length (yy_input l)" "yy_input (fst (lex_step l)) = drop n (yy_input l)"
proof -
  obtain n a where m: "best_match (yy_input l) (rules (yy_start l)) = (n, a)"
    by fastforce
  show ?thesis
    by (rule that [of n]) (use best_match_length [OF assms m] in \<open>simp_all add: lex_step_def m scan_match_def Let_def\<close>)
qed

lemma lex_step_shorter: "yy_input l \<noteq> [] \<Longrightarrow> lex_step l = (l', r) \<Longrightarrow> length (yy_input l') < length (yy_input l)"
  using lex_step_input [of l] by (metis fst_conv length_drop diff_less length_greater_0_conv less_le_trans zero_less_one)

text \<open>Rules run until one returns a token or the input ends.\<close>

function raw_yylex :: "lexer \<Rightarrow> lexer \<times> nat" where
  "raw_yylex l =
     (if yy_input l = [] then lex_eof l
      else (case lex_step l of
              (l', Some k) \<Rightarrow> (l', k)
            | (l', None) \<Rightarrow> raw_yylex l'))"
  by pat_completeness auto
termination
  by (relation "measure (length \<circ> yy_input)") (auto intro: lex_step_shorter [OF _ sym])

declare raw_yylex.simps [simp del]

subsection \<open>The wrapper \<open>yylex\<close>\<close>

definition tok_can_end_stmt :: "nat \<Rightarrow> bool" where
  "tok_can_end_stmt k \<longleftrightarrow>
     k \<notin> {TK_COMMA, TK_DOT, TK_COLON, TK_PLUS, TK_MINUS, TK_BANG, TK_LBRACE, TK_LBRACKET, TK_DOLLAR, TK_EOL, 0}"

definition tok_can_begin_stmt :: "nat \<Rightarrow> bool" where
  "tok_can_begin_stmt k \<longleftrightarrow>
     k \<notin> {TK_COMMA, TK_DOT, TK_COLON, TK_PLUS, TK_MINUS, TK_BANG, TK_LBRACE, TK_RBRACE, TK_LBRACKET, TK_RBRACKET,
           TK_PERCENT, TK_INTEGER, TK_FLOAT, TK_DATE, TK_DURATION, TK_STR, TK_MULTI_LINE_STR, TK_ERROR, TK_EOL, 0}"

abbreviation EOL_BRACE_MAX :: nat where
  "EOL_BRACE_MAX \<equiv> 256"

record yystate =
  scanner :: lexer
  g_prev_can_end :: bool
  g_prev_kind :: nat
  g_buffered :: "(nat \<times> Token) option"
  g_brace_is_macro :: "bool list"
  g_brace_depth :: nat

definition no_token :: Token where
  "no_token = \<lparr>tk_kind = 0, tk_start = zero_pos, tk_end = zero_pos, tk_text = None\<rparr>"

definition eol_token :: Token where
  "eol_token = \<lparr>tk_kind = TK_EOL, tk_start = zero_pos, tk_end = zero_pos, tk_text = None\<rparr>"

text \<open>The state a parse starts from (\<open>install_parse_globals\<close>); what the static arrays keep from an
  earlier parse is written before it is read.\<close>

definition lexer_start :: "string \<Rightarrow> lexer" where
  "lexer_start src =
     \<lparr>yy_input = c_str src, yy_start = INITIAL, yylineno = 1, yycolumn = 0, tok_sl = 0, tok_sc = 0,
      mfrag_sl = 0, mfrag_sc = 0, str_buf = [], g_pending_newline = False, yylval = no_token,
      lex_acc = lex_start, yyout = []\<rparr>"

definition reset_eol_state :: "lexer \<Rightarrow> yystate" where
  "reset_eol_state l =
     \<lparr>scanner = l, g_prev_can_end = False, g_prev_kind = 0, g_buffered = None,
      g_brace_is_macro = replicate EOL_BRACE_MAX False, g_brace_depth = 0\<rparr>"

definition yylex_start :: "string \<Rightarrow> yystate" where
  "yylex_start src = reset_eol_state (lexer_start src)"

text \<open>The next real token, with whether a line break stood before it: the one held back, or the
  scanner's, or at the end of input the brace an open body lacks.\<close>

definition next_token :: "yystate \<Rightarrow> yystate \<times> nat \<times> bool" where
  "next_token st =
     (case g_buffered st of
        Some (k, v) \<Rightarrow> (st\<lparr>g_buffered := None, scanner := (scanner st)\<lparr>yylval := v\<rparr>\<rparr>, k, False)
      | None \<Rightarrow>
          (case raw_yylex ((scanner st)\<lparr>g_pending_newline := False\<rparr>) of
             (l, k) \<Rightarrow>
               if k = 0 \<and> 0 < g_brace_depth st
               then (let p = LspPos (end_line l) (end_column l) in
                     (st\<lparr>scanner := l\<lparr>yylval :=
                        \<lparr>tk_kind = TK_RBRACE, tk_start = p, tk_end = p, tk_text = Some ''}''\<rparr>\<rparr>\<rparr>,
                      TK_RBRACE, g_pending_newline l))
               else (st\<lparr>scanner := l\<rparr>, k, g_pending_newline l)))"

definition macro_close :: "yystate \<Rightarrow> nat \<Rightarrow> bool" where
  "macro_close st k \<longleftrightarrow>
     k = TK_RBRACE \<and> 0 < g_brace_depth st \<and> g_brace_depth st \<le> EOL_BRACE_MAX \<and> g_brace_is_macro st ! (g_brace_depth st - 1)"

definition needs_eol :: "yystate \<Rightarrow> nat \<Rightarrow> bool \<Rightarrow> bool" where
  "needs_eol st k newline_before \<longleftrightarrow>
     g_prev_can_end st \<and>
     (newline_before \<and> tok_can_begin_stmt k \<or> k = TK_RBRACE \<and> \<not> macro_close st k \<or> k = 0)"

definition track_braces :: "nat \<Rightarrow> yystate \<Rightarrow> yystate" where
  "track_braces k st =
     (if k = TK_LBRACE
      then st\<lparr>g_brace_is_macro := (if g_brace_depth st < EOL_BRACE_MAX
                then (g_brace_is_macro st)[g_brace_depth st := (g_prev_kind st = TK_DOLLAR)] else g_brace_is_macro st),
              g_brace_depth := g_brace_depth st + 1\<rparr>
      else if k = TK_RBRACE \<and> 0 < g_brace_depth st then st\<lparr>g_brace_depth := g_brace_depth st - 1\<rparr>
      else st)"

definition yylex :: "yystate \<Rightarrow> yystate \<times> nat" where
  "yylex st =
     (case next_token st of
        (st1, k, nl) \<Rightarrow>
          if needs_eol st1 k nl
          then (st1\<lparr>g_buffered := Some (k, yylval (scanner st1)), g_prev_can_end := False,
                    scanner := (scanner st1)\<lparr>yylval := eol_token\<rparr>\<rparr>, TK_EOL)
          else ((track_braces k st1)\<lparr>g_prev_kind := k, g_prev_can_end := tok_can_end_stmt k\<rparr>, k))"

text \<open>The first \<open>n\<close> tokens the parser gets, and the state after asking for them.\<close>

fun yylex_calls :: "nat \<Rightarrow> yystate \<Rightarrow> (nat \<times> Token) list \<times> yystate" where
  "yylex_calls 0 st = ([], st)"
| "yylex_calls (Suc n) st =
     (case yylex st of
        (st1, k) \<Rightarrow> (case yylex_calls n st1 of (ks, st2) \<Rightarrow> ((k, yylval (scanner st1)) # ks, st2)))"

subsection \<open>What the patterns match\<close>

lemma list_all_none [simp]: "list_all (\<lambda>c. False) v \<longleftrightarrow> v = []"
  by (cases v) auto

lemma lang_some_of: "lang (some_of P) w \<longleftrightarrow> w \<noteq> [] \<and> list_all P w"
proof
  assume "w \<noteq> [] \<and> list_all P w"
  then have "w = [hd w] @ tl w" "lang (Chars P) [hd w]" "lang (Many P) (tl w)"
    by (cases w; simp)+
  then show "lang (some_of P) w"
    unfolding lang.simps(3) by blast
qed auto

lemma lang_lit [simp]: "lang (lit w) v \<longleftrightarrow> v = w"
proof (induction w arbitrary: v rule: lit.induct)
  case (3 c d cs)
  then show ?case
    by (auto simp: Cons_eq_append_conv)
qed auto

text \<open>Patterns that never match a newline.\<close>

fun avoids_newline :: "rx \<Rightarrow> bool" where
  "avoids_newline (Chars P) \<longleftrightarrow> \<not> P line_feed"
| "avoids_newline (Many P) \<longleftrightarrow> \<not> P line_feed"
| "avoids_newline (Seq a b) \<longleftrightarrow> avoids_newline a \<and> avoids_newline b"
| "avoids_newline (Alt a b) \<longleftrightarrow> avoids_newline a \<and> avoids_newline b"
| "avoids_newline (Opt a) \<longleftrightarrow> avoids_newline a"

lemma lang_avoids_newline: "avoids_newline r \<Longrightarrow> lang r w \<Longrightarrow> line_feed \<notin> set w"
  by (induction r arbitrary: w) (auto simp: list_all_iff)

lemma avoids_lit [simp]: "avoids_newline (lit w) \<longleftrightarrow> line_feed \<notin> set w"
  by (induction w rule: lit.induct) auto

lemma keywords_no_newline: "list_all (\<lambda>(w, k). line_feed \<notin> set w) lexer_keywords"
  by (simp add: lexer_keywords_def)

abbreviation newline_rule :: "lex_rule \<Rightarrow> bool" where
  "newline_rule a \<equiv> a = New_Line \<or> a = Fragment_Line \<or> a = Str_Line"

lemma initial_newlines:
  "(r, a) \<in> set initial_rules \<Longrightarrow>
     if newline_rule a then r = Chars (\<lambda>c. c = line_feed) else avoids_newline r"
  using keywords_no_newline
  by (auto simp: initial_rules_def list_all_iff date_rx_def duration_rx_def digit_def ident_char_def ident_start_def
      blank_def numeral_eq_Suc)

lemma rules_newlines:
  assumes "(r, a) \<in> set (rules c)"
  shows "if newline_rule a then \<forall>w. lang r w \<longleftrightarrow> w = [line_feed] else avoids_newline r"
proof (cases c)
  case INITIAL
  then show ?thesis
    using initial_newlines assms by fastforce
qed (use assms in \<open>auto simp: string_rules_def\<close>)

lemma string_condition: "(r, a) \<in> set (rules c) \<Longrightarrow> a = Str_Line \<Longrightarrow> c = DQUOTE \<or> c = SQUOTE"
  by (cases c) (auto simp: initial_rules_def)

lemma rules_no_echo: "(r, a) \<in> set (rules c) \<Longrightarrow> a \<noteq> Echo"
  by (cases c) (auto simp: initial_rules_def string_rules_def)

lemma best_match_echo:
  "best_match s rs = (n, Echo) \<Longrightarrow> \<forall>(r, a) \<in> set rs. a \<noteq> Echo \<Longrightarrow>
   n = 1 \<and> (\<forall>(r, a) \<in> set rs. \<forall>k. 1 \<le> k \<longrightarrow> k \<le> length s \<longrightarrow> \<not> lang r (take k s))"
proof (induction rs arbitrary: n)
  case (Cons ra rs)
  obtain r a where ra: "ra = (r, a)"
    by fastforce
  obtain m b where rest: "best_match s rs = (m, b)"
    by fastforce
  have not: "\<not> (lens r s \<noteq> [] \<and> m \<le> fold max (lens r s) 0)"
    using Cons.prems by (auto simp: ra rest)
  then have nb: "n = m" "b = Echo"
    using Cons.prems(1) by (auto simp: ra rest Let_def)
  then have m: "m = 1" and IH: "\<forall>(r, a) \<in> set rs. \<forall>k. 1 \<le> k \<longrightarrow> k \<le> length s \<longrightarrow> \<not> lang r (take k s)"
    using Cons.IH [of m] rest Cons.prems(2) by auto
  have "\<not> lang r (take k s)" if k: "1 \<le> k" "k \<le> length s" for k
  proof
    assume "lang r (take k s)"
    then have mem: "k \<in> set (lens r s)"
      using k by (simp add: lens_lang)
    then have "lens r s \<noteq> []"
      by auto
    then have "k \<le> fold max (lens r s) 0"
      using mem by (simp add: fold_max_Max)
    then show False
      using not m k \<open>lens r s \<noteq> []\<close> by simp
  qed
  then show ?case
    using IH nb m by (simp add: ra)
qed simp

text \<open>The default rule copies only a backslash that ends a line or the text inside a string.\<close>

lemma echo_condition:
  assumes "best_match s (rules c) = (n, Echo)" and "s \<noteq> []"
  shows "n = 1 \<and> (c = DQUOTE \<or> c = SQUOTE) \<and> hd s = CHR 0x5C \<and> (tl s = [] \<or> hd (tl s) = line_feed)"
proof -
  have none: "\<And>r a k. (r, a) \<in> set (rules c) \<Longrightarrow> 1 \<le> k \<Longrightarrow> k \<le> length s \<Longrightarrow> \<not> lang r (take k s)"
    and n: "n = 1"
    using best_match_echo [OF assms(1)] rules_no_echo by auto
  obtain x xs where s: "s = x # xs"
    using assms(2) by (cases s) auto
  have one: "\<not> lang r [x]" if "(r, a) \<in> set (rules c)" for r a
    using none [OF that, of 1] by (simp add: s)
  have two: "\<not> lang r [x, y]" if "(r, a) \<in> set (rules c)" "xs = y # ys" for r a y ys
    using none [OF that(1), of 2] by (simp add: s that(2))
  have "c \<noteq> INITIAL"
  proof
    assume c: "c = INITIAL"
    have "(Chars (\<lambda>c. c = line_feed), New_Line) \<in> set (rules c)" "(Chars (\<lambda>c. c \<noteq> line_feed), Emit_Plain TK_ERROR) \<in> set (rules c)"
      by (simp_all add: c initial_rules_def)
    from one [OF this(1)] one [OF this(2)] show False
      by simp
  qed
  moreover have "c \<noteq> BLOCK_COMMENT"
  proof
    assume c: "c = BLOCK_COMMENT"
    have "(Chars (\<lambda>c. c = line_feed), Fragment_Line) \<in> set (rules c)"
      "(some_of (\<lambda>c. c \<noteq> CHR ''*'' \<and> c \<noteq> line_feed), Fragment) \<in> set (rules c)" "(lit ''*'', Fragment) \<in> set (rules c)"
      by (simp_all add: c)
    from one [OF this(1)] one [OF this(2)] one [OF this(3)] show False
      by (simp add: lang_some_of del: lang.simps(3))
  qed
  moreover have "c \<noteq> SCISSORS"
  proof
    assume c: "c = SCISSORS"
    have "(Chars (\<lambda>c. c = line_feed), Fragment_Line) \<in> set (rules c)"
      "(some_of (\<lambda>c. c \<noteq> CHR ''-'' \<and> c \<noteq> line_feed), Fragment) \<in> set (rules c)" "(lit ''-'', Fragment) \<in> set (rules c)"
      by (simp_all add: c)
    from one [OF this(1)] one [OF this(2)] one [OF this(3)] show False
      by (simp add: lang_some_of del: lang.simps(3))
  qed
  ultimately have c: "c = DQUOTE \<or> c = SQUOTE"
    by (cases c) auto
  then obtain q where q: "rules c = string_rules q"
    by auto
  have "(lit [q], Close_Str q) \<in> set (rules c)" "(Chars (\<lambda>c. c = line_feed), Str_Line) \<in> set (rules c)"
    "(some_of (\<lambda>c. c \<noteq> q \<and> c \<noteq> CHR 0x5C \<and> c \<noteq> line_feed), Fragment) \<in> set (rules c)"
    and esc: "(Seq (lit [CHR 0x5C]) (Chars (\<lambda>c. c \<noteq> line_feed)), Fragment) \<in> set (rules c)"
    by (simp_all add: q string_rules_def)
  from one [OF this(1)] one [OF this(2)] one [OF this(3)] have x: "x = CHR 0x5C"
    by (auto simp: lang_some_of simp del: lang.simps(3))
  have "xs = [] \<or> hd xs = line_feed"
  proof (cases xs)
    case (Cons y ys)
    then show ?thesis
      using two [OF esc Cons] x by (auto simp: Cons_eq_append_conv)
  qed simp
  then show ?thesis
    using n c x by (simp add: s)
qed

subsection \<open>What the scanner writes to the output\<close>

lemma lex_action_output: "a \<noteq> Echo \<Longrightarrow> yyout (fst (lex_action a w l)) = yyout l"
  by (cases a) (simp_all add: lex_simps Let_def)

text \<open>The default rule writes to the stream the messages go to; it runs only on a backslash that ends
  a line or the text inside a string, and there it does run.\<close>

lemma scanner_output:
  assumes "yy_input l \<noteq> []"
  shows "yyout (fst (lex_step l)) = yyout l \<or>
    (yy_start l = DQUOTE \<or> yy_start l = SQUOTE) \<and> hd (yy_input l) = CHR 0x5C \<and>
    (tl (yy_input l) = [] \<or> hd (tl (yy_input l)) = line_feed)"
proof -
  obtain n a where m: "best_match (yy_input l) (rules (yy_start l)) = (n, a)"
    by fastforce
  have o: "yyout (scan_match n l) = yyout l"
    by (simp add: scan_match_def Let_def)
  show ?thesis
  proof (cases "a = Echo")
    case True
    then show ?thesis
      using echo_condition [OF m [unfolded True] assms] by simp
  next
    case False
    then show ?thesis
      using lex_action_output [OF False] by (simp add: lex_step_def m o)
  qed
qed

lemma string_backslash_echoed:
  assumes "yy_start l = DQUOTE" and "yy_input l = CHR 0x5C # line_feed # r"
  shows "yyout (fst (lex_step l)) = yyout l @ [CHR 0x5C]"
proof -
  have "best_match (yy_input l) (rules DQUOTE) = (1, Echo)"
    by (simp add: assms(2) string_rules_def)
  then show ?thesis
    using assms by (simp add: lex_step_def scan_match_def Let_def)
qed

end
