(* ===== verification/Lexer_Spans.thy ===== *)
theory Lexer_Spans
  imports Lexer
begin

text \<open>
  Where the recorded tokens lie.  Every span is a piece of the text, from one byte offset to a later
  one, at the positions of these offsets and with the bytes between them as its text; the pieces do
  not overlap and follow each other.  This holds after any number of calls of \<open>yylex\<close>, so also when
  the parser gives up before the end of the text.
\<close>

subsection \<open>Pieces of a text\<close>

definition text_slice :: "string \<Rightarrow> nat \<Rightarrow> nat \<Rightarrow> string" where
  "text_slice s i j = take (j - i) (drop i s)"

definition pos_at :: "string \<Rightarrow> nat \<Rightarrow> LspPos" where
  "pos_at s i = pos_word (pos_after (0, 0) (take i s))"

lemma slice_append: "i \<le> j \<Longrightarrow> j \<le> k \<Longrightarrow> text_slice s i j @ text_slice s j k = text_slice s i k"
proof -
  assume "i \<le> j" "j \<le> k"
  then have "k - i = (j - i) + (k - j)" "j = (j - i) + i"
    by simp_all
  then show ?thesis
    unfolding text_slice_def by (metis add.commute drop_drop take_add)
qed

lemma slice_length: "j \<le> length s \<Longrightarrow> length (text_slice s i j) = j - i"
  by (simp add: text_slice_def)

lemma take_slice: "i \<le> j \<Longrightarrow> take j s = take i s @ text_slice s i j"
  using slice_append [of 0 i j s] by (simp add: text_slice_def)

lemma take_drop_slice: "take n (drop i s) = text_slice s i (i + n)"
  by (simp add: text_slice_def)

text \<open>A lexeme of a kind: what the rules of the kind match, or text between delimiters.\<close>

definition delimited :: "string \<Rightarrow> string \<Rightarrow> string \<Rightarrow> bool" where
  "delimited a b w \<longleftrightarrow> (\<exists>v. w = a @ v @ b)"

definition one_line :: "nat \<Rightarrow> string \<Rightarrow> bool" where
  "one_line k w \<longleftrightarrow>
     (\<exists>r a. (r, a) \<in> set initial_rules \<and> lang r w \<and>
        (a = Emit_Kw k \<or> a = Emit_Plain k \<or> a = Comment_Line \<and> k = TK_LINE_COMMENT)) \<or>
     k = TK_STR \<and> line_feed \<notin> set w \<and> (delimited [CHR 0x22] [CHR 0x22] w \<or> delimited [CHR 0x27] [CHR 0x27] w)"

definition lexeme :: "nat \<Rightarrow> string \<Rightarrow> bool" where
  "lexeme k w \<longleftrightarrow>
     one_line k w \<or> k = TK_BLOCK_COMMENT \<and> delimited ''/*'' ''*/'' w
     \<or> k = TK_MULTI_LINE_STR \<and> delimited ''-8<-'' ''->8-'' w"

text \<open>The text a span carries: the lexeme itself, nothing for punctuation whose text nobody reads,
  and an incomplete text only when the lexeme outgrows the scanner's buffer.\<close>

definition text_of_span :: "nat \<Rightarrow> string option \<Rightarrow> string \<Rightarrow> bool" where
  "text_of_span k txt w \<longleftrightarrow>
     txt = Some w
     \<or> k \<in> {TK_LBRACE, TK_RBRACE, TK_BANG, TK_DOT, TK_COMMA} \<and> txt = None
     \<or> k \<in> {TK_BLOCK_COMMENT, TK_MULTI_LINE_STR, TK_STR} \<and> txt \<noteq> None \<and> 4095 \<le> length w"

definition span_at :: "string \<Rightarrow> TokenSpan \<Rightarrow> nat \<times> nat \<Rightarrow> bool" where
  "span_at s t ij \<longleftrightarrow>
     fst ij < snd ij \<and> snd ij \<le> length s \<and> tok_start t = pos_at s (fst ij) \<and> tok_end t = pos_at s (snd ij)
     \<and> lexeme (token_kind t) (text_slice s (fst ij) (snd ij))
     \<and> text_of_span (token_kind t) (tok_text t) (text_slice s (fst ij) (snd ij))"

definition spans_upto :: "string \<Rightarrow> nat \<Rightarrow> (nat \<times> nat) list \<Rightarrow> TokenSpan list \<Rightarrow> bool" where
  "spans_upto s n segs ts \<longleftrightarrow>
     list_all2 (span_at s) ts segs \<and> sorted_wrt (\<lambda>a b. snd a \<le> fst b) segs \<and> (\<forall>x \<in> set segs. snd x \<le> n)"

lemma spans_upto_push:
  assumes "spans_upto s i segs ts" and "span_at s t (i', j)" and "i \<le> i'"
  shows "spans_upto s j (segs @ [(i', j)]) (ts @ [t])"
proof -
  have "snd x \<le> i'" if "x \<in> set segs" for x
    using assms(1,3) that by (fastforce simp: spans_upto_def)
  moreover have "i' < j"
    using assms(2) by (simp add: span_at_def)
  moreover have "list_all2 (span_at s) (ts @ [t]) (segs @ [(i', j)])"
    using assms(1,2) by (simp add: spans_upto_def list_all2_appendI)
  ultimately show ?thesis
    using assms(1) by (auto simp: spans_upto_def sorted_wrt_append intro: less_imp_le le_less_trans)
qed

lemma spans_upto_mono: "spans_upto s i segs ts \<Longrightarrow> i \<le> j \<Longrightarrow> spans_upto s j segs ts"
  by (fastforce simp: spans_upto_def)

subsection \<open>The invariant\<close>

text \<open>How far the scanner has read.\<close>

definition read_upto :: "string \<Rightarrow> nat \<Rightarrow> lexer \<Rightarrow> bool" where
  "read_upto s i l \<longleftrightarrow>
     i \<le> length s \<and> yy_input l = drop i s \<and> 1 \<le> yylineno l
     \<and> pos_after (0, 0) (take i s) = (yylineno l - 1, yycolumn l)"

fun opener :: "start_condition \<Rightarrow> string" where
  "opener INITIAL = []"
| "opener BLOCK_COMMENT = ''/*''"
| "opener SCISSORS = ''-8<-''"
| "opener DQUOTE = [CHR 0x22]"
| "opener SQUOTE = [CHR 0x27]"

text \<open>Inside a comment or string: it began at \<open>i\<close> and is read up to \<open>j\<close>; the buffer has what was
  read, unless it overflowed or a stray backslash was copied out, after which the line or the text
  ends.\<close>

definition fragment_from :: "string \<Rightarrow> nat \<Rightarrow> nat \<Rightarrow> lexer \<Rightarrow> bool" where
  "fragment_from s i j l \<longleftrightarrow>
     i < j \<and> LspPos (mfrag_sl l) (mfrag_sc l) = pos_at s i
     \<and> (\<exists>v. text_slice s i j = opener (yy_start l) @ v)
     \<and> (yy_start l \<in> {DQUOTE, SQUOTE} \<longrightarrow> line_feed \<notin> set (text_slice s i j))
     \<and> (str_buf l = text_slice s i j \<or> 4095 \<le> length (text_slice s i j)
        \<or> yy_start l \<in> {DQUOTE, SQUOTE} \<and> (drop j s = [] \<or> hd (drop j s) = line_feed))"

definition lexing :: "string \<Rightarrow> nat \<Rightarrow> (nat \<times> nat) list \<Rightarrow> lexer \<Rightarrow> bool" where
  "lexing s j segs l \<longleftrightarrow>
     read_upto s j l
     \<and> (if yy_start l = INITIAL then spans_upto s j segs (g_tok_spans (lex_acc l))
        else \<exists>i. fragment_from s i j l \<and> spans_upto s i segs (g_tok_spans (lex_acc l)))"

lemma lexing_cong:
  "yy_input l' = yy_input l \<Longrightarrow> yy_start l' = yy_start l \<Longrightarrow> yylineno l' = yylineno l \<Longrightarrow>
   yycolumn l' = yycolumn l \<Longrightarrow> mfrag_sl l' = mfrag_sl l \<Longrightarrow> mfrag_sc l' = mfrag_sc l \<Longrightarrow>
   str_buf l' = str_buf l \<Longrightarrow> lex_acc l' = lex_acc l \<Longrightarrow> lexing s j segs l' \<longleftrightarrow> lexing s j segs l"
  by (simp add: lexing_def read_upto_def fragment_from_def)

lemma pos_after_one_line:
  "line_feed \<notin> set w \<Longrightarrow> pos_after (a, b) w = (a, b + length w)"
  by (induction w arbitrary: b) auto

text \<open>Reading a match without a newline, or a newline alone.\<close>

lemma scan_match_line:
  assumes "read_upto s j l" and "n \<le> length (yy_input l)" and "line_feed \<notin> set (take n (yy_input l))"
  shows "read_upto s (j + n) (scan_match n l)"
    and "LspPos (tok_sl (scan_match n l)) (tok_sc (scan_match n l)) = pos_at s j"
    and "take n (yy_input l) = text_slice s j (j + n)"
proof -
  have r: "j \<le> length s" "yy_input l = drop j s" "1 \<le> yylineno l" "pos_after (0, 0) (take j s) = (yylineno l - 1, yycolumn l)"
    using assms(1) by (simp_all add: read_upto_def)
  have no: "filter (\<lambda>c. c = line_feed) (take n (yy_input l)) = []"
    using assms(3) by (auto simp: filter_empty_conv)
  show sl: "take n (yy_input l) = text_slice s j (j + n)"
    by (simp add: r(2) text_slice_def)
  have "pos_after (0, 0) (take (j + n) s) = (yylineno l - 1, yycolumn l + n)"
    using assms(2,3) r by (simp add: take_add pos_after_append pos_after_one_line)
  then show "read_upto s (j + n) (scan_match n l)"
    using assms(2) r no by (simp add: read_upto_def scan_match_def Let_def add.commute)
  show "LspPos (tok_sl (scan_match n l)) (tok_sc (scan_match n l)) = pos_at s j"
    using no r(4) by (simp add: scan_match_def Let_def pos_at_def pos_word_def)
qed

lemma scan_match_newline:
  assumes "read_upto s j l" and "n \<le> length (yy_input l)" and "take n (yy_input l) = [line_feed]"
  shows "n = 1" and "read_upto s (j + 1) ((scan_match n l)\<lparr>yycolumn := 0\<rparr>)" and "text_slice s j (j + 1) = [line_feed]"
proof -
  have r: "j \<le> length s" "yy_input l = drop j s" "1 \<le> yylineno l" "pos_after (0, 0) (take j s) = (yylineno l - 1, yycolumn l)"
    using assms(1) by (simp_all add: read_upto_def)
  show n: "n = 1"
    using assms(2) arg_cong [OF assms(3), of length] by simp
  show sl: "text_slice s j (j + 1) = [line_feed]"
    using assms(3) by (simp add: n r(2) text_slice_def)
  have "take (j + 1) s = take j s @ [line_feed]"
    using sl take_slice [of j "j + 1" s] by simp
  then have "pos_after (0, 0) (take (j + 1) s) = (yylineno l, 0)"
    using r(3,4) by (simp add: pos_after_append)
  then show "read_upto s (j + 1) ((scan_match n l)\<lparr>yycolumn := 0\<rparr>)"
    using assms(2,3) r n by (simp add: read_upto_def scan_match_def Let_def add.commute)
qed

lemma scan_match_fields [simp]:
  "yy_start (scan_match n l) = yy_start l" "mfrag_sl (scan_match n l) = mfrag_sl l"
  "mfrag_sc (scan_match n l) = mfrag_sc l" "str_buf (scan_match n l) = str_buf l"
  "lex_acc (scan_match n l) = lex_acc l"
  by (simp_all add: scan_match_def Let_def)

lemma STR_APPEND_fields [simp]:
  "yy_input (STR_APPEND v l) = yy_input l" "yy_start (STR_APPEND v l) = yy_start l"
  "yylineno (STR_APPEND v l) = yylineno l" "yycolumn (STR_APPEND v l) = yycolumn l"
  "tok_sl (STR_APPEND v l) = tok_sl l" "tok_sc (STR_APPEND v l) = tok_sc l"
  "mfrag_sl (STR_APPEND v l) = mfrag_sl l" "mfrag_sc (STR_APPEND v l) = mfrag_sc l"
  "lex_acc (STR_APPEND v l) = lex_acc l"
  by (simp_all add: STR_APPEND_def)

lemma STR_APPEND_buffer:
  "str_buf l = w \<or> 4095 \<le> length w \<Longrightarrow> str_buf (STR_APPEND v l) = w @ v \<or> 4095 \<le> length (w @ v)"
  by (auto simp: STR_APPEND_def)

subsection \<open>Recording a token\<close>

lemma push_here_spans:
  assumes "read_upto s e l" and "i < e" and "LspPos sl sc = pos_at s i"
    and "spans_upto s i segs (g_tok_spans (lex_acc l))"
    and "lexeme k (text_slice s i e)" and "text_of_span k txt (text_slice s i e)"
  shows "spans_upto s e (segs @ [(i, e)]) (g_tok_spans (lex_acc (push_here k sl sc txt l)))"
proof -
  have "LspPos (end_line l) (end_column l) = pos_at s e" "e \<le> length s"
    using assms(1) by (simp_all add: read_upto_def end_line_def end_column_def pos_at_def pos_word_def)
  then have "span_at s \<lparr>token_kind = k, tok_start = LspPos sl sc, tok_end = LspPos (end_line l) (end_column l), tok_text = txt\<rparr> (i, e)"
    using assms by (simp add: span_at_def)
  from spans_upto_push [OF assms(4) this] show ?thesis
    by (simp add: push_here_def g_push_tok_span_def)
qed

lemma read_upto_cong:
  "yy_input l' = yy_input l \<Longrightarrow> yylineno l' = yylineno l \<Longrightarrow> yycolumn l' = yycolumn l \<Longrightarrow>
   read_upto s e l' \<longleftrightarrow> read_upto s e l"
  by (simp add: read_upto_def)

lemma record_token:
  assumes "read_upto s e l" and "i < e" and "LspPos sl sc = pos_at s i"
    and "spans_upto s i segs (g_tok_spans (lex_acc l))"
    and "lexeme k (text_slice s i e)" and "text_of_span k txt (text_slice s i e)"
    and l': "lex_acc l' = lex_acc (push_here k sl sc txt l)" "yy_start l' = INITIAL"
      "yy_input l' = yy_input l" "yylineno l' = yylineno l" "yycolumn l' = yycolumn l"
  shows "lexing s e (segs @ [(i, e)]) l'"
  using push_here_spans [OF assms(1-6)] read_upto_cong [OF l'(3-5), of s e] assms(1) l'(1,2)
  by (simp add: lexing_def)

lemma push_here_fields [simp]:
  "yy_input (push_here k sl sc txt l) = yy_input l" "yy_start (push_here k sl sc txt l) = yy_start l"
  "yylineno (push_here k sl sc txt l) = yylineno l" "yycolumn (push_here k sl sc txt l) = yycolumn l"
  by (simp_all add: push_here_def)

lemma push_here_update [simp]:
  "push_here k sl sc txt (l\<lparr>yy_start := c\<rparr>) = (push_here k sl sc txt l)\<lparr>yy_start := c\<rparr>"
  by (simp add: push_here_def end_line_def end_column_def)

subsection \<open>One rule between tokens\<close>

lemma initial_step:
  assumes l: "lexing s j segs l" "yy_start l = INITIAL"
    and n: "1 \<le> n" "n \<le> length (yy_input l)"
    and rule: "(r, a) \<in> set initial_rules" "lang r (take n (yy_input l))"
  shows "\<exists>segs'. lexing s (j + n) segs' (fst (lex_action a (take n (yy_input l)) (scan_match n l)))"
proof -
  let ?w = "take n (yy_input l)" and ?m = "scan_match n l"
  have r: "read_upto s j l" and sp: "spans_upto s j segs (g_tok_spans (lex_acc l))"
    using l by (simp_all add: lexing_def)
  show ?thesis
  proof (cases "newline_rule a")
    case True
    then have a: "a = New_Line"
      using rule(1) by (auto simp: initial_rules_def)
    have "?w = [line_feed]"
      using rule rules_newlines [of r a INITIAL] by (simp add: a)
    note nl = scan_match_newline [OF r n(2) this]
    have "lexing s (j + 1) segs (fst (lex_action a ?w ?m))"
      using nl(2) l(2) spans_upto_mono [OF sp, of "j + 1"] by (simp add: a lexing_def read_upto_def)
    then show ?thesis
      using nl(1) by blast
  next
    case False
    then have av: "line_feed \<notin> set ?w"
      using rule rules_newlines [of r a INITIAL] lang_avoids_newline by auto
    note line = scan_match_line [OF r n(2) av]
    have lt: "j < j + n"
      using n(1) by simp
    have spm: "spans_upto s j segs (g_tok_spans (lex_acc ?m))"
      using sp by simp
    have quiet: "lexing s (j + n) segs l'" if "yy_start l' = INITIAL" "lex_acc l' = lex_acc l" "yy_input l' = yy_input ?m"
      "yylineno l' = yylineno ?m" "yycolumn l' = yycolumn ?m" for l'
      using that line(1) spans_upto_mono [OF sp, of "j + n"] read_upto_cong [OF that(3-5), of s "j + n"] by (simp add: lexing_def)
    have opened: "lexing s (j + n) segs (open_fragment c v ?m)" if "opener c = v" "?w = v" "c \<noteq> INITIAL" for c v
    proof -
      have "length v \<le> 4"
        using that(1) by (cases c) auto
      then have "str_buf (open_fragment c v ?m) = v"
        by (simp add: open_fragment_def STR_APPEND_def)
      then have "fragment_from s j (j + n) (open_fragment c v ?m)"
        using that lt line(2,3) av by (simp add: fragment_from_def) (simp add: open_fragment_def)
      moreover have "read_upto s (j + n) (open_fragment c v ?m)"
        using line(1) by (simp add: open_fragment_def read_upto_def)
      ultimately show ?thesis
        using sp that(3) by (auto simp: lexing_def) (auto simp: open_fragment_def)
    qed
    have one: "one_line k ?w" if "a = Emit_Kw k \<or> a = Emit_Plain k \<or> a = Comment_Line \<and> k = TK_LINE_COMMENT" for k
      using that rule unfolding one_line_def by blast
    have rec: "lexing s (j + n) (segs @ [(j, j + n)]) l'"
      if "lex_acc l' = lex_acc (push_here k (tok_sl ?m) (tok_sc ?m) tx ?m)" "one_line k ?w" "text_of_span k tx ?w"
        "yy_start l' = INITIAL" "yy_input l' = yy_input ?m" "yylineno l' = yylineno ?m" "yycolumn l' = yycolumn ?m" for l' k tx
      by (rule record_token [OF line(1) lt line(2) spm _ _ that(1,4-7)]) (use that(2,3) line(3) in \<open>simp_all add: lexeme_def\<close>)
    show ?thesis
    proof (cases a)
      case Skip
      then show ?thesis
        using quiet [of ?m] l(2) by auto
    next
      case Comment_Line
      then show ?thesis
        using rec [of "fst (lex_action a ?w ?m)" TK_LINE_COMMENT "Some ?w"] one l(2)
        by (auto simp: store_semantic_token_def text_of_span_def)
    next
      case (Emit_Kw k)
      then show ?thesis
        using rec [of "fst (lex_action a ?w ?m)" k "Some ?w"] one [of k] l(2)
        by (auto simp: emit_kw_def text_of_span_def)
    next
      case (Emit_Plain k)
      consider "k \<in> {TK_IDENT, TK_LBRACKET, TK_RBRACKET}" | "k \<notin> {TK_IDENT, TK_LBRACKET, TK_RBRACKET}" "k \<in> {TK_LBRACE, TK_RBRACE, TK_BANG, TK_DOT, TK_COMMA}"
        | "k \<notin> {TK_IDENT, TK_LBRACKET, TK_RBRACKET}" "k \<notin> {TK_LBRACE, TK_RBRACE, TK_BANG, TK_DOT, TK_COMMA}"
        by blast
      then show ?thesis
      proof cases
        case 1
        then show ?thesis
          using rec [of "fst (lex_action a ?w ?m)" k "Some ?w"] one [of k] l(2) Emit_Plain
          by (auto simp: emit_plain_def text_of_span_def)
      next
        case 2
        then have "fst (lex_action a ?w ?m) = (push_here k (tok_sl ?m) (tok_sc ?m) None ?m)\<lparr>yylval := token_here k (tok_sl ?m) (tok_sc ?m) None ?m\<rparr>"
          by (auto simp: Emit_Plain emit_plain_def)
        moreover have "text_of_span k None ?w"
          using 2 by (simp add: text_of_span_def)
        ultimately show ?thesis
          using rec [of "fst (lex_action a ?w ?m)" k None] one [of k] l(2) Emit_Plain
          by auto
      next
        case 3
        then have "fst (lex_action a ?w ?m) = ?m\<lparr>yylval := token_here k (tok_sl ?m) (tok_sc ?m) None ?m\<rparr>"
          by (auto simp: Emit_Plain emit_plain_def)
        then show ?thesis
          using quiet [of "fst (lex_action a ?w ?m)"] l(2) by auto
      qed
    next
      case Open_Comment
      then have "?w = ''/*''"
        using rule by (auto simp: initial_rules_def)
      then show ?thesis
        using opened [of BLOCK_COMMENT "''/*''"] Open_Comment by auto
    next
      case Open_Scissors
      then have "?w = ''-8<-''"
        using rule by (auto simp: initial_rules_def)
      then show ?thesis
        using opened [of SCISSORS "''-8<-''"] Open_Scissors by auto
    next
      case (Open_Str q)
      then have "?w = [q]" "q = CHR 0x22 \<or> q = CHR 0x27"
        using rule by (auto simp: initial_rules_def)
      then show ?thesis
        using opened [of "quote_condition q" "[q]"] Open_Str by (auto simp: quote_condition_def)
    qed (use False rule(1) in \<open>auto simp: initial_rules_def\<close>)
  qed
qed

subsection \<open>One rule inside a comment or string\<close>

lemma fragment_extends:
  assumes f: "fragment_from s i j l" and e: "j \<le> e" "e \<le> length s"
  shows "text_slice s i e = text_slice s i j @ text_slice s j e" and "\<exists>v. text_slice s i e = opener (yy_start l) @ v"
proof -
  have "i < j"
    using f by (simp add: fragment_from_def)
  then show sl: "text_slice s i e = text_slice s i j @ text_slice s j e"
    using slice_append [of i j e s] e by simp
  obtain v where "text_slice s i j = opener (yy_start l) @ v"
    using f by (auto simp: fragment_from_def)
  then show "\<exists>v. text_slice s i e = opener (yy_start l) @ v"
    by (intro exI [of _ "v @ text_slice s j e"]) (simp add: sl)
qed

lemma fragment_step:
  assumes l: "lexing s j segs l" "yy_start l \<noteq> INITIAL"
    and n: "1 \<le> n" "n \<le> length (yy_input l)"
    and rule: "(r, a) \<in> set (rules (yy_start l))" "lang r (take n (yy_input l))"
  shows "\<exists>segs'. lexing s (j + n) segs' (fst (lex_action a (take n (yy_input l)) (scan_match n l)))"
proof -
  let ?w = "take n (yy_input l)" and ?m = "scan_match n l"
  obtain i where f: "fragment_from s i j l" and sp: "spans_upto s i segs (g_tok_spans (lex_acc l))" and r: "read_upto s j l"
    using l by (auto simp: lexing_def)
  have ij: "i < j" and mf: "LspPos (mfrag_sl l) (mfrag_sc l) = pos_at s i"
    using f by (simp_all add: fragment_from_def)
  have e: "j + n \<le> length s" "yy_input l = drop j s"
    using r n(2) by (auto simp: read_upto_def)
  have w: "?w = text_slice s j (j + n)"
    by (simp add: e(2) text_slice_def)
  note ext = fragment_extends [OF f _ e(1), simplified]
  show ?thesis
  proof (cases "newline_rule a")
    case True
    then have "?w = [line_feed]"
      using rule rules_newlines [of r a] by auto
    note nl = scan_match_newline [OF r n(2) this] and wnl = this
    show ?thesis
    proof (cases "a = Str_Line")
      case True
      have "lexing s (j + 1) segs (fst (lex_action a ?w ?m))"
        using nl(2) spans_upto_mono [OF sp, of "j + 1"] ij
        by (simp add: True lexing_def read_upto_def emit_plain_def tok_simps)
      then show ?thesis
        using nl(1) by blast
    next
      case False
      then have a: "a = Fragment_Line"
        using True rule(1) l(2) by (cases "yy_start l") (auto simp: string_rules_def)
      then have c: "yy_start l \<notin> {DQUOTE, SQUOTE}"
        using rule(1) by (auto simp: string_rules_def)
      have "str_buf ?m = text_slice s i j \<or> 4095 \<le> length (text_slice s i j)"
        using f c by (auto simp: fragment_from_def)
      moreover have "text_slice s i (j + 1) = text_slice s i j @ ?w"
        using ext(1) w unfolding nl(1) by simp
      ultimately have "str_buf (STR_APPEND ?w ?m) = text_slice s i (j + 1) \<or> 4095 \<le> length (text_slice s i (j + 1))"
        using STR_APPEND_buffer [of ?m "text_slice s i j" ?w] by (simp only:)
      then have "fragment_from s i (j + 1) ((STR_APPEND ?w ?m)\<lparr>yycolumn := 0\<rparr>)"
        using f c ext(2) nl(1) by (auto simp: fragment_from_def)
      moreover have "read_upto s (j + 1) ((STR_APPEND ?w ?m)\<lparr>yycolumn := 0\<rparr>)"
        using nl(2) by (simp add: read_upto_def)
      ultimately have "lexing s (j + 1) segs (fst (lex_action a ?w ?m))"
        using sp l(2) by (auto simp: a lexing_def)
      then show ?thesis
        using nl(1) by blast
    qed
  next
    case False
    then have av: "line_feed \<notin> set ?w"
      using rule rules_newlines [of r a] lang_avoids_newline by auto
    note line = scan_match_line [OF r n(2) av]
    have "drop j s \<noteq> []" "hd (drop j s) \<in> set ?w"
      using n by (cases n; cases "drop j s"; simp add: e(2))+
    then have buf: "str_buf l = text_slice s i j \<or> 4095 \<le> length (text_slice s i j)"
      using f av by (auto simp: fragment_from_def)
    have ap: "str_buf (STR_APPEND ?w ?m) = text_slice s i (j + n) \<or> 4095 \<le> length (text_slice s i (j + n))"
      using STR_APPEND_buffer [of ?m "text_slice s i j" ?w] buf ext(1) w by simp
    have nls: "yy_start l \<in> {DQUOTE, SQUOTE} \<longrightarrow> line_feed \<notin> set (text_slice s i (j + n))"
      using f av by (auto simp: fragment_from_def ext(1) w)
    have closed: "lexing s (j + n) (segs @ [(i, j + n)]) l'"
      if "lex_acc l' = lex_acc (push_here k (mfrag_sl l) (mfrag_sc l) (Some (str_buf (STR_APPEND ?w ?m))) (STR_APPEND ?w ?m))"
        "lexeme k (text_slice s i (j + n))" "k \<in> {TK_BLOCK_COMMENT, TK_MULTI_LINE_STR, TK_STR}"
        "yy_start l' = INITIAL" "yy_input l' = yy_input ?m" "yylineno l' = yylineno ?m" "yycolumn l' = yycolumn ?m" for l' k
    proof (rule record_token [of s "j + n" "STR_APPEND ?w ?m" i, OF _ _ mf _ that(2) _ that(1,4)])
      show "read_upto s (j + n) (STR_APPEND ?w ?m)"
        using line(1) by (simp add: read_upto_def)
      show "text_of_span k (Some (str_buf (STR_APPEND ?w ?m))) (text_slice s i (j + n))"
        using ap that(3) by (auto simp: text_of_span_def)
    qed (use ij sp that(5-7) in simp_all)
    have delim: "delimited (opener (yy_start l)) ?w (text_slice s i (j + n))"
    proof -
      obtain v where "text_slice s i j = opener (yy_start l) @ v"
        using f by (auto simp: fragment_from_def)
      then show ?thesis
        by (simp add: delimited_def ext(1) w)
    qed
    consider "a = Close_Comment" "yy_start l = BLOCK_COMMENT" "?w = ''*/''"
      | "a = Close_Scissors" "yy_start l = SCISSORS" "?w = ''->8-''"
      | q where "a = Close_Str q" "?w = [q]" "yy_start l = DQUOTE \<and> q = CHR 0x22 \<or> yy_start l = SQUOTE \<and> q = CHR 0x27"
      | "a = Fragment"
      using False rule l(2) by (cases "yy_start l") (auto simp: string_rules_def)
    then show ?thesis
    proof cases
      case 1
      have "lexing s (j + n) (segs @ [(i, j + n)]) (fst (lex_action a ?w ?m))"
        by (rule closed [of _ TK_BLOCK_COMMENT]) (use 1 delim in \<open>simp_all add: lexeme_def Let_def\<close>)
      then show ?thesis ..
    next
      case 2
      have "lexing s (j + n) (segs @ [(i, j + n)]) (fst (lex_action a ?w ?m))"
        by (rule closed [of _ TK_MULTI_LINE_STR]) (use 2 delim in \<open>simp_all add: lexeme_def Let_def emit_kw_mfrag_text_def\<close>)
      then show ?thesis ..
    next
      case 3
      have "lexing s (j + n) (segs @ [(i, j + n)]) (fst (lex_action a ?w ?m))"
        by (rule closed [of _ TK_STR])
          (use 3 delim nls in \<open>auto simp: lexeme_def one_line_def Let_def emit_kw_mfrag_text_def\<close>)
      then show ?thesis ..
    next
      case 4
      have "fragment_from s i (j + n) (STR_APPEND ?w ?m)"
        using f ap nls ext(2) by (auto simp: fragment_from_def)
      then have "lexing s (j + n) segs (fst (lex_action a ?w ?m))"
        using 4 line(1) sp l(2) by (auto simp: lexing_def read_upto_def)
      then show ?thesis ..
    qed
  qed
qed

lemma echo_step:
  assumes l: "lexing s j segs l" and ne: "yy_input l \<noteq> []"
    and m: "best_match (yy_input l) (rules (yy_start l)) = (n, Echo)"
  shows "lexing s (j + n) segs (fst (lex_action Echo (take n (yy_input l)) (scan_match n l)))"
proof -
  have c: "n = 1" "yy_start l \<in> {DQUOTE, SQUOTE}" "hd (yy_input l) = CHR 0x5C"
    "tl (yy_input l) = [] \<or> hd (tl (yy_input l)) = line_feed"
    using echo_condition [OF m ne] by auto
  obtain i where f: "fragment_from s i j l" and sp: "spans_upto s i segs (g_tok_spans (lex_acc l))" and r: "read_upto s j l"
    using l c(2) by (auto simp: lexing_def)
  have n: "n \<le> length (yy_input l)" and w: "take n (yy_input l) = [CHR 0x5C]"
    using ne c(1,3) by (cases "yy_input l"; simp)+
  have e: "j + n \<le> length s" "yy_input l = drop j s"
    using r n by (auto simp: read_upto_def)
  note line = scan_match_line [OF r n, unfolded w, simplified]
  note ext = fragment_extends [OF f _ e(1), simplified]
  have "drop (j + n) s = tl (yy_input l)"
    by (simp add: e(2) c(1) drop_Suc tl_drop)
  then have "drop (j + n) s = [] \<or> hd (drop (j + n) s) = line_feed"
    using c(4) by simp
  moreover have "line_feed \<notin> set (text_slice s i (j + n))"
    using f c(2) by (auto simp: fragment_from_def ext(1) line(3) [symmetric])
  ultimately have "fragment_from s i (j + n) (scan_match n l)"
    using f c(2) ext(2) by (auto simp: fragment_from_def)
  then show ?thesis
    using line(1) sp c(2) by (auto simp: lexing_def read_upto_def fragment_from_def)
qed

subsection \<open>From rules to tokens\<close>

lemma lex_step_lexing:
  assumes l: "lexing s j segs l" and ne: "yy_input l \<noteq> []"
  obtains j' segs' where "j < j'" "lexing s j' segs' (fst (lex_step l))"
proof -
  obtain n a where m: "best_match (yy_input l) (rules (yy_start l)) = (n, a)"
    by fastforce
  have n: "1 \<le> n" "n \<le> length (yy_input l)"
    using best_match_length [OF ne m] by simp_all
  have step: "lex_step l = lex_action a (take n (yy_input l)) (scan_match n l)"
    by (simp add: lex_step_def m)
  have "\<exists>segs'. lexing s (j + n) segs' (fst (lex_step l))"
  proof (cases "a = Echo")
    case True
    then show ?thesis
      using echo_step [OF l ne] m step by auto
  next
    case False
    then obtain r where r: "(r, a) \<in> set (rules (yy_start l))" "lang r (take n (yy_input l))"
      using best_match_chosen [OF m] by (force simp: longest_def in_set_conv_nth)
    show ?thesis
    proof (cases "yy_start l = INITIAL")
      case True
      then show ?thesis
        using initial_step [OF l True n] r step by simp
    next
      case False
      then show ?thesis
        using fragment_step [OF l False n r] step by simp
    qed
  qed
  then show ?thesis
    using that [of "j + n"] n by auto
qed

lemma lex_eof_lexing: "lexing s j segs l \<Longrightarrow> lexing s j segs (fst (lex_eof l))"
proof (cases "yy_start l = INITIAL")
  case False
  assume "lexing s j segs l"
  then obtain i where "i < j" "spans_upto s i segs (g_tok_spans (lex_acc l))" "read_upto s j l"
    using False by (auto simp: lexing_def fragment_from_def)
  moreover from this have "spans_upto s j segs (g_tok_spans (lex_acc l))"
    by (auto intro: spans_upto_mono)
  ultimately show ?thesis
    using False by (simp add: lexing_def lex_eof_def read_upto_def emit_plain_def tok_simps)
qed (simp add: lex_eof_def)

lemma raw_yylex_lexing: "lexing s j segs l \<Longrightarrow> \<exists>j' segs'. lexing s j' segs' (fst (raw_yylex l))"
proof (induction l arbitrary: j segs rule: raw_yylex.induct)
  case (1 l)
  show ?case
  proof (cases "yy_input l = []")
    case True
    then show ?thesis
      using lex_eof_lexing [OF "1.prems"] by (subst raw_yylex.simps) auto
  next
    case False
    obtain l' r where step: "lex_step l = (l', r)"
      by fastforce
    obtain j' segs' where l': "lexing s j' segs' l'"
      using lex_step_lexing [OF "1.prems" False] step by (metis fst_conv)
    show ?thesis
    proof (cases r)
      case None
      then show ?thesis
        using "1.IH" [OF False step [symmetric] None l'] False step by (subst raw_yylex.simps) simp
    next
      case (Some k)
      then show ?thesis
        using l' False step by (subst raw_yylex.simps) auto
    qed
  qed
qed

lemma lexing_fields [simp]:
  "lexing s j segs (l\<lparr>yylval := v\<rparr>) = lexing s j segs l"
  "lexing s j segs (l\<lparr>g_pending_newline := b\<rparr>) = lexing s j segs l"
  by (rule lexing_cong; simp)+

lemma next_token_lexing:
  assumes "lexing s j segs (scanner st)"
  shows "\<exists>j' segs'. lexing s j' segs' (scanner (fst (next_token st)))"
proof (cases "g_buffered st")
  case None
  obtain l k where r: "raw_yylex ((scanner st)\<lparr>g_pending_newline := False\<rparr>) = (l, k)"
    by fastforce
  have "\<exists>j' segs'. lexing s j' segs' l"
    using raw_yylex_lexing [of s j segs "(scanner st)\<lparr>g_pending_newline := False\<rparr>"] assms r by simp
  then show ?thesis
    by (simp add: next_token_def None r Let_def)
next
  case (Some kv)
  then show ?thesis
    using assms by (cases kv) (auto simp: next_token_def)
qed

lemma track_braces_scanner [simp]: "scanner (track_braces k st) = scanner st"
  by (simp add: track_braces_def)

lemma yylex_lexing:
  assumes "lexing s j segs (scanner st)"
  shows "\<exists>j' segs'. lexing s j' segs' (scanner (fst (yylex st)))"
proof -
  obtain st1 k nl where "next_token st = (st1, k, nl)"
    by (metis prod_cases3)
  then show ?thesis
    using next_token_lexing [OF assms] by (simp add: yylex_def)
qed

lemma yylex_calls_lexing:
  "lexing s j segs (scanner st) \<Longrightarrow> \<exists>j' segs'. lexing s j' segs' (scanner (snd (yylex_calls n st)))"
proof (induction n arbitrary: st j segs)
  case (Suc n)
  obtain st1 k where y: "yylex st = (st1, k)"
    by fastforce
  obtain j1 segs1 where "lexing s j1 segs1 (scanner st1)"
    using yylex_lexing [OF Suc.prems] y by auto
  then show ?case
    using Suc.IH by (simp add: y split: prod.splits) (metis snd_conv)
qed auto

lemma lexer_start_lexing: "lexing (c_str src) 0 [] (scanner (yylex_start src))"
  by (simp add: lexing_def read_upto_def spans_upto_def yylex_start_def reset_eol_state_def lexer_start_def lex_start_def)

definition recorded :: "string \<Rightarrow> nat \<Rightarrow> TokenSpan list" where
  "recorded src n = g_tok_spans (lex_acc (scanner (snd (yylex_calls n (yylex_start src)))))"

lemma recorded_follow:
  "\<exists>segs. list_all2 (span_at (c_str src)) (recorded src n) segs \<and> sorted_wrt (\<lambda>a b. snd a \<le> fst b) segs"
proof -
  obtain j segs where "lexing (c_str src) j segs (scanner (snd (yylex_calls n (yylex_start src))))"
    using yylex_calls_lexing [OF lexer_start_lexing] by blast
  then show ?thesis
    by (auto simp: lexing_def spans_upto_def recorded_def split: if_splits)
qed


end
