(* ===== verification/Lexer_Stream.thy ===== *)
theory Lexer_Stream
  imports Lexer
begin

text \<open>
  The tokens the parser is given.  Asking \<open>yylex\<close> again and again comes to the end of input; the
  tokens up to there are those of the scanner with soft statement terminators between them and
  the braces of the bodies left open behind them.
\<close>

subsection \<open>The scanner comes to an end\<close>

definition weight :: "lexer \<Rightarrow> nat" where
  "weight l = 2 * length (yy_input l) + (if yy_start l = INITIAL then 0 else 1)"

definition alike :: "lexer \<Rightarrow> lexer \<Rightarrow> bool" where
  "alike l l' \<longleftrightarrow> yy_input l = yy_input l' \<and> yy_start l = yy_start l'"

lemma lex_action_start:
  "alike l l' \<Longrightarrow> alike (fst (lex_action a w l)) (fst (lex_action a w l')) \<and> snd (lex_action a w l) = snd (lex_action a w l')"
  by (cases a) (simp_all add: alike_def lex_simps Let_def)

lemma lex_step_alike:
  "alike l l' \<Longrightarrow> alike (fst (lex_step l)) (fst (lex_step l')) \<and> snd (lex_step l) = snd (lex_step l')"
proof -
  assume a: "alike l l'"
  obtain n r where m: "best_match (yy_input l) (rules (yy_start l)) = (n, r)"
    by fastforce
  have "alike (scan_match n l) (scan_match n l')"
    using a by (simp add: alike_def scan_match_def Let_def)
  then show ?thesis
    using lex_action_start [of "scan_match n l" "scan_match n l'" r "take n (yy_input l)"] a m
    by (simp add: lex_step_def alike_def)
qed

lemma raw_yylex_alike:
  "alike l l' \<Longrightarrow> alike (fst (raw_yylex l)) (fst (raw_yylex l')) \<and> snd (raw_yylex l) = snd (raw_yylex l')"
proof (induction l arbitrary: l' rule: raw_yylex.induct)
  case (1 l)
  have eof: "yy_input l = [] \<longleftrightarrow> yy_input l' = []"
    using "1.prems" by (simp add: alike_def)
  show ?case
  proof (cases "yy_input l = []")
    case True
    then show ?thesis
      using "1.prems" eof
      by (subst (1 2 3 4) raw_yylex.simps) (simp add: alike_def lex_eof_def emit_plain_def tok_simps)
  next
    case False
    obtain l1 r where step: "lex_step l = (l1, r)"
      by fastforce
    obtain l1' where step': "lex_step l' = (l1', r)" and a: "alike l1 l1'"
      using lex_step_alike [OF "1.prems"] step by (metis fst_conv prod.collapse snd_conv)
    show ?thesis
    proof (cases r)
      case None
      then show ?thesis
        using "1.IH" [OF False step [symmetric] None a] False eof step step'
        by (subst (1 2 3 4) raw_yylex.simps) simp
    next
      case (Some k)
      then show ?thesis
        using a False eof step step' by (subst (1 2 3 4) raw_yylex.simps) simp
    qed
  qed
qed

lemma keyword_kinds: "list_all (\<lambda>(w, k). 258 \<le> k \<and> k < TK_IDENT) lexer_keywords"
  by (simp add: lexer_keywords_def tok_simps)

lemma rule_kinds:
  assumes "(r, a) \<in> set (rules c)" and "a = Emit_Kw k \<or> a = Emit_Plain k"
  shows "258 \<le> k \<and> k < TK_LINE_COMMENT"
  using assms keyword_kinds
  by (cases c) (fastforce simp: initial_rules_def string_rules_def tok_simps list_all_iff)+

lemma lex_step_kind:
  assumes "lex_step l = (l', Some k)"
  shows "258 \<le> k \<and> k < TK_LINE_COMMENT"
proof -
  obtain n a where m: "best_match (yy_input l) (rules (yy_start l)) = (n, a)"
    by fastforce
  then have a: "snd (lex_action a (take n (yy_input l)) (scan_match n l)) = Some k"
    using assms by (simp add: lex_step_def)
  consider r where "(r, a) \<in> set (rules (yy_start l))" | "a = Echo"
    using best_match_chosen [OF m] by (force simp: in_set_conv_nth)
  then show ?thesis
  proof cases
    case 1
    then show ?thesis
      using a rule_kinds [OF 1, of k] by (cases a) (simp_all add: Let_def tok_simps)
  next
    case 2
    then show ?thesis
      using a by simp
  qed
qed

lemma lex_step_weight: "yy_input l \<noteq> [] \<Longrightarrow> lex_step l = (l', r) \<Longrightarrow> weight l' < weight l"
  using lex_step_shorter [of l l' r] by (simp add: weight_def)

lemma raw_yylex_end:
  "raw_yylex l = (l', k) \<Longrightarrow>
   if k = 0 then yy_input l' = [] \<and> yy_start l' = INITIAL \<and> weight l' \<le> weight l
   else weight l' < weight l \<and> 258 \<le> k \<and> k < TK_LINE_COMMENT"
proof (induction l rule: raw_yylex.induct)
  case (1 l)
  show ?case
  proof (cases "yy_input l = []")
    case True
    then have "lex_eof l = (l', k)"
      using "1.prems" by (simp add: raw_yylex.simps [of l])
    then show ?thesis
      using True by (auto simp: lex_eof_def weight_def emit_plain_def tok_simps split: if_splits)
  next
    case False
    obtain l1 r where step: "lex_step l = (l1, r)"
      by fastforce
    note w = lex_step_weight [OF False step]
    show ?thesis
    proof (cases r)
      case None
      then have "raw_yylex l1 = (l', k)"
        using "1.prems" False step by (simp add: raw_yylex.simps [of l])
      then show ?thesis
        using "1.IH" [OF False step [symmetric] None] w by (simp split: if_splits)
    next
      case (Some k')
      then have "l1 = l'" "k' = k"
        using "1.prems" False step by (simp_all add: raw_yylex.simps [of l])
      then show ?thesis
        using w lex_step_kind [of l l1 k'] step Some by auto
    qed
  qed
qed

lemma raw_yylex_at_end: "yy_input l = [] \<Longrightarrow> yy_start l = INITIAL \<Longrightarrow> raw_yylex l = (l, 0)"
  by (simp add: raw_yylex.simps [of l] lex_eof_def)

text \<open>All the tokens of the scanner.\<close>

function raw_kinds :: "lexer \<Rightarrow> nat list" where
  "raw_kinds l = (case raw_yylex l of (l', k) \<Rightarrow> if k = 0 then [] else k # raw_kinds l')"
  by pat_completeness auto
termination
  by (relation "measure weight") (auto dest: raw_yylex_end [OF sym])

declare raw_kinds.simps [simp del]

lemma raw_kinds_alike: "alike l l' \<Longrightarrow> raw_kinds l = raw_kinds l'"
proof (induction l arbitrary: l' rule: raw_kinds.induct)
  case (1 l)
  obtain l1 k where r: "raw_yylex l = (l1, k)"
    by fastforce
  obtain l1' where r': "raw_yylex l' = (l1', k)" and a: "alike l1 l1'"
    using raw_yylex_alike [OF "1.prems"] r by (metis fst_conv prod.collapse snd_conv)
  show ?case
    using "1.IH" [OF r [symmetric] _ a] r r' by (simp add: raw_kinds.simps [of l] raw_kinds.simps [of l'])
qed

subsection \<open>The wrapper comes to an end\<close>

definition held_weight :: "yystate \<Rightarrow> nat" where
  "held_weight st =
     (case g_buffered st of
        None \<Rightarrow> 0
      | Some (k, v) \<Rightarrow> if k = 0 \<or> k = TK_RBRACE \<and> 0 < g_brace_depth st then 1 else 8)"

definition stream_weight :: "yystate \<Rightarrow> nat" where
  "stream_weight st =
     12 * weight (scanner st) + held_weight st + 3 * g_brace_depth st + (if g_prev_can_end st then 2 else 0)"

definition braces :: "nat \<Rightarrow> nat \<Rightarrow> nat" where
  "braces d k = (if k = TK_LBRACE then Suc d else if k = TK_RBRACE then d - 1 else d)"

lemma track_braces_fields [simp]:
  "scanner (track_braces k st) = scanner st" "g_buffered (track_braces k st) = g_buffered st"
  "g_prev_can_end (track_braces k st) = g_prev_can_end st"
  "g_brace_depth (track_braces k st) = braces (g_brace_depth st) k"
  by (simp_all add: track_braces_def braces_def tok_simps)

lemma next_token_buffered:
  "g_buffered st = Some (k, v) \<Longrightarrow>
   next_token st = (st\<lparr>g_buffered := None, scanner := (scanner st)\<lparr>yylval := v\<rparr>\<rparr>, k, False)"
  by (simp add: next_token_def)

lemma next_token_fields:
  "next_token st = (st1, k, nl) \<Longrightarrow>
   g_buffered st1 = None \<and> g_brace_depth st1 = g_brace_depth st \<and> g_prev_can_end st1 = g_prev_can_end st
   \<and> g_prev_kind st1 = g_prev_kind st \<and> g_brace_is_macro st1 = g_brace_is_macro st"
  by (auto simp: next_token_def Let_def split: option.splits prod.splits if_splits)

text \<open>Where a token that was not held back comes from.\<close>

lemma next_token_scanned:
  assumes "next_token st = (st1, k, nl)" and "g_buffered st = None"
  obtains (token) "k \<noteq> 0" "weight (scanner st1) < weight (scanner st)" "258 \<le> k" "k < TK_LINE_COMMENT"
      "raw_kinds (scanner st) = k # raw_kinds (scanner st1)"
    | (brace) "k = TK_RBRACE" "0 < g_brace_depth st" "weight (scanner st1) \<le> weight (scanner st)"
      "raw_kinds (scanner st) = []" "raw_kinds (scanner st1) = []"
    | (end_of_input) "k = 0" "g_brace_depth st = 0" "weight (scanner st1) \<le> weight (scanner st)"
      "raw_kinds (scanner st) = []" "raw_kinds (scanner st1) = []"
proof -
  let ?l = "(scanner st)\<lparr>g_pending_newline := False\<rparr>"
  obtain l1 k1 where r: "raw_yylex ?l = (l1, k1)"
    by fastforce
  note fin = raw_yylex_end [OF r]
  have w: "weight ?l = weight (scanner st)"
    by (simp add: weight_def)
  have "raw_kinds (scanner st) = raw_kinds ?l"
    by (rule raw_kinds_alike) (simp add: alike_def)
  then have rk: "raw_kinds (scanner st) = (if k1 = 0 then [] else k1 # raw_kinds l1)"
    using r by (simp add: raw_kinds.simps [of ?l])
  show ?thesis
  proof (cases "k1 = 0")
    case False
    then have "k = k1" "scanner st1 = l1"
      using assms r by (auto simp: next_token_def)
    then show ?thesis
      using token False fin w rk by simp
  next
    case True
    then have e: "yy_input l1 = []" "yy_start l1 = INITIAL" "weight l1 \<le> weight (scanner st)"
      using fin w by simp_all
    have al: "alike (scanner st1) l1"
      using assms r True by (auto simp: next_token_def alike_def Let_def split: if_splits)
    have nil: "raw_kinds (scanner st1) = []"
      using raw_kinds_alike [OF al] raw_yylex_at_end [OF e(1,2)] by (simp add: raw_kinds.simps [of l1])
    have "weight (scanner st1) \<le> weight (scanner st)"
      using al e(3) by (simp add: alike_def weight_def)
    then show ?thesis
      using brace end_of_input nil rk True assms r
      by (cases "0 < g_brace_depth st") (auto simp: next_token_def Let_def)
  qed
qed

lemma yylex_weight:
  assumes "yylex st = (st', k)" and "k \<noteq> 0"
  shows "stream_weight st' < stream_weight st"
proof -
  obtain st1 k1 nl where t: "next_token st = (st1, k1, nl)"
    by (metis prod_cases3)
  note f = next_token_fields [OF t]
  show ?thesis
  proof (cases "g_buffered st")
    case (Some kv)
    obtain kb v where kv: "kv = (kb, v)"
      by fastforce
    have n: "next_token st = (st\<lparr>g_buffered := None, scanner := (scanner st)\<lparr>yylval := v\<rparr>\<rparr>, kb, False)"
      using next_token_buffered Some kv by simp
    then have k1: "k1 = kb" "weight (scanner st1) = weight (scanner st)"
      using t by (auto simp: weight_def)
    show ?thesis
    proof (cases "needs_eol st1 k1 nl")
      case True
      then have "g_prev_can_end st" "held_weight st' = held_weight st" "\<not> g_prev_can_end st'"
        "g_brace_depth st' = g_brace_depth st" "weight (scanner st') = weight (scanner st)"
        using assms(1) t f k1 Some kv by (auto simp: yylex_def needs_eol_def held_weight_def weight_def)
      then show ?thesis
        by (simp add: stream_weight_def)
    next
      case False
      then have st': "st' = (track_braces k1 st1)\<lparr>g_prev_kind := k1, g_prev_can_end := tok_can_end_stmt k1\<rparr>" "k1 \<noteq> 0"
        using assms t by (auto simp: yylex_def)
      then have "held_weight st' = 0" "g_brace_depth st' = braces (g_brace_depth st) k1" "weight (scanner st') = weight (scanner st)"
        using f k1 by (simp_all add: held_weight_def)
      moreover have "held_weight st = (if kb = TK_RBRACE \<and> 0 < g_brace_depth st then 1 else 8)"
        using Some kv st'(2) k1(1) by (simp add: held_weight_def)
      moreover have "TK_RBRACE \<noteq> TK_LBRACE"
        by (simp add: tok_simps)
      ultimately show ?thesis
        using k1(1) by (cases "g_brace_depth st") (auto simp: stream_weight_def braces_def)
    qed
  next
    case None
    then have h: "held_weight st = 0"
      by (simp add: held_weight_def)
    show ?thesis
    proof (cases "needs_eol st1 k1 nl")
      case True
      then have "st' = st1\<lparr>g_buffered := Some (k1, yylval (scanner st1)), g_prev_can_end := False,
          scanner := (scanner st1)\<lparr>yylval := eol_token\<rparr>\<rparr>" "g_prev_can_end st"
        using assms(1) t f by (auto simp: yylex_def needs_eol_def)
      then have st': "g_prev_can_end st" "\<not> g_prev_can_end st'" "g_brace_depth st' = g_brace_depth st"
        "weight (scanner st') = weight (scanner st1)"
        "held_weight st' = (if k1 = 0 \<or> k1 = TK_RBRACE \<and> 0 < g_brace_depth st then 1 else 8)"
        using f by (simp_all add: held_weight_def weight_def)
      show ?thesis
        by (cases rule: next_token_scanned [OF t None]) (use st' h in \<open>simp_all add: stream_weight_def\<close>)
    next
      case False
      then have "st' = (track_braces k1 st1)\<lparr>g_prev_kind := k1, g_prev_can_end := tok_can_end_stmt k1\<rparr>" and k1: "k1 \<noteq> 0"
        using assms t by (auto simp: yylex_def)
      then have st': "held_weight st' = 0" "g_brace_depth st' = braces (g_brace_depth st) k1"
        "weight (scanner st') = weight (scanner st1)"
        using f by (simp_all add: held_weight_def)
      have b: "braces (g_brace_depth st) k1 \<le> Suc (g_brace_depth st)"
        by (cases "g_brace_depth st") (auto simp: braces_def)
      show ?thesis
        by (cases rule: next_token_scanned [OF t None])
          (use st' h k1 b in \<open>auto simp: stream_weight_def braces_def tok_simps\<close>)
    qed
  qed
qed

text \<open>All the tokens the parser gets, the final 0 left out.\<close>

function parser_kinds :: "yystate \<Rightarrow> nat list" where
  "parser_kinds st = (case yylex st of (st', k) \<Rightarrow> if k = 0 then [] else k # parser_kinds st')"
  by pat_completeness auto
termination
  by (relation "measure stream_weight") (auto intro: yylex_weight [OF sym])

declare parser_kinds.simps [simp del]

subsection \<open>The stream\<close>

definition unclosed :: "nat \<Rightarrow> nat list \<Rightarrow> nat" where
  "unclosed d ks = foldl braces d ks"

fun soft_eols :: "nat \<Rightarrow> nat list \<Rightarrow> bool" where
  "soft_eols p [] \<longleftrightarrow> \<not> tok_can_end_stmt p"
| "soft_eols p (k # ks) \<longleftrightarrow>
     (k = TK_EOL \<longrightarrow> tok_can_end_stmt p \<and> (ks = [] \<or> tok_can_begin_stmt (hd ks) \<or> hd ks = TK_RBRACE))
     \<and> soft_eols k ks"

text \<open>What is still to come from a state: the token held back, if it is not the end, then the scanner's.\<close>

definition to_come :: "yystate \<Rightarrow> nat list" where
  "to_come st = (case g_buffered st of None \<Rightarrow> raw_kinds (scanner st)
                 | Some (k, v) \<Rightarrow> if k = 0 then [] else k # raw_kinds (scanner st))"

text \<open>A token is held back behind a terminator only; what is held back at the end of input is the end.\<close>

definition holding :: "yystate \<Rightarrow> bool" where
  "holding st \<longleftrightarrow>
     (case g_buffered st of
        None \<Rightarrow> True
      | Some (k, v) \<Rightarrow> \<not> g_prev_can_end st \<and> k \<noteq> TK_EOL
          \<and> (k = 0 \<longrightarrow> raw_kinds (scanner st) = [] \<and> g_brace_depth st = 0))"

definition target :: "yystate \<Rightarrow> nat list" where
  "target st = to_come st @ replicate (unclosed (g_brace_depth st) (to_come st)) TK_RBRACE"

lemma unclosed_Cons [simp]: "unclosed d (k # ks) = unclosed (braces d k) ks" "unclosed d [] = d"
  by (simp_all add: unclosed_def)

lemma raw_kinds_fields [simp]:
  "raw_kinds (l\<lparr>yylval := v\<rparr>) = raw_kinds l"
  by (rule raw_kinds_alike) (simp add: alike_def)

lemma yylex_target:
  assumes h: "holding st" and y: "yylex st = (st', k)"
  shows "holding st' \<and>
    (if k = 0 then target st = [] \<and> \<not> g_prev_can_end st
     else if k = TK_EOL then target st' = target st \<and> g_prev_can_end st \<and> \<not> g_prev_can_end st' \<and>
       (\<exists>k1 v. g_buffered st' = Some (k1, v) \<and> (tok_can_begin_stmt k1 \<or> k1 = TK_RBRACE \<or> k1 = 0))
     else target st = k # target st' \<and> g_prev_can_end st' = tok_can_end_stmt k)"
proof -
  obtain st1 k1 nl where t: "next_token st = (st1, k1, nl)"
    by (metis prod_cases3)
  note f = next_token_fields [OF t]
  have rb: "TK_RBRACE \<noteq> 0" "TK_RBRACE \<noteq> TK_EOL" "TK_EOL \<noteq> 0" "\<not> tok_can_end_stmt TK_EOL" "braces d TK_RBRACE = d - 1" for d
    by (simp_all add: tok_simps tok_can_end_stmt_def braces_def)
  have kn: "k1 \<noteq> TK_EOL"
  proof (cases "g_buffered st")
    case None
    show ?thesis
      by (cases rule: next_token_scanned [OF t None]) (simp_all add: tok_simps)
  next
    case (Some kv)
    then show ?thesis
      using t h by (cases kv) (auto simp: next_token_buffered holding_def)
  qed
  have tg: "if k1 = 0 then target st = [] \<and> g_brace_depth st = 0 \<and> raw_kinds (scanner st1) = []
     else target st = k1 # raw_kinds (scanner st1)
         @ replicate (unclosed (braces (g_brace_depth st) k1) (raw_kinds (scanner st1))) TK_RBRACE"
  proof (cases "g_buffered st")
    case None
    then have tc: "to_come st = raw_kinds (scanner st)"
      by (simp add: to_come_def)
    show ?thesis
    proof (cases rule: next_token_scanned [OF t None])
      case 2
      then have "target st = replicate (g_brace_depth st) TK_RBRACE"
        by (simp add: target_def tc)
      moreover have "g_brace_depth st = Suc (g_brace_depth st - 1)"
        using 2(2) by simp
      ultimately have "target st = TK_RBRACE # replicate (g_brace_depth st - 1) TK_RBRACE"
        by (metis replicate_Suc)
      then show ?thesis
        using 2(1,5) rb by simp
    qed (simp_all add: target_def tc)
  next
    case (Some kv)
    then show ?thesis
      using t h by (cases kv) (auto simp: next_token_buffered holding_def target_def to_come_def)
  qed
  show ?thesis
  proof (cases "needs_eol st1 k1 nl")
    case True
    then have st': "k = TK_EOL" "g_buffered st' = Some (k1, yylval (scanner st1))" "\<not> g_prev_can_end st'"
      "raw_kinds (scanner st') = raw_kinds (scanner st1)" "g_brace_depth st' = g_brace_depth st" "g_prev_can_end st"
      using y t f by (auto simp: yylex_def needs_eol_def)
    have "to_come st' = (if k1 = 0 then [] else k1 # raw_kinds (scanner st1))"
      by (simp add: to_come_def st')
    then have "target st' = target st"
      using tg by (simp add: target_def st'(5) split: if_splits)
    moreover have "holding st'"
      using st' kn tg by (simp add: holding_def)
    moreover have "tok_can_begin_stmt k1 \<or> k1 = TK_RBRACE \<or> k1 = 0"
      using True by (auto simp: needs_eol_def)
    ultimately show ?thesis
      using st' rb by auto
  next
    case False
    then have st': "k = k1" "g_buffered st' = None" "raw_kinds (scanner st') = raw_kinds (scanner st1)"
      "g_brace_depth st' = braces (g_brace_depth st) k1" "g_prev_can_end st' = tok_can_end_stmt k1"
      using y t f by (auto simp: yylex_def)
    have "k1 = 0 \<Longrightarrow> \<not> g_prev_can_end st"
      using False f by (auto simp: needs_eol_def)
    moreover have "holding st'"
      using st'(2) by (simp add: holding_def)
    moreover have "target st' = raw_kinds (scanner st1) @ replicate (unclosed (braces (g_brace_depth st) k1) (raw_kinds (scanner st1))) TK_RBRACE"
      using st' by (simp add: target_def to_come_def)
    ultimately show ?thesis
      using tg st'(1,5) kn by (simp split: if_splits)
  qed
qed

lemma parser_kinds_target: "holding st \<Longrightarrow> filter (\<lambda>k. k \<noteq> TK_EOL) (parser_kinds st) = target st"
proof (induction st rule: parser_kinds.induct)
  case (1 st)
  obtain st' k where y: "yylex st = (st', k)"
    by fastforce
  note t = yylex_target [OF "1.prems" y]
  show ?case
    using t "1.IH" [OF y [symmetric]] by (simp add: parser_kinds.simps [of st] y split: if_splits)
qed

lemma parser_kinds_soft: "holding st \<Longrightarrow> g_prev_can_end st = tok_can_end_stmt p \<Longrightarrow> soft_eols p (parser_kinds st)"
proof (induction st arbitrary: p rule: parser_kinds.induct)
  case (1 st)
  obtain st' k where y: "yylex st = (st', k)"
    by fastforce
  note t = yylex_target [OF "1.prems"(1) y]
  show ?case
  proof (cases "k = 0")
    case True
    then show ?thesis
      using t "1.prems"(2) by (simp add: parser_kinds.simps [of st] y)
  next
    case False
    have IH: "soft_eols k (parser_kinds st')"
    proof (rule "1.IH" [OF y [symmetric] False])
      show "holding st'"
        using t by simp
      show "g_prev_can_end st' = tok_can_end_stmt k"
        using t False by (cases "k = TK_EOL") (simp_all add: tok_can_end_stmt_def)
    qed
    have "tok_can_end_stmt p \<and> (parser_kinds st' = [] \<or> tok_can_begin_stmt (hd (parser_kinds st')) \<or> hd (parser_kinds st') = TK_RBRACE)"
      if e: "k = TK_EOL"
    proof -
      obtain k1 v where b: "g_buffered st' = Some (k1, v)" "tok_can_begin_stmt k1 \<or> k1 = TK_RBRACE \<or> k1 = 0" "\<not> g_prev_can_end st'"
        and p: "g_prev_can_end st"
        using t False e by (auto simp: tok_simps)
      have "snd (yylex st') = k1"
        using b by (simp add: yylex_def next_token_buffered needs_eol_def)
      then obtain st2 where "yylex st' = (st2, k1)"
        by (metis prod.collapse)
      then have "parser_kinds st' = (if k1 = 0 then [] else k1 # parser_kinds st2)"
        by (simp add: parser_kinds.simps [of st'])
      then show ?thesis
        using b(2) p "1.prems"(2) by auto
    qed
    then show ?thesis
      using IH False by (simp add: parser_kinds.simps [of st] y)
  qed
qed


end
