(* ===== verification/Front_End.thy ===== *)
theory Front_End
  imports Lexer_Spans Lexer_Stream Semantic_Tokens Keyword_Help "HOL-Library.Multiset"
begin

text \<open>
  \<open>parse\<close> of \<open>src/src/parser.c\<close> over the scanner: what it installs, collects and does with the result
  of the generated parser, and what the scanner gives to those who read the recorded tokens: the
  order the searches rely on, the shape the highlighter relies on, the words the keyword tables
  have, and the bound on the highlighter's buffer.
\<close>

subsection \<open>Positions of pieces\<close>

lemma pos_after_line_count: "fst (pos_after p w) = fst p + length (filter (\<lambda>c. c = line_feed) w)"
  by (induction p w rule: pos_after.induct) auto

lemma pos_after_forward:
  "w \<noteq> [] \<Longrightarrow> fst p < fst (pos_after p w) \<or> fst p = fst (pos_after p w) \<and> snd p < snd (pos_after p w)"
  using pos_after_bounds [of p w] by (cases "fst (pos_after p w) = fst p") auto

lemma pos_word_less:
  assumes "fst p < fst q \<or> fst p = fst q \<and> snd p < snd q"
    and "fst p < 2 ^ 32" "snd p < 2 ^ 32" "fst q < 2 ^ 32" "snd q < 2 ^ 32"
  shows "pos_word p < pos_word q"
  using assms by (auto simp: pos_word_def less_LspPos_def word_less_nat_alt unat_of_nat take_bit_nat_eq_self)

lemma pos_at_small:
  assumes "i \<le> length s"
  shows "fst (pos_after (0, 0) (take i s)) \<le> i" and "snd (pos_after (0, 0) (take i s)) \<le> i"
  using pos_after_bounds [of "(0, 0)" "take i s"] assms by simp_all

lemma pos_at_less:
  assumes "i < j" and "j \<le> length s" and "length s < 2 ^ 32"
  shows "pos_at s i < pos_at s j"
proof -
  have "text_slice s i j \<noteq> []"
    using slice_length [of j s i] assms by auto
  then show ?thesis
    using pos_after_forward [of "text_slice s i j" "pos_after (0, 0) (take i s)"] pos_at_small [of i s] pos_at_small [of j s] assms
    unfolding pos_at_def take_slice [OF less_imp_le [OF assms(1)], of s] pos_after_append
    by (intro pos_word_less) auto
qed

lemma pos_at_le: "i \<le> j \<Longrightarrow> j \<le> length s \<Longrightarrow> length s < 2 ^ 32 \<Longrightarrow> pos_at s i \<le> pos_at s j"
  using pos_at_less [of i j s] by (cases "i = j") auto

lemma pos_at_line: "i \<le> length s \<Longrightarrow> length s < 2 ^ 32 \<Longrightarrow> unat (line (pos_at s i)) = fst (pos_after (0, 0) (take i s))"
  using pos_at_small [of i s] by (simp add: pos_at_def pos_word_def unat_of_nat take_bit_nat_eq_self)

lemma pos_at_character:
  "i \<le> length s \<Longrightarrow> length s < 2 ^ 32 \<Longrightarrow> unat (character (pos_at s i)) = snd (pos_after (0, 0) (take i s))"
  using pos_at_small [of i s] by (simp add: pos_at_def pos_word_def unat_of_nat take_bit_nat_eq_self)

text \<open>A piece ends as many lines further down as it has newlines.\<close>

lemma piece_lines:
  assumes "i < j" and "j \<le> length s" and "length s < 2 ^ 32"
  shows "unat (line (pos_at s j)) = unat (line (pos_at s i)) + length (filter (\<lambda>c. c = line_feed) (text_slice s i j))"
  using assms pos_after_line_count [of "pos_after (0, 0) (take i s)" "text_slice s i j"]
  by (simp add: pos_at_line take_slice [of i j s] pos_after_append)

subsection \<open>What the searches rely on\<close>

lemma span_at_order:
  assumes "list_all2 (span_at s) ts segs" and "sorted_wrt (\<lambda>a b. snd a \<le> fst b) segs" and "length s < 2 ^ 32"
  shows "sorted_wrt (\<lambda>a b. tok_end a \<le> tok_start b) ts \<and> list_all (\<lambda>t. tok_start t < tok_end t) ts"
  using assms(1,2)
proof (induction ts segs rule: list_all2_induct)
  case (Cons t ts x segs)
  have "tok_end t \<le> tok_start u" if u: "u \<in> set ts" for u
  proof -
    obtain k where k: "k < length ts" "u = ts ! k"
      using u unfolding in_set_conv_nth by auto
    have "span_at s u (segs ! k)" "k < length segs"
      using list_all2_nthD [OF Cons.hyps(2) k(1)] list_all2_lengthD [OF Cons.hyps(2)] k by simp_all
    moreover from this have "snd x \<le> fst (segs ! k)"
      using Cons.prems by simp
    ultimately show ?thesis
      using Cons.hyps(1) assms(3) by (auto simp: span_at_def intro!: pos_at_le)
  qed
  moreover have "tok_start t < tok_end t"
    using Cons.hyps(1) assms(3) by (auto simp: span_at_def intro: pos_at_less)
  ultimately show ?case
    using Cons by simp
qed simp

lemma recorded_pieces:
  obtains segs where "list_all2 (span_at (c_str src)) (recorded src n) segs" "sorted_wrt (\<lambda>a b. snd a \<le> fst b) segs"
  using recorded_follow [of src n] by blast

lemma recorded_order:
  assumes "length (c_str src) < 2 ^ 32"
  shows "sorted_wrt (\<lambda>a b. tok_end a \<le> tok_start b) (recorded src n)"
    and "list_all (\<lambda>t. tok_start t < tok_end t) (recorded src n)"
proof -
  obtain segs where "list_all2 (span_at (c_str src)) (recorded src n) segs" "sorted_wrt (\<lambda>a b. snd a \<le> fst b) segs"
    by (rule recorded_pieces)
  note o = span_at_order [OF this assms]
  show "sorted_wrt (\<lambda>a b. tok_end a \<le> tok_start b) (recorded src n)"
    and "list_all (\<lambda>t. tok_start t < tok_end t) (recorded src n)"
    using o by simp_all
qed

lemma sorted_starts:
  "sorted_wrt (\<lambda>a b. tok_end a \<le> tok_start b) ts \<Longrightarrow> list_all (\<lambda>t. tok_start t < tok_end t) ts \<Longrightarrow> sorted (map tok_start ts)"
proof (induction ts)
  case (Cons t ts)
  then show ?case
    by (auto simp: intro: order_trans less_imp_le)
qed simp

lemma recorded_sorted: "length (c_str src) < 2 ^ 32 \<Longrightarrow> sorted (map tok_start (recorded src n))"
  using sorted_starts recorded_order by blast

lemma recorded_span: "t \<in> set (recorded src n) \<Longrightarrow> \<exists>i j. span_at (c_str src) t (i, j)"
  using recorded_pieces [of src n] by (metis in_set_conv_nth list_all2_conv_all_nth prod.collapse)

lemma lexeme_kind: "lexeme k w \<Longrightarrow> 258 \<le> k \<and> k \<le> TK_BLOCK_COMMENT"
proof -
  assume "lexeme k w"
  then consider r a where "(r, a) \<in> set (rules INITIAL)" "a = Emit_Kw k \<or> a = Emit_Plain k"
    | "k = TK_LINE_COMMENT" | "k = TK_STR" | "k = TK_BLOCK_COMMENT" | "k = TK_MULTI_LINE_STR"
    by (auto simp: lexeme_def one_line_def)
  then show ?thesis
  proof cases
    case 1
    from rule_kinds [OF this] show ?thesis
      by (simp add: tok_simps)
  qed (simp_all add: tok_simps)
qed

lemma recorded_kind: "t \<in> set (recorded src n) \<Longrightarrow> 258 \<le> token_kind t \<and> token_kind t \<le> TK_BLOCK_COMMENT"
  using recorded_span lexeme_kind by (fastforce simp: span_at_def)

lemma recorded_token_list: "length (c_str src) < 2 ^ 32 \<Longrightarrow> token_list (recorded src n)"
proof -
  assume "length (c_str src) < 2 ^ 32"
  moreover have "\<forall>t \<in> set (recorded src n). token_kind t \<noteq> TK_EOF"
    using recorded_kind [of _ src n] by (fastforce simp: TK_EOF_def)
  ultimately show ?thesis
    unfolding token_list_def using recorded_sorted [of src n]
    by (intro conjI exI [of _ "recorded src n"] exI [of _ "[]"]) simp_all
qed

subsection \<open>What keyword help relies on\<close>

lemma keywords_documented:
  "list_all (\<lambda>(w, k). k < KW_DOCS_END \<longrightarrow> (w, k) \<in> set documented_keywords) lexer_keywords"
  by (simp add: lexer_keywords_def documented_keywords_def tok_simps)

lemma keyword_lexeme:
  assumes "lexeme k w" and "k < KW_DOCS_END"
  shows "(w, k) \<in> set documented_keywords"
proof -
  have "(w, k) \<in> set lexer_keywords"
    using assms by (auto simp: lexeme_def one_line_def initial_rules_def tok_simps)
  then show ?thesis
    using keywords_documented assms(2) by (auto simp: list_all_iff)
qed

lemma recorded_lexed: "list_all lexed (recorded src n)"
  unfolding list_all_iff
proof
  fix t
  assume "t \<in> set (recorded src n)"
  then obtain i j where s: "span_at (c_str src) t (i, j)"
    using recorded_span by blast
  show "lexed t"
  proof (cases "token_kind t < KW_DOCS_END")
    case True
    then have "tok_text t = Some (text_slice (c_str src) i j)"
      using s by (auto simp: span_at_def text_of_span_def tok_simps)
    then show ?thesis
      using keyword_lexeme [OF _ True] s by (auto simp: lexed_def span_at_def)
  qed (simp add: lexed_def)
qed

subsection \<open>What the highlighter relies on\<close>

lemma span_at_pos:
  assumes "span_at s t (i, j)"
  shows "i < j" "j \<le> length s" "tok_start t = pos_at s i" "tok_end t = pos_at s j"
  using assms by (simp_all add: span_at_def)

lemma recorded_lines_fit:
  assumes "length (c_str src) < 2 ^ 31 - 1" and t: "t \<in> set (recorded src n)"
  shows "lines_fit t"
proof -
  let ?s = "c_str src"
  obtain i j where s: "span_at ?s t (i, j)"
    using recorded_span [OF t] by blast
  note p = span_at_pos [OF s]
  have b: "length ?s < 2 ^ 32"
    using assms(1) by simp
  have "unat (line (pos_at ?s j)) \<le> length ?s"
    using pos_at_line [OF p(2) b] pos_at_small(1) [OF p(2)] p(2) by simp
  moreover have "unat (line (pos_at ?s i)) \<le> unat (line (pos_at ?s j))"
    using piece_lines [OF p(1,2) b] by simp
  ultimately show ?thesis
    using assms(1) p by (simp add: lines_fit_def word_le_nat_alt)
qed

text \<open>Every addition to the accumulator is a push.\<close>

definition built_by_pushes :: "lexer \<Rightarrow> bool" where
  "built_by_pushes l \<longleftrightarrow> (\<exists>ts. lex_acc l = foldl push_span lex_start ts)"

lemma push_here_built: "built_by_pushes l \<Longrightarrow> built_by_pushes (push_here k sl sc txt l)"
proof -
  assume "built_by_pushes l"
  then obtain ts where "lex_acc l = foldl push_span lex_start ts"
    by (auto simp: built_by_pushes_def)
  then have "lex_acc (push_here k sl sc txt l) = foldl push_span lex_start
      (ts @ [\<lparr>token_kind = k, tok_start = LspPos sl sc, tok_end = LspPos (end_line l) (end_column l), tok_text = txt\<rparr>])"
    by (simp add: push_here_def push_span_def)
  then show ?thesis
    unfolding built_by_pushes_def by blast
qed

lemma built_cong: "lex_acc l = lex_acc l' \<Longrightarrow> built_by_pushes l = built_by_pushes l'"
  by (simp add: built_by_pushes_def)

lemma lex_action_built: "built_by_pushes l \<Longrightarrow> built_by_pushes (fst (lex_action a w l))"
proof -
  assume l: "built_by_pushes l"
  have p: "built_by_pushes l'" if "lex_acc l' = lex_acc (push_here k sl sc tx m)" "lex_acc m = lex_acc l" for l' k sl sc tx m
    using push_here_built [of m k sl sc tx] l built_cong [OF that(1)] built_cong [OF that(2)] by simp
  have q: "built_by_pushes l'" if "lex_acc l' = lex_acc l" for l'
    using l built_cong [OF that] by simp
  show ?thesis
  proof (cases a)
    case (Emit_Plain k)
    then show ?thesis
      using p [of _ k "tok_sl l" "tok_sc l" _ l] q by (auto simp: emit_plain_def)
  next
    case Str_Line
    then show ?thesis
      by (auto intro!: q simp: emit_plain_def tok_simps)
  next
    case Comment_Line
    then show ?thesis
      using p [of "fst (lex_action a w l)" TK_LINE_COMMENT "tok_sl l" "tok_sc l" "Some w" l]
      by (simp add: store_semantic_token_def)
  next
    case Close_Comment
    let ?m = "STR_APPEND ''*/'' l"
    show ?thesis
      using p [of "fst (lex_action a w l)" TK_BLOCK_COMMENT "mfrag_sl l" "mfrag_sc l" "Some (str_buf ?m)" ?m]
      by (simp add: Close_Comment Let_def)
  next
    case Close_Scissors
    let ?m = "STR_APPEND ''->8-'' l"
    show ?thesis
      using p [of "fst (lex_action a w l)" TK_MULTI_LINE_STR "mfrag_sl l" "mfrag_sc l" "Some (str_buf ?m)" ?m]
      by (simp add: Close_Scissors emit_kw_mfrag_text_def Let_def)
  next
    case (Close_Str c)
    let ?m = "STR_APPEND [c] l"
    show ?thesis
      using p [of "fst (lex_action a w l)" TK_STR "mfrag_sl l" "mfrag_sc l" "Some (str_buf ?m)" ?m]
      by (simp add: Close_Str emit_kw_mfrag_text_def Let_def)
  next
    case (Emit_Kw k)
    then show ?thesis
      using p [of "fst (lex_action a w l)" k "tok_sl l" "tok_sc l" "Some w" l] by (simp add: emit_kw_def)
  qed (auto intro!: q simp: open_fragment_def)
qed

lemma lex_step_built: "built_by_pushes l \<Longrightarrow> built_by_pushes (fst (lex_step l))"
proof -
  assume l: "built_by_pushes l"
  obtain n a where m: "best_match (yy_input l) (rules (yy_start l)) = (n, a)"
    by fastforce
  have "built_by_pushes (scan_match n l)"
    using l built_cong [of "scan_match n l" l] by simp
  then show ?thesis
    using lex_action_built by (simp add: lex_step_def m)
qed

lemma raw_yylex_built: "built_by_pushes l \<Longrightarrow> built_by_pushes (fst (raw_yylex l))"
proof (induction l rule: raw_yylex.induct)
  case (1 l)
  show ?case
  proof (cases "yy_input l = []")
    case True
    then show ?thesis
      using "1.prems" built_cong [of "fst (lex_eof l)" l]
      by (simp add: raw_yylex.simps [of l] lex_eof_def emit_plain_def tok_simps)
  next
    case False
    obtain l1 r where step: "lex_step l = (l1, r)"
      by fastforce
    have "built_by_pushes l1"
      using lex_step_built [OF "1.prems"] step by simp
    then show ?thesis
      using "1.IH" [OF False step [symmetric]] False step by (cases r) (simp_all add: raw_yylex.simps [of l])
  qed
qed

lemma yylex_built: "built_by_pushes (scanner st) \<Longrightarrow> built_by_pushes (scanner (fst (yylex st)))"
proof -
  assume b: "built_by_pushes (scanner st)"
  obtain st1 k nl where t: "next_token st = (st1, k, nl)"
    by (metis prod_cases3)
  have "built_by_pushes (fst (raw_yylex ((scanner st)\<lparr>g_pending_newline := False\<rparr>)))"
    by (rule raw_yylex_built) (use b in \<open>simp add: built_by_pushes_def\<close>)
  then have "built_by_pushes (scanner st1)"
    using t b by (auto simp: next_token_def built_by_pushes_def Let_def split: option.splits prod.splits if_splits)
  then show ?thesis
    by (simp add: yylex_def t built_by_pushes_def)
qed

lemma yylex_calls_built: "built_by_pushes (scanner st) \<Longrightarrow> built_by_pushes (scanner (snd (yylex_calls n st)))"
proof (induction n arbitrary: st)
  case (Suc n)
  obtain st1 k where y: "yylex st = (st1, k)"
    by fastforce
  have "built_by_pushes (scanner st1)"
    using yylex_built [OF Suc.prems] y by simp
  then show ?case
    using Suc.IH [of st1] by (cases "yylex_calls n st1") (simp add: y)
qed simp

definition recorded_count :: "string \<Rightarrow> nat \<Rightarrow> int" where
  "recorded_count src n = g_num_sem_entries (lex_acc (scanner (snd (yylex_calls n (yylex_start src)))))"

lemma recorded_buffer:
  assumes "length (c_str src) < 2 ^ 31 - 1"
  shows "int (length (compute_semantic_tokens_data (recorded src n))) \<le> 5 * recorded_count src n"
proof -
  have "built_by_pushes (scanner (yylex_start src))"
    unfolding built_by_pushes_def
    by (rule exI [of _ "[]"]) (simp add: yylex_start_def reset_eol_state_def lexer_start_def)
  then obtain ts where ts: "lex_acc (scanner (snd (yylex_calls n (yylex_start src)))) = foldl push_span lex_start ts"
    using yylex_calls_built by (auto simp: built_by_pushes_def)
  have same: "g_tok_spans (foldl push_span g ts) = g_tok_spans g @ ts" for g
    by (induction ts arbitrary: g) (simp_all add: push_span_def g_push_tok_span_def)
  have "recorded src n = ts"
    using same [of lex_start] ts by (simp add: recorded_def lex_start_def)
  then have "\<forall>t \<in> set ts. lines_fit t"
    using recorded_lines_fit [OF assms] by auto
  from compute_length [OF this, of lex_start sem_start] show ?thesis
    by (simp add: recorded_count_def ts \<open>recorded src n = ts\<close> compute_semantic_tokens_data_def lex_start_def sem_start_def)
qed

text \<open>The bytes of a token, counted as an editor finds them; a token of several lines fits the scanner's
  buffer when they are fewer than 4095.\<close>

definition token_bytes :: "string \<Rightarrow> TokenSpan \<Rightarrow> nat" where
  "token_bytes s t = scan_to (tok_end t) 0 0 s - scan_to (tok_start t) 0 0 s"

definition fits_str_buf :: "string \<Rightarrow> TokenSpan \<Rightarrow> bool" where
  "fits_str_buf s t \<longleftrightarrow> line (tok_start t) = line (tok_end t) \<or> token_bytes s t < 4095"

lemma scan_to_pos_at:
  assumes "i \<le> length s" and "length s < 2 ^ 32"
  shows "scan_to (pos_at s i) 0 0 s = i"
  using scan_to_prefix [of 0 "take i s" "drop i s" 0] assms by (simp add: pos_at_def)

lemma span_at_bytes: "span_at s t (i, j) \<Longrightarrow> length s < 2 ^ 32 \<Longrightarrow> token_bytes s t = j - i"
  by (auto simp: span_at_def token_bytes_def scan_to_pos_at)

lemma split_lines_count: "length (split_lines w) = Suc (length (filter (\<lambda>c. c = line_feed) w))"
  by (induction w) (auto simp: split_lines_ne)

lemma one_line_no_newline: "one_line k w \<Longrightarrow> line_feed \<notin> set w"
  using rules_newlines [of _ _ INITIAL] lang_avoids_newline by (fastforce simp: one_line_def)

text \<open>A lexeme of several lines has characters on its last line.\<close>

lemma lexeme_last:
  assumes "lexeme k w" and "line_feed \<in> set w"
  shows "\<exists>v c. w = v @ [c] \<and> c \<noteq> line_feed"
  using assms one_line_no_newline by (auto simp: lexeme_def delimited_def)

lemma recorded_span_ok:
  assumes len: "length (c_str src) < 2 ^ 31 - 1" and t: "t \<in> set (recorded src n)" and fits: "fits_str_buf (c_str src) t"
  shows "span_ok t"
proof -
  let ?s = "c_str src"
  obtain i j where s: "span_at ?s t (i, j)"
    using recorded_span [OF t] by blast
  note p = span_at_pos [OF s]
  have b: "length ?s < 2 ^ 32"
    using len by simp
  define w where "w = text_slice ?s i j"
  have lx: "lexeme (token_kind t) w" and tx: "text_of_span (token_kind t) (tok_text t) w"
    using s by (simp_all add: span_at_def w_def)
  have lt: "tok_start t < tok_end t"
    using pos_at_less [OF p(1,2) b] p(3,4) by simp
  show ?thesis
  proof (cases "line (tok_start t) = line (tok_end t)")
    case True
    then show ?thesis
      using lt by (auto simp: span_ok_def less_LspPos_def)
  next
    case False
    have lines: "unat (line (tok_end t)) = unat (line (tok_start t)) + length (filter (\<lambda>c. c = line_feed) w)"
      using piece_lines [OF p(1,2) b] by (simp add: p(3,4) w_def)
    have nl: "line_feed \<in> set w"
    proof (rule ccontr)
      assume "line_feed \<notin> set w"
      then have "filter (\<lambda>c. c = line_feed) w = []"
        by (auto simp: filter_empty_conv)
      then have "unat (line (tok_end t)) = unat (line (tok_start t))"
        using lines by simp
      then show False
        using False by (simp add: word_unat_eq_iff)
    qed
    obtain v c where v: "w = v @ [c]" "c \<noteq> line_feed"
      using lexeme_last [OF lx nl] by blast
    have "snd (pos_after (0, 0) (take j ?s)) = Suc (snd (pos_after (0, 0) (take i ?s @ v)))"
      using take_slice [OF less_imp_le [OF p(1)], of ?s] v
      by (simp add: w_def [symmetric] pos_after_append [of _ _ "[c]"] flip: append_assoc)
        (cases "pos_after (0, 0) (take i ?s @ v)"; simp)
    then have ch: "character (tok_end t) \<noteq> 0"
      using pos_at_character [OF p(2) b] by (auto simp: p(4))
    have "length w < 4095"
      using fits False span_at_bytes [OF s b] p(2) by (simp add: fits_str_buf_def w_def slice_length)
    moreover have "\<not> one_line (token_kind t) w"
      using one_line_no_newline nl by blast
    then have "token_kind t = TK_BLOCK_COMMENT \<or> token_kind t = TK_MULTI_LINE_STR"
      using lx by (auto simp: lexeme_def)
    ultimately have "tok_text t = Some w"
      using tx by (auto simp: text_of_span_def tok_simps)
    then show ?thesis
      using False ch lines \<open>length w < 4095\<close> by (simp add: span_ok_def split_lines_count word_le_nat_alt)
  qed
qed


definition comment_text :: string where
  "comment_text = ''/*'' @ [line_feed] @ ''*/''"

lemma comment_text_recorded:
  "recorded comment_text 1 =
     [\<lparr>token_kind = TK_BLOCK_COMMENT, tok_start = LspPos 0 0, tok_end = LspPos 1 2, tok_text = Some comment_text\<rparr>]"
  by code_simp

lemma comment_text_fits:
  "length (c_str comment_text) < 2 ^ 31 - 1" "list_all (fits_str_buf (c_str comment_text)) (recorded comment_text 1)"
proof -
  show "length (c_str comment_text) < 2 ^ 31 - 1"
    by (simp add: comment_text_def c_str_def)
  show "list_all (fits_str_buf (c_str comment_text)) (recorded comment_text 1)"
    unfolding comment_text_recorded by (simp add: fits_str_buf_def token_bytes_def comment_text_def c_str_def)
qed


subsection \<open>\<open>parse\<close>\<close>

text \<open>The generated parser is a parameter: from the tokens it is given, one call after the other, it
  gives the number of calls it made before it stopped, the root it built and the includes it
  met.  \<open>qsort\<close> is the C library's; the parents of nodes are their places in the tree.\<close>

type_synonym yyparser = "(nat \<Rightarrow> nat \<times> Token) \<Rightarrow> nat \<times> tj_node \<times> IncludeRef list"

definition token_stream :: "string \<Rightarrow> nat \<Rightarrow> nat \<times> Token" where
  "token_stream src i = last (fst (yylex_calls (Suc i) (yylex_start src)))"

abbreviation node_start :: "tj_node \<Rightarrow> LspPos" where
  "node_start m \<equiv> range_start (node_range (info m))"

definition compare_node_starts :: "tj_node \<Rightarrow> tj_node \<Rightarrow> int" where
  "compare_node_starts a b = pos_cmp (node_start a) (node_start b)"

definition parse ::
  "((tj_node \<Rightarrow> tj_node \<Rightarrow> int) \<Rightarrow> tj_node list \<Rightarrow> tj_node list) \<Rightarrow> yyparser \<Rightarrow> string \<Rightarrow> ParseOutput" where
  "parse qsort yyparse src =
     (case yyparse (token_stream src) of
        (n, root, incs) \<Rightarrow>
          let root1 = (if 1 < length (children root)
                       then TjNode (info root) (qsort compare_node_starts (children root)) else root) in
          \<lparr>po_root = root1, po_tok_spans = recorded src n, po_num_sem_entries = recorded_count src n,
           po_tok_owners = assign_token_owners root1 (recorded src n), po_includes = incs\<rparr>)"

definition built_root :: "yyparser \<Rightarrow> string \<Rightarrow> tj_node" where
  "built_root yyparse src = fst (snd (yyparse (token_stream src)))"

text \<open>What \<open>qsort\<close> promises for a comparison that orders by a key.\<close>

definition sorts_nodes :: "((tj_node \<Rightarrow> tj_node \<Rightarrow> int) \<Rightarrow> tj_node list \<Rightarrow> tj_node list) \<Rightarrow> bool" where
  "sorts_nodes qsort \<longleftrightarrow>
     (\<forall>ms. mset (qsort compare_node_starts ms) = mset ms \<and>
           sorted_wrt (\<lambda>a b. compare_node_starts a b \<le> 0) (qsort compare_node_starts ms))"

lemma parse_children:
  assumes "sorts_nodes qsort"
  shows "mset (children (po_root (parse qsort yyparse src))) = mset (children (built_root yyparse src))"
    and "sorted (map node_start (children (po_root (parse qsort yyparse src))))"
proof -
  obtain n root incs where y: "yyparse (token_stream src) = (n, root, incs)"
    by (metis prod_cases3)
  let ?cs = "children (po_root (parse qsort yyparse src))"
  have cs: "?cs = (if 1 < length (children root) then qsort compare_node_starts (children root) else children root)"
    by (simp add: parse_def y Let_def)
  show "mset ?cs = mset (children (built_root yyparse src))"
    using assms by (simp add: cs built_root_def y sorts_nodes_def)
  show "sorted (map node_start ?cs)"
  proof (cases "1 < length (children root)")
    case True
    have "sorted_wrt (\<lambda>a b. compare_node_starts a b \<le> 0) (qsort compare_node_starts (children root))"
      using assms by (simp add: sorts_nodes_def)
    then show ?thesis
      unfolding cs if_P [OF True] by (simp add: compare_node_starts_def sorted_map)
  next
    case False
    then have "length ?cs \<le> 1"
      by (simp add: cs)
    then show ?thesis
      by (cases ?cs) auto
  qed
qed

lemma parse_fields:
  "\<exists>n. po_tok_spans (parse qsort yyparse src) = recorded src n
     \<and> po_num_sem_entries (parse qsort yyparse src) = recorded_count src n
     \<and> po_tok_owners (parse qsort yyparse src) =
         assign_token_owners (po_root (parse qsort yyparse src)) (recorded src n)"
  by (auto simp: parse_def Let_def split: prod.splits)

text \<open>For every text below two gigabytes and whatever the generated parser makes of its tokens, as
  long as the bodies of its declarations are in source order: the parse has the parser's
  top-level declarations in source order, its tokens in order and disjoint, every token owned by
  the declaration a search from the top finds around it, and a count that sizes a sufficient buffer
  for the highlighter.\<close>

theorem parse_well_formed:
  assumes "length (c_str src) < 2 ^ 31 - 1" and "sorts_nodes qsort"
    and "list_all ordered_node (children (built_root yyparse src))"
  shows "mset (children (po_root (parse qsort yyparse src))) = mset (children (built_root yyparse src)) \<and>
    sorted (map node_start (children (po_root (parse qsort yyparse src)))) \<and>
    sorted_wrt (\<lambda>a b. tok_end a \<le> tok_start b) (po_tok_spans (parse qsort yyparse src)) \<and>
    po_tok_owners (parse qsort yyparse src) =
      map (\<lambda>t. map_option st_path (innermost (tok_start t) None
             (build_owner_scope (po_root (parse qsort yyparse src)) (find_project (po_root (parse qsort yyparse src))))))
          (po_tok_spans (parse qsort yyparse src)) \<and>
    int (length (compute_semantic_tokens_data (po_tok_spans (parse qsort yyparse src))))
      \<le> 5 * po_num_sem_entries (parse qsort yyparse src)"
proof -
  let ?po = "parse qsort yyparse src"
  obtain n where po: "po_tok_spans ?po = recorded src n" "po_num_sem_entries ?po = recorded_count src n"
    "po_tok_owners ?po = assign_token_owners (po_root ?po) (recorded src n)"
    using parse_fields by blast
  have len: "length (c_str src) < 2 ^ 32"
    using assms(1) by simp
  have "set (children (po_root ?po)) = set (children (built_root yyparse src))"
    using parse_children(1) [OF assms(2), of yyparse src] by (rule mset_eq_setD)
  then have "\<forall>c \<in> set (children (po_root ?po)). ordered_node c"
    using assms(3) by (simp add: list_all_iff)
  then have "assign_token_owners (po_root ?po) (recorded src n) =
      map (\<lambda>t. map_option st_path (innermost (tok_start t) None (build_owner_scope (po_root ?po) (find_project (po_root ?po)))))
        (recorded src n)"
    by (intro assign_token_owners_search build_owner_scope_ordered recorded_sorted [OF len])
  then show ?thesis
    using parse_children [OF assms(2), of yyparse src] recorded_order(1) [OF len, of n] recorded_buffer [OF assms(1), of n]
    by (simp only: po simp_thms)
qed

definition some_qsort :: "(tj_node \<Rightarrow> tj_node \<Rightarrow> int) \<Rightarrow> tj_node list \<Rightarrow> tj_node list" where
  "some_qsort cmp ms = sort_key node_start ms"

definition some_yyparse :: yyparser where
  "some_yyparse ts = (1, TjNode (info tj_node_new) [example_node KW_TASK ''c'' 3 4 [], example_node KW_TASK ''a'' 0 2 []], [])"

theorem parse_well_formed_witness:
  "po_tok_owners (parse some_qsort some_yyparse comment_text) = [Some [0]] \<and>
   int (length (compute_semantic_tokens_data (po_tok_spans (parse some_qsort some_yyparse comment_text))))
     \<le> 5 * po_num_sem_entries (parse some_qsort some_yyparse comment_text)"
proof -
  have q: "sorts_nodes some_qsort"
    using sorted_sort_key [of node_start] by (simp add: sorts_nodes_def some_qsort_def compare_node_starts_def sorted_map)
  have "list_all ordered_node (children (built_root some_yyparse comment_text))"
    by (simp add: built_root_def some_yyparse_def example_node_def)
  note wf = parse_well_formed [OF comment_text_fits(1) q this]
  have spans: "po_tok_spans (parse some_qsort some_yyparse comment_text) = recorded comment_text 1"
    by (simp add: parse_def some_yyparse_def Let_def)
  have "po_root (parse some_qsort some_yyparse comment_text) =
      TjNode (info tj_node_new) [example_node KW_TASK ''a'' 0 2 [], example_node KW_TASK ''c'' 3 4 []]"
    by (simp add: parse_def some_yyparse_def Let_def some_qsort_def example_node_def less_eq_LspPos_def)
  then have "po_tok_owners (parse some_qsort some_yyparse comment_text) = map (\<lambda>t. map_option st_path (innermost (tok_start t) None
      (build_owner_scope (TjNode (info tj_node_new) [example_node KW_TASK ''a'' 0 2 [], example_node KW_TASK ''c'' 3 4 []])
        (find_project (TjNode (info tj_node_new) [example_node KW_TASK ''a'' 0 2 [], example_node KW_TASK ''c'' 3 4 []])))))
      [\<lparr>token_kind = TK_BLOCK_COMMENT, tok_start = LspPos 0 0, tok_end = LspPos 1 2, tok_text = Some comment_text\<rparr>]"
    using wf by (simp only: spans comment_text_recorded)
  also have "\<dots> = [Some [0]]"
    by code_simp
  finally show ?thesis
    using wf by blast
qed

end
