(* ===== verification/Arena.thy ===== *)
theory Arena
  imports Prelude
begin

text \<open>
  The string arena (\<open>src/src/arena.c\<close>) that owns the lexemes and nodes of a parse: blocks that are
  never moved or resized, a bump pointer in the newest one, aligned for nodes and tight for strings.
  A pointer is the number of a block, counted from the oldest, and an offset into its bytes.  Sizes
  are \<open>size_t\<close>, so they wrap; the bytes of a fresh block are not read before they are written.
\<close>

subsection \<open>Blocks and allocations\<close>

definition ARENA_BLOCK_SIZE :: u64 where
  "ARENA_BLOCK_SIZE = 64 * 1024"

record arena_block =
  used :: u64
  cap :: u64
  bytes :: "nat \<Rightarrow> char"

type_synonym str_arena = "arena_block list"
type_synonym pointer = "nat \<times> u64"

definition arena_grow :: "u64 \<Rightarrow> str_arena \<Rightarrow> str_arena" where
  "arena_grow need a =
     \<lparr>used = 0, cap = (if ARENA_BLOCK_SIZE < need then need else ARENA_BLOCK_SIZE), bytes = (\<lambda>_. nul)\<rparr> # a"

definition arena_alloc :: "u64 \<Rightarrow> str_arena \<Rightarrow> str_arena \<times> pointer" where
  "arena_alloc n a =
     (let off = (case a of [] \<Rightarrow> 0 | b # bs \<Rightarrow> (used b + 7) AND NOT 7);
          grow = (case a of [] \<Rightarrow> True | b # bs \<Rightarrow> cap b < off + n);
          a1 = (if grow then arena_grow n a else a);
          off1 = (if grow then 0 else off) in
      ((hd a1)\<lparr>used := off1 + n\<rparr> # tl a1, (length a1 - 1, off1)))"

definition write_string :: "nat \<Rightarrow> string \<Rightarrow> (nat \<Rightarrow> char) \<Rightarrow> nat \<Rightarrow> char" where
  "write_string off s f = (\<lambda>i. if off \<le> i \<and> i \<le> off + length s then (s @ [nul]) ! (i - off) else f i)"

definition arena_strndup :: "string \<Rightarrow> str_arena \<Rightarrow> str_arena \<times> pointer" where
  "arena_strndup s a =
     (let need = of_nat (length s) + 1;
          a1 = (case a of [] \<Rightarrow> arena_grow need a
                | b # bs \<Rightarrow> if cap b - used b < need then arena_grow need a else a);
          b = hd a1 in
      (b\<lparr>used := used b + need, bytes := write_string (unat (used b)) s (bytes b)\<rparr> # tl a1, (length a1 - 1, used b)))"

subsection \<open>Sequences of allocations\<close>

datatype arena_op = Alloc u64 | Strndup string

text \<open>What an operation gave out: its block, its first byte and its length.\<close>

fun op_size :: "arena_op \<Rightarrow> nat" where
  "op_size (Alloc n) = unat n"
| "op_size (Strndup s) = length s + 1"

fun arena_do :: "arena_op \<Rightarrow> str_arena \<Rightarrow> str_arena \<times> pointer" where
  "arena_do (Alloc n) a = arena_alloc n a"
| "arena_do (Strndup s) a = arena_strndup s a"

fun arena_run :: "arena_op list \<Rightarrow> str_arena \<Rightarrow> str_arena \<times> (arena_op \<times> pointer) list" where
  "arena_run [] a = (a, [])"
| "arena_run (x # xs) a =
     (case arena_do x a of (a1, p) \<Rightarrow> (case arena_run xs a1 of (a2, ps) \<Rightarrow> (a2, (x, p) # ps)))"

definition block_at :: "str_arena \<Rightarrow> nat \<Rightarrow> arena_block" where
  "block_at a k = a ! (length a - 1 - k)"

subsection \<open>Sizes as numbers\<close>

lemma and_not_mask_3: "y AND NOT 7 = y - (y mod 8 :: u64)"
proof -
  have "y AND NOT (mask 3) = push_bit 3 (drop_bit 3 y)"
    by (rule bit_word_eqI) (auto simp: bit_simps)
  also have "\<dots> = y - take_bit 3 y"
    using bits_ident [of 3 y] by (simp add: algebra_simps)
  also have "take_bit 3 y = y mod 8"
    by (simp add: take_bit_eq_mod)
  finally show ?thesis
    by (simp add: mask_eq_exp_minus_1)
qed

lemma round_up_8:
  assumes "unat x < 2 ^ 62"
  shows "unat ((x + 7) AND NOT 7 :: u64) = (unat x + 7) div 8 * 8"
proof -
  have x7: "unat (x + 7) = unat x + 7"
    using assms by (simp add: unat_word_ariths)
  have "unat ((x + 7) - (x + 7) mod 8) = unat (x + 7) - unat ((x + 7) mod 8)"
    by (rule unat_sub) (simp add: word_le_nat_alt unat_mod)
  then show ?thesis
    unfolding and_not_mask_3 by (simp add: unat_mod x7 minus_mod_eq_div_mult)
qed

definition arena_ok :: "str_arena \<Rightarrow> bool" where
  "arena_ok a \<longleftrightarrow> (\<forall>b \<in> set a. unat (used b) \<le> unat (cap b) \<and> unat (cap b) < 2 ^ 62)"

lemma unat_rounded_plus:
  assumes "unat (x :: u64) < 2 ^ 62" and "unat n < 2 ^ 62"
  shows "unat (((x + 7) AND NOT 7) + n) = (unat x + 7) div 8 * 8 + unat n"
proof -
  have "(unat x + 7) div 8 * 8 \<le> unat x + 7"
    by simp
  then show ?thesis
    using assms unfolding unat_word_ariths(1) round_up_8 [OF assms(1)] by simp
qed

text \<open>One operation: the blocks there were keep their bytes, and what is given out lies behind what
  was given out before, in its block.\<close>

definition keeps_blocks :: "str_arena \<Rightarrow> str_arena \<Rightarrow> bool" where
  "keeps_blocks a a' \<longleftrightarrow> length a \<le> length a' \<and>
     (\<forall>k < length a. unat (used (block_at a k)) \<le> unat (used (block_at a' k)) \<and>
        (\<forall>i < unat (used (block_at a k)). bytes (block_at a' k) i = bytes (block_at a k) i))"

definition unused :: "str_arena \<Rightarrow> pointer \<Rightarrow> bool" where
  "unused a p \<longleftrightarrow> (fst p < length a \<longrightarrow> unat (used (block_at a (fst p))) \<le> unat (snd p))"

definition read_bytes :: "str_arena \<Rightarrow> pointer \<Rightarrow> nat \<Rightarrow> string" where
  "read_bytes a p n = map (\<lambda>i. bytes (block_at a (fst p)) (unat (snd p) + i)) [0..<n]"

fun contents_ok :: "str_arena \<Rightarrow> arena_op \<times> pointer \<Rightarrow> bool" where
  "contents_ok a (Alloc n, p) \<longleftrightarrow> unat (snd p) mod 8 = 0"
| "contents_ok a (Strndup s, p) \<longleftrightarrow> read_bytes a p (length s + 1) = s @ [nul]"

fun region_ok :: "str_arena \<Rightarrow> arena_op \<times> pointer \<Rightarrow> bool" where
  "region_ok a (x, p) \<longleftrightarrow>
     fst p < length a \<and> unat (snd p) + op_size x \<le> unat (used (block_at a (fst p))) \<and> contents_ok a (x, p)"

lemma keeps_blocks_refl: "keeps_blocks a a"
  by (simp add: keeps_blocks_def)

lemma keeps_blocks_trans: "keeps_blocks a b \<Longrightarrow> keeps_blocks b c \<Longrightarrow> keeps_blocks a c"
  by (auto simp: keeps_blocks_def intro: le_trans)

lemma keeps_blocks_unused: "keeps_blocks a b \<Longrightarrow> unused b p \<Longrightarrow> unused a p"
  unfolding keeps_blocks_def unused_def by (meson le_trans less_le_trans)

lemma keeps_blocks_region:
  assumes e: "keeps_blocks a b" and r: "region_ok a (x, p)"
  shows "region_ok b (x, p)"
proof -
  have k: "fst p < length a" and u: "unat (snd p) + op_size x \<le> unat (used (block_at a (fst p)))"
    and c: "contents_ok a (x, p)"
    using r by simp_all
  have b: "fst p < length b" "unat (used (block_at a (fst p))) \<le> unat (used (block_at b (fst p)))"
    "\<And>i. i < unat (used (block_at a (fst p))) \<Longrightarrow> bytes (block_at b (fst p)) i = bytes (block_at a (fst p)) i"
    using e k by (auto simp: keeps_blocks_def)
  have "contents_ok b (x, p)"
  proof (cases x)
    case (Strndup s)
    have "read_bytes b p (length s + 1) = read_bytes a p (length s + 1)"
      using u b(3) by (simp add: read_bytes_def Strndup)
    then show ?thesis
      using c by (simp add: Strndup)
  qed (use c in simp)
  then show ?thesis
    using u b by simp
qed

lemma block_at_Cons: "block_at (b # a) (length a) = b" "k < length a \<Longrightarrow> block_at (b # a) k = block_at a k"
  by (simp_all add: block_at_def nth_Cons' Suc_diff_Suc)

lemma grow_ok: "arena_ok a \<Longrightarrow> unat need < 2 ^ 62 \<Longrightarrow> arena_ok (arena_grow need a)"
  by (auto simp: arena_ok_def arena_grow_def ARENA_BLOCK_SIZE_def)

lemma grow_extends: "keeps_blocks a (arena_grow need a)"
  by (simp add: keeps_blocks_def arena_grow_def block_at_Cons)

text \<open>Both operations end alike: the newest block is written from its bump pointer on and moved.\<close>

lemma bump_ok:
  assumes "arena_ok (b # bs)" and "unat (used b) \<le> unat off" and "unat (off + n) = unat off + unat n"
    and "unat off + unat n \<le> unat (cap b)"
    and "\<And>i. i < unat (used b) \<Longrightarrow> f i = bytes b i"
  shows "arena_ok (b\<lparr>used := off + n, bytes := f\<rparr> # bs) \<and> keeps_blocks (b # bs) (b\<lparr>used := off + n, bytes := f\<rparr> # bs) \<and>
    unused (b # bs) (length bs, off) \<and>
    unat off + unat n \<le> unat (used (block_at (b\<lparr>used := off + n, bytes := f\<rparr> # bs) (length bs)))"
proof -
  have "keeps_blocks (b # bs) (b\<lparr>used := off + n, bytes := f\<rparr> # bs)"
    unfolding keeps_blocks_def
  proof (intro conjI allI impI)
    fix k
    assume "k < length (b # bs)"
    then consider "k = length bs" | "k < length bs"
      by fastforce
    note k = this
    show "unat (used (block_at (b # bs) k)) \<le> unat (used (block_at (b\<lparr>used := off + n, bytes := f\<rparr> # bs) k))"
      using k by cases (use assms in \<open>simp_all add: block_at_Cons\<close>)
    fix i
    assume i: "i < unat (used (block_at (b # bs) k))"
    show "bytes (block_at (b\<lparr>used := off + n, bytes := f\<rparr> # bs) k) i = bytes (block_at (b # bs) k) i"
      using k by cases (use assms i in \<open>simp_all add: block_at_Cons\<close>)
  qed simp
  then show ?thesis
    using assms by (simp add: arena_ok_def unused_def block_at_Cons)
qed

lemma arena_do_ok:
  assumes ok: "arena_ok a" and size: "op_size x < 2 ^ 62" and run: "arena_do x a = (a', p)"
  shows "arena_ok a' \<and> keeps_blocks a a' \<and> unused a p \<and> region_ok a' (x, p)"
proof (cases x)
  case (Alloc n)
  let ?off = "case a of [] \<Rightarrow> 0 | b # bs \<Rightarrow> (used b + 7) AND NOT 7"
  let ?grow = "case a of [] \<Rightarrow> True | b # bs \<Rightarrow> cap b < ?off + n"
  have n: "unat n < 2 ^ 62"
    using size Alloc by simp
  show ?thesis
  proof (cases ?grow)
    case True
    obtain b where b: "arena_grow n a = b # a" "used b = 0" "unat n \<le> unat (cap b)"
      by (auto simp: arena_grow_def ARENA_BLOCK_SIZE_def word_less_nat_alt)
    have "arena_ok (b # a)" "keeps_blocks a (b # a)"
      using grow_ok [OF ok n] grow_extends [of a n] by (simp_all add: b(1))
    moreover have ap: "a' = b\<lparr>used := n\<rparr> # a" "p = (length a, 0)"
      using run True by (simp_all add: Alloc arena_alloc_def Let_def b(1))
    ultimately show ?thesis
      using bump_ok [of b a 0 n "bytes b"] b keeps_blocks_trans keeps_blocks_unused by (force simp: Alloc)
  next
    case False
    then obtain b bs where a: "a = b # bs" and fits: "\<not> cap b < ((used b + 7) AND NOT 7) + n"
      by (auto split: list.splits)
    define off where "off = (used b + 7) AND NOT 7"
    have fits': "unat (off + n) \<le> unat (cap b)"
      using fits unfolding off_def [symmetric] by (simp add: word_less_nat_alt)
    have u: "unat (used b) < 2 ^ 62"
      using ok by (simp add: arena_ok_def a)
    have off: "unat off = (unat (used b) + 7) div 8 * 8" "unat (off + n) = unat off + unat n"
      using round_up_8 [OF u] unat_rounded_plus [OF u n] by (simp_all add: off_def)
    then have "unat (used b) \<le> unat off" "unat off + unat n \<le> unat (cap b)" "unat off mod 8 = 0"
      using fits' by simp_all
    moreover have "a' = b\<lparr>used := off + n\<rparr> # bs" "p = (length bs, off)"
      using run fits by (simp_all add: Alloc arena_alloc_def Let_def a off_def)
    ultimately show ?thesis
      using bump_ok [of b bs off n "bytes b"] ok off(2) by (simp add: a Alloc)
  qed
next
  case (Strndup s)
  let ?need = "of_nat (length s) + 1 :: u64"
  have need: "unat ?need = length s + 1" "length s + 1 < 2 ^ 62"
    using size by (simp_all add: Strndup unat_word_ariths unat_of_nat)
  have read: "read_bytes (b\<lparr>used := u, bytes := write_string (unat (used b)) s (bytes b)\<rparr> # bs) (length bs, used b) (length s + 1)
      = s @ [nul]" for b u bs
    by (rule nth_equalityI) (simp_all add: read_bytes_def block_at_Cons write_string_def del: upt_Suc)
  have step: "arena_ok (b\<lparr>used := used b + ?need, bytes := write_string (unat (used b)) s (bytes b)\<rparr> # bs) \<and>
      keeps_blocks (b # bs) (b\<lparr>used := used b + ?need, bytes := write_string (unat (used b)) s (bytes b)\<rparr> # bs) \<and>
      unused (b # bs) (length bs, used b) \<and>
      region_ok (b\<lparr>used := used b + ?need, bytes := write_string (unat (used b)) s (bytes b)\<rparr> # bs) (x, length bs, used b)"
    if "arena_ok (b # bs)" "unat (used b) + (length s + 1) \<le> unat (cap b)" for b bs
  proof -
    have "unat (used b + ?need) = unat (used b) + unat ?need"
      by (subst unat_add_lem [symmetric]) (use that(2) need unsigned_less [of "cap b", where ?'a = nat] in simp)
    then show ?thesis
      using bump_ok [OF that(1), of "used b" ?need "write_string (unat (used b)) s (bytes b)"] that(2) read need
      by (simp add: Strndup write_string_def)
  qed
  show ?thesis
  proof (cases "case a of [] \<Rightarrow> True | b # bs \<Rightarrow> cap b - used b < ?need")
    case True
    obtain b where b: "arena_grow ?need a = b # a" "used b = 0" "unat ?need \<le> unat (cap b)"
      by (auto simp: arena_grow_def ARENA_BLOCK_SIZE_def word_less_nat_alt)
    have "arena_ok (b # a)" "keeps_blocks a (b # a)"
      using grow_ok [OF ok, of ?need] grow_extends [of a ?need] need by (simp_all add: b(1))
    moreover have "a' = b\<lparr>used := used b + ?need, bytes := write_string (unat (used b)) s (bytes b)\<rparr> # a" "p = (length a, used b)"
      using run True b(1) by (auto simp: Strndup arena_strndup_def Let_def split: list.splits)
    ultimately show ?thesis
      using step [of b a] b need keeps_blocks_trans keeps_blocks_unused by force
  next
    case False
    then obtain b bs where a: "a = b # bs" and fits: "\<not> cap b - used b < ?need"
      by (auto split: list.splits)
    have "unat (used b) \<le> unat (cap b)"
      using ok by (simp add: arena_ok_def a)
    then have "unat (cap b - used b) = unat (cap b) - unat (used b)"
      by (simp add: unat_sub word_le_nat_alt)
    then have "unat (used b) + (length s + 1) \<le> unat (cap b)"
      using fits need \<open>unat (used b) \<le> unat (cap b)\<close> by (simp add: word_less_nat_alt)
    moreover have "a' = b\<lparr>used := used b + ?need, bytes := write_string (unat (used b)) s (bytes b)\<rparr> # bs" "p = (length bs, used b)"
      using run fits by (auto simp: Strndup arena_strndup_def Let_def a)
    ultimately show ?thesis
      using step [of b bs] ok by (simp add: a)
  qed
qed

definition behind :: "arena_op \<times> pointer \<Rightarrow> arena_op \<times> pointer \<Rightarrow> bool" where
  "behind g h \<longleftrightarrow> (fst (snd g) = fst (snd h) \<longrightarrow> unat (snd (snd g)) + op_size (fst g) \<le> unat (snd (snd h)))"

lemma arena_run_ok:
  "arena_ok a \<Longrightarrow> \<forall>x \<in> set xs. op_size x < 2 ^ 62 \<Longrightarrow> arena_run xs a = (a', gs) \<Longrightarrow>
   arena_ok a' \<and> keeps_blocks a a' \<and> (\<forall>g \<in> set gs. unused a (snd g) \<and> region_ok a' g) \<and> sorted_wrt behind gs"
proof (induction xs arbitrary: a gs)
  case (Cons x xs)
  obtain a1 p where 1: "arena_do x a = (a1, p)"
    by (cases "arena_do x a") simp
  obtain gs' where 2: "arena_run xs a1 = (a', gs')" "gs = (x, p) # gs'"
    using Cons.prems(3) 1 by (auto split: prod.splits)
  have d: "arena_ok a1" "keeps_blocks a a1" "unused a p" "region_ok a1 (x, p)"
    using arena_do_ok [OF Cons.prems(1) _ 1] Cons.prems(2) by simp_all
  have r: "arena_ok a'" "keeps_blocks a1 a'" "\<forall>g \<in> set gs'. unused a1 (snd g) \<and> region_ok a' g" "sorted_wrt behind gs'"
    using Cons.IH [OF d(1) _ 2(1)] Cons.prems(2) by simp_all
  have "behind (x, p) g" if "g \<in> set gs'" for g
    using r(3) d(4) that by (fastforce simp: behind_def unused_def)
  then show ?case
    using d r keeps_blocks_trans [OF d(2) r(2)] keeps_blocks_region [OF r(2) d(4)] keeps_blocks_unused [OF d(2)] by (auto simp: 2(2))
qed (simp add: keeps_blocks_refl)

lemma arena_run_ops: "arena_run xs a = (a', gs) \<Longrightarrow> map fst gs = xs"
  by (induction xs arbitrary: a gs) (auto split: prod.splits)

text \<open>C38: What an arena gives out is its caller's alone and stays where it is: whatever allocations
  follow each other, every region lies inside the used part of its block, no two of them overlap, those
  of nodes start at a multiple of 8, and every interned string, with its terminator, still reads the
  same at the end.\<close>

theorem arena_regions:
  assumes "\<forall>x \<in> set xs. op_size x < 2 ^ 62"
  shows "case arena_run xs [] of
    (a, gs) \<Rightarrow>
      map fst gs = xs \<and>
      sorted_wrt (\<lambda>(x, k, off) (y, k', off'). k = k' \<longrightarrow> unat off + op_size x \<le> unat off') gs \<and>
      (\<forall>(x, k, off) \<in> set gs.
         k < length a \<and> unat off + op_size x \<le> unat (used (block_at a k)) \<and>
         used (block_at a k) \<le> cap (block_at a k) \<and>
         (case x of
            Alloc n \<Rightarrow> unat off mod 8 = 0
          | Strndup s \<Rightarrow> map (\<lambda>i. bytes (block_at a k) (unat off + i)) [0..<length s + 1] = s @ [nul]))"
proof -
  have "arena_ok []"
    by (simp add: arena_ok_def)
  obtain a gs where run: "arena_run xs [] = (a, gs)"
    by (cases "arena_run xs []") simp
  have r: "arena_ok a" "\<forall>g \<in> set gs. region_ok a g" "sorted_wrt behind gs"
    using arena_run_ok [OF \<open>arena_ok []\<close> assms run] by blast+
  have b: "behind = (\<lambda>(x, k, off) (y, k', off'). k = k' \<longrightarrow> unat off + op_size x \<le> unat off')"
    by (auto simp: behind_def fun_eq_iff)
  have "k < length a \<and> unat off + op_size x \<le> unat (used (block_at a k)) \<and> used (block_at a k) \<le> cap (block_at a k) \<and>
         (case x of
            Alloc n \<Rightarrow> unat off mod 8 = 0
          | Strndup s \<Rightarrow> map (\<lambda>i. bytes (block_at a k) (unat off + i)) [0..<length s + 1] = s @ [nul])"
    if "(x, k, off) \<in> set gs" for x k off
  proof -
    have g: "region_ok a (x, k, off)"
      using r(2) that by blast
    then have "block_at a k \<in> set a"
      by (auto simp: block_at_def intro!: nth_mem)
    then show ?thesis
      using g r(1) by (cases x) (simp_all add: arena_ok_def read_bytes_def word_le_nat_alt del: upt_Suc)
  qed
  then show ?thesis
    using r(3) arena_run_ops [OF run] unfolding b run by blast
qed

lemma arena_regions_witness:
  "case arena_run [Strndup ''task'', Alloc 100000, Strndup ''a'', Alloc 24] [] of
    (a, gs) \<Rightarrow>
      map fst gs = [Strndup ''task'', Alloc 100000, Strndup ''a'', Alloc 24] \<and>
      sorted_wrt (\<lambda>(x, k, off) (y, k', off'). k = k' \<longrightarrow> unat off + op_size x \<le> unat off') gs \<and>
      (\<forall>(x, k, off) \<in> set gs.
         k < length a \<and> unat off + op_size x \<le> unat (used (block_at a k)) \<and>
         used (block_at a k) \<le> cap (block_at a k) \<and>
         (case x of
            Alloc n \<Rightarrow> unat off mod 8 = 0
          | Strndup s \<Rightarrow> map (\<lambda>i. bytes (block_at a k) (unat off + i)) [0..<length s + 1] = s @ [nul]))"
  by (rule arena_regions) simp

end
