(* ===== verification/Lifetimes.thy ===== *)
theory Lifetimes
  imports Prelude "HOL-Library.Multiset" "HOL-Library.Monad_Syntax"
begin

text \<open>
  How long snapshots live: the reference counts of \<open>doc_snapshot\<close> and \<open>workspace_snapshot\<close>
  (\<open>src/src/query_context.c\<close>) and everything that holds a reference: the two parses of a slot of
  the document store, the published workspace, the contexts of queries, the diagnostics workers, and
  a workspace's own documents.  The rest of the development treats snapshots as values; here they
  are objects of a heap, made, counted and freed.  An access to a freed object is \<open>None\<close>.

  Each operation on a count is one atomic instruction of the code; a release that frees a workspace
  leaves the references of its documents to be dropped one by one, which other threads may
  interleave with.  Counts are C ints and numbers here.
\<close>

subsection \<open>Counted objects\<close>

definition count_of :: "'a option list \<Rightarrow> ('a \<Rightarrow> int) \<Rightarrow> nat \<Rightarrow> int option" where
  "count_of h f i = (if i < length h then map_option f (h ! i) else None)"

text \<open>The counts are those of a multiset of references, and nothing lives without one.\<close>

definition counted :: "(nat \<Rightarrow> int option) \<Rightarrow> nat multiset \<Rightarrow> bool" where
  "counted c R \<longleftrightarrow> c = (\<lambda>i. if count R i = 0 then None else Some (int (count R i)))"

lemma counted_update:
  "counted c R \<Longrightarrow> (\<And>j. j \<noteq> i \<Longrightarrow> count R' j = count R j) \<Longrightarrow>
   x = (if count R' i = 0 then None else Some (int (count R' i))) \<Longrightarrow> counted (c(i := x)) R'"
proof -
  assume c: "counted c R" and R': "\<And>j. j \<noteq> i \<Longrightarrow> count R' j = count R j"
    and x: "x = (if count R' i = 0 then None else Some (int (count R' i)))"
  show "counted (c(i := x)) R'"
    unfolding counted_def
  proof
    fix j
    show "(c(i := x)) j = (if count R' j = 0 then None else Some (int (count R' j)))"
    proof (cases "j = i")
      case True
      then show ?thesis
        by (simp only: fun_upd_same x)
    next
      case False
      then have "(c(i := x)) j = c j"
        by simp
      also have "\<dots> = (if count R' j = 0 then None else Some (int (count R' j)))"
        unfolding R' [OF False] by (rule fun_cong [OF c [unfolded counted_def]])
      finally show ?thesis .
    qed
  qed
qed

text \<open>Every operation does nothing on NULL.\<close>

definition unless_null :: "(nat \<Rightarrow> 'h \<Rightarrow> 'h option) \<Rightarrow> nat option \<Rightarrow> 'h \<Rightarrow> 'h option" where
  "unless_null f x h = (case x of None \<Rightarrow> Some h | Some i \<Rightarrow> f i h)"

fun for_all :: "(nat \<Rightarrow> 'h \<Rightarrow> 'h option) \<Rightarrow> nat list \<Rightarrow> 'h \<Rightarrow> 'h option" where
  "for_all f [] h = Some h"
| "for_all f (i # is) h = f i h \<bind> for_all f is"

definition opt_ms :: "nat option \<Rightarrow> nat multiset" where
  "opt_ms x = (case x of None \<Rightarrow> {#} | Some i \<Rightarrow> {#i#})"

lemma opt_ms_simps [simp]: "opt_ms None = {#}" "opt_ms (Some i) = {#i#}"
  by (simp_all add: opt_ms_def)

locale refcounted =
  fixes cnt :: "'h \<Rightarrow> nat \<Rightarrow> int option"
    and acquire :: "nat \<Rightarrow> 'h \<Rightarrow> 'h option"
    and release :: "nat \<Rightarrow> 'h \<Rightarrow> 'h option"
  assumes acquire_counts: "cnt h i = Some n \<Longrightarrow> \<exists>h'. acquire i h = Some h' \<and> cnt h' = (cnt h)(i := Some (n + 1))"
    and release_counts: "cnt h i = Some n \<Longrightarrow>
      \<exists>h'. release i h = Some h' \<and> cnt h' = (cnt h)(i := (if n = 1 then None else Some (n - 1)))"
begin

lemma live: "counted (cnt h) R \<Longrightarrow> i \<in># R \<Longrightarrow> cnt h i = Some (int (count R i))"
  by (auto simp: counted_def not_in_iff)

lemma acquire_counted:
  assumes "counted (cnt h) R" and "i \<in># R"
  obtains h' where "acquire i h = Some h'" "counted (cnt h') (add_mset i R)"
proof -
  obtain h' where h': "acquire i h = Some h'" "cnt h' = (cnt h)(i := Some (int (count R i) + 1))"
    using acquire_counts live [OF assms] by blast
  have "counted (cnt h') (add_mset i R)"
    unfolding h'(2) by (rule counted_update [OF assms(1)]) simp_all
  then show ?thesis
    using that h'(1) by blast
qed

lemma release_counted:
  assumes "counted (cnt h) (add_mset i R)"
  obtains h' where "release i h = Some h'" "counted (cnt h') R"
proof -
  have "cnt h i = Some (int (count R i) + 1)"
    using live [OF assms, of i] by simp
  then obtain h' where h': "release i h = Some h'"
    "cnt h' = (cnt h)(i := (if int (count R i) + 1 = 1 then None else Some (int (count R i) + 1 - 1)))"
    using release_counts by blast
  have "counted (cnt h') R"
    unfolding h'(2) by (rule counted_update [OF assms]) (simp_all add: not_in_iff [symmetric] count_eq_zero_iff)
  then show ?thesis
    using that h'(1) by blast
qed

lemma acquire_opt_ok:
  assumes "counted (cnt h) R" and "opt_ms x \<subseteq># R"
  obtains h' where "unless_null acquire x h = Some h'" "counted (cnt h') (opt_ms x + R)"
proof (cases x)
  case None
  then show ?thesis
    using that assms(1) by (simp add: unless_null_def)
next
  case (Some i)
  then have "i \<in># R"
    using assms(2) by simp
  from acquire_counted [OF assms(1) this] that show ?thesis
    by (auto simp: unless_null_def Some)
qed

lemma release_opt_ok:
  assumes "counted (cnt h) (opt_ms x + R)"
  obtains h' where "unless_null release x h = Some h'" "counted (cnt h') R"
proof (cases x)
  case None
  then show ?thesis
    using that assms by (simp add: unless_null_def)
next
  case (Some i)
  then have "counted (cnt h) (add_mset i R)"
    using assms by simp
  from release_counted [OF this] that show ?thesis
    by (auto simp: unless_null_def Some)
qed

lemma acquire_all_ok:
  "counted (cnt h) R \<Longrightarrow> set is \<subseteq> set_mset R \<Longrightarrow> \<exists>h'. for_all acquire is h = Some h' \<and> counted (cnt h') (mset is + R)"
proof (induction "is" arbitrary: h R)
  case (Cons i "is")
  have i: "i \<in># R"
    using Cons.prems(2) by simp
  obtain h1 where h1: "acquire i h = Some h1" "counted (cnt h1) (add_mset i R)"
    by (rule acquire_counted [OF Cons.prems(1) i])
  have "\<exists>h'. for_all acquire is h1 = Some h' \<and> counted (cnt h') (mset is + add_mset i R)"
    by (rule Cons.IH [OF h1(2)]) (use Cons.prems(2) in auto)
  then show ?case
    using h1(1) by simp
qed simp

end

lemma counted_new: "counted c R \<Longrightarrow> c i = None \<Longrightarrow> counted (c(i := Some 1)) (add_mset i R)"
proof (rule counted_update)
  assume "counted c R" and "c i = None"
  then have "count R i = 0"
    by (simp add: counted_def fun_eq_iff split: if_splits)
  then show "Some 1 = (if count (add_mset i R) i = 0 then None else Some (int (count (add_mset i R) i)))"
    by simp
qed simp_all

subsection \<open>Document snapshots\<close>

type_synonym snap_heap = "int option list"

definition snap_alloc :: "snap_heap \<Rightarrow> snap_heap \<times> nat" where
  "snap_alloc h = (h @ [Some 1], length h)"

definition docsnap_acquire :: "nat \<Rightarrow> snap_heap \<Rightarrow> snap_heap option" where
  "docsnap_acquire s h = (case count_of h id s of None \<Rightarrow> None | Some n \<Rightarrow> Some (h[s := Some (n + 1)]))"

definition docsnap_release :: "nat \<Rightarrow> snap_heap \<Rightarrow> snap_heap option" where
  "docsnap_release s h =
     (case count_of h id s of None \<Rightarrow> None | Some n \<Rightarrow> Some (h[s := (if n = 1 then None else Some (n - 1))]))"

lemma count_of_update: "i < length h \<Longrightarrow> count_of (h[i := x]) f = (count_of h f)(i := map_option f x)"
  by (auto simp: count_of_def fun_eq_iff)

lemma count_of_live: "count_of h f i = Some n \<Longrightarrow> i < length h \<and> (\<exists>x. h ! i = Some x \<and> n = f x)"
  by (auto simp: count_of_def split: if_splits)

lemma count_of_new: "count_of (h @ [Some x]) f = (count_of h f)(length h := Some (f x))" "count_of h f (length h) = None"
  by (auto simp: count_of_def fun_eq_iff nth_append less_Suc_eq)

interpretation snap: refcounted "\<lambda>h. count_of h id" docsnap_acquire docsnap_release
proof
  fix h :: snap_heap and i n
  assume n: "count_of h id i = Some n"
  then have i: "i < length h"
    using count_of_live by blast
  show "\<exists>h'. docsnap_acquire i h = Some h' \<and> count_of h' id = (count_of h id)(i := Some (n + 1))"
    by (simp add: docsnap_acquire_def n count_of_update [OF i])
  show "\<exists>h'. docsnap_release i h = Some h' \<and> count_of h' id = (count_of h id)(i := (if n = 1 then None else Some (n - 1)))"
    by (simp add: docsnap_release_def n count_of_update [OF i])
qed

subsection \<open>Workspace snapshots\<close>

text \<open>A workspace carries its documents' snapshots; \<open>ws_dying\<close> are those of freed workspaces that are
  still to be released.\<close>

record ws_heap =
  ws_objects :: "(int \<times> nat list) option list"
  ws_dying :: "nat list"

definition ws_count :: "ws_heap \<Rightarrow> nat \<Rightarrow> int option" where
  "ws_count h = count_of (ws_objects h) fst"

definition ws_make :: "nat list \<Rightarrow> ws_heap \<Rightarrow> ws_heap \<times> nat" where
  "ws_make ds h = (h\<lparr>ws_objects := ws_objects h @ [Some (1, ds)]\<rparr>, length (ws_objects h))"

definition ws_acquire :: "nat \<Rightarrow> ws_heap \<Rightarrow> ws_heap option" where
  "ws_acquire w h =
     (case ws_count h w of
        None \<Rightarrow> None
      | Some n \<Rightarrow> Some (h\<lparr>ws_objects := (ws_objects h)[w := Some (n + 1, snd (the (ws_objects h ! w)))]\<rparr>))"

definition ws_release :: "nat \<Rightarrow> ws_heap \<Rightarrow> ws_heap option" where
  "ws_release w h =
     (case ws_count h w of
        None \<Rightarrow> None
      | Some n \<Rightarrow>
          (let ds = snd (the (ws_objects h ! w)) in
           if n = 1 then Some (h\<lparr>ws_objects := (ws_objects h)[w := None], ws_dying := ws_dying h @ ds\<rparr>)
           else Some (h\<lparr>ws_objects := (ws_objects h)[w := Some (n - 1, ds)]\<rparr>)))"

interpretation ws: refcounted ws_count ws_acquire ws_release
proof
  fix h i n
  assume n: "ws_count h i = Some n"
  then have i: "i < length (ws_objects h)"
    unfolding ws_count_def using count_of_live by blast
  show "\<exists>h'. ws_acquire i h = Some h' \<and> ws_count h' = (ws_count h)(i := Some (n + 1))"
    by (simp add: ws_acquire_def n) (simp add: ws_count_def count_of_update [OF i])
  show "\<exists>h'. ws_release i h = Some h' \<and> ws_count h' = (ws_count h)(i := (if n = 1 then None else Some (n - 1)))"
    by (simp add: ws_release_def n Let_def) (simp add: ws_count_def count_of_update [OF i])
qed

text \<open>The document references a heap of workspaces holds do not change with its counts.\<close>

definition ws_docs_of :: "(int \<times> nat list) option \<Rightarrow> nat multiset" where
  "ws_docs_of x = (case x of None \<Rightarrow> {#} | Some (n, ds) \<Rightarrow> mset ds)"

definition ws_snaps :: "ws_heap \<Rightarrow> nat multiset" where
  "ws_snaps h = sum_list (map ws_docs_of (ws_objects h)) + mset (ws_dying h)"

lemma sum_list_update_ms:
  "i < length xs \<Longrightarrow> sum_list (xs[i := y]) + xs ! i = sum_list xs + (y :: 'a multiset)"
proof (induction xs arbitrary: i)
  case (Cons x xs)
  then show ?case
    by (cases i) (simp_all add: add.assoc add.commute)
qed simp

lemma ws_snaps_update:
  "i < length (ws_objects h) \<Longrightarrow>
   sum_list (map ws_docs_of ((ws_objects h)[i := x])) + ws_docs_of (ws_objects h ! i) =
     sum_list (map ws_docs_of (ws_objects h)) + ws_docs_of x"
  using sum_list_update_ms [of i "map ws_docs_of (ws_objects h)" "ws_docs_of x"] by (simp add: map_update)

lemma ws_acquire_snaps: "ws_acquire i h = Some h' \<Longrightarrow> ws_snaps h' = ws_snaps h"
proof -
  assume a: "ws_acquire i h = Some h'"
  then obtain n where n: "ws_count h i = Some n"
    by (auto simp: ws_acquire_def split: option.splits)
  then obtain k ds where o: "i < length (ws_objects h)" "ws_objects h ! i = Some (k, ds)"
    unfolding ws_count_def using count_of_live by fastforce
  show ?thesis
    using a ws_snaps_update [OF o(1), of "Some (n + 1, ds)"]
    by (auto simp: ws_acquire_def n o(2) ws_snaps_def ws_docs_of_def)
qed

lemma ws_release_snaps: "ws_release i h = Some h' \<Longrightarrow> ws_snaps h' = ws_snaps h"
proof -
  assume a: "ws_release i h = Some h'"
  then obtain n where n: "ws_count h i = Some n"
    by (auto simp: ws_release_def split: option.splits)
  then obtain k ds where o: "i < length (ws_objects h)" "ws_objects h ! i = Some (k, ds)"
    unfolding ws_count_def using count_of_live by fastforce
  show ?thesis
    using a ws_snaps_update [OF o(1), of "Some (n - 1, ds)"] ws_snaps_update [OF o(1), of None]
    by (auto simp: ws_release_def n o(2) ws_snaps_def ws_docs_of_def Let_def split: if_splits)
qed

lemma ws_make_counts: "ws_make ds h = (h', w) \<Longrightarrow> counted (ws_count h) R \<Longrightarrow> counted (ws_count h') (add_mset w R)"
  using counted_new [of "ws_count h" R "length (ws_objects h)"] count_of_new [where h = "ws_objects h" and f = fst]
  by (auto simp: ws_make_def ws_count_def)

lemma ws_make_snaps: "ws_make ds h = (h', w) \<Longrightarrow> ws_snaps h' = ws_snaps h + mset ds"
  by (auto simp: ws_make_def ws_snaps_def ws_docs_of_def)

subsection \<open>Who holds references\<close>

text \<open>The slots of the store with their parse and the one before; the published workspace; the contexts of
  queries, of a workspace and the previous parse of the document asked about; the workspaces the
  diagnostics workers have been handed.\<close>

record life =
  snaps :: snap_heap
  workspaces :: ws_heap
  slots :: "(nat option \<times> nat option) list"
  published :: "nat option"
  query_contexts :: "(nat option \<times> nat option) list"
  handed :: "nat list"

definition life_start :: "nat \<Rightarrow> life" where
  "life_start n = \<lparr>snaps = [], workspaces = \<lparr>ws_objects = [], ws_dying = []\<rparr>, slots = replicate n (None, None),
                  published = None, query_contexts = [], handed = []\<rparr>"

text \<open>\<open>doc_install_parse\<close>, of a fresh parse or of none.\<close>

definition install_parse :: "nat \<Rightarrow> bool \<Rightarrow> life \<Rightarrow> life option" where
  "install_parse i fresh st =
     (if i < length (slots st)
      then (case slots st ! i of
              (snap, prev) \<Rightarrow>
                (case (if fresh then map_prod id Some (snap_alloc (snaps st)) else (snaps st, None)) of
                   (h, new) \<Rightarrow>
                     do { h' \<leftarrow> unless_null docsnap_release prev h;
                          Some (st\<lparr>snaps := h', slots := (slots st)[i := (new, snap)]\<rparr>) }))
      else Some st)"

text \<open>\<open>doc_clear_parse_state\<close>, of \<open>doc_free\<close> as well.\<close>

definition clear_parse_state :: "nat \<Rightarrow> life \<Rightarrow> life option" where
  "clear_parse_state i st =
     (if i < length (slots st)
      then (case slots st ! i of
              (snap, prev) \<Rightarrow>
                do { h \<leftarrow> unless_null docsnap_release snap (snaps st);
                     h' \<leftarrow> unless_null docsnap_release prev h;
                     Some (st\<lparr>snaps := h', slots := (slots st)[i := (None, None)]\<rparr>) })
      else Some st)"

text \<open>\<open>publish_workspace_snapshot\<close>: the fresh workspace takes a reference on every parse in force.\<close>

definition parses_in_force :: "life \<Rightarrow> nat list" where
  "parses_in_force st = List.map_filter fst (slots st)"

definition publish :: "life \<Rightarrow> life option" where
  "publish st =
     do { h \<leftarrow> for_all docsnap_acquire (parses_in_force st) (snaps st);
          let (ws, w) = ws_make (parses_in_force st) (workspaces st);
          ws' \<leftarrow> unless_null ws_release (published st) ws;
          Some (st\<lparr>snaps := h, workspaces := ws', published := Some w\<rparr>) }"

text \<open>\<open>build_query_context_locked\<close> for the document of a slot, or for none.\<close>

definition previous_parse :: "nat option \<Rightarrow> life \<Rightarrow> nat option" where
  "previous_parse d st = (case d of Some i \<Rightarrow> if i < length (slots st) then snd (slots st ! i) else None | None \<Rightarrow> None)"

definition pin_context :: "nat option \<Rightarrow> life \<Rightarrow> life option" where
  "pin_context d st =
     do { h \<leftarrow> unless_null docsnap_acquire (previous_parse d st) (snaps st);
          ws \<leftarrow> unless_null ws_acquire (published st) (workspaces st);
          Some (st\<lparr>snaps := h, workspaces := ws,
                   query_contexts := query_contexts st @ [(published st, previous_parse d st)]\<rparr>) }"

definition without :: "nat \<Rightarrow> 'a list \<Rightarrow> 'a list" where
  "without k xs = take k xs @ drop (Suc k) xs"

definition query_context_free :: "nat \<Rightarrow> life \<Rightarrow> life option" where
  "query_context_free k st =
     (if k < length (query_contexts st)
      then (case query_contexts st ! k of
              (w, prev) \<Rightarrow>
                do { h \<leftarrow> unless_null docsnap_release prev (snaps st);
                     ws \<leftarrow> unless_null ws_release w (workspaces st);
                     Some (st\<lparr>snaps := h, workspaces := ws, query_contexts := without k (query_contexts st)\<rparr>) })
      else Some st)"

text \<open>\<open>diag_worker_request\<close> takes a reference on the published workspace; a worker gives one back when
  a newer workspace replaces it, when its check is over, or when it retires.\<close>

definition hand_to_worker :: "life \<Rightarrow> life option" where
  "hand_to_worker st =
     (case published st of
        None \<Rightarrow> Some st
      | Some w \<Rightarrow> do { ws \<leftarrow> ws_acquire w (workspaces st); Some (st\<lparr>workspaces := ws, handed := w # handed st\<rparr>) })"

definition worker_gives_back :: "nat \<Rightarrow> life \<Rightarrow> life option" where
  "worker_gives_back k st =
     (if k < length (handed st)
      then do { ws \<leftarrow> ws_release (handed st ! k) (workspaces st);
                Some (st\<lparr>workspaces := ws, handed := without k (handed st)\<rparr>) }
      else Some st)"

text \<open>The loop of \<open>ws_release\<close> over the documents of a workspace it frees, one document at a time.\<close>

definition release_dying :: "nat \<Rightarrow> life \<Rightarrow> life option" where
  "release_dying k st =
     (let ds = ws_dying (workspaces st) in
      if k < length ds
      then do { h \<leftarrow> docsnap_release (ds ! k) (snaps st);
                Some (st\<lparr>snaps := h, workspaces := (workspaces st)\<lparr>ws_dying := without k ds\<rparr>\<rparr>) }
      else Some st)"

datatype life_event =
    Install nat bool | Clear nat | Publish | Pin "nat option" | Unpin nat | Hand | Give_Back nat | Reap nat

fun life_step :: "life_event \<Rightarrow> life \<Rightarrow> life option" where
  "life_step (Install i fresh) st = install_parse i fresh st"
| "life_step (Clear i) st = clear_parse_state i st"
| "life_step Publish st = publish st"
| "life_step (Pin d) st = pin_context d st"
| "life_step (Unpin k) st = query_context_free k st"
| "life_step Hand st = hand_to_worker st"
| "life_step (Give_Back k) st = worker_gives_back k st"
| "life_step (Reap k) st = release_dying k st"

fun life_run :: "life_event list \<Rightarrow> life \<Rightarrow> life option" where
  "life_run [] st = Some st"
| "life_run (e # es) st = life_step e st \<bind> life_run es"

subsection \<open>What is held is alive, and nothing else\<close>

definition slot_refs :: "nat option \<times> nat option \<Rightarrow> nat multiset" where
  "slot_refs x = opt_ms (fst x) + opt_ms (snd x)"

abbreviation context_workspaces :: "(nat option \<times> nat option) list \<Rightarrow> nat multiset" where
  "context_workspaces cs \<equiv> sum_list (map (\<lambda>c. opt_ms (fst c)) cs)"

abbreviation context_parses :: "(nat option \<times> nat option) list \<Rightarrow> nat multiset" where
  "context_parses cs \<equiv> sum_list (map (\<lambda>c. opt_ms (snd c)) cs)"

definition held_snaps :: "life \<Rightarrow> nat multiset" where
  "held_snaps st = sum_list (map slot_refs (slots st)) + context_parses (query_contexts st) + ws_snaps (workspaces st)"

definition held_workspaces :: "life \<Rightarrow> nat multiset" where
  "held_workspaces st = opt_ms (published st) + context_workspaces (query_contexts st) + mset (handed st)"

definition accounted :: "life \<Rightarrow> bool" where
  "accounted st \<longleftrightarrow> counted (count_of (snaps st) id) (held_snaps st) \<and> counted (ws_count (workspaces st)) (held_workspaces st)"

lemma sum_list_without:
  "k < length xs \<Longrightarrow> sum_list (map f xs) = f (xs ! k) + sum_list (map f (without k xs) :: 'b multiset list)"
  by (subst id_take_nth_drop [of k xs]) (simp_all add: without_def ac_simps)

lemma mset_without: "k < length xs \<Longrightarrow> mset xs = add_mset (xs ! k) (mset (without k xs))"
  by (subst id_take_nth_drop [of k xs]) (simp_all add: without_def)

lemma sum_list_slot:
  "i < length (xs :: (nat option \<times> nat option) list) \<Longrightarrow>
   sum_list (map slot_refs xs) = slot_refs (xs ! i) + sum_list (map slot_refs (without i xs))"
  "i < length xs \<Longrightarrow> sum_list (map slot_refs (xs[i := x])) = slot_refs x + sum_list (map slot_refs (without i xs))"
  using sum_list_without [of i xs slot_refs] sum_list_without [of i "xs[i := x]" slot_refs]
  by (simp_all add: without_def)

lemma snap_alloc_counts:
  "counted (count_of h id) R \<Longrightarrow> snap_alloc h = (h', s) \<Longrightarrow> counted (count_of h' id) (add_mset s R)"
  using counted_new [of "count_of h id" R "length h"] count_of_new(1) [where h = h and f = id and x = 1] count_of_new(2) [where h = h and f = id]
  by (auto simp: snap_alloc_def)

lemma install_parse_accounted:
  assumes "accounted st"
  shows "\<exists>st'. install_parse i fresh st = Some st' \<and> accounted st'"
proof (cases "i < length (slots st)")
  case True
  obtain snap prev where sl: "slots st ! i = (snap, prev)"
    by fastforce
  obtain h new where n: "(if fresh then map_prod id Some (snap_alloc (snaps st)) else (snaps st, None)) = (h, new)"
    by fastforce
  define R where "R = opt_ms snap + sum_list (map slot_refs (without i (slots st)))
    + context_parses (query_contexts st) + ws_snaps (workspaces st)"
  have "held_snaps st = opt_ms prev + R"
    by (simp add: held_snaps_def R_def sum_list_slot(1) [OF True] sl slot_refs_def ac_simps)
  then have "counted (count_of (snaps st) id) (opt_ms prev + R)"
    using assms by (simp add: accounted_def)
  then have "counted (count_of h id) (opt_ms new + (opt_ms prev + R))"
    using n snap_alloc_counts [of "snaps st" "opt_ms prev + R"] by (auto simp: map_prod_def split: if_splits prod.splits)
  then have "counted (count_of h id) (opt_ms prev + (opt_ms new + R))"
    by (simp add: ac_simps)
  then obtain h' where h': "unless_null docsnap_release prev h = Some h'" "counted (count_of h' id) (opt_ms new + R)"
    by (rule snap.release_opt_ok)
  let ?st = "st\<lparr>snaps := h', slots := (slots st)[i := (new, snap)]\<rparr>"
  have "held_snaps ?st = opt_ms new + R"
    by (simp add: held_snaps_def R_def sum_list_slot(2) [OF True] slot_refs_def ac_simps)
  then have "accounted ?st"
    using assms h'(2) by (simp add: accounted_def held_workspaces_def)
  then show ?thesis
    by (simp add: install_parse_def True sl n h'(1))
qed (use assms in \<open>simp add: install_parse_def\<close>)

lemma clear_parse_state_accounted:
  assumes "accounted st"
  shows "\<exists>st'. clear_parse_state i st = Some st' \<and> accounted st'"
proof (cases "i < length (slots st)")
  case True
  obtain snap prev where sl: "slots st ! i = (snap, prev)"
    by fastforce
  define R where "R = sum_list (map slot_refs (without i (slots st)))
    + context_parses (query_contexts st) + ws_snaps (workspaces st)"
  have "held_snaps st = opt_ms snap + (opt_ms prev + R)"
    by (simp add: held_snaps_def R_def sum_list_slot(1) [OF True] sl slot_refs_def ac_simps)
  then have "counted (count_of (snaps st) id) (opt_ms snap + (opt_ms prev + R))"
    using assms by (simp add: accounted_def)
  then obtain h where h: "unless_null docsnap_release snap (snaps st) = Some h" "counted (count_of h id) (opt_ms prev + R)"
    by (rule snap.release_opt_ok)
  obtain h' where h': "unless_null docsnap_release prev h = Some h'" "counted (count_of h' id) R"
    by (rule snap.release_opt_ok [OF h(2)])
  let ?st = "st\<lparr>snaps := h', slots := (slots st)[i := (None, None)]\<rparr>"
  have "held_snaps ?st = R"
    by (simp add: held_snaps_def R_def sum_list_slot(2) [OF True] slot_refs_def ac_simps)
  then have "accounted ?st"
    using assms h'(2) by (simp add: accounted_def held_workspaces_def)
  then show ?thesis
    by (simp add: clear_parse_state_def True sl h(1) h'(1))
qed (use assms in \<open>simp add: clear_parse_state_def\<close>)

lemma parses_in_force_held: "set (parses_in_force st) \<subseteq> set_mset (held_snaps st)"
proof
  fix s
  assume "s \<in> set (parses_in_force st)"
  then obtain x where x: "x \<in> set (slots st)" "fst x = Some s"
    by (auto simp: parses_in_force_def List.map_filter_def)
  then obtain i where "i < length (slots st)" "slots st ! i = x"
    by (auto simp: in_set_conv_nth)
  then show "s \<in># held_snaps st"
    using x(2) sum_list_slot(1) [of i "slots st"] by (simp add: held_snaps_def slot_refs_def)
qed

lemma publish_accounted:
  assumes "accounted st"
  shows "\<exists>st'. publish st = Some st' \<and> accounted st'"
proof -
  let ?ds = "parses_in_force st"
  have c: "counted (count_of (snaps st) id) (held_snaps st)" "counted (ws_count (workspaces st)) (held_workspaces st)"
    using assms by (simp_all add: accounted_def)
  obtain h where h: "for_all docsnap_acquire ?ds (snaps st) = Some h" "counted (count_of h id) (mset ?ds + held_snaps st)"
    using snap.acquire_all_ok [OF c(1) parses_in_force_held] by blast
  obtain ws w where w: "ws_make ?ds (workspaces st) = (ws, w)"
    by fastforce
  define R where "R = add_mset w (context_workspaces (query_contexts st) + mset (handed st))"
  have "counted (ws_count ws) (opt_ms (published st) + R)"
    using ws_make_counts [OF w c(2)] by (simp add: R_def held_workspaces_def ac_simps)
  then obtain ws' where ws': "unless_null ws_release (published st) ws = Some ws'" "counted (ws_count ws') R"
    by (rule ws.release_opt_ok)
  have sn: "ws_snaps ws' = ws_snaps (workspaces st) + mset ?ds"
    using ws'(1) ws_release_snaps [of _ ws ws'] ws_make_snaps [OF w] by (auto simp: unless_null_def split: option.splits)
  let ?st = "st\<lparr>snaps := h, workspaces := ws', published := Some w\<rparr>"
  have "held_snaps ?st = mset ?ds + held_snaps st"
    by (simp add: held_snaps_def sn ac_simps)
  moreover have "held_workspaces ?st = R"
    by (simp add: held_workspaces_def R_def)
  ultimately have "accounted ?st"
    using h(2) ws'(2) by (simp add: accounted_def)
  then show ?thesis
    by (simp add: publish_def h(1) w ws'(1))
qed

lemma pin_context_accounted:
  assumes "accounted st"
  shows "\<exists>st'. pin_context d st = Some st' \<and> accounted st'"
proof -
  have c: "counted (count_of (snaps st) id) (held_snaps st)" "counted (ws_count (workspaces st)) (held_workspaces st)"
    using assms by (simp_all add: accounted_def)
  have "opt_ms (previous_parse d st) \<subseteq># held_snaps st"
  proof (cases d)
    case (Some i)
    show ?thesis
    proof (cases "i < length (slots st)")
      case True
      then show ?thesis
        using sum_list_slot(1) [OF True] by (simp add: Some previous_parse_def held_snaps_def slot_refs_def)
    qed (simp add: Some previous_parse_def)
  qed (simp add: previous_parse_def)
  then obtain h where h: "unless_null docsnap_acquire (previous_parse d st) (snaps st) = Some h"
    "counted (count_of h id) (opt_ms (previous_parse d st) + held_snaps st)"
    by (rule snap.acquire_opt_ok [OF c(1)])
  have "opt_ms (published st) \<subseteq># held_workspaces st"
    by (simp add: held_workspaces_def)
  then obtain ws where ws: "unless_null ws_acquire (published st) (workspaces st) = Some ws"
    "counted (ws_count ws) (opt_ms (published st) + held_workspaces st)"
    by (rule ws.acquire_opt_ok [OF c(2)])
  have sn: "ws_snaps ws = ws_snaps (workspaces st)"
    using ws(1) ws_acquire_snaps [of _ "workspaces st" ws] by (auto simp: unless_null_def split: option.splits)
  let ?st = "st\<lparr>snaps := h, workspaces := ws, query_contexts := query_contexts st @ [(published st, previous_parse d st)]\<rparr>"
  have "held_snaps ?st = opt_ms (previous_parse d st) + held_snaps st"
    "held_workspaces ?st = opt_ms (published st) + held_workspaces st"
    by (simp_all add: held_snaps_def held_workspaces_def sn ac_simps)
  then have "accounted ?st"
    using h(2) ws(2) by (simp add: accounted_def)
  then show ?thesis
    by (simp add: pin_context_def h(1) ws(1))
qed

lemma query_context_free_accounted:
  assumes "accounted st"
  shows "\<exists>st'. query_context_free k st = Some st' \<and> accounted st'"
proof (cases "k < length (query_contexts st)")
  case True
  obtain w prev where q: "query_contexts st ! k = (w, prev)"
    by fastforce
  let ?cs = "without k (query_contexts st)"
  define R where "R = sum_list (map slot_refs (slots st)) + context_parses ?cs + ws_snaps (workspaces st)"
  define W where "W = opt_ms (published st) + context_workspaces ?cs + mset (handed st)"
  have "held_snaps st = opt_ms prev + R" "held_workspaces st = opt_ms w + W"
    using sum_list_without [OF True, of "\<lambda>c. opt_ms (snd c)"] sum_list_without [OF True, of "\<lambda>c. opt_ms (fst c)"]
    by (simp_all add: held_snaps_def held_workspaces_def R_def W_def q ac_simps)
  then have c: "counted (count_of (snaps st) id) (opt_ms prev + R)" "counted (ws_count (workspaces st)) (opt_ms w + W)"
    using assms by (simp_all add: accounted_def)
  obtain h where h: "unless_null docsnap_release prev (snaps st) = Some h" "counted (count_of h id) R"
    by (rule snap.release_opt_ok [OF c(1)])
  obtain ws where ws: "unless_null ws_release w (workspaces st) = Some ws" "counted (ws_count ws) W"
    by (rule ws.release_opt_ok [OF c(2)])
  have sn: "ws_snaps ws = ws_snaps (workspaces st)"
    using ws(1) ws_release_snaps [of _ "workspaces st" ws] by (auto simp: unless_null_def split: option.splits)
  let ?st = "st\<lparr>snaps := h, workspaces := ws, query_contexts := ?cs\<rparr>"
  have "accounted ?st"
    using h(2) ws(2) by (simp add: accounted_def held_snaps_def held_workspaces_def sn R_def W_def)
  then show ?thesis
    by (simp add: query_context_free_def True q h(1) ws(1))
qed (use assms in \<open>simp add: query_context_free_def\<close>)

lemma hand_to_worker_accounted:
  assumes "accounted st"
  shows "\<exists>st'. hand_to_worker st = Some st' \<and> accounted st'"
proof (cases "published st")
  case None
  then show ?thesis
    using assms by (simp add: hand_to_worker_def)
next
  case (Some w)
  have "counted (ws_count (workspaces st)) (held_workspaces st)" "w \<in># held_workspaces st"
    using assms by (simp_all add: accounted_def held_workspaces_def Some)
  then obtain ws where ws: "ws_acquire w (workspaces st) = Some ws" "counted (ws_count ws) (add_mset w (held_workspaces st))"
    by (rule ws.acquire_counted)
  have "accounted (st\<lparr>workspaces := ws, handed := w # handed st\<rparr>)"
    using assms ws ws_acquire_snaps [OF ws(1)] by (simp add: accounted_def held_snaps_def held_workspaces_def)
  then show ?thesis
    by (simp add: hand_to_worker_def Some ws(1))
qed

lemma worker_gives_back_accounted:
  assumes "accounted st"
  shows "\<exists>st'. worker_gives_back k st = Some st' \<and> accounted st'"
proof (cases "k < length (handed st)")
  case True
  let ?W = "opt_ms (published st) + context_workspaces (query_contexts st) + mset (without k (handed st))"
  have "counted (ws_count (workspaces st)) (add_mset (handed st ! k) ?W)"
    using assms mset_without [OF True] by (simp add: accounted_def held_workspaces_def)
  then obtain ws where ws: "ws_release (handed st ! k) (workspaces st) = Some ws" "counted (ws_count ws) ?W"
    by (rule ws.release_counted)
  have "accounted (st\<lparr>workspaces := ws, handed := without k (handed st)\<rparr>)"
    using assms ws ws_release_snaps [OF ws(1)] by (simp add: accounted_def held_snaps_def held_workspaces_def)
  then show ?thesis
    by (simp add: worker_gives_back_def True ws(1))
qed (use assms in \<open>simp add: worker_gives_back_def\<close>)

lemma release_dying_accounted:
  assumes "accounted st"
  shows "\<exists>st'. release_dying k st = Some st' \<and> accounted st'"
proof (cases "k < length (ws_dying (workspaces st))")
  case True
  let ?ds = "ws_dying (workspaces st)"
  let ?ws = "(workspaces st)\<lparr>ws_dying := without k ?ds\<rparr>"
  let ?R = "sum_list (map slot_refs (slots st)) + context_parses (query_contexts st) + ws_snaps ?ws"
  have "held_snaps st = add_mset (?ds ! k) ?R"
    using mset_without [OF True] by (simp add: held_snaps_def ws_snaps_def)
  then have "counted (count_of (snaps st) id) (add_mset (?ds ! k) ?R)"
    using assms by (simp add: accounted_def)
  then obtain h where h: "docsnap_release (?ds ! k) (snaps st) = Some h" "counted (count_of h id) ?R"
    by (rule snap.release_counted)
  have "accounted (st\<lparr>snaps := h, workspaces := ?ws\<rparr>)"
    using assms h(2) by (simp add: accounted_def held_snaps_def held_workspaces_def ws_count_def)
  then show ?thesis
    by (simp add: release_dying_def True h(1) Let_def)
qed (use assms in \<open>simp add: release_dying_def Let_def\<close>)

lemma life_step_accounted: "accounted st \<Longrightarrow> \<exists>st'. life_step e st = Some st' \<and> accounted st'"
  by (cases e) (simp_all add: install_parse_accounted clear_parse_state_accounted publish_accounted pin_context_accounted
      query_context_free_accounted hand_to_worker_accounted worker_gives_back_accounted release_dying_accounted)

lemma life_run_accounted: "accounted st \<Longrightarrow> \<exists>st'. life_run es st = Some st' \<and> accounted st'"
proof (induction es arbitrary: st)
  case (Cons e es)
  obtain st1 where "life_step e st = Some st1" "accounted st1"
    using life_step_accounted [OF Cons.prems] by blast
  then show ?case
    using Cons.IH by simp
qed simp

lemma life_start_accounted: "accounted (life_start n)"
proof -
  have "sum_list (map slot_refs (replicate n (None, None))) = {#}"
    by (induction n) (simp_all add: slot_refs_def)
  then show ?thesis
    by (simp add: accounted_def life_start_def held_snaps_def held_workspaces_def ws_snaps_def counted_def count_of_def ws_count_def fun_eq_iff)
qed

lemma counted_live: "counted c R \<Longrightarrow> c i = None \<longleftrightarrow> i \<notin># R"
  by (auto simp: counted_def not_in_iff)

text \<open>C2: However parses, publications, queries, diagnostics and the ends of each follow each other, no
  freed snapshot is ever touched; and at every moment a parse or a workspace is alive exactly while
  something holds it: a slot, the server, a query, a worker, or, for a parse, a workspace that is
  alive or being taken apart.\<close>

theorem snapshots_alive_while_held:
  "\<exists>st. life_run es (life_start n) = Some st \<and>
     (\<forall>s. count_of (snaps st) id s = None \<longleftrightarrow> s \<notin># held_snaps st) \<and>
     (\<forall>w. ws_count (workspaces st) w = None \<longleftrightarrow> w \<notin># held_workspaces st)"
proof -
  obtain st where "life_run es (life_start n) = Some st" "accounted st"
    using life_run_accounted [OF life_start_accounted] by blast
  then show ?thesis
    using counted_live unfolding accounted_def by blast
qed

end
