(* ===== verification/Sandbox.thy ===== *)
theory Sandbox
  imports Prelude "HOL-Library.State_Monad"
begin

text \<open>
  The confinement of the \<open>tj3\<close> child (\<open>src/src/sandbox.c\<close>) and the child's way from \<open>fork\<close> to
  \<open>exec\<close> (\<open>run_tj3\<close> in \<open>src/src/tj3.c\<close>).  The kernel is a parameter: what a system call returns may
  depend on every call before it.  The state is the trace of the calls with their results, and
  \<open>landlock\<close> reads from a trace what the Landlock documentation says is in force after it.
  Access rights are the names of the header's bits, a mask is the set of its bits.
\<close>

subsection \<open>System calls\<close>

datatype access =
    WRITE_FILE | REMOVE_DIR | REMOVE_FILE | MAKE_CHAR | MAKE_DIR | MAKE_REG | MAKE_SOCK | MAKE_FIFO
  | MAKE_BLOCK | MAKE_SYM | REFER | TRUNCATE | READ_FILE | READ_DIR | EXECUTE | IOCTL_DEV

datatype syscall =
    Landlock_Version
  | Create_Ruleset "access set"
  | Add_Rule int "access set" int
  | Restrict_Self int
  | No_New_Privs
  | Open_Path string
  | Open_Write string
  | Dup2 int int
  | Close int
  | Chdir string
  | Exec "string list"
  | Exit int

type_synonym trace = "(syscall \<times> int) list"
type_synonym kernel = "trace \<Rightarrow> syscall \<Rightarrow> int"

definition sys :: "kernel \<Rightarrow> syscall \<Rightarrow> (trace, int) state" where
  "sys k c = State (\<lambda>h. (k h c, h @ [(c, k h c)]))"

subsection \<open>The sandbox\<close>

definition write_access_mask :: "int \<Rightarrow> access set" where
  "write_access_mask abi =
     {WRITE_FILE, REMOVE_DIR, REMOVE_FILE, MAKE_CHAR, MAKE_DIR, MAKE_REG, MAKE_SOCK, MAKE_FIFO, MAKE_BLOCK, MAKE_SYM}
     \<union> (if 2 \<le> abi then {REFER} else {}) \<union> (if 3 \<le> abi then {TRUNCATE} else {})"

text \<open>The cached answer is threaded; -1 stands for not asked yet.\<close>

definition sandbox_available_cached :: "kernel \<Rightarrow> int \<Rightarrow> (trace, int \<times> int) state" where
  "sandbox_available_cached k cached =
     (if 0 \<le> cached then State_Monad.return (cached, cached)
      else do { abi \<leftarrow> sys k Landlock_Version;
                let answer = (if 1 \<le> abi then 1 else 0);
                State_Monad.return (answer, answer) })"

definition close_and_fail :: "kernel \<Rightarrow> int \<Rightarrow> (trace, int) state" where
  "close_and_fail k fd = do { _ \<leftarrow> sys k (Close fd); State_Monad.return (-1) }"

definition add_path_rule :: "kernel \<Rightarrow> int \<Rightarrow> string \<Rightarrow> access set \<Rightarrow> (trace, int) state \<Rightarrow> (trace, int) state" where
  "add_path_rule k ruleset_fd path rights next =
     do { fd \<leftarrow> sys k (Open_Path path);
          if fd < 0 then close_and_fail k ruleset_fd
          else do { rc \<leftarrow> sys k (Add_Rule ruleset_fd rights fd);
                    _ \<leftarrow> sys k (Close fd);
                    if rc \<noteq> 0 then close_and_fail k ruleset_fd else next } }"

definition restrict_self_to :: "kernel \<Rightarrow> int \<Rightarrow> (trace, int) state" where
  "restrict_self_to k ruleset_fd =
     do { p \<leftarrow> sys k No_New_Privs;
          if p \<noteq> 0 then close_and_fail k ruleset_fd
          else do { q \<leftarrow> sys k (Restrict_Self ruleset_fd);
                    if q \<noteq> 0 then close_and_fail k ruleset_fd
                    else do { _ \<leftarrow> sys k (Close ruleset_fd); State_Monad.return 0 } } }"

definition sandbox_confine_writes_to :: "kernel \<Rightarrow> string \<Rightarrow> (trace, int) state" where
  "sandbox_confine_writes_to k dir =
     do { abi \<leftarrow> sys k Landlock_Version;
          if abi < 1 then State_Monad.return (-1)
          else do {
            let writes = write_access_mask abi;
            ruleset_fd \<leftarrow> sys k (Create_Ruleset writes);
            if ruleset_fd < 0 then State_Monad.return (-1)
            else add_path_rule k ruleset_fd dir writes
              (add_path_rule k ruleset_fd ''/dev/null'' {WRITE_FILE}
                (restrict_self_to k ruleset_fd)) } }"

text \<open>The child of \<open>run_tj3\<close>, with the ends of the error pipe; nothing comes after a call of \<open>_exit\<close>.\<close>

definition exec_or_exit :: "kernel \<Rightarrow> string list \<Rightarrow> (trace, int) state" where
  "exec_or_exit k argv = do { _ \<leftarrow> sys k (Exec argv); sys k (Exit 127) }"

definition run_tj3_child :: "kernel \<Rightarrow> string \<Rightarrow> string list \<Rightarrow> int \<Rightarrow> int \<Rightarrow> bool \<Rightarrow> (trace, int) state" where
  "run_tj3_child k tmpdir argv err_in err_out confine =
     do { d \<leftarrow> sys k (Chdir tmpdir);
          if d \<noteq> 0 then sys k (Exit 127)
          else do {
            devnull \<leftarrow> sys k (Open_Write ''/dev/null'');
            _ \<leftarrow> (if 0 \<le> devnull then do { _ \<leftarrow> sys k (Dup2 devnull 1); sys k (Close devnull) } else State_Monad.return 0);
            _ \<leftarrow> sys k (Dup2 err_out 2);
            _ \<leftarrow> sys k (Close err_in);
            _ \<leftarrow> sys k (Close err_out);
            if confine then do { r \<leftarrow> sandbox_confine_writes_to k tmpdir;
                                 if r \<noteq> 0 then sys k (Exit 127) else exec_or_exit k argv }
            else exec_or_exit k argv } }"

subsection \<open>What Landlock does with the calls\<close>

record landlock =
  rulesets :: "int \<rightharpoonup> access set \<times> (string \<times> access set) list"
  open_paths :: "int \<rightharpoonup> string"
  no_new_privs :: bool
  in_force :: "(access set \<times> (string \<times> access set) list) option"

fun landlock_call :: "syscall \<Rightarrow> int \<Rightarrow> landlock \<Rightarrow> landlock" where
  "landlock_call (Create_Ruleset rights) r s =
     (if r < 0 then s else s\<lparr>rulesets := (rulesets s)(r \<mapsto> (rights, []))\<rparr>)"
| "landlock_call (Open_Path p) r s = (if r < 0 then s else s\<lparr>open_paths := (open_paths s)(r \<mapsto> p)\<rparr>)"
| "landlock_call (Open_Write p) r s = (if r < 0 then s else s\<lparr>open_paths := (open_paths s)(r \<mapsto> p)\<rparr>)"
| "landlock_call (Add_Rule fd rights parent) r s =
     (if r \<noteq> 0 then s
      else case (rulesets s fd, open_paths s parent) of
             (Some (handled, rules), Some p) \<Rightarrow> s\<lparr>rulesets := (rulesets s)(fd \<mapsto> (handled, rules @ [(p, rights)]))\<rparr>
           | _ \<Rightarrow> s)"
| "landlock_call (Close fd) r s =
     s\<lparr>rulesets := (rulesets s)(fd := None), open_paths := (open_paths s)(fd := None)\<rparr>"
| "landlock_call No_New_Privs r s = (if r \<noteq> 0 then s else s\<lparr>no_new_privs := True\<rparr>)"
| "landlock_call (Restrict_Self fd) r s = (if r \<noteq> 0 then s else s\<lparr>in_force := rulesets s fd\<rparr>)"
| "landlock_call _ r s = s"

definition landlock_start :: landlock where
  "landlock_start = \<lparr>rulesets = Map.empty, open_paths = Map.empty, no_new_privs = False, in_force = None\<rparr>"

definition landlock_of :: "trace \<Rightarrow> landlock" where
  "landlock_of h = fold (\<lambda>(c, r). landlock_call c r) h landlock_start"

definition beneath :: "string \<Rightarrow> string \<Rightarrow> bool" where
  "beneath dir path \<longleftrightarrow> path = dir \<or> (\<exists>rest. path = dir @ ''/'' @ rest)"

definition permitted :: "landlock \<Rightarrow> access \<Rightarrow> string \<Rightarrow> bool" where
  "permitted s right path =
     (case in_force s of
        None \<Rightarrow> True
      | Some (handled, rules) \<Rightarrow> right \<notin> handled \<or> (\<exists>(p, rights) \<in> set rules. right \<in> rights \<and> beneath p path))"

text \<open>A call that opens a descriptor returns one that is not open.\<close>

fun opens :: "syscall \<Rightarrow> bool" where
  "opens (Create_Ruleset rights) = True"
| "opens (Open_Path p) = True"
| "opens (Open_Write p) = True"
| "opens _ = False"

definition fresh_descriptors :: "kernel \<Rightarrow> bool" where
  "fresh_descriptors k \<longleftrightarrow>
     (\<forall>h c. opens c \<longrightarrow> rulesets (landlock_of h) (k h c) = None \<and> open_paths (landlock_of h) (k h c) = None)"

lemma landlock_of_snoc: "landlock_of (h @ [(c, r)]) = landlock_call c r (landlock_of h)"
  by (simp add: landlock_of_def)

definition execs :: "trace \<Rightarrow> syscall list" where
  "execs h = filter (\<lambda>c. case c of Exec argv \<Rightarrow> True | _ \<Rightarrow> False) (map fst h)"

lemma execs_snoc [simp]:
  "execs (h @ [(c, r)]) = execs h @ (case c of Exec argv \<Rightarrow> [c] | _ \<Rightarrow> [])"
  by (cases c) (simp_all add: execs_def)

lemma run_simps:
  "run_state (sys k c) h = (k h c, h @ [(c, k h c)])"
  "run_state (State_Monad.bind m f) h = (case run_state m h of (a, h') \<Rightarrow> run_state (f a) h')"
  "run_state (State_Monad.return a) h = (a, h)"
  "run_state (if b then m else n) h = (if b then run_state m h else run_state n h)"
  by (simp_all add: sys_def State_Monad.bind_def State_Monad.return_def)

definition failed_clean :: "trace \<Rightarrow> int \<times> trace \<Rightarrow> bool" where
  "failed_clean h res \<longleftrightarrow>
     (case res of
        (r, h') \<Rightarrow>
          r = -1 \<and> execs h' = execs h \<and> rulesets (landlock_of h') = Map.empty \<and>
          open_paths (landlock_of h') = Map.empty \<and> in_force (landlock_of h') = None)"

text \<open>While a ruleset is being built it is the only descriptor kept open.\<close>

definition building :: "trace \<Rightarrow> trace \<Rightarrow> int \<Rightarrow> access set \<Rightarrow> (string \<times> access set) list \<Rightarrow> bool" where
  "building h h' fd handled rules \<longleftrightarrow>
     execs h' = execs h \<and>
     landlock_of h' = landlock_start\<lparr>rulesets := [fd \<mapsto> (handled, rules)]\<rparr>"

lemma add_path_rule_cases:
  assumes fresh: "fresh_descriptors k" and b: "building h0 h fd handled rules"
  obtains "failed_clean h0 (run_state (add_path_rule k fd path rights next) h)"
  | h' where "run_state (add_path_rule k fd path rights next) h = run_state next h'"
      "building h0 h' fd handled (rules @ [(path, rights)])" "set h \<subseteq> set h'"
proof -
  define dir_fd where "dir_fd = k h (Open_Path path)"
  define h1 where "h1 = h @ [(Open_Path path, dir_fd)]"
  have ne: "dir_fd \<noteq> fd"
    using fresh b by (auto simp: fresh_descriptors_def building_def dir_fd_def dest!: spec [of _ h] spec [of _ "Open_Path path"])
  have l: "landlock_of h = landlock_start\<lparr>rulesets := [fd \<mapsto> (handled, rules)]\<rparr>" "execs h = execs h0"
    using b by (simp_all add: building_def)
  note facts = add_path_rule_def close_and_fail_def run_simps failed_clean_def building_def landlock_of_snoc landlock_start_def l
  show ?thesis
  proof (cases "dir_fd < 0")
    case True
    have "failed_clean h0 (run_state (add_path_rule k fd path rights next) h)"
      using True by (simp add: facts dir_fd_def [symmetric] del: append_assoc)
    then show ?thesis
      by (rule that(1))
  next
    case False
    define rc where "rc = k h1 (Add_Rule fd rights dir_fd)"
    define h2 where "h2 = h1 @ [(Add_Rule fd rights dir_fd, rc)]"
    define h3 where "h3 = h2 @ [(Close dir_fd, k h2 (Close dir_fd))]"
    have l1: "landlock_of h1 = landlock_start\<lparr>rulesets := [fd \<mapsto> (handled, rules)], open_paths := [dir_fd \<mapsto> path]\<rparr>"
      using False by (simp add: h1_def facts)
    have l3: "landlock_of h3 = landlock_start\<lparr>rulesets := [fd \<mapsto> (handled, if rc = 0 then rules @ [(path, rights)] else rules)]\<rparr>"
      using ne by (simp add: h3_def h2_def landlock_of_snoc l1 landlock_start_def fun_upd_twist del: append_assoc)
    have e3: "execs h3 = execs h0" "set h \<subseteq> set h3"
      unfolding h3_def h2_def h1_def execs_snoc by (auto simp: l)
    have run: "run_state (add_path_rule k fd path rights next) h =
        (if rc \<noteq> 0 then run_state (close_and_fail k fd) h3 else run_state next h3)"
      using False by (simp add: add_path_rule_def run_simps dir_fd_def [symmetric] h1_def [symmetric] rc_def [symmetric]
          h2_def [symmetric] h3_def [symmetric] del: append_assoc) (simp add: h3_def h2_def del: append_assoc)
    show ?thesis
    proof (cases "rc = 0")
      case True
      then show ?thesis
        using that(2) [of h3] l3 e3 run by (simp add: building_def)
    next
      case False
      have "failed_clean h0 (run_state (close_and_fail k fd) h3)"
        by (simp add: close_and_fail_def run_simps failed_clean_def landlock_of_snoc l3 e3 landlock_start_def)
      then show ?thesis
        using that(1) run False by simp
    qed
  qed
qed

lemma restrict_self_to_cases:
  assumes b: "building h0 h fd handled rules"
  obtains "failed_clean h0 (run_state (restrict_self_to k fd) h)"
  | h' where "run_state (restrict_self_to k fd) h = (0, h')" "execs h' = execs h0" "set h \<subseteq> set h'"
      "landlock_of h' = landlock_start\<lparr>no_new_privs := True, in_force := Some (handled, rules)\<rparr>"
proof -
  have l: "landlock_of h = landlock_start\<lparr>rulesets := [fd \<mapsto> (handled, rules)]\<rparr>" "execs h = execs h0"
    using b by (simp_all add: building_def)
  define p where "p = k h No_New_Privs"
  define h1 where "h1 = h @ [(No_New_Privs, p)]"
  define q where "q = k h1 (Restrict_Self fd)"
  define h2 where "h2 = h1 @ [(Restrict_Self fd, q)]"
  define h3 where "h3 = h2 @ [(Close fd, k h2 (Close fd))]"
  have run: "run_state (restrict_self_to k fd) h =
      (if p \<noteq> 0 then run_state (close_and_fail k fd) h1
       else if q \<noteq> 0 then run_state (close_and_fail k fd) h2 else (0, h3))"
    by (simp add: restrict_self_to_def run_simps p_def [symmetric] h1_def [symmetric] q_def [symmetric] h2_def [symmetric]
        h3_def [symmetric] del: append_assoc)
  have l1: "landlock_of h1 = landlock_start\<lparr>rulesets := [fd \<mapsto> (handled, rules)], no_new_privs := (p = 0)\<rparr>" "execs h1 = execs h0"
    unfolding h1_def execs_snoc by (simp_all add: landlock_of_snoc l landlock_start_def)
  have l2: "landlock_of h2 = (landlock_of h1)\<lparr>in_force := if q = 0 then Some (handled, rules) else None\<rparr>" "execs h2 = execs h0"
    unfolding h2_def execs_snoc by (simp_all add: landlock_of_snoc l1 landlock_start_def)
  consider "p \<noteq> 0" | "p = 0" "q \<noteq> 0" | (works) "p = 0" "q = 0"
    by blast
  then show ?thesis
  proof cases
    case 1
    then have "failed_clean h0 (run_state (restrict_self_to k fd) h)"
      by (simp add: run close_and_fail_def run_simps failed_clean_def landlock_of_snoc l1 landlock_start_def)
    then show ?thesis
      by (rule that(1))
  next
    case 2
    then have "failed_clean h0 (run_state (restrict_self_to k fd) h)"
      by (simp add: run close_and_fail_def run_simps failed_clean_def landlock_of_snoc l1 l2 landlock_start_def)
    then show ?thesis
      by (rule that(1))
  next
    case works
    have "landlock_of h3 = landlock_start\<lparr>no_new_privs := True, in_force := Some (handled, rules)\<rparr>" "execs h3 = execs h0"
      unfolding h3_def execs_snoc by (simp_all add: landlock_of_snoc l2 l1 works landlock_start_def)
    moreover have "set h \<subseteq> set h3"
      unfolding h3_def h2_def h1_def by auto
    ultimately show ?thesis
      using that(2) works by (simp add: run)
  qed
qed

text \<open>The sandbox either fails with nothing left open and nothing in force, or is in force.\<close>

definition sandbox_of :: "int \<Rightarrow> string \<Rightarrow> access set \<times> (string \<times> access set) list" where
  "sandbox_of abi dir = (write_access_mask abi, [(dir, write_access_mask abi), (''/dev/null'', {WRITE_FILE})])"

definition confined :: "trace \<Rightarrow> trace \<Rightarrow> string \<Rightarrow> bool" where
  "confined h h' dir \<longleftrightarrow>
     execs h' = execs h \<and>
     (\<exists>abi \<ge> 1. (Landlock_Version, abi) \<in> set h' \<and>
        landlock_of h' = landlock_start\<lparr>no_new_privs := True, in_force := Some (sandbox_of abi dir)\<rparr>)"

lemma sandbox_confine_cases:
  assumes fresh: "fresh_descriptors k" and start: "landlock_of h = landlock_start"
  obtains "failed_clean h (run_state (sandbox_confine_writes_to k dir) h)"
  | h' where "run_state (sandbox_confine_writes_to k dir) h = (0, h')" "confined h h' dir"
proof -
  define abi where "abi = k h Landlock_Version"
  define h1 where "h1 = h @ [(Landlock_Version, abi)]"
  define fd where "fd = k h1 (Create_Ruleset (write_access_mask abi))"
  define h2 where "h2 = h1 @ [(Create_Ruleset (write_access_mask abi), fd)]"
  have l1: "landlock_of h1 = landlock_start" "execs h1 = execs h"
    unfolding h1_def execs_snoc by (simp_all add: landlock_of_snoc start)
  consider (old) "abi < 1" | (refused) "1 \<le> abi" "fd < 0" | (created) "1 \<le> abi" "\<not> fd < 0"
    by linarith
  then show ?thesis
  proof cases
    case old
    then have "run_state (sandbox_confine_writes_to k dir) h = (-1, h1)"
      by (simp add: sandbox_confine_writes_to_def run_simps abi_def [symmetric] h1_def [symmetric])
    then have "failed_clean h (run_state (sandbox_confine_writes_to k dir) h)"
      by (simp add: failed_clean_def l1 landlock_start_def)
    then show ?thesis
      by (rule that(1))
  next
    case refused
    then have "run_state (sandbox_confine_writes_to k dir) h = (-1, h2)"
      by (simp add: sandbox_confine_writes_to_def run_simps Let_def abi_def [symmetric] h1_def [symmetric] fd_def [symmetric]
          h2_def [symmetric] del: append_assoc)
    then have "failed_clean h (run_state (sandbox_confine_writes_to k dir) h)"
      using refused(2) l1 unfolding h2_def by (simp add: failed_clean_def landlock_of_snoc landlock_start_def)
    then show ?thesis
      by (rule that(1))
  next
    case created
    let ?writes = "write_access_mask abi"
    have b2: "building h h2 fd ?writes []"
      using created(2) l1 unfolding h2_def building_def execs_snoc by (simp add: landlock_of_snoc landlock_start_def)
    have run: "run_state (sandbox_confine_writes_to k dir) h =
        run_state (add_path_rule k fd dir ?writes (add_path_rule k fd ''/dev/null'' {WRITE_FILE} (restrict_self_to k fd))) h2"
      using created by (simp add: sandbox_confine_writes_to_def run_simps Let_def abi_def [symmetric] h1_def [symmetric]
          fd_def [symmetric] h2_def [symmetric] del: append_assoc)
    have known: "(Landlock_Version, abi) \<in> set h2"
      by (simp add: h2_def h1_def)
    show ?thesis
    proof (rule add_path_rule_cases [OF fresh b2])
      fix h3
      assume r3: "run_state (add_path_rule k fd dir ?writes (add_path_rule k fd ''/dev/null'' {WRITE_FILE} (restrict_self_to k fd))) h2 =
          run_state (add_path_rule k fd ''/dev/null'' {WRITE_FILE} (restrict_self_to k fd)) h3"
        and b3: "building h h3 fd ?writes ([] @ [(dir, ?writes)])" and s3: "set h2 \<subseteq> set h3"
      show ?thesis
      proof (rule add_path_rule_cases [OF fresh b3])
        fix h4
        assume r4: "run_state (add_path_rule k fd ''/dev/null'' {WRITE_FILE} (restrict_self_to k fd)) h3 = run_state (restrict_self_to k fd) h4"
          and b4: "building h h4 fd ?writes (([] @ [(dir, ?writes)]) @ [(''/dev/null'', {WRITE_FILE})])" and s4: "set h3 \<subseteq> set h4"
        show ?thesis
        proof (rule restrict_self_to_cases [OF b4])
          fix h5
          assume "run_state (restrict_self_to k fd) h4 = (0, h5)" "execs h5 = execs h" "set h4 \<subseteq> set h5"
            "landlock_of h5 = landlock_start\<lparr>no_new_privs := True,
               in_force := Some (?writes, ([] @ [(dir, ?writes)]) @ [(''/dev/null'', {WRITE_FILE})])\<rparr>"
          then show ?thesis
            using that(2) [of h5] run r3 r4 created(1) known s3 s4 by (auto simp: confined_def sandbox_of_def)
        qed (use that(1) run r3 r4 in simp)
      qed (use that(1) run r3 in simp)
    qed (use that(1) run in simp)
  qed
qed

lemma child_setup:
  "(\<exists>r h. run_state (run_tj3_child k tmpdir argv err_in err_out confine) [] = (r, h @ [(Exit 127, r)]) \<and> execs h = []) \<or>
   (\<exists>h. run_state (run_tj3_child k tmpdir argv err_in err_out confine) [] =
       run_state (if confine then do { r \<leftarrow> sandbox_confine_writes_to k tmpdir;
                                       if r \<noteq> 0 then sys k (Exit 127) else exec_or_exit k argv }
                  else exec_or_exit k argv) h \<and>
     landlock_of h = landlock_start \<and> execs h = [])"
proof (cases "k [] (Chdir tmpdir) = 0")
  case False
  then show ?thesis
    by (simp add: run_tj3_child_def run_simps execs_def)
next
  case True
  define h1 where "h1 = [(Chdir tmpdir, 0 :: int), (Open_Write ''/dev/null'', k [(Chdir tmpdir, 0)] (Open_Write ''/dev/null''))]"
  define fd where "fd = k [(Chdir tmpdir, 0)] (Open_Write ''/dev/null'')"
  define h2 where "h2 = h1 @ [(Dup2 fd 1, k h1 (Dup2 fd 1))]"
  define h3 where "h3 = (if 0 \<le> fd then h2 @ [(Close fd, k h2 (Close fd))] else h1)"
  define h4 where "h4 = h3 @ [(Dup2 err_out 2, k h3 (Dup2 err_out 2))]"
  define h5 where "h5 = h4 @ [(Close err_in, k h4 (Close err_in))]"
  define h6 where "h6 = h5 @ [(Close err_out, k h5 (Close err_out))]"
  have l1: "landlock_of h1 = landlock_start\<lparr>open_paths := if 0 \<le> fd then [fd \<mapsto> ''/dev/null''] else Map.empty\<rparr>" "execs h1 = []"
    unfolding h1_def by (simp_all add: landlock_of_def execs_def landlock_start_def fd_def)
  have l3: "landlock_of h3 = landlock_start" "execs h3 = []"
    unfolding h3_def h2_def by (simp_all add: landlock_of_snoc l1 landlock_start_def del: append_assoc)
  have l6: "landlock_of h6 = landlock_start" "execs h6 = []"
    unfolding h6_def h5_def h4_def by (simp_all add: landlock_of_snoc l3 landlock_start_def del: append_assoc)
  have "run_state (run_tj3_child k tmpdir argv err_in err_out confine) [] =
      run_state (if confine then do { r \<leftarrow> sandbox_confine_writes_to k tmpdir;
                                      if r \<noteq> 0 then sys k (Exit 127) else exec_or_exit k argv }
                 else exec_or_exit k argv) h6"
    by (simp add: run_tj3_child_def run_simps True h6_def h5_def h4_def h3_def h2_def h1_def fd_def del: append_assoc)
  then show ?thesis
    using l6 by blast
qed

lemma permitted_sandbox:
  "in_force s = Some (sandbox_of abi dir) \<Longrightarrow>
   permitted s right path \<longleftrightarrow>
     right \<notin> write_access_mask abi \<or> beneath dir path \<or> right = WRITE_FILE \<and> beneath ''/dev/null'' path"
  by (auto simp: permitted_def sandbox_of_def)


definition ex_kernel :: kernel where
  "ex_kernel h c = (if opens c then 1 + sum_list (map (\<lambda>(c, r). abs r) h) else if c = Landlock_Version then 4 else 0)"

lemma ex_kernel_fresh: "fresh_descriptors ex_kernel"
proof -
  have b: "0 \<le> sum_list (map (\<lambda>(c, r). abs r) h)" for h :: trace
    by (induction h) auto
  have "\<forall>fd. rulesets (landlock_of h) fd \<noteq> None \<or> open_paths (landlock_of h) fd \<noteq> None \<longrightarrow>
      fd \<le> sum_list (map (\<lambda>(c, r). abs r) h)" for h
  proof (induction h rule: rev_induct)
    case Nil
    then show ?case
      by (simp add: landlock_of_def landlock_start_def)
  next
    case (snoc x h)
    obtain c r where x: "x = (c, r)"
      by fastforce
    show ?case
      unfolding x landlock_of_snoc using snoc b [of h]
      by (cases c) (auto split: if_splits option.splits, fastforce+)
  qed
  then show ?thesis
    by (fastforce simp: fresh_descriptors_def ex_kernel_def)
qed

lemma ex_child_execs:
  "execs (snd (run_state (run_tj3_child ex_kernel ''/tmp/tj3'' [''tj3'', ''p.tjp''] 5 6 True) [])) = [Exec [''tj3'', ''p.tjp'']]"
  by code_simp


end
