(* ===== verification/Grammar_Actions.thy ===== *)
theory Grammar_Actions
  imports Lexer Calendar
begin

text \<open>
  What the generated parser does with the statements it recognises: the semantic actions of
  \<open>src/src/grammar.y\<close> and the globals they keep (the stack of tasks being parsed, the direction of the
  dependencies being read, the prefixes pending for an include), run over the derivation of a file
  in the order bison reduces it.  Nodes are objects of a heap that the stack points into while their
  bodies are being parsed; the children a node has adopted are fixed when it is finished.

  The derivation itself, the choice of the rules by the LALR tables, is data here.  It keeps of a
  statement what its actions read: an \<open>error\<close> item stands for the tokens bison discards, whose
  completed dependency lists and bodies stand before it, as bison has run their actions.
\<close>

subsection \<open>Derivations\<close>

text \<open>A declaration has its keyword, its id and its name, \<open>no_token\<close> where the rule has none.\<close>

datatype stmt =
    Project_Decl Token Token Token body
  | Sym_Decl Token Token Token body
  | Other_Decl Token Token Token body
  | Start_Stmt Token
  | End_Stmt Token
  | Prefix_Stmt prefix_kind "Token list"
  | Include_Stmt Token body
  | Deps_Stmt DepKind "dep_ref list"
  | Plain_Stmt "body list"
  | Error_Item
and dep_ref = Dep_Ref nat "Token list" body
and body = No_Body | Body "stmt list" Token

definition tok_string :: "Token \<Rightarrow> string" where
  "tok_string t = (case tk_text t of None \<Rightarrow> [] | Some s \<Rightarrow> s)"

text \<open>\<open>dep_path\<close> and \<open>prefix_path_id\<close>: the segments joined by dots.\<close>

definition path_id :: "Token list \<Rightarrow> string" where
  "path_id ts = join_with (CHR ''.'') (map tok_string ts)"

subsection \<open>The parser's globals\<close>

datatype sym = Sym nat "sym list"

record actions =
  nodes :: "tj_info list"
  root_children :: "sym list"
  g_sym_stack :: "nat list"
  g_in_include_depth :: int
  g_pending_prefixes :: prefix_set
  g_pending_dep_kind :: DepKind
  g_output :: ParseOutput

fun prefix_put :: "prefix_kind \<Rightarrow> string \<Rightarrow> prefix_set \<Rightarrow> prefix_set" where
  "prefix_put PREFIX_TASK v ps = ps\<lparr>task_prefix := Some v\<rparr>"
| "prefix_put PREFIX_ACCOUNT v ps = ps\<lparr>account_prefix := Some v\<rparr>"
| "prefix_put PREFIX_RESOURCE v ps = ps\<lparr>resource_prefix := Some v\<rparr>"
| "prefix_put PREFIX_REPORT v ps = ps\<lparr>report_prefix := Some v\<rparr>"

definition set_pending_prefix :: "prefix_kind \<Rightarrow> string \<Rightarrow> actions \<Rightarrow> actions" where
  "set_pending_prefix kind v st =
     (if 0 < g_in_include_depth st then st\<lparr>g_pending_prefixes := prefix_put kind v (g_pending_prefixes st)\<rparr> else st)"

fun sym_node :: "sym \<Rightarrow> nat" where
  "sym_node (Sym i cs) = i"

definition node_keyword :: "actions \<Rightarrow> sym \<Rightarrow> nat" where
  "node_keyword st s = keyword (nodes st ! sym_node s)"

definition output_has_project :: "actions \<Rightarrow> bool" where
  "output_has_project st = list_ex (\<lambda>s. node_keyword st s = KW_PROJECT) (root_children st)"

definition route_top_level :: "sym \<Rightarrow> actions \<Rightarrow> actions" where
  "route_top_level s st =
     (if node_keyword st s = KW_PROJECT \<and> output_has_project st then st
      else st\<lparr>root_children := root_children st @ [s]\<rparr>)"

definition SYM_STACK_MAX :: nat where
  "SYM_STACK_MAX = 128"

definition sym_stack_push :: "nat \<Rightarrow> actions \<Rightarrow> actions" where
  "sym_stack_push i st =
     (if length (g_sym_stack st) < SYM_STACK_MAX then st\<lparr>g_sym_stack := g_sym_stack st @ [i]\<rparr> else st)"

definition sym_stack_pop :: "actions \<Rightarrow> actions" where
  "sym_stack_pop st = st\<lparr>g_sym_stack := butlast (g_sym_stack st)\<rparr>"

definition sym_stack_top :: "actions \<Rightarrow> nat option" where
  "sym_stack_top st = (if g_sym_stack st = [] then None else Some (last (g_sym_stack st)))"

subsection \<open>Nodes\<close>

definition alloc_info :: "Token \<Rightarrow> Token \<Rightarrow> Token \<Rightarrow> tj_info" where
  "alloc_info kw ident nm =
     (let i = (if tk_text ident \<noteq> None then ident else kw) in
      (info tj_node_new)\<lparr>keyword := tk_kind kw, node_id := tk_text i,
        selection_range := \<lparr>range_start = tk_start i, range_end = tk_end i\<rparr>,
        node_name := (if tk_text nm \<noteq> None then tk_text nm else tk_text i),
        node_range := \<lparr>range_start = tk_start kw, range_end = zero_pos\<rparr>\<rparr>)"

definition alloc_tj_node :: "Token \<Rightarrow> Token \<Rightarrow> Token \<Rightarrow> actions \<Rightarrow> actions \<times> nat" where
  "alloc_tj_node kw ident nm st = (st\<lparr>nodes := nodes st @ [alloc_info kw ident nm]\<rparr>, length (nodes st))"

definition update_node :: "(tj_info \<Rightarrow> tj_info) \<Rightarrow> nat \<Rightarrow> actions \<Rightarrow> actions" where
  "update_node f i st = st\<lparr>nodes := (nodes st)[i := f (nodes st ! i)]\<rparr>"

definition set_range_end :: "Token \<Rightarrow> LspPos \<Rightarrow> tj_info \<Rightarrow> tj_info" where
  "set_range_end kw body_end n =
     n\<lparr>node_range := (node_range n)\<lparr>range_end :=
        (if line body_end = 0 \<and> character body_end = 0 then tk_end kw else body_end)\<rparr>\<rparr>"

definition finish_tj_node :: "nat \<Rightarrow> Token \<Rightarrow> sym list \<times> LspPos \<Rightarrow> actions \<Rightarrow> actions \<times> sym" where
  "finish_tj_node i kw b st = (update_node (set_range_end kw (snd b)) i st, Sym i (fst b))"

definition set_start_date :: "Token \<Rightarrow> tj_info \<Rightarrow> tj_info" where
  "set_start_date d n =
     (if keyword n = KW_TASK
      then (case parse_tjp_date (tk_text d) of None \<Rightarrow> n | Some t \<Rightarrow> n\<lparr>start_date := t, has_start := True\<rparr>) else n)"

definition set_end_date :: "Token \<Rightarrow> tj_info \<Rightarrow> tj_info" where
  "set_end_date d n =
     (if keyword n = KW_TASK
      then (case parse_tjp_date (tk_text d) of None \<Rightarrow> n | Some t \<Rightarrow> n\<lparr>end_date := t, has_end := True\<rparr>) else n)"

definition add_dependency :: "DepKind \<Rightarrow> nat \<Rightarrow> Token list \<Rightarrow> tj_info \<Rightarrow> tj_info" where
  "add_dependency kind bangs segs n =
     n\<lparr>dependencies := dependencies n @
        [\<lparr>dep_kind = kind, bang_count = bangs, dep_path = path_id segs,
          source_range = \<lparr>range_start = tk_start (hd segs), range_end = tk_end (last segs)\<rparr>\<rparr>]\<rparr>"

definition on_current_task :: "(tj_info \<Rightarrow> tj_info) \<Rightarrow> actions \<Rightarrow> actions" where
  "on_current_task f st = (case sym_stack_top st of None \<Rightarrow> st | Some i \<Rightarrow> update_node f i st)"

subsection \<open>The actions in the order of the reductions\<close>

fun run_stmt :: "stmt \<Rightarrow> actions \<Rightarrow> actions \<times> sym option"
  and run_items :: "stmt list \<Rightarrow> sym list \<Rightarrow> actions \<Rightarrow> actions \<times> sym list"
  and run_body :: "body \<Rightarrow> actions \<Rightarrow> actions \<times> sym list \<times> LspPos"
  and run_bodies :: "body list \<Rightarrow> actions \<Rightarrow> actions"
  and run_dep_refs :: "dep_ref list \<Rightarrow> actions \<Rightarrow> actions"
where
  "run_stmt (Project_Decl kw ident nm b) st =
     (case run_body b st of
        (st1, syms, e) \<Rightarrow>
          (case alloc_tj_node kw ident nm st1 of
             (st2, i) \<Rightarrow>
               (let st3 = update_node (set_range_end kw e) i st2 in
                (fold (\<lambda>s st. if node_keyword st s = KW_PROJECT then st else route_top_level s st) syms st3,
                 Some (Sym i [])))))"
| "run_stmt (Sym_Decl kw ident nm b) st =
     (case alloc_tj_node kw ident nm st of
        (st1, i) \<Rightarrow>
          (case run_body b (if tk_kind kw = KW_TASK then sym_stack_push i st1 else st1) of
             (st2, r) \<Rightarrow>
               map_prod id Some (finish_tj_node i kw r (if tk_kind kw = KW_TASK then sym_stack_pop st2 else st2))))"
| "run_stmt (Other_Decl kw ident nm b) st =
     (case run_body b st of
        (st1, r) \<Rightarrow>
          (case alloc_tj_node kw ident nm st1 of (st2, i) \<Rightarrow> map_prod id Some (finish_tj_node i kw r st2)))"
| "run_stmt (Start_Stmt d) st = (on_current_task (set_start_date d) st, None)"
| "run_stmt (End_Stmt d) st = (on_current_task (set_end_date d) st, None)"
| "run_stmt (Prefix_Stmt kind ts) st = (set_pending_prefix kind (path_id ts) st, None)"
| "run_stmt (Include_Stmt file b) st =
     (case run_body b (st\<lparr>g_in_include_depth := g_in_include_depth st + 1\<rparr>) of
        (st1, r) \<Rightarrow>
          (st1\<lparr>g_in_include_depth := g_in_include_depth st1 - 1,
               g_output := push_include (g_output st1) (tk_text file) (Some (g_pending_prefixes st1)),
               g_pending_prefixes := prefix_set_clear (g_pending_prefixes st1)\<rparr>, None))"
| "run_stmt (Deps_Stmt kind refs) st = (run_dep_refs refs (st\<lparr>g_pending_dep_kind := kind\<rparr>), None)"
| "run_stmt (Plain_Stmt bs) st = (run_bodies bs st, None)"
| "run_stmt Error_Item st = (st, None)"
| "run_items [] syms st = (st, syms)"
| "run_items (x # xs) syms st =
     (case run_stmt x st of
        (st1, r) \<Rightarrow> run_items xs (case r of None \<Rightarrow> syms | Some s \<Rightarrow> syms @ [s]) st1)"
| "run_body No_Body st = (st, [], zero_pos)"
| "run_body (Body xs brace) st = (case run_items xs [] st of (st1, syms) \<Rightarrow> (st1, syms, tk_end brace))"
| "run_bodies [] st = st"
| "run_bodies (b # bs) st = run_bodies bs (fst (run_body b st))"
| "run_dep_refs [] st = st"
| "run_dep_refs (Dep_Ref bangs segs b # refs) st =
     (let st1 = fst (run_body b st) in
      run_dep_refs refs (on_current_task (add_dependency (g_pending_dep_kind st1) bangs segs) st1))"

fun run_file :: "stmt list \<Rightarrow> actions \<Rightarrow> actions" where
  "run_file [] st = st"
| "run_file (x # xs) st =
     (case run_stmt x st of (st1, r) \<Rightarrow> run_file xs (case r of None \<Rightarrow> st1 | Some s \<Rightarrow> route_top_level s st1))"

text \<open>The globals \<open>parse\<close> starts with (\<open>install_parse_globals\<close>, \<open>reset_pending_include_state\<close>), and the
  tree and includes it harvests.\<close>

definition actions_start :: actions where
  "actions_start = \<lparr>nodes = [], root_children = [], g_sym_stack = [], g_in_include_depth = 0,
     g_pending_prefixes = no_prefixes, g_pending_dep_kind = DEP_KIND_DEPENDS,
     g_output = \<lparr>po_root = tj_node_new, po_tok_spans = [], po_num_sem_entries = 0, po_tok_owners = [], po_includes = []\<rparr>\<rparr>"

fun build_node :: "tj_info list \<Rightarrow> sym \<Rightarrow> tj_node" where
  "build_node h (Sym i cs) = TjNode (h ! i) (map (build_node h) cs)"

definition run_actions :: "stmt list \<Rightarrow> tj_node \<times> IncludeRef list" where
  "run_actions xs =
     (let st = run_file xs actions_start in
      (TjNode (info tj_node_new) (map (build_node (nodes st)) (root_children st)), po_includes (g_output st)))"

subsection \<open>What the actions are for\<close>

text \<open>Dates and dependencies belong to the innermost task around them: what the statements of a body do to
  the task the body is part of.\<close>

fun task_effects :: "stmt \<Rightarrow> (tj_info \<Rightarrow> tj_info) list"
  and ref_effects :: "DepKind \<Rightarrow> dep_ref \<Rightarrow> (tj_info \<Rightarrow> tj_info) list"
  and body_effects :: "body \<Rightarrow> (tj_info \<Rightarrow> tj_info) list"
where
  "task_effects (Project_Decl kw ident nm b) = body_effects b"
| "task_effects (Sym_Decl kw ident nm b) = (if tk_kind kw = KW_TASK then [] else body_effects b)"
| "task_effects (Other_Decl kw ident nm b) = body_effects b"
| "task_effects (Start_Stmt d) = [set_start_date d]"
| "task_effects (End_Stmt d) = [set_end_date d]"
| "task_effects (Prefix_Stmt kind ts) = []"
| "task_effects (Include_Stmt file b) = body_effects b"
| "task_effects (Deps_Stmt kind refs) = concat (map (ref_effects kind) refs)"
| "task_effects (Plain_Stmt bs) = concat (map body_effects bs)"
| "task_effects Error_Item = []"
| "ref_effects kind (Dep_Ref bangs segs b) = body_effects b @ [add_dependency kind bangs segs]"
| "body_effects No_Body = []"
| "body_effects (Body xs brace) = concat (map task_effects xs)"

definition body_end :: "body \<Rightarrow> LspPos" where
  "body_end b = (case b of No_Body \<Rightarrow> zero_pos | Body xs brace \<Rightarrow> tk_end brace)"

definition declared_info :: "Token \<Rightarrow> Token \<Rightarrow> Token \<Rightarrow> body \<Rightarrow> (tj_info \<Rightarrow> tj_info) list \<Rightarrow> tj_info" where
  "declared_info kw ident nm b effs = set_range_end kw (body_end b) (fold id effs (alloc_info kw ident nm))"

text \<open>The declaration a statement is, and those of a body; a project has no children of its own.\<close>

fun declares :: "stmt \<Rightarrow> tj_node list" and body_declarations :: "body \<Rightarrow> tj_node list" where
  "declares (Project_Decl kw ident nm b) = [TjNode (declared_info kw ident nm b []) []]"
| "declares (Sym_Decl kw ident nm b) =
     [TjNode (declared_info kw ident nm b (if tk_kind kw = KW_TASK then body_effects b else [])) (body_declarations b)]"
| "declares (Other_Decl kw ident nm b) = [TjNode (declared_info kw ident nm b []) (body_declarations b)]"
| "declares (Start_Stmt d) = []"
| "declares (End_Stmt d) = []"
| "declares (Prefix_Stmt kind ts) = []"
| "declares (Include_Stmt file b) = []"
| "declares (Deps_Stmt kind refs) = []"
| "declares (Plain_Stmt bs) = []"
| "declares Error_Item = []"
| "body_declarations No_Body = []"
| "body_declarations (Body xs brace) = concat (map declares xs)"

definition is_project_node :: "tj_node \<Rightarrow> bool" where
  "is_project_node t \<longleftrightarrow> keyword (info t) = KW_PROJECT"

text \<open>The declarations in the bodies of projects, wherever the projects are, are the file's.\<close>

fun hoisted :: "stmt \<Rightarrow> tj_node list" and ref_hoisted :: "dep_ref \<Rightarrow> tj_node list" and body_hoisted :: "body \<Rightarrow> tj_node list" where
  "hoisted (Project_Decl kw ident nm b) = body_hoisted b @ filter (\<lambda>t. \<not> is_project_node t) (body_declarations b)"
| "hoisted (Sym_Decl kw ident nm b) = body_hoisted b"
| "hoisted (Other_Decl kw ident nm b) = body_hoisted b"
| "hoisted (Start_Stmt d) = []"
| "hoisted (End_Stmt d) = []"
| "hoisted (Prefix_Stmt kind ts) = []"
| "hoisted (Include_Stmt file b) = body_hoisted b"
| "hoisted (Deps_Stmt kind refs) = concat (map ref_hoisted refs)"
| "hoisted (Plain_Stmt bs) = concat (map body_hoisted bs)"
| "hoisted Error_Item = []"
| "ref_hoisted (Dep_Ref bangs segs b) = body_hoisted b"
| "body_hoisted No_Body = []"
| "body_hoisted (Body xs brace) = concat (map hoisted xs)"

text \<open>A file has one project; another one is dropped.\<close>

definition admit :: "tj_node \<Rightarrow> tj_node list \<Rightarrow> tj_node list" where
  "admit t ts = (if is_project_node t \<and> list_ex is_project_node ts then ts else ts @ [t])"

definition file_declarations :: "stmt list \<Rightarrow> tj_node list" where
  "file_declarations xs = fold admit (concat (map (\<lambda>x. hoisted x @ declares x) xs)) []"

text \<open>Derivations whose tasks nest at most as deep as the stack, and in which the bodies of dependencies have
  no dependencies of their own.\<close>

fun no_deps :: "stmt \<Rightarrow> bool" and body_no_deps :: "body \<Rightarrow> bool" where
  "no_deps (Project_Decl kw ident nm b) = body_no_deps b"
| "no_deps (Sym_Decl kw ident nm b) = body_no_deps b"
| "no_deps (Other_Decl kw ident nm b) = body_no_deps b"
| "no_deps (Include_Stmt file b) = body_no_deps b"
| "no_deps (Deps_Stmt kind refs) = False"
| "no_deps (Plain_Stmt bs) = list_all body_no_deps bs"
| "no_deps _ = True"
| "body_no_deps No_Body = True"
| "body_no_deps (Body xs brace) = list_all no_deps xs"

fun regular :: "nat \<Rightarrow> stmt \<Rightarrow> bool" and ref_regular :: "nat \<Rightarrow> dep_ref \<Rightarrow> bool" and body_regular :: "nat \<Rightarrow> body \<Rightarrow> bool" where
  "regular n (Project_Decl kw ident nm b) = body_regular n b"
| "regular n (Sym_Decl kw ident nm b) =
     (if tk_kind kw = KW_TASK then 0 < n \<and> body_regular (n - 1) b else body_regular n b)"
| "regular n (Other_Decl kw ident nm b) = body_regular n b"
| "regular n (Include_Stmt file b) = body_regular n b"
| "regular n (Deps_Stmt kind refs) = list_all (ref_regular n) refs"
| "regular n (Plain_Stmt bs) = list_all (body_regular n) bs"
| "regular n _ = True"
| "ref_regular n (Dep_Ref bangs segs b) = (body_no_deps b \<and> body_regular n b)"
| "body_regular n No_Body = True"
| "body_regular n (Body xs brace) = list_all (regular n) xs"

text \<open>Prefixes belong to the include whose body they are in, wherever in the body they are.\<close>

fun stmt_prefixes :: "stmt \<Rightarrow> (prefix_kind \<times> string) list"
  and ref_prefixes :: "dep_ref \<Rightarrow> (prefix_kind \<times> string) list"
  and body_prefixes :: "body \<Rightarrow> (prefix_kind \<times> string) list"
where
  "stmt_prefixes (Project_Decl kw ident nm b) = body_prefixes b"
| "stmt_prefixes (Sym_Decl kw ident nm b) = body_prefixes b"
| "stmt_prefixes (Other_Decl kw ident nm b) = body_prefixes b"
| "stmt_prefixes (Prefix_Stmt kind ts) = [(kind, path_id ts)]"
| "stmt_prefixes (Include_Stmt q b) = body_prefixes b"
| "stmt_prefixes (Deps_Stmt kind refs) = concat (map ref_prefixes refs)"
| "stmt_prefixes (Plain_Stmt bs) = concat (map body_prefixes bs)"
| "stmt_prefixes _ = []"
| "ref_prefixes (Dep_Ref bangs segs b) = body_prefixes b"
| "body_prefixes No_Body = []"
| "body_prefixes (Body xs brace) = concat (map stmt_prefixes xs)"

definition unquoted :: "string \<Rightarrow> string" where
  "unquoted q = (if 2 \<le> length q \<and> (hd q = CHR 0x22 \<or> hd q = CHR 0x27) then take (length q - 2) (tl q) else q)"

definition include_ref :: "Token \<Rightarrow> prefix_set \<Rightarrow> IncludeRef list" where
  "include_ref q ps =
     (case tk_text q of None \<Rightarrow> [] | Some t \<Rightarrow> [\<lparr>inc_filename = unquoted t, inc_prefixes = ps\<rparr>])"

definition put_prefixes :: "(prefix_kind \<times> string) list \<Rightarrow> prefix_set \<Rightarrow> prefix_set" where
  "put_prefixes = fold (\<lambda>(k, v). prefix_put k v)"

fun stmt_includes :: "stmt \<Rightarrow> IncludeRef list"
  and ref_includes :: "dep_ref \<Rightarrow> IncludeRef list"
  and body_includes :: "body \<Rightarrow> IncludeRef list"
where
  "stmt_includes (Project_Decl kw ident nm b) = body_includes b"
| "stmt_includes (Sym_Decl kw ident nm b) = body_includes b"
| "stmt_includes (Other_Decl kw ident nm b) = body_includes b"
| "stmt_includes (Include_Stmt q b) = include_ref q (put_prefixes (body_prefixes b) no_prefixes)"
| "stmt_includes (Deps_Stmt kind refs) = concat (map ref_includes refs)"
| "stmt_includes (Plain_Stmt bs) = concat (map body_includes bs)"
| "stmt_includes _ = []"
| "ref_includes (Dep_Ref bangs segs b) = body_includes b"
| "body_includes No_Body = []"
| "body_includes (Body xs brace) = concat (map stmt_includes xs)"

text \<open>Derivations in which the bodies of includes have no includes: none at all, or none inside one.\<close>

fun no_includes :: "stmt \<Rightarrow> bool" and ref_no_includes :: "dep_ref \<Rightarrow> bool" and body_no_includes :: "body \<Rightarrow> bool" where
  "no_includes (Project_Decl kw ident nm b) = body_no_includes b"
| "no_includes (Sym_Decl kw ident nm b) = body_no_includes b"
| "no_includes (Other_Decl kw ident nm b) = body_no_includes b"
| "no_includes (Include_Stmt q b) = False"
| "no_includes (Deps_Stmt kind refs) = list_all ref_no_includes refs"
| "no_includes (Plain_Stmt bs) = list_all body_no_includes bs"
| "no_includes _ = True"
| "ref_no_includes (Dep_Ref bangs segs b) = body_no_includes b"
| "body_no_includes No_Body = True"
| "body_no_includes (Body xs brace) = list_all no_includes xs"

fun flat_includes :: "stmt \<Rightarrow> bool" and ref_flat :: "dep_ref \<Rightarrow> bool" and body_flat :: "body \<Rightarrow> bool" where
  "flat_includes (Project_Decl kw ident nm b) = body_flat b"
| "flat_includes (Sym_Decl kw ident nm b) = body_flat b"
| "flat_includes (Other_Decl kw ident nm b) = body_flat b"
| "flat_includes (Include_Stmt q b) = body_no_includes b"
| "flat_includes (Deps_Stmt kind refs) = list_all ref_flat refs"
| "flat_includes (Plain_Stmt bs) = list_all body_flat bs"
| "flat_includes _ = True"
| "ref_flat (Dep_Ref bangs segs b) = body_flat b"
| "body_flat No_Body = True"
| "body_flat (Body xs brace) = list_all flat_includes xs"

text \<open>The tokens that give declarations their places, in source order.\<close>

fun placed_tokens :: "stmt \<Rightarrow> Token list" and ref_tokens :: "dep_ref \<Rightarrow> Token list" and body_tokens :: "body \<Rightarrow> Token list" where
  "placed_tokens (Project_Decl kw ident nm b) = kw # body_tokens b"
| "placed_tokens (Sym_Decl kw ident nm b) = kw # body_tokens b"
| "placed_tokens (Other_Decl kw ident nm b) = kw # body_tokens b"
| "placed_tokens (Include_Stmt q b) = body_tokens b"
| "placed_tokens (Deps_Stmt kind refs) = concat (map ref_tokens refs)"
| "placed_tokens (Plain_Stmt bs) = concat (map body_tokens bs)"
| "placed_tokens _ = []"
| "ref_tokens (Dep_Ref bangs segs b) = body_tokens b"
| "body_tokens No_Body = []"
| "body_tokens (Body xs brace) = concat (map placed_tokens xs) @ [brace]"

definition tokens_in_order :: "Token list \<Rightarrow> bool" where
  "tokens_in_order ts \<longleftrightarrow>
     sorted_wrt (\<lambda>a b. tk_end a \<le> tk_start b) ts \<and> (\<forall>t \<in> set ts. tk_start t \<le> tk_end t)"

end
