(* ===== verification/Grammar_Refine.thy ===== *)
theory Grammar_Refine
  imports Grammar_Actions
begin

text \<open>
  The actions of the grammar build the declarations of the derivation: the heap, the stack of open
  tasks and the arrays of children against the tree read off the derivation.
\<close>

subsection \<open>The heap while nodes are open\<close>

fun sym_nodes :: "sym \<Rightarrow> nat set" where
  "sym_nodes (Sym i cs) = insert i (\<Union>c \<in> set cs. sym_nodes c)"

lemma build_node_cong:
  "(\<And>i. i \<in> sym_nodes s \<Longrightarrow> h i = h' i) \<Longrightarrow> h = (!) a \<Longrightarrow> h' = (!) b \<Longrightarrow> build_node a s = build_node b s"
proof (induction s)
  case (Sym i cs)
  have "build_node a c = build_node b c" if "c \<in> set cs" for c
    using Sym.IH [OF that] Sym.prems that by auto
  then show ?case
    using Sym.prems by auto
qed

lemma build_node_agree: "(\<And>i. i \<in> sym_nodes s \<Longrightarrow> a ! i = b ! i) \<Longrightarrow> build_node a s = build_node b s"
  by (rule build_node_cong [OF _ refl refl])

text \<open>A heap agrees with a state on the nodes that are no longer open.\<close>

definition agrees :: "tj_info list \<Rightarrow> actions \<Rightarrow> bool" where
  "agrees h st \<longleftrightarrow> (\<forall>i < length (nodes st). i \<notin> set (g_sym_stack st) \<longrightarrow> h ! i = nodes st ! i)"

definition closed_roots :: "actions \<Rightarrow> bool" where
  "closed_roots st \<longleftrightarrow>
     (\<forall>s \<in> set (root_children st). sym_nodes s \<subseteq> {..<length (nodes st)} - set (g_sym_stack st))"

definition well_stacked :: "actions \<Rightarrow> bool" where
  "well_stacked st \<longleftrightarrow> set (g_sym_stack st) \<subseteq> {..<length (nodes st)} \<and> closed_roots st"

definition stepped :: "(tj_info \<Rightarrow> tj_info) list \<Rightarrow> actions \<Rightarrow> actions \<Rightarrow> bool" where
  "stepped effs a b \<longleftrightarrow>
     g_sym_stack b = g_sym_stack a \<and> length (nodes a) \<le> length (nodes b) \<and>
     (\<forall>i < length (nodes a). nodes b ! i = (if sym_stack_top a = Some i then fold id effs (nodes a ! i) else nodes a ! i))"

definition routed :: "tj_node list \<Rightarrow> actions \<Rightarrow> actions \<Rightarrow> bool" where
  "routed ts a b \<longleftrightarrow>
     closed_roots b \<and>
     (\<forall>s \<in> set (root_children b). s \<in> set (root_children a) \<or> sym_nodes s \<subseteq> {length (nodes a)..<length (nodes b)}) \<and>
     (\<forall>h. agrees h b \<longrightarrow> map (build_node h) (root_children b) = fold admit ts (map (build_node h) (root_children a)))"

definition syms_made :: "sym list \<Rightarrow> tj_node list \<Rightarrow> actions \<Rightarrow> actions \<Rightarrow> bool" where
  "syms_made syms ts a b \<longleftrightarrow>
     (\<forall>s \<in> set syms. sym_nodes s \<subseteq> {length (nodes a)..<length (nodes b)}) \<and>
     (\<forall>h. (\<forall>i \<in> {length (nodes a)..<length (nodes b)}. h ! i = nodes b ! i) \<longrightarrow> map (build_node h) syms = ts)"

text \<open>A piece of the derivation: what it does to the open task, to the roots, and what it gives.\<close>

definition runs_as ::
  "(tj_info \<Rightarrow> tj_info) list \<Rightarrow> tj_node list \<Rightarrow> sym list \<Rightarrow> tj_node list \<Rightarrow> actions \<Rightarrow> actions \<Rightarrow> bool" where
  "runs_as effs hs syms ts a b \<longleftrightarrow> stepped effs a b \<and> routed hs a b \<and> syms_made syms ts a b"

lemma top_in_stack: "sym_stack_top st = Some i \<Longrightarrow> i \<in> set (g_sym_stack st)"
  by (auto simp: sym_stack_top_def split: if_splits)

lemma top_cong: "g_sym_stack b = g_sym_stack a \<Longrightarrow> sym_stack_top b = sym_stack_top a"
  by (simp add: sym_stack_top_def)

lemma stepped_trans: "stepped e1 a b \<Longrightarrow> stepped e2 b c \<Longrightarrow> stepped (e1 @ e2) a c"
  unfolding stepped_def using top_cong [of b a] by auto

lemma stepped_agrees: "stepped effs a b \<Longrightarrow> agrees h b \<Longrightarrow> agrees h a"
  using top_in_stack by (fastforce simp: stepped_def agrees_def)

lemma stepped_well: "stepped effs a b \<Longrightarrow> routed ts a b \<Longrightarrow> well_stacked a \<Longrightarrow> well_stacked b"
  by (auto simp: stepped_def routed_def well_stacked_def)

lemma routed_trans:
  assumes "routed t1 a b" and "stepped e1 a b" and "stepped e2 b c" and "routed t2 b c"
  shows "routed (t1 @ t2) a c"
proof -
  have len: "length (nodes a) \<le> length (nodes b)" "length (nodes b) \<le> length (nodes c)"
    using assms(2,3) by (simp_all add: stepped_def)
  have "s \<in> set (root_children a) \<or> sym_nodes s \<subseteq> {length (nodes a)..<length (nodes c)}" if "s \<in> set (root_children c)" for s
  proof -
    have "s \<in> set (root_children a) \<or> sym_nodes s \<subseteq> {length (nodes a)..<length (nodes b)}
        \<or> sym_nodes s \<subseteq> {length (nodes b)..<length (nodes c)}"
      using assms(1,4) that unfolding routed_def by blast
    then show ?thesis
      using len by (meson atLeastLessThan_subset_iff le_refl order_trans ivl_subset)
  qed
  then show ?thesis
    using assms(1,4) stepped_agrees [OF assms(3)] by (simp add: routed_def)
qed

lemma syms_made_trans:
  assumes well: "well_stacked a" and s1: "stepped e1 a b" and m1: "syms_made syms1 ts1 a b"
    and s2: "stepped e2 b c" and m2: "syms_made syms2 ts2 b c"
  shows "syms_made (syms1 @ syms2) (ts1 @ ts2) a c"
proof -
  have len: "length (nodes a) \<le> length (nodes b)" "length (nodes b) \<le> length (nodes c)"
    using s1 s2 by (simp_all add: stepped_def)
  have kept: "nodes c ! i = nodes b ! i" if "length (nodes a) \<le> i" "i < length (nodes b)" for i
  proof -
    have "sym_stack_top b \<noteq> Some i"
      using top_in_stack [of b i] well s1 that(1) by (auto simp: well_stacked_def stepped_def)
    then show ?thesis
      using s2 that(2) by (simp add: stepped_def)
  qed
  show ?thesis
    unfolding syms_made_def
  proof (intro conjI ballI allI impI)
    fix s
    assume "s \<in> set (syms1 @ syms2)"
    then show "sym_nodes s \<subseteq> {length (nodes a)..<length (nodes c)}"
      using m1 m2 len by (fastforce simp: syms_made_def)
  next
    fix h
    assume "\<forall>i \<in> {length (nodes a)..<length (nodes c)}. h ! i = nodes c ! i"
    then have "\<forall>i \<in> {length (nodes a)..<length (nodes b)}. h ! i = nodes b ! i"
      "\<forall>i \<in> {length (nodes b)..<length (nodes c)}. h ! i = nodes c ! i"
      using len kept by simp_all
    then show "map (build_node h) (syms1 @ syms2) = ts1 @ ts2"
      using m1 m2 by (simp add: syms_made_def)
  qed
qed

lemma runs_as_trans:
  "well_stacked a \<Longrightarrow> runs_as e1 h1 s1 t1 a b \<Longrightarrow> runs_as e2 h2 s2 t2 b c \<Longrightarrow>
   runs_as (e1 @ e2) (h1 @ h2) (s1 @ s2) (t1 @ t2) a c"
  unfolding runs_as_def using stepped_trans routed_trans syms_made_trans by meson

lemma runs_as_well: "runs_as e h s t a b \<Longrightarrow> well_stacked a \<Longrightarrow> well_stacked b"
  unfolding runs_as_def using stepped_well by blast

lemma runs_as_stack: "runs_as e h s t a b \<Longrightarrow> g_sym_stack b = g_sym_stack a"
  by (simp add: runs_as_def stepped_def)

lemma runs_as_same:
  assumes "well_stacked a" and "nodes b = nodes a" "root_children b = root_children a" "g_sym_stack b = g_sym_stack a"
  shows "runs_as [] [] [] [] a b"
  using assms by (simp add: runs_as_def stepped_def routed_def syms_made_def well_stacked_def closed_roots_def)

text \<open>Globals that the tree does not depend on may be set before or after.\<close>

definition same_tree :: "actions \<Rightarrow> actions \<Rightarrow> bool" where
  "same_tree a b \<longleftrightarrow> nodes b = nodes a \<and> root_children b = root_children a \<and> g_sym_stack b = g_sym_stack a"

lemma runs_as_same_tree:
  assumes "same_tree a a'" and "same_tree b b'" and "runs_as e h s t a b"
  shows "runs_as e h s t a' b'"
proof -
  have "sym_stack_top a' = sym_stack_top a"
    using assms(1) by (simp add: same_tree_def sym_stack_top_def)
  then show ?thesis
    using assms unfolding runs_as_def stepped_def routed_def syms_made_def same_tree_def closed_roots_def agrees_def
    by (elim conjE) (simp only: simp_thms)
qed

lemma well_same_tree: "same_tree a b \<Longrightarrow> well_stacked a \<Longrightarrow> well_stacked b"
  by (simp add: same_tree_def well_stacked_def closed_roots_def)

lemma closed_roots_update: "closed_roots (update_node f i st) = closed_roots st"
  by (simp add: closed_roots_def update_node_def)

lemma current_task_runs:
  assumes "well_stacked st"
  shows "runs_as [f] [] [] [] st (on_current_task f st)"
proof (cases "sym_stack_top st")
  case None
  then show ?thesis
    using assms by (simp add: on_current_task_def runs_as_def stepped_def routed_def syms_made_def well_stacked_def)
next
  case (Some i)
  have i: "i < length (nodes st)" "i \<in> set (g_sym_stack st)"
    using top_in_stack [OF Some] assms by (auto simp: well_stacked_def)
  show ?thesis
    using assms i
    by (auto simp: on_current_task_def Some runs_as_def stepped_def routed_def syms_made_def well_stacked_def update_node_def
        closed_roots_def nth_list_update)
qed

subsection \<open>Declarations\<close>

text \<open>A node made after its children.\<close>

lemma new_node_runs:
  assumes well: "well_stacked a" and runs: "runs_as e h syms ts a b"
    and nodes: "nodes c = nodes b @ [n]" and same: "root_children c = root_children b" "g_sym_stack c = g_sym_stack b"
  shows "runs_as e h [Sym (length (nodes b)) syms] [TjNode n ts] a c"
proof -
  have len: "length (nodes a) \<le> length (nodes b)"
    using runs by (simp add: runs_as_def stepped_def)
  have "stepped e a c"
    using runs nodes same by (auto simp: runs_as_def stepped_def nth_append)
  moreover have "routed h a c"
    unfolding routed_def
  proof (intro conjI allI impI ballI)
    show "closed_roots c"
      using runs nodes same by (fastforce simp: runs_as_def routed_def closed_roots_def)
    show "s \<in> set (root_children a) \<or> sym_nodes s \<subseteq> {length (nodes a)..<length (nodes c)}" if "s \<in> set (root_children c)" for s
      using runs nodes same(1) that by (fastforce simp: runs_as_def routed_def)
    fix g
    assume "agrees g c"
    then have "agrees g b"
      using nodes same by (auto simp: agrees_def nth_append)
    then show "map (build_node g) (root_children c) = fold admit h (map (build_node g) (root_children a))"
      using runs same by (simp add: runs_as_def routed_def)
  qed
  moreover have "syms_made [Sym (length (nodes b)) syms] [TjNode n ts] a c"
    unfolding syms_made_def
  proof (intro conjI ballI allI impI)
    fix s
    assume "s \<in> set [Sym (length (nodes b)) syms]"
    then show "sym_nodes s \<subseteq> {length (nodes a)..<length (nodes c)}"
      using runs len nodes by (fastforce simp: runs_as_def syms_made_def)
  next
    fix g
    assume g: "\<forall>i \<in> {length (nodes a)..<length (nodes c)}. g ! i = nodes c ! i"
    then have "\<forall>i \<in> {length (nodes a)..<length (nodes b)}. g ! i = nodes b ! i" "g ! length (nodes b) = n"
      using len nodes by (auto simp: nth_append)
    then show "map (build_node g) [Sym (length (nodes b)) syms] = [TjNode n ts]"
      using runs by (simp add: runs_as_def syms_made_def)
  qed
  ultimately show ?thesis
    by (simp add: runs_as_def)
qed

text \<open>A node made before its children, on the stack of open tasks or not, and finished after them.\<close>

lemma open_node_parts:
  assumes well: "well_stacked a" and r: "routed hs a1 b" and m: "syms_made syms ts a1 b"
    and alloc: "nodes a1 = nodes a @ [n]" "root_children a1 = root_children a" "length (nodes a1) \<le> length (nodes b)"
    and stk: "set (g_sym_stack a) \<subseteq> set (g_sym_stack b)"
    and fin: "nodes c = (nodes b)[length (nodes a) := n']" "root_children c = root_children b" "g_sym_stack c = g_sym_stack a"
  shows "routed hs a c \<and> syms_made [Sym (length (nodes a)) syms] [TjNode n' ts] a c"
proof
  let ?i = "length (nodes a)"
  have old: "sym_nodes s \<subseteq> {..<?i}" if "s \<in> set (root_children a)" for s
    using well that by (auto simp: well_stacked_def closed_roots_def)
  have new: "s \<in> set (root_children a) \<or> sym_nodes s \<subseteq> {Suc ?i..<length (nodes b)}" if "s \<in> set (root_children b)" for s
    using r that alloc by (auto simp: routed_def)
  show "routed hs a c"
    unfolding routed_def
  proof (intro conjI allI impI ballI)
    show "closed_roots c"
      using r fin stk unfolding routed_def closed_roots_def by fastforce
    show "s \<in> set (root_children a) \<or> sym_nodes s \<subseteq> {?i..<length (nodes c)}" if "s \<in> set (root_children c)" for s
      using new [of s] that fin(1,2) by auto
    fix g
    assume g: "agrees g c"
    define g' where "g' = map (\<lambda>j. if j = ?i then nodes b ! ?i else g ! j) [0..<length (nodes b)]"
    have g'_nth: "g' ! j = (if j = ?i then nodes b ! ?i else g ! j)" if "j < length (nodes b)" for j
      using that by (simp add: g'_def)
    have "agrees g' b"
      using g fin stk g'_nth by (auto simp: agrees_def subset_iff)
    then have "map (build_node g') (root_children b) = fold admit hs (map (build_node g') (root_children a))"
      using r alloc(2) by (simp add: routed_def)
    moreover have "map (build_node g') (root_children a) = map (build_node g) (root_children a)"
      using old alloc by (intro map_cong refl build_node_agree) (force simp: g'_nth)
    moreover have "map (build_node g') (root_children b) = map (build_node g) (root_children b)"
    proof (intro map_cong refl build_node_agree)
      fix s j
      assume "s \<in> set (root_children b)" "j \<in> sym_nodes s"
      then have "j \<noteq> ?i" "j < length (nodes b)"
        using old [of s] new [of s] alloc by (auto dest!: subsetD)
      then show "g' ! j = g ! j"
        by (simp add: g'_nth)
    qed
    ultimately show "map (build_node g) (root_children c) = fold admit hs (map (build_node g) (root_children a))"
      by (simp add: fin(2))
  qed
  show "syms_made [Sym ?i syms] [TjNode n' ts] a c"
    unfolding syms_made_def
  proof (intro conjI ballI allI impI)
    fix s
    assume "s \<in> set [Sym ?i syms]"
    then show "sym_nodes s \<subseteq> {length (nodes a)..<length (nodes c)}"
      using m alloc(1,3) fin(1) by (fastforce simp: syms_made_def)
  next
    fix g
    assume g: "\<forall>i \<in> {length (nodes a)..<length (nodes c)}. g ! i = nodes c ! i"
    then have "\<forall>i \<in> {length (nodes a1)..<length (nodes b)}. g ! i = nodes b ! i" "g ! ?i = n'"
      using fin(1) alloc(1,3) by auto
    then show "map (build_node g) [Sym ?i syms] = [TjNode n' ts]"
      using m by (simp add: syms_made_def)
  qed
qed

lemma open_node_runs:
  assumes well: "well_stacked a" and runs: "runs_as e hs syms ts a1 b"
    and alloc: "nodes a1 = nodes a @ [n]" "root_children a1 = root_children a" "g_sym_stack a1 = g_sym_stack a"
    and fin: "nodes c = (nodes b)[length (nodes a) := f (nodes b ! length (nodes a))]"
      "root_children c = root_children b" "g_sym_stack c = g_sym_stack b"
  shows "runs_as e hs [Sym (length (nodes a)) syms] [TjNode (f n) ts] a c"
proof -
  let ?i = "length (nodes a)"
  have "?i \<notin> set (g_sym_stack a)"
    using well by (auto simp: well_stacked_def)
  then have top: "sym_stack_top a1 = sym_stack_top a" "sym_stack_top a \<noteq> Some ?i"
    using alloc(3) top_in_stack [of a ?i] by (auto simp: sym_stack_top_def)
  have b: "length (nodes a1) \<le> length (nodes b)" "g_sym_stack b = g_sym_stack a"
    "\<And>j. j < length (nodes a1) \<Longrightarrow> nodes b ! j = (if sym_stack_top a = Some j then fold id e (nodes a1 ! j) else nodes a1 ! j)"
    using runs alloc(3) top(1) by (auto simp: runs_as_def stepped_def)
  have node: "nodes b ! ?i = n"
    using b(3) [of ?i] top(2) by (simp add: alloc(1))
  have "stepped e a c"
    using b fin alloc(1) by (auto simp: stepped_def nth_append)
  moreover have "routed hs a c \<and> syms_made [Sym ?i syms] [TjNode (f n) ts] a c"
    using open_node_parts [OF well _ _ alloc(1,2) b(1), of hs syms ts c "f n"] runs b(2) fin node by (simp add: runs_as_def)
  ultimately show ?thesis
    by (simp add: runs_as_def)
qed

lemma open_task_runs:
  assumes well: "well_stacked a" and runs: "runs_as e hs syms ts a1 b"
    and alloc: "nodes a1 = nodes a @ [n]" "root_children a1 = root_children a" "g_sym_stack a1 = g_sym_stack a @ [length (nodes a)]"
    and fin: "nodes c = (nodes b)[length (nodes a) := f (nodes b ! length (nodes a))]"
      "root_children c = root_children b" "g_sym_stack c = g_sym_stack a"
  shows "runs_as [] hs [Sym (length (nodes a)) syms] [TjNode (f (fold id e n)) ts] a c"
proof -
  let ?i = "length (nodes a)"
  have b: "length (nodes a1) \<le> length (nodes b)" "g_sym_stack b = g_sym_stack a1"
    "\<And>j. j < length (nodes a1) \<Longrightarrow> nodes b ! j = (if j = ?i then fold id e (nodes a1 ! j) else nodes a1 ! j)"
    using runs alloc(3) by (auto simp: runs_as_def stepped_def sym_stack_top_def)
  have node: "nodes b ! ?i = fold id e n"
    using b(3) [of ?i] by (simp add: alloc(1))
  have "stepped [] a c"
    using b fin alloc(1) by (auto simp: stepped_def nth_append)
  moreover have "routed hs a c \<and> syms_made [Sym ?i syms] [TjNode (f (fold id e n)) ts] a c"
    using open_node_parts [OF well _ _ alloc(1,2) b(1), of hs syms ts c "f (fold id e n)"] runs b(2) alloc(3) fin node
    by (auto simp: runs_as_def)
  ultimately show ?thesis
    by (simp add: runs_as_def)
qed

subsection \<open>Routing\<close>

text \<open>A declaration made since \<open>a\<close> is added to the roots, or dropped.\<close>

lemma build_keyword: "keyword (info (build_node h s)) = keyword (h ! sym_node s)"
  by (cases s) simp

lemma node_closed: "sym_nodes s \<subseteq> X \<Longrightarrow> sym_node s \<in> X"
  by (cases s) auto

lemma project_agrees:
  assumes "agrees h st" and "sym_nodes s \<subseteq> {..<length (nodes st)} - set (g_sym_stack st)"
  shows "node_keyword st s = KW_PROJECT \<longleftrightarrow> is_project_node (build_node h s)"
  using assms node_closed [OF assms(2)] by (auto simp: node_keyword_def is_project_node_def build_keyword agrees_def)

lemma has_project_agrees:
  assumes "agrees h st" and "closed_roots st"
  shows "output_has_project st \<longleftrightarrow> list_ex is_project_node (map (build_node h) (root_children st))"
  using assms project_agrees [OF assms(1)] by (auto simp: output_has_project_def list_ex_iff closed_roots_def)

lemma route_fields [simp]:
  "nodes (route_top_level s st) = nodes st" "g_sym_stack (route_top_level s st) = g_sym_stack st"
  by (simp_all add: route_top_level_def)

lemma agrees_route [simp]: "agrees h (route_top_level s st) = agrees h st"
  by (simp add: agrees_def)

lemma fresh_closed:
  assumes "well_stacked a" and "g_sym_stack b = g_sym_stack a" and "X \<subseteq> {length (nodes a)..<length (nodes b)}"
  shows "X \<subseteq> {..<length (nodes b)} - set (g_sym_stack b)"
proof
  fix i
  assume "i \<in> X"
  then have "length (nodes a) \<le> i" "i < length (nodes b)"
    using assms(3) by auto
  then show "i \<in> {..<length (nodes b)} - set (g_sym_stack b)"
    using assms(1,2) by (auto simp: well_stacked_def)
qed

lemma route_routed:
  assumes r: "routed hs a b" and s: "sym_nodes s \<subseteq> {length (nodes a)..<length (nodes b)}"
    and well: "well_stacked a" and stk: "g_sym_stack b = g_sym_stack a"
    and t: "\<And>h. agrees h b \<Longrightarrow> build_node h s = t"
  shows "routed (hs @ [t]) a (route_top_level s b)"
proof -
  have free: "sym_nodes s \<subseteq> {..<length (nodes b)} - set (g_sym_stack b)"
    by (rule fresh_closed [OF well stk s])
  have "closed_roots b"
    using r by (simp add: routed_def)
  have "map (build_node h) (root_children (route_top_level s b)) = admit t (map (build_node h) (root_children b))"
    if "agrees h b" for h
    using project_agrees [OF that free] has_project_agrees [OF that \<open>closed_roots b\<close>] t [OF that]
    by (simp add: route_top_level_def admit_def)
  moreover have "closed_roots (route_top_level s b)"
    using \<open>closed_roots b\<close> free by (auto simp: closed_roots_def route_top_level_def)
  moreover have "x \<in> set (root_children a) \<or> sym_nodes x \<subseteq> {length (nodes a)..<length (nodes b)}"
    if "x \<in> set (root_children (route_top_level s b))" for x
    using r s that by (auto simp: routed_def route_top_level_def split: if_splits)
  ultimately show ?thesis
    using r by (simp add: routed_def)
qed

abbreviation route_declared :: "sym list \<Rightarrow> actions \<Rightarrow> actions" where
  "route_declared \<equiv> fold (\<lambda>s st. if node_keyword st s = KW_PROJECT then st else route_top_level s st)"

lemma route_declared_fields [simp]:
  "nodes (route_declared syms st) = nodes st" "g_sym_stack (route_declared syms st) = g_sym_stack st"
  by (induction syms arbitrary: st) auto

lemma route_declared_routed:
  assumes "routed hs a b" and "well_stacked a" and "g_sym_stack b = g_sym_stack a"
    and "\<forall>s \<in> set syms. sym_nodes s \<subseteq> {length (nodes a)..<length (nodes b)}"
    and "\<And>h. agrees h b \<Longrightarrow> map (build_node h) syms = ts"
  shows "routed (hs @ filter (\<lambda>t. \<not> is_project_node t) ts) a (route_declared syms b)"
  using assms
proof (induction syms arbitrary: hs b ts)
  case Nil
  have "agrees (nodes b) b"
    by (simp add: agrees_def)
  then have "ts = []"
    using Nil.prems(5) by fastforce
  then show ?case
    using Nil.prems(1) by simp
next
  case (Cons s syms)
  have ag: "agrees (nodes b) b"
    by (simp add: agrees_def)
  obtain t ts' where ts: "ts = t # ts'"
    using Cons.prems(5) [OF ag] by fastforce
  have t: "build_node h s = t" "map (build_node h) syms = ts'" if "agrees h b" for h
    using Cons.prems(5) [OF that] by (simp_all add: ts)
  have s: "sym_nodes s \<subseteq> {length (nodes a)..<length (nodes b)}"
    using Cons.prems(4) by simp
  have "sym_nodes s \<subseteq> {..<length (nodes b)} - set (g_sym_stack b)"
    by (rule fresh_closed [OF Cons.prems(2,3) s])
  then have p: "node_keyword b s = KW_PROJECT \<longleftrightarrow> is_project_node t"
    using project_agrees [OF ag] t(1) [OF ag] by simp
  show ?case
  proof (cases "is_project_node t")
    case True
    then show ?thesis
      using Cons.IH [OF Cons.prems(1-3) _ t(2)] Cons.prems(4) p by (simp add: ts)
  next
    case False
    have "routed (hs @ [t]) a (route_top_level s b)"
      by (rule route_routed [OF Cons.prems(1) s Cons.prems(2,3) t(1)])
    then show ?thesis
      using Cons.IH [of "hs @ [t]" "route_top_level s b" ts'] Cons.prems(2-4) t(2) p False by (simp add: ts)
  qed
qed

subsection \<open>Statements\<close>

text \<open>The direction of dependencies is left alone by what has none.\<close>

lemma update_fields [simp]:
  "g_pending_dep_kind (update_node f i st) = g_pending_dep_kind st"
  "g_pending_dep_kind (on_current_task f st) = g_pending_dep_kind st"
  "g_pending_dep_kind (route_top_level s st) = g_pending_dep_kind st"
  "g_pending_dep_kind (sym_stack_push i st) = g_pending_dep_kind st"
  "g_pending_dep_kind (sym_stack_pop st) = g_pending_dep_kind st"
  "g_pending_dep_kind (set_pending_prefix k v st) = g_pending_dep_kind st"
  by (simp_all add: update_node_def on_current_task_def route_top_level_def sym_stack_push_def sym_stack_pop_def
      set_pending_prefix_def split: option.splits)

lemma route_declared_kind [simp]: "g_pending_dep_kind (route_declared syms st) = g_pending_dep_kind st"
  by (induction syms arbitrary: st) auto

lemma kind_kept:
  "no_deps x \<Longrightarrow> g_pending_dep_kind (fst (run_stmt x st)) = g_pending_dep_kind st"
  "list_all no_deps xs \<Longrightarrow> g_pending_dep_kind (fst (run_items xs syms st)) = g_pending_dep_kind st"
  "body_no_deps b \<Longrightarrow> g_pending_dep_kind (fst (run_body b st)) = g_pending_dep_kind st"
  "list_all body_no_deps bs \<Longrightarrow> g_pending_dep_kind (run_bodies bs st) = g_pending_dep_kind st"
  "list_all (\<lambda>r. case r of Dep_Ref bangs segs b \<Rightarrow> body_no_deps b) refs \<Longrightarrow>
   g_pending_dep_kind (run_dep_refs refs st) = g_pending_dep_kind st"
proof (induction x st and xs syms st and b st and bs st and refs st
    rule: run_stmt_run_items_run_body_run_bodies_run_dep_refs.induct)
qed (auto simp: alloc_tj_node_def finish_tj_node_def Let_def split: prod.splits)

definition opt_list :: "'a option \<Rightarrow> 'a list" where
  "opt_list x = (case x of None \<Rightarrow> [] | Some y \<Rightarrow> [y])"

lemma opt_list_simps [simp]: "opt_list None = []" "opt_list (Some y) = [y]"
  by (simp_all add: opt_list_def)

abbreviation room :: "actions \<Rightarrow> nat" where
  "room st \<equiv> SYM_STACK_MAX - length (g_sym_stack st)"

lemma runs_as_forget: "runs_as e h s t a b \<Longrightarrow> runs_as e h [] [] a b"
  by (simp add: runs_as_def syms_made_def)

lemma runs_as_refl: "well_stacked st \<Longrightarrow> runs_as [] [] [] [] st st"
  by (rule runs_as_same) simp_all

lemma project_runs:
  assumes well: "well_stacked st" and b: "runs_as e h syms ts st st1"
  shows "runs_as e (h @ filter (\<lambda>t. \<not> is_project_node t) ts) [Sym (length (nodes st1)) []] [TjNode n []] st
    (route_declared syms (st1\<lparr>nodes := nodes st1 @ [n]\<rparr>))"
proof -
  let ?st2 = "st1\<lparr>nodes := nodes st1 @ [n]\<rparr>"
  have r: "runs_as e h [Sym (length (nodes st1)) syms] [TjNode n ts] st ?st2"
    by (rule new_node_runs [OF well b]) simp_all
  then have p: "runs_as e h [Sym (length (nodes st1)) []] [TjNode n []] st ?st2"
    using new_node_runs [OF well runs_as_forget [OF b], of ?st2 n] by simp
  have stk: "g_sym_stack ?st2 = g_sym_stack st"
    using runs_as_stack [OF r] .
  have "routed (h @ filter (\<lambda>t. \<not> is_project_node t) ts) st (route_declared syms ?st2)"
  proof (rule route_declared_routed [OF _ well stk])
    show "routed h st ?st2"
      using r by (simp add: runs_as_def)
    show syms: "\<forall>s \<in> set syms. sym_nodes s \<subseteq> {length (nodes st)..<length (nodes ?st2)}"
      using b by (fastforce simp: runs_as_def syms_made_def)
    fix g
    assume g: "agrees g ?st2"
    have "g ! i = nodes st1 ! i" if "i \<in> {length (nodes st)..<length (nodes st1)}" for i
      using g that well stk fresh_closed [OF well stk, of "{i}"] by (auto simp: agrees_def nth_append)
    then show "map (build_node g) syms = ts"
      using b by (simp add: runs_as_def syms_made_def)
  qed
  then show ?thesis
    using p by (simp add: runs_as_def stepped_def syms_made_def)
qed

lemma actions_run:
  "well_stacked st \<Longrightarrow> regular (room st) x \<Longrightarrow>
   runs_as (task_effects x) (hoisted x) (opt_list (snd (run_stmt x st))) (declares x) st (fst (run_stmt x st))"
  "well_stacked st \<Longrightarrow> list_all (regular (room st)) xs \<Longrightarrow>
   \<exists>new. snd (run_items xs syms st) = syms @ new \<and>
     runs_as (concat (map task_effects xs)) (concat (map hoisted xs)) new (concat (map declares xs)) st (fst (run_items xs syms st))"
  "well_stacked st \<Longrightarrow> body_regular (room st) b \<Longrightarrow>
   runs_as (body_effects b) (body_hoisted b) (fst (snd (run_body b st))) (body_declarations b) st (fst (run_body b st)) \<and>
   snd (snd (run_body b st)) = body_end b"
  "well_stacked st \<Longrightarrow> list_all (body_regular (room st)) bs \<Longrightarrow>
   runs_as (concat (map body_effects bs)) (concat (map body_hoisted bs)) [] [] st (run_bodies bs st)"
  "well_stacked st \<Longrightarrow> list_all (ref_regular (room st)) refs \<Longrightarrow>
   runs_as (concat (map (ref_effects (g_pending_dep_kind st)) refs)) (concat (map ref_hoisted refs)) [] [] st (run_dep_refs refs st)"
proof (induction x st and xs syms st and b st and bs st and refs st
    rule: run_stmt_run_items_run_body_run_bodies_run_dep_refs.induct)
  case (1 kw ident nm b st)
  obtain st1 syms where run: "run_body b st = (st1, syms, body_end b)"
    and b: "runs_as (body_effects b) (body_hoisted b) syms (body_declarations b) st st1"
    using 1 by (cases "run_body b st") auto
  show ?case
    using project_runs [OF 1(2) b, of "set_range_end kw (body_end b) (alloc_info kw ident nm)"]
    by (simp add: run alloc_tj_node_def update_node_def Let_def declared_info_def)
next
  case (2 kw ident nm b st)
  let ?n = "alloc_info kw ident nm" and ?i = "length (nodes st)"
  let ?st1 = "st\<lparr>nodes := nodes st @ [?n]\<rparr>"
  have alloc: "alloc_tj_node kw ident nm st = (?st1, ?i)"
    by (simp add: alloc_tj_node_def)
  show ?case
  proof (cases "tk_kind kw = KW_TASK")
    case True
    let ?st2 = "?st1\<lparr>g_sym_stack := g_sym_stack st @ [?i]\<rparr>"
    have reg: "0 < room st" "body_regular (room st - 1) b"
      using 2(3) True by simp_all
    then have push: "sym_stack_push ?i ?st1 = ?st2"
      by (simp add: sym_stack_push_def)
    have well: "well_stacked ?st2"
      using 2(2) by (force simp: well_stacked_def closed_roots_def)
    have "room ?st2 = room st - 1"
      by simp
    with 2(1) [OF alloc [symmetric]] reg well True push
    have IH: "runs_as (body_effects b) (body_hoisted b) (fst (snd (run_body b ?st2))) (body_declarations b) ?st2 (fst (run_body b ?st2))"
      "snd (snd (run_body b ?st2)) = body_end b"
      by simp_all
    obtain st3 syms where run: "run_body b ?st2 = (st3, syms, body_end b)"
      using IH(2) by (cases "run_body b ?st2") auto
    have r: "runs_as (body_effects b) (body_hoisted b) syms (body_declarations b) ?st2 st3"
      using IH(1) by (simp add: run)
    have stk: "g_sym_stack st3 = g_sym_stack st @ [?i]"
      using runs_as_stack [OF r] by simp
    let ?st4 = "fst (finish_tj_node ?i kw (syms, body_end b) (sym_stack_pop st3))"
    have "runs_as [] (body_hoisted b) [Sym ?i syms]
        [TjNode (set_range_end kw (body_end b) (fold id (body_effects b) ?n)) (body_declarations b)] st ?st4"
      by (rule open_task_runs [OF 2(2) r])
        (simp_all add: finish_tj_node_def update_node_def sym_stack_pop_def stk)
    then show ?thesis
      by (simp add: alloc push True run declared_info_def finish_tj_node_def)
  next
    case False
    have well: "well_stacked ?st1"
      using 2(2) by (force simp: well_stacked_def closed_roots_def)
    with 2(1) [OF alloc [symmetric]] 2(3) False
    have IH: "runs_as (body_effects b) (body_hoisted b) (fst (snd (run_body b ?st1))) (body_declarations b) ?st1 (fst (run_body b ?st1))"
      "snd (snd (run_body b ?st1)) = body_end b"
      by simp_all
    obtain st3 syms where run: "run_body b ?st1 = (st3, syms, body_end b)"
      using IH(2) by (cases "run_body b ?st1") auto
    have r: "runs_as (body_effects b) (body_hoisted b) syms (body_declarations b) ?st1 st3"
      using IH(1) by (simp add: run)
    let ?st4 = "fst (finish_tj_node ?i kw (syms, body_end b) st3)"
    have "runs_as (body_effects b) (body_hoisted b) [Sym ?i syms]
        [TjNode (set_range_end kw (body_end b) ?n) (body_declarations b)] st ?st4"
      by (rule open_node_runs [OF 2(2) r]) (simp_all add: finish_tj_node_def update_node_def)
    then show ?thesis
      by (simp add: alloc False run declared_info_def finish_tj_node_def)
  qed
next
  case (3 kw ident nm b st)
  obtain st1 syms where run: "run_body b st = (st1, syms, body_end b)"
    and b: "runs_as (body_effects b) (body_hoisted b) syms (body_declarations b) st st1"
    using 3 by (cases "run_body b st") auto
  show ?case
    using new_node_runs [OF 3(2) b, of "st1\<lparr>nodes := nodes st1 @ [declared_info kw ident nm b []]\<rparr>"]
    by (simp add: run alloc_tj_node_def finish_tj_node_def update_node_def declared_info_def)
next
  case (4 d st)
  then show ?case
    using current_task_runs by simp
next
  case (5 d st)
  then show ?case
    using current_task_runs by simp
next
  case (6 kind ts st)
  then show ?case
    using runs_as_same [of st "set_pending_prefix kind (path_id ts) st"] by (simp add: set_pending_prefix_def)
next
  case (7 q b st)
  let ?st0 = "st\<lparr>g_in_include_depth := g_in_include_depth st + 1\<rparr>"
  have "well_stacked ?st0"
    using 7(2) by (simp add: well_stacked_def closed_roots_def)
  then have "runs_as (body_effects b) (body_hoisted b) [] [] ?st0 (fst (run_body b ?st0))"
    using 7 by (auto intro: runs_as_forget)
  then show ?case
    using runs_as_same_tree [of ?st0 st "fst (run_body b ?st0)" "fst (run_stmt (Include_Stmt q b) st)"]
    by (auto simp: same_tree_def split: prod.splits)
next
  case (8 kind refs st)
  let ?st0 = "st\<lparr>g_pending_dep_kind := kind\<rparr>"
  have "well_stacked ?st0"
    using 8(2) by (simp add: well_stacked_def closed_roots_def)
  then show ?case
    using 8 runs_as_same_tree [of ?st0 st "run_dep_refs refs ?st0" "run_dep_refs refs ?st0"]
    by (simp add: same_tree_def)
next
  case (9 bs st)
  then show ?case
    by simp
next
  case (10 st)
  then show ?case
    using runs_as_refl by simp
next
  case (11 syms st)
  then show ?case
    using runs_as_refl by simp
next
  case (12 x xs syms st)
  obtain st1 r where run: "run_stmt x st = (st1, r)"
    by fastforce
  have x: "runs_as (task_effects x) (hoisted x) (opt_list r) (declares x) st st1"
    using 12(1,3,4) by (simp add: run)
  have "list_all (regular (room st1)) xs"
    using 12(4) runs_as_stack [OF x] by simp
  then obtain new where new: "snd (run_items xs (syms @ opt_list r) st1) = (syms @ opt_list r) @ new"
    "runs_as (concat (map task_effects xs)) (concat (map hoisted xs)) new (concat (map declares xs)) st1
       (fst (run_items xs (syms @ opt_list r) st1))"
    using 12(2) [OF run [symmetric] runs_as_well [OF x 12(3)]] by (auto simp: opt_list_def split: option.splits)
  have "run_items (x # xs) syms st = run_items xs (syms @ opt_list r) st1"
    by (simp add: run opt_list_def split: option.splits)
  then show ?case
    using new(1) runs_as_trans [OF 12(3) x new(2)] by auto
next
  case (13 st)
  then show ?case
    using runs_as_refl by (simp add: body_end_def)
next
  case (14 xs brace st)
  then show ?case
    by (fastforce simp: body_end_def split: prod.splits)
next
  case (15 st)
  then show ?case
    using runs_as_refl by simp
next
  case (16 b bs st)
  let ?st1 = "fst (run_body b st)"
  have b: "runs_as (body_effects b) (body_hoisted b) [] [] st ?st1"
    using 16(1,3,4) by (auto intro: runs_as_forget)
  have "list_all (body_regular (room ?st1)) bs"
    using 16(4) runs_as_stack [OF b] by simp
  then have "runs_as (concat (map body_effects bs)) (concat (map body_hoisted bs)) [] [] ?st1 (run_bodies bs ?st1)"
    by (rule 16(2) [OF runs_as_well [OF b 16(3)]])
  then show ?case
    using runs_as_trans [OF 16(3) b] by fastforce
next
  case (17 st)
  then show ?case
    using runs_as_refl by simp
next
  case (18 bangs segs b refs st)
  let ?st1 = "fst (run_body b st)" and ?k = "g_pending_dep_kind st"
  let ?st2 = "on_current_task (add_dependency ?k bangs segs) ?st1"
  have reg: "body_no_deps b" "body_regular (room st) b" "list_all (ref_regular (room st)) refs"
    using 18(4) by simp_all
  have kind: "g_pending_dep_kind ?st1 = ?k"
    by (rule kind_kept(3) [OF reg(1)])
  have b: "runs_as (body_effects b) (body_hoisted b) [] [] st ?st1"
    using 18(1) [OF 18(3) reg(2)] by (auto intro: runs_as_forget)
  have d: "runs_as (body_effects b @ [add_dependency ?k bangs segs]) (body_hoisted b @ []) ([] @ []) ([] @ []) st ?st2"
    by (rule runs_as_trans [OF 18(3) b current_task_runs [OF runs_as_well [OF b 18(3)]]])
  have "list_all (ref_regular (room ?st2)) refs"
    using reg(3) runs_as_stack [OF d] by simp
  then have "runs_as (concat (map (ref_effects ?k) refs)) (concat (map ref_hoisted refs)) [] [] ?st2 (run_dep_refs refs ?st2)"
    using 18(2) [OF refl] runs_as_well [OF d 18(3)] by (simp add: kind)
  then show ?case
    using runs_as_trans [OF 18(3) d] by (fastforce simp: Let_def kind)
qed

subsection \<open>Files\<close>

lemma file_step:
  assumes well: "well_stacked st" and x: "runs_as e h (opt_list r) ts st st1"
  shows "runs_as e (h @ ts) [] [] st (case r of None \<Rightarrow> st1 | Some s \<Rightarrow> route_top_level s st1)"
proof (cases r)
  case None
  have "map (build_node (nodes st1)) (opt_list r) = ts"
    using x by (simp add: runs_as_def syms_made_def)
  then have "ts = []"
    by (simp add: None)
  then show ?thesis
    using runs_as_forget [OF x] by (simp add: None)
next
  case (Some s)
  have m: "syms_made [s] ts st st1" "routed h st st1"
    using x by (simp_all add: runs_as_def Some)
  obtain t where t: "ts = [t]"
    using m(1) by (auto simp: syms_made_def)
  have s: "sym_nodes s \<subseteq> {length (nodes st)..<length (nodes st1)}"
    using m(1) by (simp add: syms_made_def)
  have stk: "g_sym_stack st1 = g_sym_stack st"
    by (rule runs_as_stack [OF x])
  have "routed (h @ [t]) st (route_top_level s st1)"
  proof (rule route_routed [OF m(2) s well stk])
    fix g
    assume g: "agrees g st1"
    have "g ! i = nodes st1 ! i" if "i \<in> {length (nodes st)..<length (nodes st1)}" for i
      using g that fresh_closed [OF well stk, of "{i}"] by (auto simp: agrees_def)
    then show "build_node g s = t"
      using m(1) by (simp add: syms_made_def t)
  qed
  then show ?thesis
    using x by (simp add: runs_as_def stepped_def syms_made_def Some t)
qed

lemma file_runs:
  "well_stacked st \<Longrightarrow> list_all (regular (room st)) xs \<Longrightarrow>
   \<exists>e. runs_as e (concat (map (\<lambda>x. hoisted x @ declares x) xs)) [] [] st (run_file xs st)"
proof (induction xs arbitrary: st)
  case Nil
  then show ?case
    using runs_as_refl by auto
next
  case (Cons x xs)
  obtain st1 r where run: "run_stmt x st = (st1, r)"
    by fastforce
  let ?st2 = "case r of None \<Rightarrow> st1 | Some s \<Rightarrow> route_top_level s st1"
  have "runs_as (task_effects x) (hoisted x) (opt_list r) (declares x) st st1"
    using actions_run(1) [OF Cons.prems(1), of x] Cons.prems(2) by (simp add: run)
  then have x: "runs_as (task_effects x) (hoisted x @ declares x) [] [] st ?st2"
    by (rule file_step [OF Cons.prems(1)])
  have "list_all (regular (room ?st2)) xs"
    using Cons.prems(2) runs_as_stack [OF x] by simp
  then obtain e where "runs_as e (concat (map (\<lambda>x. hoisted x @ declares x) xs)) [] [] ?st2 (run_file xs ?st2)"
    using Cons.IH [OF runs_as_well [OF x Cons.prems(1)]] by blast
  from runs_as_trans [OF Cons.prems(1) x this] show ?case
    by (auto simp: run)
qed

lemma run_actions_root:
  assumes "list_all (regular SYM_STACK_MAX) xs"
  shows "children (fst (run_actions xs)) = file_declarations xs"
proof -
  have "well_stacked actions_start"
    by (simp add: well_stacked_def closed_roots_def actions_start_def)
  then obtain e where "runs_as e (concat (map (\<lambda>x. hoisted x @ declares x) xs)) [] [] actions_start (run_file xs actions_start)"
    using file_runs [of actions_start xs] assms by (auto simp: actions_start_def)
  moreover have "agrees (nodes (run_file xs actions_start)) (run_file xs actions_start)"
    by (simp add: agrees_def)
  ultimately show ?thesis
    by (simp add: runs_as_def routed_def run_actions_def Let_def file_declarations_def actions_start_def)
qed

subsection \<open>Includes\<close>

definition include_state :: "actions \<Rightarrow> int \<times> prefix_set \<times> IncludeRef list" where
  "include_state st = (g_in_include_depth st, g_pending_prefixes st, po_includes (g_output st))"

lemma include_state_kept [simp]:
  "include_state (update_node f i st) = include_state st"
  "include_state (on_current_task f st) = include_state st"
  "include_state (route_top_level s st) = include_state st"
  "include_state (sym_stack_push i st) = include_state st"
  "include_state (sym_stack_pop st) = include_state st"
  "include_state (st\<lparr>nodes := h\<rparr>) = include_state st"
  "include_state (st\<lparr>g_pending_dep_kind := k\<rparr>) = include_state st"
  by (simp_all add: include_state_def update_node_def on_current_task_def route_top_level_def sym_stack_push_def
      sym_stack_pop_def alloc_tj_node_def finish_tj_node_def split: option.splits)

lemma include_state_route [simp]: "include_state (route_declared syms st) = include_state st"
  by (induction syms arbitrary: st) auto

lemma put_prefixes_append: "put_prefixes (xs @ ys) ps = put_prefixes ys (put_prefixes xs ps)"
  by (simp add: put_prefixes_def)

lemma put_prefixes_Nil [simp]: "put_prefixes [] ps = ps"
  by (simp add: put_prefixes_def)

text \<open>Within an include's body: the prefixes pile up.\<close>

lemma include_body_prefixes:
  "no_includes x \<Longrightarrow> include_state st = (1, ps, is) \<Longrightarrow>
   include_state (fst (run_stmt x st)) = (1, put_prefixes (stmt_prefixes x) ps, is)"
  "list_all no_includes xs \<Longrightarrow> include_state st = (1, ps, is) \<Longrightarrow>
   include_state (fst (run_items xs syms st)) = (1, put_prefixes (concat (map stmt_prefixes xs)) ps, is)"
  "body_no_includes b \<Longrightarrow> include_state st = (1, ps, is) \<Longrightarrow>
   include_state (fst (run_body b st)) = (1, put_prefixes (body_prefixes b) ps, is)"
  "list_all body_no_includes bs \<Longrightarrow> include_state st = (1, ps, is) \<Longrightarrow>
   include_state (run_bodies bs st) = (1, put_prefixes (concat (map body_prefixes bs)) ps, is)"
  "list_all ref_no_includes refs \<Longrightarrow> include_state st = (1, ps, is) \<Longrightarrow>
   include_state (run_dep_refs refs st) = (1, put_prefixes (concat (map ref_prefixes refs)) ps, is)"
proof (induction x st and xs syms st and b st and bs st and refs st arbitrary: ps and ps and ps and ps and ps
    rule: run_stmt_run_items_run_body_run_bodies_run_dep_refs.induct)
  case (6 kind ts st)
  then show ?case
    by (simp add: include_state_def set_pending_prefix_def put_prefixes_def)
qed (auto simp: alloc_tj_node_def finish_tj_node_def Let_def put_prefixes_append split: prod.splits)

lemma prefix_set_facts [simp]:
  "prefix_set_copy no_prefixes (Some ps) = ps" "prefix_set_clear ps = no_prefixes"
  by (cases ps; simp add: prefix_set_copy_def prefix_get_def no_prefixes_def prefix_set_clear_def)+

lemma push_include_ref: "po_includes (push_include po (tk_text q) (Some ps)) = po_includes po @ include_ref q ps"
  by (simp add: push_include_def include_ref_def unquoted_def split: option.splits)

lemma include_stmt_run:
  assumes "body_no_includes b" and "include_state st = (0, no_prefixes, is)"
  shows "include_state (fst (run_stmt (Include_Stmt q b) st)) = (0, no_prefixes, is @ stmt_includes (Include_Stmt q b))"
proof -
  have "include_state (st\<lparr>g_in_include_depth := g_in_include_depth st + 1\<rparr>) = (1, no_prefixes, is)"
    using assms(2) by (simp add: include_state_def)
  from include_body_prefixes(3) [OF assms(1) this] show ?thesis
    by (auto simp: include_state_def push_include_ref split: prod.splits)
qed

text \<open>Outside of one: every include statement adds its directive.\<close>

lemma includes_run:
  "flat_includes x \<Longrightarrow> include_state st = (0, no_prefixes, is) \<Longrightarrow>
   include_state (fst (run_stmt x st)) = (0, no_prefixes, is @ stmt_includes x)"
  "list_all flat_includes xs \<Longrightarrow> include_state st = (0, no_prefixes, is) \<Longrightarrow>
   include_state (fst (run_items xs syms st)) = (0, no_prefixes, is @ concat (map stmt_includes xs))"
  "body_flat b \<Longrightarrow> include_state st = (0, no_prefixes, is) \<Longrightarrow>
   include_state (fst (run_body b st)) = (0, no_prefixes, is @ body_includes b)"
  "list_all body_flat bs \<Longrightarrow> include_state st = (0, no_prefixes, is) \<Longrightarrow>
   include_state (run_bodies bs st) = (0, no_prefixes, is @ concat (map body_includes bs))"
  "list_all ref_flat refs \<Longrightarrow> include_state st = (0, no_prefixes, is) \<Longrightarrow>
   include_state (run_dep_refs refs st) = (0, no_prefixes, is @ concat (map ref_includes refs))"
proof (induction x st and xs syms st and b st and bs st and refs st arbitrary: "is" and "is" and "is" and "is" and "is"
    rule: run_stmt_run_items_run_body_run_bodies_run_dep_refs.induct)
  case (6 kind ts st)
  then show ?case
    by (simp add: include_state_def set_pending_prefix_def)
next
  case (7 q b st)
  then show ?case
    using include_stmt_run by simp
qed (auto simp: alloc_tj_node_def finish_tj_node_def Let_def split: prod.splits)

lemma file_includes:
  "list_all flat_includes xs \<Longrightarrow> include_state st = (0, no_prefixes, is) \<Longrightarrow>
   include_state (run_file xs st) = (0, no_prefixes, is @ concat (map stmt_includes xs))"
proof (induction xs arbitrary: st "is")
  case (Cons x xs)
  then show ?case
    using includes_run(1) [of x st "is"] by (auto split: prod.splits option.splits)
qed simp

lemma run_actions_includes:
  "list_all flat_includes xs \<Longrightarrow> snd (run_actions xs) = concat (map stmt_includes xs)"
  using file_includes [of xs actions_start "[]"]
  by (simp add: run_actions_def Let_def include_state_def actions_start_def)

end
