(* ===== verification/Whole_Parse.thy ===== *)
theory Whole_Parse
  imports Front_End Grammar_Refine
begin

text \<open>
  \<open>parse\<close> with the actions of the grammar: from the text of a file and the derivation the generated
  parser finds for its tokens to the installed parse.
\<close>

subsection \<open>Declarations lie where their tokens are\<close>

lemma tokens_in_order_append:
  "tokens_in_order (xs @ ys) \<longleftrightarrow>
     tokens_in_order xs \<and> tokens_in_order ys \<and> (\<forall>a \<in> set xs. \<forall>b \<in> set ys. tk_end a \<le> tk_start b)"
  by (auto simp: tokens_in_order_def sorted_wrt_append)

lemma tokens_in_order_Cons:
  "tokens_in_order (x # ys) \<longleftrightarrow> tk_start x \<le> tk_end x \<and> tokens_in_order ys \<and> (\<forall>b \<in> set ys. tk_end x \<le> tk_start b)"
  by (auto simp: tokens_in_order_def)

text \<open>A declaration starts where one of the tokens does and ends where one does.\<close>

definition placed_at :: "Token list \<Rightarrow> tj_node \<Rightarrow> bool" where
  "placed_at ts n \<longleftrightarrow>
     ordered_node n \<and> node_start n \<in> tk_start ` set ts \<and> range_end (node_range (info n)) \<in> tk_end ` set ts"

definition row_placed :: "Token list \<Rightarrow> tj_node list \<Rightarrow> bool" where
  "row_placed ts ns \<longleftrightarrow> (\<forall>n \<in> set ns. placed_at ts n) \<and> sorted (map node_start ns)"

lemma placed_mono: "set ts \<subseteq> set ts' \<Longrightarrow> placed_at ts n \<Longrightarrow> placed_at ts' n"
  by (auto simp: placed_at_def)

lemma row_placed_append:
  assumes "tokens_in_order (ts @ us)" and "row_placed ts ns" and "row_placed us ms"
  shows "row_placed (ts @ us) (ns @ ms)"
proof -
  have before: "node_start n \<le> node_start m" if nm: "n \<in> set ns" "m \<in> set ms" for n m
  proof -
    obtain a where a: "a \<in> set ts" "node_start n = tk_start a"
      using assms(2) nm(1) by (auto simp: row_placed_def placed_at_def)
    obtain b where b: "b \<in> set us" "node_start m = tk_start b"
      using assms(3) nm(2) by (auto simp: row_placed_def placed_at_def)
    have "tk_start a \<le> tk_end a"
      using assms(1) a(1) by (simp add: tokens_in_order_def)
    moreover have "tk_end a \<le> tk_start b"
      using assms(1) a(1) b(1) by (simp add: tokens_in_order_append)
    ultimately show ?thesis
      using a(2) b(2) by simp
  qed
  have "sorted (map node_start (ns @ ms))"
    using assms(2,3) before by (auto simp: row_placed_def sorted_append)
  moreover have "placed_at (ts @ us) n" if "n \<in> set (ns @ ms)" for n
    using assms(2,3) that placed_mono [of ts "ts @ us" n] placed_mono [of us "ts @ us" n]
    by (auto simp: row_placed_def)
  ultimately show ?thesis
    by (simp add: row_placed_def)
qed

lemma row_placed_concat:
  "tokens_in_order (concat (map f xs)) \<Longrightarrow> (\<And>x. x \<in> set xs \<Longrightarrow> tokens_in_order (f x) \<Longrightarrow> row_placed (f x) (g x)) \<Longrightarrow>
   row_placed (concat (map f xs)) (concat (map g xs))"
proof (induction xs)
  case (Cons x xs)
  then show ?case
    using row_placed_append [of "f x" "concat (map f xs)" "g x" "concat (map g xs)"] by (simp add: tokens_in_order_append)
qed (simp add: row_placed_def)

abbreviation keep_range :: "(tj_info \<Rightarrow> tj_info) list \<Rightarrow> bool" where
  "keep_range effs \<equiv> \<forall>f \<in> set effs. \<forall>n. node_range (f n) = node_range n"

lemma fold_keep_range: "keep_range effs \<Longrightarrow> node_range (fold id effs n) = node_range n"
  by (induction effs arbitrary: n) auto

lemma effects_range:
  "keep_range (task_effects x)" "keep_range (ref_effects k r)" "keep_range (body_effects b)"
proof (induction x and k r and b rule: task_effects_ref_effects_body_effects.induct)
qed (auto simp: set_start_date_def set_end_date_def add_dependency_def split: option.splits if_splits)

lemma declared_range:
  assumes "keep_range effs"
  shows "node_range (declared_info kwd ident nm b effs) =
    \<lparr>range_start = tk_start kwd,
     range_end = (if line (body_end b) = 0 \<and> character (body_end b) = 0 then tk_end kwd else body_end b)\<rparr>"
  using fold_keep_range [OF assms] by (simp add: declared_info_def set_range_end_def alloc_info_def Let_def)

lemma tokens_in_order_concat: "tokens_in_order (concat (map f xs)) \<Longrightarrow> x \<in> set xs \<Longrightarrow> tokens_in_order (f x)"
  by (induction xs) (auto simp: tokens_in_order_append)

lemma body_tokens_end:
  "tokens_in_order (body_tokens (Body xs brace)) \<Longrightarrow> t \<in> set (body_tokens (Body xs brace)) \<Longrightarrow> tk_end t \<le> tk_end brace"
  by (fastforce simp: tokens_in_order_append tokens_in_order_Cons intro: order_trans)

lemma zero_pos_least [simp]: "zero_pos \<le> p"
  by (cases p) (simp add: zero_pos_def less_eq_LspPos_def word_gt_0)

lemma declared_placed:
  assumes order: "tokens_in_order (kwd # body_tokens b)" and row: "row_placed (body_tokens b) ns"
    and effs: "keep_range effs" and none: "b = No_Body \<Longrightarrow> ns = []"
  shows "placed_at (kwd # body_tokens b) (TjNode (declared_info kwd ident nm b effs) ns)"
proof -
  let ?e = "if line (body_end b) = 0 \<and> character (body_end b) = 0 then tk_end kwd else body_end b"
  have r: "node_range (declared_info kwd ident nm b effs) = \<lparr>range_start = tk_start kwd, range_end = ?e\<rparr>"
    by (rule declared_range [OF effs])
  have inside: "range_end (node_range (info n)) \<le> ?e" if n: "n \<in> set ns" for n
  proof (cases b)
    case No_Body
    then show ?thesis
      using none n by simp
  next
    case (Body xs brace)
    have "tokens_in_order (body_tokens b)"
      using order by (simp add: tokens_in_order_Cons)
    moreover obtain t where t: "t \<in> set (body_tokens b)" "range_end (node_range (info n)) = tk_end t"
      using row n by (auto simp: row_placed_def placed_at_def)
    ultimately have "range_end (node_range (info n)) \<le> body_end b"
      using body_tokens_end [of xs brace t] by (simp add: Body body_end_def del: body_tokens.simps)
    moreover have "body_end b \<le> ?e"
      using zero_pos_least [of "tk_end kwd"] by (cases "body_end b") (simp add: zero_pos_def)
    ultimately show ?thesis
      by order
  qed
  have "?e \<in> tk_end ` set (kwd # body_tokens b)"
    by (cases b) (simp_all add: body_end_def zero_pos_def)
  then show ?thesis
    using row inside by (auto simp: placed_at_def row_placed_def r)
qed

lemma declares_placed:
  "tokens_in_order (placed_tokens x) \<Longrightarrow> row_placed (placed_tokens x) (declares x)"
  "tokens_in_order (body_tokens b) \<Longrightarrow> row_placed (body_tokens b) (body_declarations b)"
proof (induction x and b rule: declares_body_declarations.induct)
  case (1 kwd ident nm b)
  then show ?case
    using declared_placed [of kwd b "[]" "[]" ident nm] by (simp add: row_placed_def)
next
  case (2 kwd ident nm b)
  let ?effs = "if tk_kind kwd = KW_TASK then body_effects b else []"
  have "row_placed (body_tokens b) (body_declarations b)"
    using 2 by (simp add: tokens_in_order_Cons)
  moreover have "keep_range ?effs"
    using effects_range(3) [of b] by auto
  ultimately show ?case
    using declared_placed [of kwd b "body_declarations b" ?effs ident nm] 2(2) by (simp add: row_placed_def)
next
  case (3 kwd ident nm b)
  then show ?case
    using declared_placed [of kwd b "body_declarations b" "[]" ident nm] by (simp add: row_placed_def tokens_in_order_Cons)
next
  case (12 xs brace)
  have "row_placed (concat (map placed_tokens xs)) (concat (map declares xs))"
    using 12 by (intro row_placed_concat) (simp_all add: tokens_in_order_append)
  moreover have "row_placed [brace] []"
    by (simp add: row_placed_def)
  ultimately show ?case
    using row_placed_append [of "concat (map placed_tokens xs)" "[brace]" "concat (map declares xs)" "[]"] 12(2) by simp
qed (simp_all add: row_placed_def)

lemma hoisted_ordered:
  "tokens_in_order (placed_tokens x) \<Longrightarrow> n \<in> set (hoisted x) \<Longrightarrow> ordered_node n"
  "tokens_in_order (ref_tokens r) \<Longrightarrow> n \<in> set (ref_hoisted r) \<Longrightarrow> ordered_node n"
  "tokens_in_order (body_tokens b) \<Longrightarrow> n \<in> set (body_hoisted b) \<Longrightarrow> ordered_node n"
proof (induction x and r and b rule: hoisted_ref_hoisted_body_hoisted.induct)
  case (1 kwd ident nm b)
  then show ?case
    using declares_placed(2) [of b] by (auto simp: tokens_in_order_Cons row_placed_def placed_at_def)
qed (use tokens_in_order_concat in \<open>fastforce simp: tokens_in_order_Cons tokens_in_order_append\<close>)+

lemma fold_admit_subset: "set (fold admit ts acc) \<subseteq> set ts \<union> set acc"
proof (induction ts arbitrary: acc)
  case (Cons t ts)
  have "set (admit t acc) \<subseteq> insert t (set acc)"
    by (auto simp: admit_def)
  then show ?case
    using Cons.IH [of "admit t acc"] by auto
qed simp

lemma file_declarations_ordered:
  assumes "tokens_in_order (concat (map placed_tokens xs))"
  shows "list_all ordered_node (file_declarations xs)"
proof -
  have "ordered_node n" if "x \<in> set xs" "n \<in> set (hoisted x) \<union> set (declares x)" for x n
  proof -
    have "tokens_in_order (placed_tokens x)"
      using assms that(1) by (rule tokens_in_order_concat)
    then show ?thesis
      using that(2) hoisted_ordered(1) declares_placed(1) [of x] by (auto simp: row_placed_def placed_at_def)
  qed
  then show ?thesis
    using fold_admit_subset [of "concat (map (\<lambda>x. hoisted x @ declares x) xs)" "[]"]
    by (auto simp: file_declarations_def list_all_iff)
qed

subsection \<open>From the text to the installed parse\<close>

text \<open>The generated parser, by what it decides: how many tokens it asks for and the derivation it finds.\<close>

definition grammar_parser :: "((nat \<Rightarrow> nat \<times> Token) \<Rightarrow> nat) \<Rightarrow> ((nat \<Rightarrow> nat \<times> Token) \<Rightarrow> stmt list) \<Rightarrow> yyparser" where
  "grammar_parser calls derive ts = (calls ts, run_actions (derive ts))"

text \<open>C6: For every text below two gigabytes and whatever derivation the LALR tables find for its tokens, as
  long as its tokens are in source order, its tasks nest at most 128 deep, and neither the bodies of
  includes nor those of dependencies have more of the same: the parse holds, in source order, exactly
  the declarations of the derivation, those in project blocks among them and one project at most,
  every task with the dates and dependencies that stand in it and not in a task inside it; exactly
  its includes, each with the prefixes of its own body; and tokens in order, owned by the innermost
  declarations around them.\<close>

theorem parse_builds_declarations:
  assumes "length (c_str src) < 2 ^ 31 - 1" and "sorts_nodes qsort"
    and "list_all (regular SYM_STACK_MAX) (derive (token_stream src))"
    and "list_all flat_includes (derive (token_stream src))"
    and "tokens_in_order (concat (map placed_tokens (derive (token_stream src))))"
  shows "let xs = derive (token_stream src); po = parse qsort (grammar_parser calls derive) src in
    mset (children (po_root po)) = mset (file_declarations xs) \<and>
    sorted (map node_start (children (po_root po))) \<and>
    po_includes po = concat (map stmt_includes xs) \<and>
    sorted_wrt (\<lambda>a b. tok_end a \<le> tok_start b) (po_tok_spans po) \<and>
    po_tok_owners po =
      map (\<lambda>t. map_option st_path (innermost (tok_start t) None
             (build_owner_scope (po_root po) (find_project (po_root po))))) (po_tok_spans po) \<and>
    int (length (compute_semantic_tokens_data (po_tok_spans po))) \<le> 5 * po_num_sem_entries po"
proof -
  let ?y = "grammar_parser calls derive" and ?xs = "derive (token_stream src)"
  have root: "children (built_root ?y src) = file_declarations ?xs"
    using run_actions_root [OF assms(3)] by (simp add: built_root_def grammar_parser_def)
  have "list_all ordered_node (children (built_root ?y src))"
    unfolding root by (rule file_declarations_ordered [OF assms(5)])
  moreover have "po_includes (parse qsort ?y src) = concat (map stmt_includes ?xs)"
    using run_actions_includes [OF assms(4)]
    by (cases "run_actions ?xs") (simp add: parse_def grammar_parser_def Let_def)
  ultimately show ?thesis
    using parse_well_formed [OF assms(1,2), of ?y] unfolding Let_def root by blast
qed

definition file_tok :: "nat \<Rightarrow> u32 \<Rightarrow> u32 \<Rightarrow> u32 \<Rightarrow> string \<Rightarrow> Token" where
  "file_tok k l c e s = \<lparr>tk_kind = k, tk_start = LspPos l c, tk_end = LspPos l e, tk_text = Some s\<rparr>"

definition ex_file :: "stmt list" where
  "ex_file =
     [Project_Decl (file_tok KW_PROJECT 0 0 7 ''project'') (file_tok TK_IDENT 0 8 9 ''p'') (file_tok TK_STR 0 10 13 ''P'')
        (Body
          [Sym_Decl (file_tok KW_TASK 1 0 4 ''task'') (file_tok TK_IDENT 1 5 6 ''a'') (file_tok TK_STR 1 7 10 ''A'')
             (Body [Deps_Stmt DEP_KIND_PRECEDES [Dep_Ref 1 [file_tok TK_IDENT 2 10 11 ''b'', file_tok TK_IDENT 2 12 13 ''c''] No_Body],
                    Sym_Decl (file_tok KW_RESOURCE 3 0 8 ''resource'') no_token (file_tok TK_STR 3 9 12 ''R'') No_Body]
                   (file_tok TK_RBRACE 4 0 1 [CHR 0x7D]))]
          (file_tok TK_RBRACE 5 0 1 [CHR 0x7D])),
      Include_Stmt (file_tok TK_STR 6 8 15 [CHR 0x22, CHR ''b'', CHR 0x22])
        (Body [Prefix_Stmt PREFIX_TASK [file_tok TK_IDENT 6 29 30 ''a'']] (file_tok TK_RBRACE 6 31 32 [CHR 0x7D]))]"

lemma ex_file_regular:
  "list_all (regular SYM_STACK_MAX) ex_file" "list_all flat_includes ex_file"
  by code_simp+

lemma ex_file_tokens: "tokens_in_order (concat (map placed_tokens ex_file))"
  by code_simp

definition ex_outline :: "tj_node \<Rightarrow> nat \<times> string option \<times> string list \<times> nat list" where
  "ex_outline n = (keyword (info n), node_id (info n), map dep_path (dependencies (info n)), map (\<lambda>c. keyword (info c)) (children n))"

lemma ex_file_built:
  "map ex_outline (file_declarations ex_file) =
     [(KW_TASK, Some ''a'', [''b.c''], [KW_RESOURCE]), (KW_PROJECT, Some ''p'', [], [])]"
  "concat (map stmt_includes ex_file) = [\<lparr>inc_filename = ''b'', inc_prefixes = no_prefixes\<lparr>task_prefix := Some ''a''\<rparr>\<rparr>]"
  by code_simp+

theorem parse_builds_declarations_witness:
  "image_mset ex_outline (mset (children (po_root (parse some_qsort (grammar_parser (\<lambda>_. 1) (\<lambda>_. ex_file)) comment_text)))) =
     {#(KW_TASK, Some ''a'', [''b.c''], [KW_RESOURCE]), (KW_PROJECT, Some ''p'', [], [])#} \<and>
   po_includes (parse some_qsort (grammar_parser (\<lambda>_. 1) (\<lambda>_. ex_file)) comment_text) =
     [\<lparr>inc_filename = ''b'', inc_prefixes = no_prefixes\<lparr>task_prefix := Some ''a''\<rparr>\<rparr>]"
proof -
  have q: "sorts_nodes some_qsort"
    using sorted_sort_key [of node_start] by (simp add: sorts_nodes_def some_qsort_def compare_node_starts_def sorted_map)
  let ?po = "parse some_qsort (grammar_parser (\<lambda>_. 1) (\<lambda>_. ex_file)) comment_text"
  have "mset (children (po_root ?po)) = mset (file_declarations ex_file)" "po_includes ?po = concat (map stmt_includes ex_file)"
    using parse_builds_declarations [OF comment_text_fits(1) q, of "\<lambda>_. ex_file" "\<lambda>_. 1"] ex_file_regular ex_file_tokens
    unfolding Let_def by blast+
  then show ?thesis
    using ex_file_built by (simp flip: mset_map)
qed

subsection \<open>What the premises leave out\<close>

text \<open>Beyond 128 nested tasks a push is ignored but its pop is not, so the task around is lost while its body
  goes on.\<close>

lemma full_stack_loses_task:
  "length (g_sym_stack st) = SYM_STACK_MAX \<Longrightarrow>
   g_sym_stack (sym_stack_pop (sym_stack_push i st)) = butlast (g_sym_stack st)"
  by (simp add: sym_stack_pop_def sym_stack_push_def)

text \<open>The comments of \<open>grammar.y\<close> hold nested lists of dependencies for impossible and nested includes for
  harmless.  The grammar admits both: the dependency whose body has a list of the other direction is
  recorded with that direction, and the inner include takes the prefixes written before it.\<close>

lemma nested_dependency_turned:
  "map (\<lambda>n. map (\<lambda>d. (dep_kind d, dep_path d)) (dependencies (info n)))
     (children (fst (run_actions
        [Sym_Decl (file_tok KW_TASK 0 0 4 ''task'') no_token (file_tok TK_STR 0 5 8 ''A'')
           (Body [Deps_Stmt DEP_KIND_DEPENDS
                    [Dep_Ref 0 [file_tok TK_IDENT 1 8 9 ''b'']
                       (Body [Deps_Stmt DEP_KIND_PRECEDES [Dep_Ref 0 [file_tok TK_IDENT 1 21 22 ''c''] No_Body]]
                             (file_tok TK_RBRACE 1 23 24 [CHR 0x7D]))]]
                 (file_tok TK_RBRACE 2 0 1 [CHR 0x7D]))]))) =
   [[(DEP_KIND_PRECEDES, ''c''), (DEP_KIND_PRECEDES, ''b'')]]"
  by code_simp

lemma nested_include_takes_prefix:
  "map (\<lambda>r. (inc_filename r, task_prefix (inc_prefixes r)))
     (snd (run_actions
        [Include_Stmt (file_tok TK_STR 0 8 11 ''a.tji'')
           (Body [Prefix_Stmt PREFIX_TASK [file_tok TK_IDENT 1 11 12 ''t''],
                  Include_Stmt (file_tok TK_STR 2 8 11 ''b.tji'') No_Body]
                 (file_tok TK_RBRACE 3 0 1 [CHR 0x7D]))])) =
   [(''b.tji'', Some ''t''), (''a.tji'', None)]"
  by code_simp

end
