(* ===== verification/Spec2Isabelle.thy ===== *)
theory Spec2Isabelle
  imports Path_Uri Tok_Owners Myers_Delta Project_Tree Editor_Docs Job_Queue Threadpool Diag_Worker Outline
    Code_Lens Keyword_Help Completion Wire Front_End
    Arena Lifetimes Sandbox Whole_Parse
begin

text \<open>
  A model of taskjuggler-lsp, a language server for TaskJuggler 3 written in C
  (\<open>src/src/\<close>), with the theorems that say what it does.

  \<^bold>\<open>The program.\<close>  A reader thread takes LSP messages from the client and queues them as
  jobs (\<open>server.c\<close>, \<open>job_queue.c\<close>, \<open>threadpool.c\<close>).  A single coordinator thread handles the
  notifications in arrival order: they edit the document store, load included files, read
  \<open>compile_commands.json\<close> and publish a new workspace snapshot (\<open>lifecycle.c\<close>, \<open>workspace.c\<close>,
  \<open>document_store.c\<close>, \<open>compile_commands.c\<close>).  Requests get a context of the latest snapshot
  (\<open>query_context.c\<close>) and are answered by worker threads from it alone (\<open>hover.c\<close>,
  \<open>completion.c\<close>, \<open>definition.c\<close>, ...).  One diagnostics worker per project stages its files and
  runs the \<open>tj3\<close> compiler on them (\<open>diag_worker.c\<close>, \<open>tj3.c\<close>, \<open>diagnostics.c\<close>).

  \<^bold>\<open>What corresponds to what.\<close>  A struct is a record with the source's field names, an enum a
  datatype, a C function the definition of the same name (a handler's response is the value it
  would print, \<open>None\<close> being JSON null).  A pointer to a node of a declaration tree or a project
  tree is the path of child indices from the root, so \<open>parent_node\<close> is the path without its last
  index; a slot of the document store is its index.  Fixed-width integers are words where they can
  wrap (\<open>u32\<close>, \<open>u64\<close>); C ints are words or ints with the place named where they could overflow.
  A record that the code shares read-only is a value here, and the memo cells that are written
  through it are threaded explicitly; that this is sound is what \<open>Lifetimes\<close> shows of the reference
  counts and \<open>Arena\<close> of the memory under strings and nodes.  Failed
  allocations end the C program and are not modelled.

  \<^item> \<open>Prelude\<close>: the word types, the C string functions in use, a codec locale, list lemmas.
  \<^item> \<open>Path_Uri\<close> (\<open>pathutil.c\<close>): percent coding, URI conversion, lexical normalisation.  Lemmas: a
    path's URI decodes to it; normalising twice is normalising once.
  \<^item> \<open>Syntax_Tree\<close> (\<open>parser.h\<close>, \<open>parser.c\<close>): positions (a \<open>linorder\<close>), token kinds with bison's
    numbers, token spans, declarations, include prefixes, the lexer's accumulator.
  \<^item> \<open>Lexer\<close> (\<open>lexer.l\<close>): the patterns as a datatype with their language, flex's choice between the
    rules (longest match, then the earliest), the actions over the scanner's state, the end of
    input, and the wrapper \<open>yylex\<close>.  \<open>Lexer_Spans\<close>: every recorded token is a piece of the text at
    its position, the pieces in order and disjoint.  \<open>Lexer_Stream\<close>: asking for tokens comes to an
    end, and the parser gets the scanner's tokens, terminators where a statement ends, and the missing
    braces.  \<open>Front_End\<close>: \<open>parse\<close> over the scanner, and the premises on tokens of the other
    theories (order, shape, keywords) discharged for every text.
  \<^item> \<open>Grammar_Actions\<close> (\<open>grammar.y\<close>): the semantic actions over the derivation of a file, with the heap of
    nodes, the stack of open tasks and the pending prefixes, and what they are for, read off the
    derivation.  \<open>Grammar_Refine\<close>: the first gives the second.  \<open>Whole_Parse\<close>: the declarations lie in
    source order, so \<open>parse\<close> needs no premise on the tree but those on the derivation; and what happens
    outside of these (more than 128 nested tasks, nested dependency lists and includes).
  \<^item> \<open>Tok_Owners\<close> (\<open>assign_token_owners\<close>, \<open>build_owner_scope\<close>): the one-pass scope stack; it agrees
    with a reference that looks up the innermost node of every token.
  \<^item> \<open>Semantic_Tokens\<close>, \<open>Snapshot\<close>, \<open>Myers_Delta\<close> (\<open>semantic_tokens.c\<close>,
    \<open>semantic_tokens_delta.c\<close>, \<open>query_context.c\<close>): classification, relative encoding and its
    decoding, the buffer bound, the memo cell, the Myers search with its minimality, and the deltas
    as a refinement of the client's array.  The search's fuel is the code's own: distances up to
    \<open>na + nb\<close>, which always suffices.
  \<^item> \<open>Project_Tree\<close> (\<open>project_tree.c\<close>): the assembled tree, resolution of dependencies with memo
    cells, in-document references.
  \<^item> \<open>Doc_Store\<close>, \<open>Loading\<close>, \<open>Workspace\<close>, \<open>Compile_Commands\<close> (\<open>document_store.c\<close>,
    \<open>workspace.c\<close>, \<open>compile_commands.c\<close>): the 64 slots, the recursive loading of includes with its
    termination (the free slots decrease) and closure, the snapshot with its projects and
    memberships, the entries of \<open>compile_commands.json\<close>.
  \<^item> \<open>Text_Change\<close>, \<open>Lifecycle\<close>, \<open>Lifecycle_Inv\<close>, \<open>Editor_Docs\<close> (\<open>lifecycle.c\<close>): incremental
    edits, the notification handlers, the store's invariant over every sequence of them, and what
    the editor can rely on.
  \<^item> \<open>Query_Context\<close>, \<open>Job_Queue\<close>, \<open>Server\<close>, \<open>Threadpool\<close>: what a query sees, the linked
    queue as a refinement of a list with cancellation, dispatch by method, and the threads as a
    step relation \<open>pool_step\<close> with its invariant: every interleaving answers as a sequential
    server would, and shutting down drains both queues.
  \<^item> \<open>Diagnostics\<close>, \<open>Tj3\<close>, \<open>Diag_Worker\<close>: diagnostic sets and their publication, staging and
    the compiler's report, the registry of workers as a step relation with settling.
  \<^item> \<open>Cursor\<close>, \<open>Navigation\<close>, \<open>Outline\<close> (\<open>hover.c\<close>, \<open>dependency.c\<close>, \<open>definition.c\<close>,
    \<open>references.c\<close>, \<open>document_highlight.c\<close>, \<open>document_symbol.c\<close>, \<open>folding_range.c\<close>,
    \<open>workspace_symbol.c\<close>): binary searches, the requests over the project tree, the outline's JSON
    buffer, folding, workspace symbols.
  \<^item> \<open>Keyword_Stack\<close>, \<open>Keyword_Help\<close> (\<open>hover.c\<close>, \<open>signature.c\<close>): the keyword in force at the
    cursor, against a reference without a stack; documentation and signatures.  The stack's 512
    entries suffice while braces nest less than 512 deep.
  \<^item> \<open>Completion\<close> (\<open>completion.c\<close>): suppression, keyword tables, identifiers; the ids offered
    behind bangs are those that resolve.  64 bangs or more are \<open>Bang_Overflow\<close>.
  \<^item> \<open>Calendar\<close>, \<open>Code_Lens\<close> (\<open>code_lens.c\<close>, \<open>parse_tjp_date\<close>): the Gregorian calendar behind
    \<open>timegm\<close> and \<open>gmtime_r\<close>, dates read and printed, the walks over working days.
  \<^item> \<open>Wire\<close> (\<open>main.c\<close>, \<open>lsp_send_message\<close>): header lines, the length and the main loop over the bytes
    of standard input.
  \<^item> \<open>Lifetimes\<close> (\<open>query_context.c\<close>, \<open>document_store.c\<close>, \<open>workspace.c\<close>, \<open>diag_worker.c\<close>): snapshots as
    objects of a heap with their reference counts.  The counts are those of the references held, so a
    snapshot is alive exactly while someone holds it.
  \<^item> \<open>Arena\<close> (\<open>arena.c\<close>): blocks and the bump pointer.  Regions do not overlap and keep their bytes,
    for allocations below \<open>2 ^ 62\<close> bytes (beyond which the sums of \<open>size_t\<close> could wrap).
  \<^item> \<open>Sandbox\<close> (\<open>sandbox.c\<close>, the child of \<open>run_tj3\<close>): the system calls as a state monad over their trace;
    no answer of the kernel makes tj3 run unconfined when it is to be confined.

  \<^bold>\<open>Parameters.\<close>  The derivation the generated parser finds for the tokens (where it does not
  matter, the tree it makes, or the whole parse of a text), \<open>qsort\<close>, \<open>realpath\<close> and the
  file system (\<open>w_files\<close>), the \<open>tj3\<close> process (\<open>tj3_env\<close>) and the kernel under \<open>Sandbox\<close> are arguments of the definitions
  that use them; what a theorem needs of them is a premise, with a witness that it can hold.

  \<^bold>\<open>Not modelled.\<close>  The tables of the LALR parser bison generates from \<open>grammar.y\<close>: which derivation the
  tokens have, and what error recovery discards; JSON
  text other than the two hand-written printers (the array of semantic tokens and the outline), since
  yyjson prints and reads the rest; the reuse of buffers between parses (no observable effect); the
  logging; the capabilities object of \<open>initialize\<close> (a constant).
\<close>

end
